(* ===== verification/Prelude.thy ===== *)
theory Prelude
  imports "HOL-Library.Word"
begin

text \<open>
  Prelude of the mCertiKOS development: the machine-integer types of
  \<^verbatim>\<open>kern/lib/types.h\<close>, the result type in which every fallible kernel routine
  answers, the counted C loop over an \<^verbatim>\<open>unsigned int\<close>, the constants of
  \<^verbatim>\<open>kern/lib/x86.h\<close> that all layers share, and the word arithmetic the layer proofs
  rest on.
\<close>

unbundle bit_operations_syntax

section \<open>Machine integers\<close>

type_synonym u8 = "8 word"
type_synonym u16 = "16 word"
type_synonym u32 = "32 word"
type_synonym u64 = "64 word"

text \<open>A C \<^verbatim>\<open>int\<close> is kept as the same 32 bits; it is read with \<^const>\<open>sint\<close>.\<close>

type_synonym i32 = "32 word"

section \<open>Results\<close>

text \<open>
  What a kernel routine can do instead of returning: index a static array out of its bounds,
  execute \<^verbatim>\<open>KERN_PANIC\<close> or a failing \<^verbatim>\<open>KERN_ASSERT\<close>, or loop forever.
\<close>

datatype kerr = OutOfBounds | Panic | Diverges

type_synonym 'a res = "kerr + 'a"

definition rbind :: "'e + 'a \<Rightarrow> ('a \<Rightarrow> 'e + 'b) \<Rightarrow> 'e + 'b" where
  "rbind m f = (case m of Inl e \<Rightarrow> Inl e | Inr x \<Rightarrow> f x)"

lemma rbind_simps [simp]:
  "rbind (Inl e) f = Inl e"
  "rbind (Inr x) f = f x"
  by (simp_all add: rbind_def)

lemma rbind_cong [fundef_cong]:
  "m = m' \<Longrightarrow> (\<And>x. m' = Inr x \<Longrightarrow> f x = g x) \<Longrightarrow> rbind m f = rbind m' g"
  by (cases m') (simp_all add: rbind_def)

lemma rbind_eq_Inr: "rbind m f = Inr y \<longleftrightarrow> (\<exists>x. m = Inr x \<and> f x = Inr y)"
  by (cases m) simp_all

lemma rbind_eq_Inl: "rbind m f = Inl e \<longleftrightarrow> m = Inl e \<or> (\<exists>x. m = Inr x \<and> f x = Inl e)"
  by (cases m) simp_all

lemma rbind_assoc: "rbind (rbind m f) g = rbind m (\<lambda>x. rbind (f x) g)"
  by (cases m) simp_all

lemma rbind_if: "rbind (if b then m else m') f = (if b then rbind m f else rbind m' f)"
  by simp

named_theorems layer_spec \<open>equations that give the result of a layer primitive outright\<close>

section \<open>Constants of x86.h\<close>

definition PAGESIZE :: u32 where "PAGESIZE = 4096"
definition NUM_IDS :: u32 where "NUM_IDS = 64"
definition MagicNumber :: u32 where "MagicNumber = 1048577"
definition MAX_CHILDREN :: u32 where "MAX_CHILDREN = 3"

definition PTE_P :: u32 where "PTE_P = 0x001"
definition PTE_W :: u32 where "PTE_W = 0x002"
definition PTE_U :: u32 where "PTE_U = 0x004"
definition PTE_G :: u32 where "PTE_G = 0x100"
definition PTE_COW :: u32 where "PTE_COW = 0x800"

text \<open>The user half of the address space, in bytes and in pages (\<^verbatim>\<open>MATOp.c\<close>).\<close>

definition VM_USERLO :: u32 where "VM_USERLO = 0x40000000"
definition VM_USERHI :: u32 where "VM_USERHI = 0xF0000000"
definition VM_USERLO_PI :: u32 where "VM_USERLO_PI = VM_USERLO div PAGESIZE"
definition VM_USERHI_PI :: u32 where "VM_USERHI_PI = VM_USERHI div PAGESIZE"

lemma VM_PI_eq: "VM_USERLO_PI = 0x40000" "VM_USERHI_PI = 0xF0000"
  by (simp_all add: VM_USERLO_PI_def VM_USERHI_PI_def VM_USERLO_def VM_USERHI_def PAGESIZE_def)

lemmas pte_flags = PTE_P_def PTE_W_def PTE_U_def PTE_G_def PTE_COW_def

section \<open>Counted loops\<close>

lemma word_count_down: "i < b \<Longrightarrow> unat (b - (i + 1)) < unat (b - (i :: u32))"
  by unat_arith

lemma word_Suc_le: "i < b \<Longrightarrow> (i :: u32) + 1 \<le> b"
  by unat_arith

lemma unat_Suc: "i < b \<Longrightarrow> unat ((i :: u32) + 1) = Suc (unat i)"
  by unat_arith

lemma word_less_Suc: "i < b \<Longrightarrow> (j :: u32) < i + 1 \<longleftrightarrow> j < i \<or> j = i"
  by unat_arith

lemma word_Suc_le_iff: "i < b \<Longrightarrow> (i :: u32) + 1 \<le> q \<longleftrightarrow> i < q"
  by unat_arith

lemma unat_word_of_nat_le: "n \<le> unat (q :: u32) \<Longrightarrow> unat (word_of_nat n :: u32) = n"
  using unsigned_less[of q, where ?'a = nat] by (simp add: unat_of_nat)

lemma unat_u32: "n < 4294967296 \<Longrightarrow> unat (word_of_nat n :: u32) = n"
  by (simp add: unat_of_nat)

text \<open>Subtraction and addition of words that stay in range, read as natural numbers.\<close>

lemma unat_diff_less: "f < b \<Longrightarrow> unat ((b :: u32) - f) = unat b - unat f"
  by (simp add: unat_sub order_less_imp_le)

lemma word_diff_antimono: "i < i' \<Longrightarrow> i' \<le> b \<Longrightarrow> unat ((b :: u32) - i') < unat (b - i)"
  by (simp add: word_le_nat_alt word_less_nat_alt unat_sub)

lemma word_add_in_range:
  assumes "cnt \<le> b - f" "f < (b :: u32)"
  shows "f \<le> f + cnt" "f + cnt \<le> b" "unat (f + cnt) = unat f + unat cnt"
proof -
  have le: "unat f + unat cnt \<le> unat b"
    using assms by (simp add: word_le_nat_alt word_less_nat_alt unat_diff_less)
  then show eq: "unat (f + cnt) = unat f + unat cnt"
    using unsigned_less[of b, where ?'a = nat] by (simp add: unat_word_ariths)
  show "f \<le> f + cnt" "f + cnt \<le> b" using le eq by (simp_all add: word_le_nat_alt)
qed

lemma word_one_le: "0 < cnt \<Longrightarrow> (1 :: u32) \<le> cnt"
  by unat_arith

lemma word_count_both:
  assumes "e < b" "(cnt :: u32) > 0"
  shows "cnt - 1 \<le> b - (e + 1) \<longleftrightarrow> cnt \<le> b - e"
proof -
  have "1 \<le> cnt" "e + 1 \<le> b" "e \<le> b" using assms by (simp_all add: word_Suc_le word_one_le)
  then show ?thesis
    using assms by (simp add: word_le_nat_alt word_less_nat_alt unat_sub unat_Suc[OF assms(1)]) arith
qed

lemma word_diff_less: "b - f < cnt \<Longrightarrow> f < b \<Longrightarrow> unat (cnt - (b - f)) = unat (cnt :: u32) - (unat b - unat f)"
  by (simp add: unat_sub order_less_imp_le unat_diff_less)

text \<open>A C \<^verbatim>\<open>int\<close> that is not negative, and arithmetic on such values that stays in range.\<close>

lemma sint_u32_bounds: "- 2147483648 \<le> sint (a :: u32)" "sint (a :: u32) < 2147483648"
  using sint_greater_eq[of a] sint_less[of a] by simp_all

lemma sint_nonneg_uint: "0 \<le> sint (a :: u32) \<Longrightarrow> sint a = uint a"
  using sint_u32_bounds(2)[of a] by (simp add: uint_sint take_bit_int_eq_self)

lemma sint_add_range:
  "- 2147483648 \<le> sint a + sint b \<Longrightarrow> sint a + sint b < 2147483648 \<Longrightarrow>
     sint ((a :: u32) + b) = sint a + sint b"
  by (simp add: sint_word_ariths signed_take_bit_int_eq_self)

lemma sint_sub_range:
  "- 2147483648 \<le> sint a - sint b \<Longrightarrow> sint a - sint b < 2147483648 \<Longrightarrow>
     sint ((a :: u32) - b) = sint a - sint b"
  by (simp add: sint_word_ariths signed_take_bit_int_eq_self)

text \<open>\<^verbatim>\<open>for (unsigned int i = a; i < b; i++) body\<close>, for a body without early exit.\<close>

function for_u32 :: "u32 \<Rightarrow> u32 \<Rightarrow> (u32 \<Rightarrow> 's \<Rightarrow> 's res) \<Rightarrow> 's \<Rightarrow> 's res" where
  "for_u32 i b body s =
     (if i < b then rbind (body i s) (for_u32 (i + 1) b body) else Inr s)"
  by pat_completeness auto
termination
  by (relation "measure (\<lambda>(i, b, body, s). unat (b - i))") (simp_all add: word_count_down)

declare for_u32.simps [simp del]

lemma for_u32_done: "\<not> i < b \<Longrightarrow> for_u32 i b body s = Inr s"
  by (subst for_u32.simps) simp

lemma for_u32_step: "i < b \<Longrightarrow> for_u32 i b body s = rbind (body i s) (for_u32 (i + 1) b body)"
  by (subst for_u32.simps) simp

text \<open>Total correctness: a body that always returns and keeps the invariant.\<close>

lemma for_u32_rule:
  assumes init: "I a s" and le: "a \<le> b"
    and step: "\<And>i s. a \<le> i \<Longrightarrow> i < b \<Longrightarrow> I i s \<Longrightarrow> \<exists>s'. body i s = Inr s' \<and> I (i + 1) s'"
  shows "\<exists>s'. for_u32 a b body s = Inr s' \<and> I b s'"
proof -
  have "\<exists>s'. for_u32 i b body s = Inr s' \<and> I b s'" if "a \<le> i" "i \<le> b" "I i s" for i s
    using that
  proof (induction "unat (b - i)" arbitrary: i s rule: less_induct)
    case less
    show ?case
    proof (cases "i < b")
      case True
      with less.prems obtain s' where s': "body i s = Inr s'" "I (i + 1) s'"
        using step by blast
      from True less.prems have "a \<le> i + 1" "i + 1 \<le> b" by unat_arith+
      then obtain t where "for_u32 (i + 1) b body s' = Inr t" "I b t"
        using less.hyps[OF word_count_down[OF True]] s' by blast
      with True s' show ?thesis by (simp add: for_u32_step)
    next
      case False
      with less.prems show ?thesis by (simp add: for_u32_done)
    qed
  qed
  with init le show ?thesis by simp
qed

text \<open>A body that always returns: the loop is a fold, and a property of each step accumulates.\<close>

lemma for_u32_pure:
  assumes "\<And>i s. a \<le> i \<Longrightarrow> i < b \<Longrightarrow> body i s = Inr (f i s)"
  shows "for_u32 a b body s = Inr (fold f (map word_of_nat [unat a..<unat b]) s)"
  using assms
proof (induction "unat (b - a)" arbitrary: a s rule: less_induct)
  case less
  show ?case
  proof (cases "a < b")
    case True
    then have nx: "[unat a..<unat b] = unat a # [unat (a + 1)..<unat b]"
      by (simp add: unat_Suc upt_conv_Cons word_less_nat_alt)
    have "for_u32 (a + 1) b body (f a s)
        = Inr (fold f (map word_of_nat [unat (a + 1)..<unat b]) (f a s))"
    proof (rule less.hyps[OF word_count_down[OF True]])
      show "body i t = Inr (f i t)" if "a + 1 \<le> i" "i < b" for i t
        using that True by (intro less.prems) unat_arith+
    qed
    with True nx less.prems[of a s] show ?thesis
      by (simp add: for_u32_step)
  next
    case False
    then show ?thesis by (simp add: for_u32_done word_less_nat_alt)
  qed
qed

end
