(* ===== verification/DevIO.thy ===== *)
theory DevIO
  imports Prelude
begin

text \<open>
  The state of the device drivers and the ports they talk to. The hardware is a parameter of the
  model: the value of the \<open>n\<close>-th read in the machine's life is given by functions of \<open>n\<close>, one for
  the ports and one for the time stamp counter, about which nothing is assumed. Writes to ports are
  recorded in order. The static variables of the drivers under \<^verbatim>\<open>kern/dev\<close> are the remaining fields.
\<close>

section \<open>State\<close>

text \<open>An interrupt gate (\<^verbatim>\<open>gatedesc_t\<close> of \<^verbatim>\<open>kern/lib/seg.h\<close>).\<close>

record gatedesc =
  gd_off_15_0 :: u16
  gd_ss :: u16
  gd_args :: u8
  gd_rsv1 :: u8
  gd_type :: u8
  gd_s :: bool
  gd_dpl :: u8
  gd_p :: bool
  gd_off_31_16 :: u16

record devs =
  io_in :: "nat \<Rightarrow> u32 \<Rightarrow> u8" \<comment> \<open>what a read of a port returns\<close>
  io_tsc :: "nat \<Rightarrow> u64" \<comment> \<open>what \<^verbatim>\<open>rdtsc\<close> returns\<close>
  io_cpuid :: "u32 \<Rightarrow> u32 \<times> u32 \<times> u32 \<times> u32" \<comment> \<open>\<^verbatim>\<open>cpuid\<close>: eax, ebx, ecx, edx\<close>
  io_pvclock :: u32 \<comment> \<open>what the hypervisor stores in \<^verbatim>\<open>pvclock.tsc_to_system_mul\<close>\<close>
  io_time :: nat \<comment> \<open>number of reads so far\<close>
  io_out :: "(u32 \<times> u8) list" \<comment> \<open>writes to ports, last one first\<close>
  io_msr :: "(u32 \<times> u64) list" \<comment> \<open>writes to model-specific registers, last one first\<close>
  serial_exists :: bool \<comment> \<open>\<^verbatim>\<open>serial.c\<close>\<close>
  cons_buf :: "u32 \<Rightarrow> u8" \<comment> \<open>\<^verbatim>\<open>console.c\<close>: the ring buffer and its two positions\<close>
  cons_rpos :: u32
  cons_wpos :: u32
  kbd_shift :: u32 \<comment> \<open>\<^verbatim>\<open>keyboard.c\<close>: \<^verbatim>\<open>static uint32_t shift\<close>\<close>
  irqmask :: u16 \<comment> \<open>\<^verbatim>\<open>pic.c\<close>\<close>
  pic_inited :: bool
  idt :: "u32 \<Rightarrow> gatedesc" \<comment> \<open>\<^verbatim>\<open>intr.c\<close>\<close>
  intr_inited :: bool
  eflags_if :: bool \<comment> \<open>the processor accepts maskable interrupts\<close>
  addr_6845 :: u32 \<comment> \<open>\<^verbatim>\<open>video.c\<close>: the controller's port and \<^verbatim>\<open>struct video terminal\<close>\<close>
  crt_buf :: u32
  crt_pos :: u16
  active_console :: i32
  tsc_per_ms :: u64 \<comment> \<open>\<^verbatim>\<open>tsc.c\<close>\<close>

section \<open>Instructions (\<^verbatim>\<open>kern/lib/x86.c\<close>)\<close>

definition inb :: "u32 \<Rightarrow> devs \<Rightarrow> u8 \<times> devs" where
  "inb port d = (io_in d (io_time d) port, d\<lparr>io_time := io_time d + 1\<rparr>)"

definition outb :: "u32 \<Rightarrow> u8 \<Rightarrow> devs \<Rightarrow> devs" where
  "outb port data d = d\<lparr>io_out := (port, data) # io_out d\<rparr>"

definition rdtsc :: "devs \<Rightarrow> u64 \<times> devs" where
  "rdtsc d = (io_tsc d (io_time d), d\<lparr>io_time := io_time d + 1\<rparr>)"

definition cpuid :: "u32 \<Rightarrow> devs \<Rightarrow> u32 \<times> u32 \<times> u32 \<times> u32" where
  "cpuid info d = io_cpuid d info"

definition wrmsr :: "u32 \<Rightarrow> u64 \<Rightarrow> devs \<Rightarrow> devs" where
  "wrmsr msr newval d = d\<lparr>io_msr := (msr, newval) # io_msr d\<rparr>"

definition cli :: "devs \<Rightarrow> devs" where "cli d = d\<lparr>eflags_if := False\<rparr>"
definition sti :: "devs \<Rightarrow> devs" where "sti d = d\<lparr>eflags_if := True\<rparr>"

text \<open>Two states of the drivers that differ in the traffic on the ports only.\<close>

definition io_same :: "devs \<Rightarrow> devs \<Rightarrow> bool" where
  "io_same d d' \<longleftrightarrow> d' = d\<lparr>io_time := io_time d', io_out := io_out d'\<rparr>"

lemma io_same_refl [simp]: "io_same d d"
  by (simp add: io_same_def)

lemma io_same_trans: "io_same d e \<Longrightarrow> io_same e f \<Longrightarrow> io_same d f"
  by (cases d, cases e, cases f) (simp add: io_same_def)

lemma io_same_inb [simp]: "io_same d (snd (inb p d))"
  by (simp add: io_same_def inb_def)

lemma io_same_outb [simp]: "io_same d (outb p v d)"
  by (simp add: io_same_def outb_def)

end
