(* ===== verification/SegDesc.thy ===== *)
theory SegDesc
  imports Prelude
begin

text \<open>
  The data of the segmentation unit, \<^verbatim>\<open>kern/lib/seg.h\<close>: segment descriptors, task state segments
  and the static tables of \<^verbatim>\<open>kern/lib/seg.c\<close>. The bit fields of a descriptor are separate fields;
  the macros mask the values they store. \<^verbatim>\<open>SegInit\<close> has the operations.
\<close>

section \<open>Segment descriptors\<close>

record segdesc =
  sd_lim_15_0 :: u16
  sd_base_15_0 :: u16
  sd_base_23_16 :: u8
  sd_type :: u8 \<comment> \<open>4 bits\<close>
  sd_s :: bool
  sd_dpl :: u8 \<comment> \<open>2 bits\<close>
  sd_p :: bool
  sd_lim_19_16 :: u8 \<comment> \<open>4 bits\<close>
  sd_avl :: bool
  sd_rsv1 :: bool
  sd_db :: bool
  sd_g :: bool
  sd_base_31_24 :: u8

definition SEGDESC_NULL :: segdesc where
  "SEGDESC_NULL = \<lparr>sd_lim_15_0 = 0, sd_base_15_0 = 0, sd_base_23_16 = 0, sd_type = 0, sd_s = False,
     sd_dpl = 0, sd_p = False, sd_lim_19_16 = 0, sd_avl = False, sd_rsv1 = False, sd_db = False,
     sd_g = False, sd_base_31_24 = 0\<rparr>"

definition SEGDESC32 :: "u8 \<Rightarrow> u32 \<Rightarrow> u32 \<Rightarrow> u8 \<Rightarrow> segdesc" where
  "SEGDESC32 type base lim dpl =
     \<lparr>sd_lim_15_0 = ucast (drop_bit 12 lim AND 0xFFFF), sd_base_15_0 = ucast (base AND 0xFFFF),
      sd_base_23_16 = ucast (drop_bit 16 base AND 0xFF), sd_type = take_bit 4 type, sd_s = True,
      sd_dpl = take_bit 2 dpl, sd_p = True, sd_lim_19_16 = take_bit 4 (ucast (drop_bit 28 lim)),
      sd_avl = False, sd_rsv1 = False, sd_db = True, sd_g = True,
      sd_base_31_24 = ucast (drop_bit 24 base)\<rparr>"

definition SEGDESC16 :: "u8 \<Rightarrow> u32 \<Rightarrow> u32 \<Rightarrow> u8 \<Rightarrow> segdesc" where
  "SEGDESC16 type base lim dpl =
     \<lparr>sd_lim_15_0 = ucast (lim AND 0xFFFF), sd_base_15_0 = ucast (base AND 0xFFFF),
      sd_base_23_16 = ucast (drop_bit 16 base AND 0xFF), sd_type = take_bit 4 type, sd_s = True,
      sd_dpl = take_bit 2 dpl, sd_p = True, sd_lim_19_16 = take_bit 4 (ucast (drop_bit 16 lim)),
      sd_avl = False, sd_rsv1 = False, sd_db = True, sd_g = False,
      sd_base_31_24 = ucast (drop_bit 24 base)\<rparr>"

definition STA_X :: u8 where "STA_X = 0x8"
definition STA_W :: u8 where "STA_W = 0x2"
definition STA_R :: u8 where "STA_R = 0x2"
definition STS_T32A :: u8 where "STS_T32A = 0x9"

definition CPU_GDT_KCODE :: u16 where "CPU_GDT_KCODE = 0x08"
definition CPU_GDT_KDATA :: u16 where "CPU_GDT_KDATA = 0x10"
definition CPU_GDT_UCODE :: u16 where "CPU_GDT_UCODE = 0x18"
definition CPU_GDT_UDATA :: u16 where "CPU_GDT_UDATA = 0x20"
definition CPU_GDT_TSS :: u16 where "CPU_GDT_TSS = 0x28"
definition CPU_GDT_NDESC :: u32 where "CPU_GDT_NDESC = 6"

lemmas seg_consts = STA_X_def STA_W_def STA_R_def STS_T32A_def CPU_GDT_KCODE_def CPU_GDT_KDATA_def
  CPU_GDT_UCODE_def CPU_GDT_UDATA_def CPU_GDT_TSS_def CPU_GDT_NDESC_def

text \<open>What the processor reads out of a descriptor: the base, and the last valid offset.\<close>

definition seg_base :: "segdesc \<Rightarrow> u32" where
  "seg_base d = ucast (sd_base_15_0 d) OR push_bit 16 (ucast (sd_base_23_16 d))
     OR push_bit 24 (ucast (sd_base_31_24 d))"

definition seg_limit :: "segdesc \<Rightarrow> u32" where
  "seg_limit d = (let lim = ucast (sd_lim_15_0 d) OR push_bit 16 (ucast (sd_lim_19_16 d))
     in if sd_g d then push_bit 12 lim OR 0xFFF else lim)"

lemma base_join:
  "(ucast (ucast (v AND 0xFFFF) :: u16) :: u32) OR push_bit 16 (ucast (ucast (drop_bit 16 v AND 0xFF) :: u8))
     OR push_bit 24 (ucast (ucast (drop_bit 24 v) :: u8)) = v"
proof -
  have m: "v AND 0xFFFF = take_bit 16 v" "drop_bit 16 v AND 0xFF = take_bit 8 (drop_bit 16 v)"
    by (simp_all add: take_bit_eq_mask mask_numeral)
  show ?thesis
  proof (rule bit_word_eqI)
    fix n assume "n < LENGTH(32)"
    then have "n < 16 \<or> 16 \<le> n \<and> n < 24 \<or> 24 \<le> n \<and> n < 32" by auto
    then show "bit ((ucast (ucast (v AND 0xFFFF) :: u16) :: u32)
       OR push_bit 16 (ucast (ucast (drop_bit 16 v AND 0xFF) :: u8))
       OR push_bit 24 (ucast (ucast (drop_bit 24 v) :: u8))) n = bit v n"
      unfolding m by (auto simp: bit_simps)
  qed
qed

lemma seg_base_32 [simp]: "seg_base (SEGDESC32 ty b lim dpl) = b"
  by (simp add: seg_base_def SEGDESC32_def base_join)

lemma seg_base_16 [simp]: "seg_base (SEGDESC16 ty b lim dpl) = b"
  by (simp add: seg_base_def SEGDESC16_def base_join)

section \<open>Task state segments and the tables\<close>

record tss_t =
  ts_link :: u32
  ts_esp0 :: u32
  ts_ss0 :: u16
  ts_esp1 :: u32
  ts_ss1 :: u16
  ts_esp2 :: u32
  ts_ss2 :: u16
  ts_cr3 :: u32
  ts_eip :: u32
  ts_eflags :: u32
  ts_eax :: u32
  ts_ecx :: u32
  ts_edx :: u32
  ts_ebx :: u32
  ts_esp :: u32
  ts_ebp :: u32
  ts_esi :: u32
  ts_edi :: u32
  ts_es :: u16
  ts_cs :: u16
  ts_ss :: u16
  ts_ds :: u16
  ts_fs :: u16
  ts_gs :: u16
  ts_ldt :: u16
  ts_trap :: u16
  ts_iomb :: u16
  ts_iopm :: "u32 \<Rightarrow> u8" \<comment> \<open>129 bytes\<close>

definition tss_zero :: tss_t where
  "tss_zero = \<lparr>ts_link = 0, ts_esp0 = 0, ts_ss0 = 0, ts_esp1 = 0, ts_ss1 = 0, ts_esp2 = 0, ts_ss2 = 0,
     ts_cr3 = 0, ts_eip = 0, ts_eflags = 0, ts_eax = 0, ts_ecx = 0, ts_edx = 0, ts_ebx = 0, ts_esp = 0,
     ts_ebp = 0, ts_esi = 0, ts_edi = 0, ts_es = 0, ts_cs = 0, ts_ss = 0, ts_ds = 0, ts_fs = 0,
     ts_gs = 0, ts_ldt = 0, ts_trap = 0, ts_iomb = 0, ts_iopm = (\<lambda>_. 0)\<rparr>"

text \<open>
  \<^verbatim>\<open>sizeof(tss_t)\<close> and the offset of \<^verbatim>\<open>ts_iopm\<close>: 15 words, 10 padded and 2 plain half words
  come before the 129 bytes, and the structure is padded to a multiple of four.
\<close>

definition sizeof_tss :: u32 where "sizeof_tss = 236"
definition offsetof_iopm :: u16 where "offsetof_iopm = 104"

record segs =
  gdt_LOC :: "u32 \<Rightarrow> segdesc"
  tss0 :: tss_t
  tss_LOC :: "u32 \<Rightarrow> tss_t"
  gdtr_lim :: u16 \<comment> \<open>the processor's descriptor table, segment and task registers\<close>
  gdtr_base :: u32
  sel_cs :: u16
  sel_ds :: u16
  sel_es :: u16
  sel_fs :: u16
  sel_gs :: u16
  sel_ss :: u16
  ldtr :: u16
  tr :: u16

end
