(* ===== verification/Machine.thy ===== *)
theory Machine
  imports DevIO SegDesc
begin

text \<open>
  The machine below the kernel: byte-addressed physical memory, 32-bit little-endian loads and
  stores (what a C access through an \<^verbatim>\<open>unsigned int *\<close> does on x86), the control registers
  and the addresses at which the linker placed the static objects whose addresses the code takes.
  The kernel runs on page directory 0, which maps every address to itself, so a pointer is a
  physical address.
\<close>

section \<open>Memory\<close>

type_synonym memory = "u32 \<Rightarrow> u8"

definition load32 :: "memory \<Rightarrow> u32 \<Rightarrow> u32" where
  "load32 m a = ucast (m a) OR push_bit 8 (ucast (m (a + 1)))
     OR push_bit 16 (ucast (m (a + 2))) OR push_bit 24 (ucast (m (a + 3)))"

definition store32 :: "memory \<Rightarrow> u32 \<Rightarrow> u32 \<Rightarrow> memory" where
  "store32 m a v = m(a := ucast v, a + 1 := ucast (drop_bit 8 v),
     a + 2 := ucast (drop_bit 16 v), a + 3 := ucast (drop_bit 24 v))"

text \<open>Two-byte accesses; a load yields its value in the low half of a word.\<close>

definition load16 :: "memory \<Rightarrow> u32 \<Rightarrow> u32" where
  "load16 m a = ucast (m a) OR push_bit 8 (ucast (m (a + 1)))"

definition store16 :: "memory \<Rightarrow> u32 \<Rightarrow> u16 \<Rightarrow> memory" where
  "store16 m a v = m(a := ucast v, a + 1 := ucast (drop_bit 8 v))"

lemma bytes_join: "(ucast (ucast v :: u8) :: u32) OR push_bit 8 (ucast (ucast (drop_bit 8 v) :: u8))
     OR push_bit 16 (ucast (ucast (drop_bit 16 v) :: u8))
     OR push_bit 24 (ucast (ucast (drop_bit 24 v) :: u8)) = v"
proof (rule bit_word_eqI)
  fix n assume "n < LENGTH(32)"
  then have "n < 8 \<or> 8 \<le> n \<and> n < 16 \<or> 16 \<le> n \<and> n < 24 \<or> 24 \<le> n \<and> n < 32" by auto
  then show "bit ((ucast (ucast v :: u8) :: u32) OR push_bit 8 (ucast (ucast (drop_bit 8 v) :: u8))
     OR push_bit 16 (ucast (ucast (drop_bit 16 v) :: u8))
     OR push_bit 24 (ucast (ucast (drop_bit 24 v) :: u8))) n = bit v n"
    by (auto simp: bit_simps)
qed

lemma load32_store32_same [simp]: "load32 (store32 m a v) a = v"
proof -
  have ne: "a \<noteq> a + 1" "a \<noteq> a + 2" "a \<noteq> a + 3" "a + 1 \<noteq> a + 2" "a + 1 \<noteq> a + 3" "a + 2 \<noteq> a + 3"
    by simp_all
  show ?thesis by (simp add: load32_def store32_def bytes_join ne[symmetric])
qed

text \<open>Four-byte cells that start on four-byte boundaries are equal or disjoint.\<close>

definition aligned4 :: "u32 \<Rightarrow> bool" where
  "aligned4 a \<longleftrightarrow> unat a mod 4 = 0"

lemma aligned4_offset:
  assumes "aligned4 a" "unat k < 4"
  shows "unat (a + k) = unat a + unat k"
proof -
  have "unat a < 4294967296" using unsigned_less[of a] by simp
  with assms have "unat a + unat k < 4294967296" unfolding aligned4_def by presburger
  then show ?thesis by (simp add: unat_word_ariths)
qed

lemma aligned4_disjoint:
  assumes "aligned4 a" "aligned4 b" "a \<noteq> b" "unat i < 4" "unat j < 4"
  shows "a + i \<noteq> b + j"
proof
  assume "a + i = b + j"
  then have "unat a + unat i = unat b + unat j"
    using aligned4_offset assms by metis
  with assms have "unat a = unat b" unfolding aligned4_def by presburger
  with assms(3) show False by (simp add: unsigned_word_eqI)
qed

lemma store32_other:
  assumes "aligned4 a" "aligned4 b" "a \<noteq> b" "unat i < 4"
  shows "store32 m a v (b + i) = m (b + i)"
  using aligned4_disjoint[of a b 0 i] aligned4_disjoint[of a b 1 i]
    aligned4_disjoint[of a b 2 i] aligned4_disjoint[of a b 3 i] assms
  by (auto simp: store32_def)

lemma load32_store32_other [simp]:
  assumes "aligned4 a" "aligned4 b" "a \<noteq> b"
  shows "load32 (store32 m a v) b = load32 m b"
  using store32_other[OF assms, of 0] store32_other[OF assms, of 1]
    store32_other[OF assms, of 2] store32_other[OF assms, of 3]
  by (simp add: load32_def)

text \<open>The bytes of an aligned cell are the only ones a store to it changes.\<close>

lemma store32_outside:
  "c \<notin> {a, a + 1, a + 2, a + 3} \<Longrightarrow> store32 m a v c = m c"
  by (simp add: store32_def)

section \<open>The machine state\<close>

text \<open>Addresses the linker gives to the ends of the data and to static objects.\<close>

record layout =
  loc_start :: u32 \<comment> \<open>\<^verbatim>\<open>start\<close>: the kernel's first instruction\<close>
  loc_etext :: u32 \<comment> \<open>\<^verbatim>\<open>etext\<close>: where its code ends\<close>
  loc_edata :: u32 \<comment> \<open>\<^verbatim>\<open>edata\<close>: where the zero-initialised data starts\<close>
  loc_end :: u32 \<comment> \<open>\<^verbatim>\<open>end\<close>: where it ends\<close>
  loc_bsp_kstack :: u32 \<comment> \<open>\<^verbatim>\<open>seg.c\<close>\<close>
  loc_gdt_LOC :: u32
  loc_tss0 :: u32
  loc_tss_LOC :: u32
  loc_handler :: "u32 option \<Rightarrow> u32" \<comment> \<open>the entry points of \<^verbatim>\<open>kern/dev/idt.S\<close> by vector\<close>
  loc_pvclock :: u32 \<comment> \<open>\<^verbatim>\<open>kvm.c\<close>\<close>
  loc_linebuf :: u32 \<comment> \<open>\<^verbatim>\<open>console.c\<close>\<close>
  loc_sys_buf :: u32 \<comment> \<open>\<^verbatim>\<open>TSyscall.c\<close>\<close>
  loc_proc_start_user :: u32 \<comment> \<open>the code of \<^verbatim>\<open>proc_start_user\<close> (\<^verbatim>\<open>PProc.c\<close>)\<close>
  loc_elf :: "u32 \<Rightarrow> u32" \<comment> \<open>the images of the user programs linked into the kernel, by number\<close>
  loc_lit :: "string \<Rightarrow> u32" \<comment> \<open>string constants whose address the code takes\<close>

record machine =
  mem :: memory
  cr0 :: u32
  cr2 :: u32 \<comment> \<open>address of the last page fault\<close>
  cr3 :: u32
  cr4 :: u32
  layout :: layout
  segs :: segs
  devs :: devs
  loc_PDirPool :: u32 \<comment> \<open>address of \<^verbatim>\<open>PDirPool\<close> (\<^verbatim>\<open>MPTIntro.c\<close>), page aligned\<close>
  loc_IDPTbl :: u32 \<comment> \<open>address of \<^verbatim>\<open>IDPTbl\<close> (\<^verbatim>\<open>MPTIntro.c\<close>), page aligned\<close>
  loc_STACK_LOC :: u32 \<comment> \<open>address of \<^verbatim>\<open>STACK_LOC\<close> (\<^verbatim>\<open>seg.c\<close>), page aligned\<close>

text \<open>Running a driver routine on the device part of the machine.\<close>

definition upd_devs :: "(devs \<Rightarrow> devs) \<Rightarrow> 'a machine_scheme \<Rightarrow> 'a machine_scheme" where
  "upd_devs f s = s\<lparr>devs := f (devs s)\<rparr>"

lemma upd_devs_sel [simp]: "mem (upd_devs f s) = mem s" "devs (upd_devs f s) = f (devs s)"
  by (simp_all add: upd_devs_def)

text \<open>The instructions that move to and from control registers.\<close>

definition rcr0 :: "'a machine_scheme \<Rightarrow> u32" where "rcr0 s = cr0 s"
definition rcr2 :: "'a machine_scheme \<Rightarrow> u32" where "rcr2 s = cr2 s"
definition rcr4 :: "'a machine_scheme \<Rightarrow> u32" where "rcr4 s = cr4 s"
definition lcr0 :: "u32 \<Rightarrow> 'a machine_scheme \<Rightarrow> 'a machine_scheme" where "lcr0 v s = s\<lparr>cr0 := v\<rparr>"
definition lcr4 :: "u32 \<Rightarrow> 'a machine_scheme \<Rightarrow> 'a machine_scheme" where "lcr4 v s = s\<lparr>cr4 := v\<rparr>"

lemmas cr_access [simp] = rcr0_def rcr2_def rcr4_def lcr0_def lcr4_def

definition lcr3 :: "u32 \<Rightarrow> 'a machine_scheme \<Rightarrow> 'a machine_scheme" where
  "lcr3 v s = s\<lparr>cr3 := v\<rparr>"

text \<open>\<^verbatim>\<open>set_cr3\<close> and \<^verbatim>\<open>enable_paging\<close> of \<^verbatim>\<open>kern/dev/mboot.c\<close>.\<close>

definition set_cr3 :: "u32 \<Rightarrow> 'a machine_scheme \<Rightarrow> 'a machine_scheme" where
  "set_cr3 pdir s = lcr3 pdir s"

definition CR0_PE :: u32 where "CR0_PE = 0x00000001"
definition CR0_MP :: u32 where "CR0_MP = 0x00000002"
definition CR0_EM :: u32 where "CR0_EM = 0x00000004"
definition CR0_TS :: u32 where "CR0_TS = 0x00000008"
definition CR0_NE :: u32 where "CR0_NE = 0x00000020"
definition CR0_WP :: u32 where "CR0_WP = 0x00010000"
definition CR0_AM :: u32 where "CR0_AM = 0x00040000"
definition CR0_PG :: u32 where "CR0_PG = 0x80000000"
definition CR4_PGE :: u32 where "CR4_PGE = 0x00000080"

lemmas cr_flags = CR0_PE_def CR0_MP_def CR0_EM_def CR0_TS_def CR0_NE_def CR0_WP_def CR0_AM_def
  CR0_PG_def CR4_PGE_def

definition enable_paging :: "'a machine_scheme \<Rightarrow> 'a machine_scheme" where
  "enable_paging s =
     (let c4 = rcr4 s;
          c4 = c4 OR CR4_PGE;
          s = lcr4 c4 s;
          c0 = rcr0 s;
          c0 = c0 OR (CR0_PE OR CR0_PG OR CR0_AM OR CR0_WP OR CR0_NE OR CR0_MP);
          c0 = c0 AND NOT (CR0_EM OR CR0_TS)
      in lcr0 c0 s)"

text \<open>Paging is on with write protection, and nothing else of the machine changed.\<close>

lemma enable_paging_bits:
  "bit (cr0 (enable_paging s)) 31 \<and> bit (cr0 (enable_paging s)) 16 \<and> bit (cr4 (enable_paging s)) 7
   \<and> \<not> bit (cr0 (enable_paging s)) 2"
  by (simp add: enable_paging_def cr_flags Let_def bit_simps)

lemma enable_paging_frame [simp]:
  "mem (enable_paging s) = mem s" "cr3 (enable_paging s) = cr3 s"
  by (simp_all add: enable_paging_def Let_def)

section \<open>A concrete machine\<close>

text \<open>A layout and devices at power-on for concrete examples: every port reads 0xFF, no clock runs.\<close>

definition layout_example :: layout where
  "layout_example = \<lparr>loc_start = 0x100000, loc_etext = 0x120000, loc_edata = 0x180000, loc_end = 0x900000, loc_bsp_kstack = 0x1FF000,
     loc_gdt_LOC = 0x190000, loc_tss0 = 0x191000, loc_tss_LOC = 0x192000,
     loc_handler = (\<lambda>_. 0x101000), loc_pvclock = 0x1A0000, loc_linebuf = 0x1B0000, loc_sys_buf = 0x850000,
     loc_proc_start_user = 0x102000, loc_elf = (\<lambda>i. 0x140000 + i * 0x1000),
     loc_lit = (\<lambda>_. 0x120000)\<rparr>"

definition segs_example :: segs where
  "segs_example = \<lparr>gdt_LOC = (\<lambda>_. SEGDESC_NULL), tss0 = tss_zero, tss_LOC = (\<lambda>_. tss_zero),
     gdtr_lim = 0, gdtr_base = 0, sel_cs = 8, sel_ds = 16, sel_es = 16, sel_fs = 16, sel_gs = 16,
     sel_ss = 16, ldtr = 0, tr = 0\<rparr>"

definition gate_zero :: gatedesc where
  "gate_zero = \<lparr>gd_off_15_0 = 0, gd_ss = 0, gd_args = 0, gd_rsv1 = 0, gd_type = 0, gd_s = False,
     gd_dpl = 0, gd_p = False, gd_off_31_16 = 0\<rparr>"

definition devs_example :: devs where
  "devs_example = \<lparr>io_in = (\<lambda>_ _. 0xFF), io_tsc = (\<lambda>_. 0), io_cpuid = (\<lambda>_. (0, 0, 0, 0)),
     io_pvclock = 0, io_time = 0, io_out = [], io_msr = [], serial_exists = False, cons_buf = (\<lambda>_. 0),
     cons_rpos = 0, cons_wpos = 0, kbd_shift = 0, irqmask = 0xFFFB,
     pic_inited = False, idt = (\<lambda>_. gate_zero), intr_inited = False, eflags_if = False,
     addr_6845 = 0, crt_buf = 0, crt_pos = 0, active_console = 0, tsc_per_ms = 0\<rparr>"

definition machine_example :: machine where
  "machine_example = \<lparr>mem = (\<lambda>_. 0), cr0 = 0, cr2 = 0, cr3 = 0, cr4 = 0, layout = layout_example,
     segs = segs_example, devs = devs_example, loc_PDirPool = 0x200000, loc_IDPTbl = 0x400000,
     loc_STACK_LOC = 0x800000\<rparr>"

end
