(* ===== verification/MBoot.thy ===== *)
theory MBoot
  imports Machine "HOL-Library.Multiset"
begin

text \<open>
  The physical memory map of \<^verbatim>\<open>kern/dev/mboot.c\<close>: the E820 entries the boot loader left in
  memory are copied into a list ordered by start address, overlapping entries of one type are
  merged, and the physical memory layer reads the list by index. A \<^verbatim>\<open>SLIST\<close> threaded through
  the static slots is a list of entries; \<^verbatim>\<open>pmmap_slots_next_free\<close> counts the slots taken.
\<close>

record pmmap =
  pm_start :: u32
  pm_end :: u32
  pm_type :: u32

record pmmap_state = machine +
  pmmap_slots_next_free :: nat
  pmmap_list :: "pmmap list"
  pmmap_sublist :: "nat \<Rightarrow> pmmap list"
  max_usable_memory :: u32
  mem_npages :: u32
  pmmap_nentries :: u32

definition MEM_RAM :: u32 where "MEM_RAM = 1"
definition MEM_RESERVED :: u32 where "MEM_RESERVED = 2"
definition MEM_ACPI :: u32 where "MEM_ACPI = 3"
definition MEM_NVS :: u32 where "MEM_NVS = 4"

text \<open>\<^verbatim>\<open>rounddown\<close>, \<^verbatim>\<open>roundup\<close> and \<^verbatim>\<open>max\<close> of \<^verbatim>\<open>kern/lib/types.c\<close>.\<close>

definition rounddown :: "u32 \<Rightarrow> u32 \<Rightarrow> u32" where
  "rounddown a n = a - a mod n"

definition roundup :: "u32 \<Rightarrow> u32 \<Rightarrow> u32" where
  "roundup a n = rounddown (a + n - 1) n"

definition max_u32 :: "u32 \<Rightarrow> u32 \<Rightarrow> u32" where
  "max_u32 a b = (if a > b then a else b)"

definition min_u32 :: "u32 \<Rightarrow> u32 \<Rightarrow> u32" where
  "min_u32 a b = (if a < b then a else b)"

section \<open>Inserting\<close>

text \<open>\<^verbatim>\<open>pmmap_alloc_slot\<close>: whether a slot is left, and the state with it taken.\<close>

definition pmmap_alloc_slot :: "'a pmmap_state_scheme \<Rightarrow> 'a pmmap_state_scheme option" where
  "pmmap_alloc_slot s =
     (if pmmap_slots_next_free s = 128 then None
      else Some (s\<lparr>pmmap_slots_next_free := pmmap_slots_next_free s + 1\<rparr>))"

text \<open>The walk of \<^verbatim>\<open>pmmap_insert\<close>: the new entry goes before the first larger start.\<close>

fun slist_insert :: "pmmap \<Rightarrow> pmmap list \<Rightarrow> pmmap list" where
  "slist_insert new [] = [new]"
| "slist_insert new (slot # rest) =
     (if pm_start new < pm_start slot then new # slot # rest else slot # slist_insert new rest)"

definition pmmap_insert :: "u32 \<Rightarrow> u32 \<Rightarrow> u32 \<Rightarrow> 'a pmmap_state_scheme \<Rightarrow> 'a pmmap_state_scheme res" where
  "pmmap_insert st en ty s =
     (case pmmap_alloc_slot s of
        None \<Rightarrow> Inl Panic
      | Some s1 \<Rightarrow> Inr (s1\<lparr>pmmap_list :=
            slist_insert \<lparr>pm_start = st, pm_end = en, pm_type = ty\<rparr> (pmmap_list s1)\<rparr>))"

section \<open>Merging\<close>

definition mergeable :: "pmmap \<Rightarrow> pmmap \<Rightarrow> bool" where
  "mergeable slot nxt \<longleftrightarrow> pm_start slot \<le> pm_start nxt \<and> pm_end slot \<ge> pm_start nxt
     \<and> pm_type slot = pm_type nxt"

text \<open>
  Step 1 of \<^verbatim>\<open>pmmap_merge\<close>. After a removal the loop moves on to the entry behind the removed
  one; the widened entry is not compared again.
\<close>

fun pmmap_merge_step :: "pmmap list \<Rightarrow> pmmap list" where
  "pmmap_merge_step [] = []"
| "pmmap_merge_step [slot] = [slot]"
| "pmmap_merge_step (slot # nxt # rest) =
     (if mergeable slot nxt
      then slot\<lparr>pm_end := max_u32 (pm_end slot) (pm_end nxt)\<rparr> # pmmap_merge_step rest
      else slot # pmmap_merge_step (nxt # rest))"

definition PMMAP_SUBLIST_NR :: "u32 \<Rightarrow> nat option" where
  "PMMAP_SUBLIST_NR ty = (if ty = MEM_RAM then Some 0 else if ty = MEM_RESERVED then Some 1
     else if ty = MEM_ACPI then Some 2 else if ty = MEM_NVS then Some 3 else None)"

text \<open>Step 2: every entry is appended to the sublist of its type; an unknown type panics.\<close>

fun pmmap_split_types :: "pmmap list \<Rightarrow> (nat \<Rightarrow> pmmap list) \<Rightarrow> (nat \<Rightarrow> pmmap list) res" where
  "pmmap_split_types [] sub = Inr sub"
| "pmmap_split_types (slot # rest) sub =
     (case PMMAP_SUBLIST_NR (pm_type slot) of
        None \<Rightarrow> Inl Panic
      | Some k \<Rightarrow> pmmap_split_types rest (sub(k := sub k @ [slot])))"

definition pmmap_merge :: "'a pmmap_state_scheme \<Rightarrow> 'a pmmap_state_scheme res" where
  "pmmap_merge s =
     (let merged = pmmap_merge_step (pmmap_list s)
      in rbind (pmmap_split_types merged (pmmap_sublist s)) (\<lambda>sub.
         Inr (s\<lparr>pmmap_list := merged, pmmap_sublist := sub,
                max_usable_memory :=
                  (if filter (\<lambda>e. pm_type e = MEM_RAM) merged \<noteq> []
                   then pm_end (last (sub 0)) else max_usable_memory s)\<rparr>)))"

section \<open>Initialisation\<close>

text \<open>
  The copy loop of \<^verbatim>\<open>pmmap_init\<close>, by the offset of \<^verbatim>\<open>p\<close> in the buffer: entries of 24
  bytes, those that start above 4G ignored. A buffer that ends in the last 24 bytes of the address
  space makes the offset wrap; that is reported as \<^const>\<open>Diverges\<close>.
\<close>

definition mmap_entry_end :: "u32 \<Rightarrow> u32 \<Rightarrow> u32 \<Rightarrow> u32" where
  "mmap_entry_end st length_low length_high =
     (if length_high \<noteq> 0 \<or> length_low \<ge> 0xffffffff - st then 0xffffffff else st + length_low)"

function pmmap_copy :: "u32 \<Rightarrow> u32 \<Rightarrow> u32 \<Rightarrow> 'a pmmap_state_scheme \<Rightarrow> 'a pmmap_state_scheme res" where
  "pmmap_copy mmap_addr mmap_length off s =
     (if off < mmap_length
      then (let p = mmap_addr + off; st = load32 (mem s) (p + 4) in
            rbind (if load32 (mem s) (p + 8) \<noteq> 0 then Inr s
                   else pmmap_insert st
                          (mmap_entry_end st (load32 (mem s) (p + 12)) (load32 (mem s) (p + 16)))
                          (load32 (mem s) (p + 20)) s)
              (\<lambda>s'. if off + 24 > off then pmmap_copy mmap_addr mmap_length (off + 24) s'
                    else Inl Diverges))
      else Inr s)"
  by pat_completeness auto
termination
proof (relation "measure (\<lambda>(a, n, off, s). unat n - unat off)", goal_cases)
  case (2 a n off s x xa x2)
  then show ?case by (auto simp: word_less_nat_alt)
qed simp

declare pmmap_copy.simps [simp del]

definition pmmap_init :: "u32 \<Rightarrow> 'a pmmap_state_scheme \<Rightarrow> 'a pmmap_state_scheme res" where
  "pmmap_init mbi_addr s =
     (let mmap_length = load32 (mem s) (mbi_addr + 44);
          mmap_addr = load32 (mem s) (mbi_addr + 48);
          s0 = s\<lparr>pmmap_list := [], pmmap_sublist := (\<lambda>_. [])\<rparr>
      in rbind (pmmap_copy mmap_addr mmap_length 0 s0) (\<lambda>s1.
         rbind (pmmap_merge s1) (\<lambda>s2.
         Inr (s2\<lparr>pmmap_nentries := pmmap_nentries s2 + word_of_nat (length (pmmap_list s2)),
                 mem_npages := rounddown (max_usable_memory s2) PAGESIZE div PAGESIZE\<rparr>))))"

section \<open>Reading the map\<close>

definition get_size :: "'a pmmap_state_scheme \<Rightarrow> u32" where
  "get_size s = pmmap_nentries s"

text \<open>
  The walks of \<^verbatim>\<open>get_mms\<close>, \<^verbatim>\<open>get_mml\<close> and \<^verbatim>\<open>is_usable\<close> stop at entry
  \<^verbatim>\<open>idx\<close>; no such entry, or an index equal to the recorded count, answers 0.
\<close>

definition pmmap_entry :: "u32 \<Rightarrow> 'a pmmap_state_scheme \<Rightarrow> pmmap option" where
  "pmmap_entry idx s =
     (if unat idx < length (pmmap_list s) \<and> idx \<noteq> pmmap_nentries s
      then Some (pmmap_list s ! unat idx) else None)"

definition get_mms :: "u32 \<Rightarrow> 'a pmmap_state_scheme \<Rightarrow> u32" where
  "get_mms idx s = (case pmmap_entry idx s of None \<Rightarrow> 0 | Some e \<Rightarrow> pm_start e)"

definition get_mml :: "u32 \<Rightarrow> 'a pmmap_state_scheme \<Rightarrow> u32" where
  "get_mml idx s = (case pmmap_entry idx s of None \<Rightarrow> 0 | Some e \<Rightarrow> pm_end e - pm_start e)"

definition is_usable :: "u32 \<Rightarrow> 'a pmmap_state_scheme \<Rightarrow> u32" where
  "is_usable idx s =
     (case pmmap_entry idx s of None \<Rightarrow> 0 | Some e \<Rightarrow> if pm_type e = MEM_RAM then 1 else 0)"

section \<open>Properties of the map\<close>

definition starts_sorted :: "pmmap list \<Rightarrow> bool" where
  "starts_sorted es \<longleftrightarrow> sorted (map pm_start es)"

text \<open>The addresses of a given type the map covers.\<close>

definition covers :: "pmmap list \<Rightarrow> u32 \<Rightarrow> u32 set" where
  "covers es ty = {a. \<exists>e \<in> set es. pm_type e = ty \<and> pm_start e \<le> a \<and> a < pm_end e}"

lemma covers_Nil [simp]: "covers [] ty = {}"
  by (simp add: covers_def)

lemma covers_Cons: "covers (e # es) ty
    = (if pm_type e = ty then {pm_start e..<pm_end e} else {}) \<union> covers es ty"
  by (auto simp: covers_def)

lemma slist_insert_mset: "mset (slist_insert e es) = add_mset e (mset es)"
  by (induction es) auto

lemma slist_insert_set: "set (slist_insert e es) = insert e (set es)"
  by (metis set_mset_add_mset_insert set_mset_mset slist_insert_mset)

lemma slist_insert_sorted: "starts_sorted es \<Longrightarrow> starts_sorted (slist_insert e es)"
  unfolding starts_sorted_def by (induction es) (auto simp: slist_insert_set)

lemma slist_insert_covers: "covers (slist_insert e es) ty
    = (if pm_type e = ty then {pm_start e..<pm_end e} else {}) \<union> covers es ty"
  by (auto simp: covers_def slist_insert_set)

lemma interval_join:
  fixes a b c d :: "'o :: linorder"
  assumes "a \<le> c" "c \<le> b"
  shows "{a..<max b d} = {a..<b} \<union> {c..<d}"
  using assms by (auto simp: less_max_iff_disj)

lemma max_u32_max: "max_u32 a b = max a b"
  by (auto simp: max_u32_def)

lemma merge_range:
  "mergeable x y \<Longrightarrow> {pm_start x..<max_u32 (pm_end x) (pm_end y)}
     = {pm_start x..<pm_end x} \<union> {pm_start y..<pm_end y}"
  unfolding max_u32_max by (rule interval_join) (simp_all add: mergeable_def)

lemma mergeable_type: "mergeable x y \<Longrightarrow> pm_type y = pm_type x"
  by (simp add: mergeable_def)

lemma merge_step_covers: "covers (pmmap_merge_step es) ty = covers es ty"
  by (induction es rule: pmmap_merge_step.induct)
     (simp_all add: covers_Cons merge_range mergeable_type Un_assoc)

lemma merge_step_starts: "set (map pm_start (pmmap_merge_step es)) \<subseteq> set (map pm_start es)"
  by (induction es rule: pmmap_merge_step.induct) auto

lemma merge_step_sorted: "starts_sorted es \<Longrightarrow> starts_sorted (pmmap_merge_step es)"
proof (induction es rule: pmmap_merge_step.induct)
  case (3 x y es)
  then have le: "pm_start x \<le> pm_start y" "\<forall>e \<in> set es. pm_start x \<le> pm_start e"
    and srt: "starts_sorted es" "starts_sorted (y # es)"
    by (simp_all add: starts_sorted_def)
  have sub: "\<forall>e \<in> set (pmmap_merge_step zs). pm_start x \<le> pm_start e"
    if "\<forall>e \<in> set zs. pm_start x \<le> pm_start e" for zs
    using merge_step_starts[of zs] that by fastforce
  show ?case
  proof (cases "mergeable x y")
    case True
    with "3.IH"(1)[OF True srt(1)] sub[OF le(2)] show ?thesis by (simp add: starts_sorted_def)
  next
    case False
    then have eq: "pmmap_merge_step (x # y # es) = x # pmmap_merge_step (y # es)" by simp
    have "\<forall>e \<in> set (pmmap_merge_step (y # es)). pm_start x \<le> pm_start e"
      by (rule sub) (simp add: le)
    with "3.IH"(2)[OF False srt(2)] show ?thesis by (simp only: eq) (simp add: starts_sorted_def)
  qed
qed (simp_all add: starts_sorted_def)

lemma merge_step_types:
  "set (map pm_type (pmmap_merge_step es)) \<subseteq> set (map pm_type es)"
  by (induction es rule: pmmap_merge_step.induct) auto

lemma split_types_ok:
  "(\<And>e. e \<in> set es \<Longrightarrow> PMMAP_SUBLIST_NR (pm_type e) \<noteq> None) \<Longrightarrow>
     pmmap_split_types es sub
       = Inr (\<lambda>k. sub k @ filter (\<lambda>e. PMMAP_SUBLIST_NR (pm_type e) = Some k) es)"
proof (induction es arbitrary: sub)
  case (Cons e es)
  then obtain k where "PMMAP_SUBLIST_NR (pm_type e) = Some k" by fastforce
  with Cons show ?case by (auto simp: fun_eq_iff)
qed simp

text \<open>The addresses of a type that the E820 table in memory lists, from byte \<open>off\<close> of the table on.\<close>

definition e820_range :: "memory \<Rightarrow> u32 \<Rightarrow> u32 \<Rightarrow> u32 set" where
  "e820_range m p ty =
     (if load32 m (p + 8) = 0 \<and> load32 m (p + 20) = ty
      then {load32 m (p + 4)..<mmap_entry_end (load32 m (p + 4)) (load32 m (p + 12)) (load32 m (p + 16))}
      else {})"

definition e820_covers :: "memory \<Rightarrow> u32 \<Rightarrow> nat \<Rightarrow> nat \<Rightarrow> u32 \<Rightarrow> u32 set" where
  "e820_covers m addr off len ty = (\<Union>k \<in> {k. off + 24 * k < len}.
     e820_range m (addr + word_of_nat (off + 24 * k)) ty)"

lemma e820_covers_step:
  assumes "off < len"
  shows "e820_covers m addr off len ty
    = e820_range m (addr + word_of_nat off) ty \<union> e820_covers m addr (off + 24) len ty"
proof -
  have "{k. off + 24 * k < len} = insert 0 (Suc ` {k. off + 24 + 24 * k < len})"
  proof (rule set_eqI)
    fix k
    show "k \<in> {k. off + 24 * k < len} \<longleftrightarrow> k \<in> insert 0 (Suc ` {k. off + 24 + 24 * k < len})"
      using assms by (cases k) (auto simp: image_iff)
  qed
  then show ?thesis unfolding e820_covers_def by (simp add: algebra_simps)
qed

lemma insert_effect:
  assumes "pmmap_insert st en ty s = Inr s'"
  shows "mem s' = mem s" "pmmap_list s' = slist_insert \<lparr>pm_start = st, pm_end = en, pm_type = ty\<rparr> (pmmap_list s)"
  using assms by (auto simp: pmmap_insert_def pmmap_alloc_slot_def split: if_splits option.splits)

lemma copy_effect:
  "pmmap_copy a n off s = Inr s' \<Longrightarrow> starts_sorted (pmmap_list s) \<Longrightarrow>
     starts_sorted (pmmap_list s') \<and>
     covers (pmmap_list s') ty = covers (pmmap_list s) ty \<union> e820_covers (mem s) a (unat off) (unat n) ty"
proof (induction a n off s rule: pmmap_copy.induct)
  case (1 a n off s)
  show ?case
  proof (cases "off < n")
    case True
    let ?p = "a + off"
    from "1.prems"(1) True obtain s1 where
      s1: "(if load32 (mem s) (?p + 8) \<noteq> 0 then Inr s
            else pmmap_insert (load32 (mem s) (?p + 4))
              (mmap_entry_end (load32 (mem s) (?p + 4)) (load32 (mem s) (?p + 12))
                 (load32 (mem s) (?p + 16)))
              (load32 (mem s) (?p + 20)) s) = Inr s1"
      and r: "off + 24 > off" "pmmap_copy a n (off + 24) s1 = Inr s'"
      by (subst (asm) pmmap_copy.simps) (auto simp: Let_def rbind_eq_Inr split: if_splits)
    have step: "starts_sorted (pmmap_list s1)" "mem s1 = mem s"
      "covers (pmmap_list s1) ty = covers (pmmap_list s) ty \<union> e820_range (mem s) ?p ty"
      using s1 "1.prems"(2)
      by (auto simp: e820_range_def slist_insert_sorted slist_insert_covers insert_effect
          split: if_splits)
    have "unat (off + 24) = unat off + 24"
      using r(1) unsigned_less[of off, where ?'a = nat]
      by (simp add: word_less_nat_alt unat_word_ariths mod_if split: if_splits)
    with "1.IH"[OF True refl refl s1 r(1) r(2) step(1)] step True show ?thesis
      by (simp add: word_less_nat_alt e820_covers_step Un_assoc)
  next
    case False
    with "1.prems" show ?thesis
      by (subst (asm) pmmap_copy.simps) (simp add: e820_covers_def word_less_nat_alt)
  qed
qed

text \<open>\<^verbatim>\<open>pmmap_init\<close> changes no other part of the machine.\<close>

definition pmmap_frame :: "'a pmmap_state_scheme \<Rightarrow> 'a pmmap_state_scheme \<Rightarrow> bool" where
  "pmmap_frame s s' \<longleftrightarrow> s' = s\<lparr>pmmap_slots_next_free := pmmap_slots_next_free s',
     pmmap_list := pmmap_list s', pmmap_sublist := pmmap_sublist s',
     max_usable_memory := max_usable_memory s', mem_npages := mem_npages s',
     pmmap_nentries := pmmap_nentries s'\<rparr>"

lemma pmmap_frame_trans: "pmmap_frame s t \<Longrightarrow> pmmap_frame t u \<Longrightarrow> pmmap_frame s u"
  by (cases s, cases t, cases u) (simp add: pmmap_frame_def)

lemma pmmap_insert_frame: "pmmap_insert st en ty s = Inr s' \<Longrightarrow> pmmap_frame s s'"
  by (cases s)
     (auto simp: pmmap_frame_def pmmap_insert_def pmmap_alloc_slot_def split: if_splits)

lemma pmmap_copy_frame: "pmmap_copy a n off s = Inr s' \<Longrightarrow> pmmap_frame s s'"
proof (induction a n off s rule: pmmap_copy.induct)
  case (1 a n off s)
  show ?case
  proof (cases "off < n")
    case True
    let ?p = "a + off"
    from "1.prems"(1) True obtain s1 where
      s1: "(if load32 (mem s) (?p + 8) \<noteq> 0 then Inr s
            else pmmap_insert (load32 (mem s) (?p + 4))
              (mmap_entry_end (load32 (mem s) (?p + 4)) (load32 (mem s) (?p + 12))
                 (load32 (mem s) (?p + 16)))
              (load32 (mem s) (?p + 20)) s) = Inr s1"
      and r: "off + 24 > off" "pmmap_copy a n (off + 24) s1 = Inr s'"
      by (subst (asm) pmmap_copy.simps) (auto simp: Let_def rbind_eq_Inr split: if_splits)
    have "pmmap_frame s s1" using s1 pmmap_insert_frame
      by (auto simp: pmmap_frame_def split: if_splits)
    with "1.IH"[OF True refl refl s1 r(1) r(2)] show ?thesis using pmmap_frame_trans by blast
  next
    case False
    with "1.prems" show ?thesis
      by (subst (asm) pmmap_copy.simps) (simp add: pmmap_frame_def)
  qed
qed

lemma pmmap_init_frame: "pmmap_init mbi s = Inr s' \<Longrightarrow> pmmap_frame s s'"
proof -
  assume "pmmap_init mbi s = Inr s'"
  then obtain s1 s2 where
    c: "pmmap_copy (load32 (mem s) (mbi + 48)) (load32 (mem s) (mbi + 44)) 0
          (s\<lparr>pmmap_list := [], pmmap_sublist := (\<lambda>_. [])\<rparr>) = Inr s1"
    and m: "pmmap_merge s1 = Inr s2"
    and e: "s' = s2\<lparr>pmmap_nentries := pmmap_nentries s2 + word_of_nat (length (pmmap_list s2)),
                 mem_npages := rounddown (max_usable_memory s2) PAGESIZE div PAGESIZE\<rparr>"
    by (auto simp: pmmap_init_def Let_def rbind_eq_Inr)
  have "pmmap_frame s (s\<lparr>pmmap_list := [], pmmap_sublist := (\<lambda>_. [])\<rparr>)"
    by (simp add: pmmap_frame_def)
  moreover have "pmmap_frame s1 s2" using m
    by (auto simp: pmmap_merge_def Let_def rbind_eq_Inr pmmap_frame_def)
  moreover have "pmmap_frame s2 s'" by (simp add: e pmmap_frame_def)
  ultimately show ?thesis using pmmap_copy_frame[OF c] pmmap_frame_trans by blast
qed

text \<open>
  It returns when the table has at most 128 entries and those below 4G have known types.
\<close>

definition e820_ok :: "memory \<Rightarrow> u32 \<Rightarrow> u32 \<Rightarrow> bool" where
  "e820_ok m a n \<longleftrightarrow> unat n \<le> 24 * 128 \<and>
     (\<forall>k<128. 24 * k < unat n \<longrightarrow> load32 m (a + word_of_nat (24 * k) + 8) = 0 \<longrightarrow>
        load32 m (a + word_of_nat (24 * k) + 20) \<in> {1, 2, 3, 4})"

lemma pmmap_copy_returns:
  assumes "e820_ok m a n" "mem s = m" "off = word_of_nat (24 * k)" "k \<le> 128"
    "pmmap_slots_next_free s \<le> k" "\<forall>e \<in> set (pmmap_list s). pm_type e \<in> {1, 2, 3, 4}"
  shows "\<exists>s'. pmmap_copy a n off s = Inr s' \<and> (\<forall>e \<in> set (pmmap_list s'). pm_type e \<in> {1, 2, 3, 4})"
  using assms(2-)
proof (induction "128 - k" arbitrary: k off s)
  case (0 k)
  then have "k = 128" by simp
  then have "\<not> off < n" using assms(1) "0.prems" by (simp add: e820_ok_def word_less_nat_alt)
  with "0.prems" show ?case by (subst pmmap_copy.simps) simp
next
  case (Suc d k)
  have uo: "unat off = 24 * k" unfolding Suc.prems(2) by (rule unat_u32) (use Suc.prems in simp)
  show ?case
  proof (cases "off < n")
    case True
    then have lt: "24 * k < unat n" using uo by (simp add: word_less_nat_alt)
    then have k: "k < 128" using assms(1) by (simp add: e820_ok_def)
    have nx: "off + 24 = word_of_nat (24 * Suc k)" using Suc.prems(2) by simp
    have "unat (off + 24) = 24 * Suc k" unfolding nx by (rule unat_u32) (use k in simp)
    then have gt: "off + 24 > off" using uo by (simp add: word_less_nat_alt)
    let ?p = "a + off"
    have ty: "load32 m (?p + 8) = 0 \<Longrightarrow> load32 m (?p + 20) \<in> {1, 2, 3, 4}"
      using assms(1) k lt Suc.prems(2) by (simp add: e820_ok_def)
    let ?r = "if load32 m (?p + 8) \<noteq> 0 then Inr s
            else pmmap_insert (load32 m (?p + 4))
              (mmap_entry_end (load32 m (?p + 4)) (load32 m (?p + 12)) (load32 m (?p + 16)))
              (load32 m (?p + 20)) s"
    have "\<exists>s1. ?r = Inr s1 \<and> mem s1 = m \<and> pmmap_slots_next_free s1 \<le> Suc k
        \<and> (\<forall>e \<in> set (pmmap_list s1). pm_type e \<in> {1, 2, 3, 4})"
      using Suc.prems k ty
      by (cases "load32 m (?p + 8) = 0")
         (simp_all add: pmmap_insert_def pmmap_alloc_slot_def slist_insert_set)
    then obtain s1 where s1: "?r = Inr s1" "mem s1 = m" "pmmap_slots_next_free s1 \<le> Suc k"
        "\<forall>e \<in> set (pmmap_list s1). pm_type e \<in> {1, 2, 3, 4}" by blast
    have "pmmap_copy a n off s = rbind ?r (\<lambda>s'. if off + 24 > off
        then pmmap_copy a n (off + 24) s' else Inl Diverges)"
      using True Suc.prems(1) by (subst pmmap_copy.simps) (simp only: Let_def if_True)
    also have "\<dots> = pmmap_copy a n (off + 24) s1" using gt by (simp only: s1(1) rbind_simps if_True)
    finally show ?thesis using Suc.hyps(1)[OF _ s1(2) nx _ s1(3,4)] Suc.hyps(2) k by simp
  next
    case False
    with Suc.prems show ?thesis by (subst pmmap_copy.simps) simp
  qed
qed

lemma pmmap_init_returns:
  assumes "e820_ok (mem s) (load32 (mem s) (mbi + 48)) (load32 (mem s) (mbi + 44))"
    "pmmap_slots_next_free s = 0"
  shows "\<exists>s'. pmmap_init mbi s = Inr s'"
proof -
  let ?s0 = "s\<lparr>pmmap_list := [], pmmap_sublist := (\<lambda>_. [])\<rparr>"
  obtain s1 where s1: "pmmap_copy (load32 (mem s) (mbi + 48)) (load32 (mem s) (mbi + 44)) 0 ?s0 = Inr s1"
    "\<forall>e \<in> set (pmmap_list s1). pm_type e \<in> {1, 2, 3, 4}"
    using pmmap_copy_returns[OF assms(1), of ?s0 0 0] assms(2) by auto
  have "PMMAP_SUBLIST_NR (pm_type e) \<noteq> None" if "e \<in> set (pmmap_merge_step (pmmap_list s1))" for e
  proof -
    have "pm_type e \<in> pm_type ` set (pmmap_list s1)"
      using merge_step_types[of "pmmap_list s1"] that by auto
    with s1(2) show ?thesis
      by (auto simp: PMMAP_SUBLIST_NR_def MEM_RAM_def MEM_RESERVED_def MEM_ACPI_def MEM_NVS_def)
  qed
  then have "\<exists>sub. pmmap_split_types (pmmap_merge_step (pmmap_list s1)) (pmmap_sublist s1) = Inr sub"
    using split_types_ok by blast
  with s1(1) show ?thesis by (auto simp: pmmap_init_def pmmap_merge_def Let_def)
qed

text \<open>
  \<^verbatim>\<open>pmmap_insert\<close> panics exactly when all 128 slots are taken; otherwise the map stays
  ordered by start address and gains exactly the given entry.
\<close>

theorem pmmap_insert_sorted:
  assumes "starts_sorted (pmmap_list s)" "pmmap_slots_next_free s \<le> 128"
  shows "if pmmap_slots_next_free s = 128 then pmmap_insert st en ty s = Inl Panic
    else \<exists>s'. pmmap_insert st en ty s = Inr s'
      \<and> starts_sorted (pmmap_list s') \<and> pmmap_slots_next_free s' \<le> 128
      \<and> mset (pmmap_list s') = add_mset \<lparr>pm_start = st, pm_end = en, pm_type = ty\<rparr> (mset (pmmap_list s))"
  using assms
  by (simp add: pmmap_insert_def pmmap_alloc_slot_def slist_insert_sorted slist_insert_mset)

lemma pmmap_init_map:
  assumes "e820_ok (mem s) (load32 (mem s) (mbi + 48)) (load32 (mem s) (mbi + 44))"
    "pmmap_slots_next_free s = 0"
  shows "\<exists>s'. pmmap_init mbi s = Inr s' \<and> starts_sorted (pmmap_list s') \<and>
    (\<forall>ty. covers (pmmap_list s') ty
      = e820_covers (mem s) (load32 (mem s) (mbi + 48)) 0 (unat (load32 (mem s) (mbi + 44))) ty)"
proof -
  let ?s0 = "s\<lparr>pmmap_list := [], pmmap_sublist := (\<lambda>_. [])\<rparr>"
  obtain s' where s': "pmmap_init mbi s = Inr s'" using pmmap_init_returns[OF assms] by blast
  then obtain s1 where
    s1: "pmmap_copy (load32 (mem s) (mbi + 48)) (load32 (mem s) (mbi + 44)) 0 ?s0 = Inr s1"
    and "pmmap_list s' = pmmap_merge_step (pmmap_list s1)"
    by (auto simp: pmmap_init_def pmmap_merge_def Let_def rbind_eq_Inr)
  moreover have "starts_sorted (pmmap_list ?s0)" by (simp add: starts_sorted_def)
  ultimately show ?thesis using copy_effect[OF s1] s'
    by (simp add: merge_step_sorted merge_step_covers)
qed


text \<open>One E820 entry, 8 KiB of RAM from 0x50000000, stored at address 100, described by a multiboot record at 0.\<close>

definition pmmap_example :: pmmap_state where
  "pmmap_example = \<lparr>mem = (\<lambda>a. if a = 44 then 24 else if a = 48 then 100 else if a = 107 then 0x50
       else if a = 113 then 0x20 else if a = 120 then 1 else 0),
     cr0 = 0, cr2 = 0, cr3 = 0, cr4 = 0, layout = layout_example,
     segs = segs_example, devs = devs_example, loc_PDirPool = 0x200000, loc_IDPTbl = 0x400000,
     loc_STACK_LOC = 0x800000, pmmap_slots_next_free = 0, pmmap_list = [],
     pmmap_sublist = (\<lambda>_. []), max_usable_memory = 0, mem_npages = 0, pmmap_nentries = 0\<rparr>"

lemma pmmap_example_init:
  assumes "\<And>a. a < 256 \<Longrightarrow> mem s a = mem pmmap_example a"
    "pmmap_slots_next_free s = 0" "pmmap_nentries s = 0"
  shows "\<exists>s'. pmmap_init 0 s = Inr s' \<and> pmmap_nentries s' = 1 \<and>
    pmmap_list s' = [\<lparr>pm_start = 0x50000000, pm_end = 0x50002000, pm_type = 1\<rparr>]"
  using assms by (simp add: pmmap_init_def pmmap_example_def load32_def Let_def pmmap_copy.simps
      pmmap_insert_def pmmap_alloc_slot_def mmap_entry_end_def pmmap_merge_def
      PMMAP_SUBLIST_NR_def MEM_RAM_def)

theorem pmmap_insert_sorted_witness:
  "\<exists>s'. pmmap_insert 8 16 1 pmmap_example = Inr s' \<and> starts_sorted (pmmap_list s')"
  using pmmap_insert_sorted[of pmmap_example 8 16 1]
  by (auto simp: pmmap_example_def starts_sorted_def)


end
