(* ===== verification/MATIntro.thy ===== *)
theory MATIntro
  imports MBoot
begin

text \<open>
  The physical allocation table of \<^verbatim>\<open>kern/pmm/MATIntro/MATIntro.c\<close>: one entry per physical
  page, 2^20 of them, and the getters and setters the layers above use. The C array access
  \<^verbatim>\<open>AT[page_index]\<close> is unchecked, so an index past the array is the error
  \<^const>\<open>OutOfBounds\<close>.
\<close>

record ATStruct =
  at_perm :: u32
  at_allocated :: u32

record at_state = pmmap_state +
  NUM_PAGES :: u32
  AT :: "u32 \<Rightarrow> ATStruct"

definition AT_SIZE :: u32 where "AT_SIZE = 0x100000"

definition get_nps :: "'a at_state_scheme \<Rightarrow> u32" where
  "get_nps s = NUM_PAGES s"

definition set_nps :: "u32 \<Rightarrow> 'a at_state_scheme \<Rightarrow> 'a at_state_scheme" where
  "set_nps nps s = s\<lparr>NUM_PAGES := nps\<rparr>"

definition at_is_norm :: "u32 \<Rightarrow> 'a at_state_scheme \<Rightarrow> u32 res" where
  "at_is_norm page_index s =
     (if page_index < AT_SIZE
      then (if at_perm (AT s page_index) > 1 then Inr 1 else Inr 0)
      else Inl OutOfBounds)"

definition at_set_perm :: "u32 \<Rightarrow> u32 \<Rightarrow> 'a at_state_scheme \<Rightarrow> 'a at_state_scheme res" where
  "at_set_perm page_index p s =
     (if page_index < AT_SIZE
      then (let s1 = s\<lparr>AT := (AT s)(page_index := (AT s page_index)\<lparr>at_perm := p\<rparr>)\<rparr>
            in Inr (s1\<lparr>AT := (AT s1)(page_index := (AT s1 page_index)\<lparr>at_allocated := 0\<rparr>)\<rparr>))
      else Inl OutOfBounds)"

definition at_is_allocated :: "u32 \<Rightarrow> 'a at_state_scheme \<Rightarrow> u32 res" where
  "at_is_allocated page_index s =
     (if page_index < AT_SIZE
      then (if at_allocated (AT s page_index) = 0 then Inr 0 else Inr 1)
      else Inl OutOfBounds)"

definition at_set_allocated :: "u32 \<Rightarrow> u32 \<Rightarrow> 'a at_state_scheme \<Rightarrow> 'a at_state_scheme res" where
  "at_set_allocated page_index v s =
     (if page_index < AT_SIZE
      then Inr (s\<lparr>AT := (AT s)(page_index := (AT s page_index)\<lparr>at_allocated := v\<rparr>)\<rparr>)
      else Inl OutOfBounds)"

section \<open>The abstract view of the table\<close>

definition page_norm :: "'a at_state_scheme \<Rightarrow> u32 \<Rightarrow> bool" where
  "page_norm s p \<longleftrightarrow> at_perm (AT s p) > 1"

definition page_used :: "'a at_state_scheme \<Rightarrow> u32 \<Rightarrow> bool" where
  "page_used s p \<longleftrightarrow> at_allocated (AT s p) \<noteq> 0"

definition page_free :: "'a at_state_scheme \<Rightarrow> u32 \<Rightarrow> bool" where
  "page_free s p \<longleftrightarrow> page_norm s p \<and> \<not> page_used s p"

text \<open>The table update every allocation and release comes down to.\<close>

definition at_mark :: "u32 set \<Rightarrow> u32 \<Rightarrow> 'a at_state_scheme \<Rightarrow> 'a at_state_scheme" where
  "at_mark P v s = s\<lparr>AT := (\<lambda>p. if p \<in> P then (AT s p)\<lparr>at_allocated := v\<rparr> else AT s p)\<rparr>"

lemma at_is_norm_spec [layer_spec]:
  "p < AT_SIZE \<Longrightarrow> at_is_norm p s = Inr (if page_norm s p then 1 else 0)"
  by (simp add: at_is_norm_def page_norm_def)

lemma at_is_allocated_spec [layer_spec]:
  "p < AT_SIZE \<Longrightarrow> at_is_allocated p s = Inr (if page_used s p then 1 else 0)"
  by (simp add: at_is_allocated_def page_used_def)

lemma at_set_allocated_spec [layer_spec]:
  "p < AT_SIZE \<Longrightarrow> at_set_allocated p v s = Inr (at_mark {p} v s)"
  by (simp add: at_set_allocated_def at_mark_def fun_upd_def if_distrib[of "\<lambda>f. f _"]
      cong: if_cong)

lemma at_set_perm_spec [layer_spec]:
  "p < AT_SIZE \<Longrightarrow>
     at_set_perm p v s = Inr (s\<lparr>AT := (AT s)(p := \<lparr>at_perm = v, at_allocated = 0\<rparr>)\<rparr>)"
  by (cases "AT s p") (simp add: at_set_perm_def Let_def)

lemma page_norm_mark [simp]: "page_norm (at_mark P v s) p = page_norm s p"
  by (simp add: page_norm_def at_mark_def)

lemma page_used_mark: "page_used (at_mark P v s) p = (if p \<in> P then v \<noteq> 0 else page_used s p)"
  by (simp add: page_used_def at_mark_def)

lemma page_free_mark:
  "page_free (at_mark P v s) p = (page_norm s p \<and> (if p \<in> P then v = 0 else \<not> page_used s p))"
  by (simp add: page_free_def page_used_mark)

lemma at_mark_mark: "at_mark P v (at_mark Q v s) = at_mark (P \<union> Q) v s"
  by (simp add: at_mark_def fun_eq_iff)

lemma at_mark_empty [simp]: "at_mark {} v s = s"
  by (simp add: at_mark_def)

text \<open>Marking a page allocated and then unallocated restores a table in which it was unallocated.\<close>

lemma at_mark_release:
  assumes "\<And>p. p \<in> P \<Longrightarrow> \<not> page_used s p"
  shows "at_mark P 0 (at_mark P v s) = s"
proof -
  have "(\<lambda>p. if p \<in> P then (AT s p)\<lparr>at_allocated := 0\<rparr> else AT s p) = AT s"
  proof
    fix p
    have "(AT s p)\<lparr>at_allocated := 0\<rparr> = AT s p" if "p \<in> P"
      using assms[OF that] by (cases "AT s p") (simp add: page_used_def)
    then show "(if p \<in> P then (AT s p)\<lparr>at_allocated := 0\<rparr> else AT s p) = AT s p" by simp
  qed
  moreover have "at_mark P 0 (at_mark P v s) = at_mark P 0 s"
    by (simp add: at_mark_def fun_eq_iff)
  ultimately show ?thesis by (simp add: at_mark_def)
qed

end
