(* ===== verification/MATOp.thy ===== *)
theory MATOp
  imports MATIntro
begin

text \<open>
  The physical page allocator of \<^verbatim>\<open>kern/pmm/MATOp/MATOp.c\<close>: single pages
  (\<^verbatim>\<open>palloc\<close>, \<^verbatim>\<open>pfree\<close>) and runs of pages (\<^verbatim>\<open>consecutive_palloc\<close>,
  \<^verbatim>\<open>consecutive_pfree\<close>). Page index 0 reports failure.
\<close>

section \<open>Single pages\<close>

function palloc_scan :: "u32 \<Rightarrow> 'a at_state_scheme \<Rightarrow> (u32 \<times> 'a at_state_scheme) res" where
  "palloc_scan i s =
     (if i < VM_USERHI_PI
      then rbind (at_is_norm i s) (\<lambda>n.
           if n = 0 then palloc_scan (i + 1) s
           else rbind (at_is_allocated i s) (\<lambda>a.
                if a = 1 then palloc_scan (i + 1) s
                else rbind (at_set_allocated i 1 s) (\<lambda>s'. Inr (i, s'))))
      else Inr (0, s))"
  by pat_completeness auto
termination
  by (relation "measure (\<lambda>(i, s). unat (VM_USERHI_PI - i))") (simp_all add: word_count_down)

declare palloc_scan.simps [simp del]

definition palloc :: "'a at_state_scheme \<Rightarrow> (u32 \<times> 'a at_state_scheme) res" where
  "palloc s = palloc_scan VM_USERLO_PI s"

definition pfree :: "u32 \<Rightarrow> 'a at_state_scheme \<Rightarrow> 'a at_state_scheme res" where
  "pfree pfree_index s = at_set_allocated pfree_index 0 s"

section \<open>Runs of pages\<close>

text \<open>
  The inner \<^verbatim>\<open>while\<close> of \<^verbatim>\<open>consecutive_palloc\<close>: its result is the values of
  \<^verbatim>\<open>i\<close>, \<^verbatim>\<open>end\<close> and \<^verbatim>\<open>cnt\<close> when it is left, by the \<^verbatim>\<open>break\<close> or by its
  condition. The page it tests is \<^verbatim>\<open>i\<close>, not \<^verbatim>\<open>end\<close>.
\<close>

function cpalloc_inner ::
  "u32 \<Rightarrow> u32 \<Rightarrow> u32 \<Rightarrow> u32 \<Rightarrow> 'a at_state_scheme \<Rightarrow> (u32 \<times> u32 \<times> u32) res" where
  "cpalloc_inner page_num i e cnt s =
     (if e < VM_USERHI_PI \<and> cnt > 0
      then rbind (rbind (at_is_norm i s) (\<lambda>n.
                  if n = 0 then Inr True
                  else rbind (at_is_allocated i s) (\<lambda>a. Inr (a = 1)))) (\<lambda>busy.
           if busy then Inr (e + 1, e, page_num)
           else cpalloc_inner page_num i (e + 1) (cnt - 1) s)
      else Inr (i, e, cnt))"
  by pat_completeness auto
termination
  by (relation "measure (\<lambda>(page_num, i, e, cnt, s). unat (VM_USERHI_PI - e))")
     (simp_all add: word_count_down)

declare cpalloc_inner.simps [simp del]

lemma cpalloc_inner_progress:
  "cpalloc_inner page_num i e cnt s = Inr (i', e', cnt') \<Longrightarrow> i \<le> e \<Longrightarrow>
     i < i' \<and> i' \<le> VM_USERHI_PI \<or> i' = i \<and> cnt' \<le> cnt \<and> (e < VM_USERHI_PI \<and> cnt > 0 \<longrightarrow> cnt' < cnt)"
proof (induction page_num i e cnt s rule: cpalloc_inner.induct)
  case (1 page_num i e cnt s)
  have step: "e < VM_USERHI_PI \<Longrightarrow> i \<le> e + 1 \<and> i < e + 1 \<and> e + 1 \<le> VM_USERHI_PI"
    using "1.prems"(2) by unat_arith
  have dec: "cnt > 0 \<Longrightarrow> cnt - 1 < cnt" by unat_arith
  show ?case
  proof (cases "e < VM_USERHI_PI \<and> cnt > 0")
    case True
    with "1.prems"(1) obtain busy where
      b: "rbind (at_is_norm i s) (\<lambda>n. if n = 0 then Inr True
            else rbind (at_is_allocated i s) (\<lambda>a. Inr (a = 1))) = Inr busy"
      and r: "(if busy then Inr (e + 1, e, page_num)
            else cpalloc_inner page_num i (e + 1) (cnt - 1) s) = Inr (i', e', cnt')"
      by (subst (asm) cpalloc_inner.simps) (auto simp: rbind_eq_Inr split: if_splits)
    show ?thesis
    proof (cases busy)
      case True
      with r step \<open>e < VM_USERHI_PI \<and> cnt > 0\<close> show ?thesis by auto
    next
      case False
      have "i < i' \<and> i' \<le> VM_USERHI_PI \<or> i' = i \<and> cnt' \<le> cnt - 1"
        using "1.IH"[OF True b False] False r step True by auto
      with dec True show ?thesis by (auto intro: order_le_less_trans)
    qed
  next
    case False
    with "1.prems"(1) show ?thesis by (subst (asm) cpalloc_inner.simps) auto
  qed
qed

text \<open>The outer \<^verbatim>\<open>while\<close>, and the run that is marked before \<^verbatim>\<open>return i\<close>.\<close>

function cpalloc_outer ::
  "u32 \<Rightarrow> u32 \<Rightarrow> u32 \<Rightarrow> 'a at_state_scheme \<Rightarrow> (u32 \<times> 'a at_state_scheme) res" where
  "cpalloc_outer page_num i cnt s =
     (if i < VM_USERHI_PI
      then rbind (cpalloc_inner page_num i i cnt s) (\<lambda>(i', e, cnt').
           if cnt' = 0
           then rbind (for_u32 i' e (\<lambda>start. at_set_allocated start 1) s) (\<lambda>s'. Inr (i', s'))
           else cpalloc_outer page_num i' cnt' s)
      else Inr (0, s))"
  by pat_completeness auto
termination
proof (relation "measures [\<lambda>(page_num, i, cnt, s). unat (VM_USERHI_PI - i),
                           \<lambda>(page_num, i, cnt, s). unat cnt]", goal_cases)
  case 1
  show ?case by simp
next
  case (2 page_num i cnt s x i' y e cnt')
  then have r: "cpalloc_inner page_num i i cnt s = Inr (i', e, cnt')" by simp
  from cpalloc_inner_progress[OF r]
  consider "i < i'" "i' \<le> VM_USERHI_PI" | "i' = i" "cnt' \<le> cnt" "cnt > 0 \<longrightarrow> cnt' < cnt"
    using \<open>i < VM_USERHI_PI\<close> by auto
  then show ?case
  proof cases
    case 1
    then show ?thesis by (simp add: word_diff_antimono)
  next
    case B: 2
    then have "cnt' < cnt" using \<open>cnt' \<noteq> 0\<close> by unat_arith
    with B show ?thesis by (simp add: word_less_nat_alt)
  qed
qed

declare cpalloc_outer.simps [simp del]

definition consecutive_palloc :: "u32 \<Rightarrow> 'a at_state_scheme \<Rightarrow> (u32 \<times> 'a at_state_scheme) res" where
  "consecutive_palloc page_num s = cpalloc_outer page_num VM_USERLO_PI page_num s"

text \<open>
  The loop counter of \<^verbatim>\<open>consecutive_pfree\<close> is a signed \<^verbatim>\<open>int\<close> compared with an
  unsigned length; the table is left long before 2^31, so it runs as an unsigned counter.
\<close>

definition consecutive_pfree :: "u32 \<Rightarrow> u32 \<Rightarrow> 'a at_state_scheme \<Rightarrow> 'a at_state_scheme res" where
  "consecutive_pfree pfree_index len s =
     for_u32 0 len (\<lambda>i. at_set_allocated (pfree_index + i) 0) s"

section \<open>What the scans find\<close>

definition user_page :: "u32 \<Rightarrow> bool" where
  "user_page p \<longleftrightarrow> VM_USERLO_PI \<le> p \<and> p < VM_USERHI_PI"

text \<open>The first free page at or after \<open>i\<close>.\<close>

definition first_free :: "'a at_state_scheme \<Rightarrow> u32 \<Rightarrow> u32 \<Rightarrow> bool" where
  "first_free s i p \<longleftrightarrow> i \<le> p \<and> p < VM_USERHI_PI \<and> page_free s p
     \<and> (\<forall>q. i \<le> q \<and> q < p \<longrightarrow> \<not> page_free s q)"

definition avail_pages :: "'a at_state_scheme \<Rightarrow> u32 set" where
  "avail_pages s = {p. user_page p \<and> page_free s p}"

lemma below_HI_in_table: "p < VM_USERHI_PI \<Longrightarrow> p < AT_SIZE"
  unfolding AT_SIZE_def VM_PI_eq by (erule order.strict_trans) simp

lemma user_page_in_table: "user_page p \<Longrightarrow> p < AT_SIZE"
  by (simp add: user_page_def below_HI_in_table)

lemma user_page_nonzero: "user_page p \<Longrightarrow> p \<noteq> 0"
  by (auto simp: user_page_def VM_PI_eq)

lemma first_free_exists:
  assumes "i \<le> q" "q < VM_USERHI_PI" "page_free s q"
  shows "\<exists>p. first_free s i p"
proof -
  define P where "P n \<longleftrightarrow> i \<le> word_of_nat n \<and> page_free s (word_of_nat n)" for n
  have ex: "P (unat q)" using assms by (simp add: P_def)
  define n where "n = (LEAST n. P n)"
  have Pn: "P n" and least: "\<And>m. P m \<Longrightarrow> n \<le> m"
    using ex by (auto simp: n_def intro: LeastI Least_le)
  have "n \<le> unat q" using least[OF ex] .
  then have un: "unat (word_of_nat n :: u32) = n"
    by (rule unat_word_of_nat_le)
  have "\<not> page_free s r" if "i \<le> r" "r < word_of_nat n" for r
  proof
    assume "page_free s r"
    with that have "P (unat r)" by (simp add: P_def)
    then have "n \<le> unat r" by (rule least)
    with that(2) un show False by (simp add: word_less_nat_alt)
  qed
  moreover have "(word_of_nat n :: u32) < VM_USERHI_PI"
    using \<open>n \<le> unat q\<close> un assms(2) by (simp add: word_less_nat_alt)
  ultimately have "first_free s i (word_of_nat n)"
    using Pn by (auto simp: first_free_def P_def)
  then show ?thesis by blast
qed

lemma first_free_next:
  "first_free s i p \<Longrightarrow> i \<noteq> p \<Longrightarrow> first_free s (i + 1) p \<and> i < VM_USERHI_PI \<and> \<not> page_free s i"
proof -
  assume f: "first_free s i p" and "i \<noteq> p"
  then have lt: "i < p" "i < VM_USERHI_PI" by (auto simp: first_free_def)
  then show ?thesis using f by (auto simp: first_free_def word_Suc_le_iff)
qed

lemma palloc_scan_found:
  "first_free s i p \<Longrightarrow> palloc_scan i s = Inr (p, at_mark {p} 1 s)"
proof (induction i s rule: palloc_scan.induct)
  case (1 i s)
  show ?case
  proof (cases "i = p")
    case True
    with "1.prems" show ?thesis
      by (subst palloc_scan.simps)
         (simp add: first_free_def page_free_def layer_spec below_HI_in_table)
  next
    case False
    from first_free_next[OF "1.prems" this]
    have nx: "first_free s (i + 1) p" "i < VM_USERHI_PI" "\<not> page_free s i" by auto
    then show ?thesis
      using "1.IH"(1)[OF nx(2) _ _ nx(1)] "1.IH"(2)[OF nx(2) _ _ _ _ nx(1)]
      by (subst palloc_scan.simps)
         (auto simp: page_free_def layer_spec below_HI_in_table)
  qed
qed

lemma palloc_scan_none:
  "(\<And>q. i \<le> q \<Longrightarrow> q < VM_USERHI_PI \<Longrightarrow> \<not> page_free s q) \<Longrightarrow> palloc_scan i s = Inr (0, s)"
proof (induction i s rule: palloc_scan.induct)
  case (1 i s)
  show ?case
  proof (cases "i < VM_USERHI_PI")
    case True
    have nx: "\<not> page_free s q" if "i + 1 \<le> q" "q < VM_USERHI_PI" for q
      using "1.prems" that True by (simp add: word_Suc_le_iff)
    from "1.prems"[of i] True have "\<not> page_free s i" by simp
    with True show ?thesis
      using "1.IH"(1)[OF True _ _ nx] "1.IH"(2)[OF True _ _ _ _ nx]
      by (subst palloc_scan.simps)
         (auto simp: page_free_def layer_spec below_HI_in_table)
  next
    case False
    then show ?thesis by (subst palloc_scan.simps) simp
  qed
qed

lemma word_range_Suc: "a \<le> i \<Longrightarrow> i < b \<Longrightarrow> {a..<(i :: u32) + 1} = insert i {a..<i}"
  by (auto simp: word_less_Suc)

text \<open>The marking loops of both run operations.\<close>

lemma mark_run:
  assumes "a \<le> b" "b \<le> AT_SIZE"
  shows "for_u32 a b (\<lambda>i. at_set_allocated i v) s = Inr (at_mark {a..<b} v s)"
proof -
  have "\<exists>t. for_u32 a b (\<lambda>i. at_set_allocated i v) s = Inr t \<and> t = at_mark {a..<b} v s"
  proof (rule for_u32_rule)
    fix i t assume "a \<le> i" "i < b" "t = at_mark {a..<i} v s"
    moreover from this have "i < AT_SIZE" using assms(2) by (metis order_less_le_trans)
    ultimately show "\<exists>t'. at_set_allocated i v t = Inr t' \<and> t' = at_mark {a..<i + 1} v s"
      by (simp add: layer_spec at_mark_mark word_range_Suc)
  qed (use assms in simp_all)
  then show ?thesis by simp
qed

section \<open>What the run allocator does\<close>

lemma cpalloc_inner_busy:
  "\<not> page_free s i \<Longrightarrow> i < VM_USERHI_PI \<Longrightarrow> e < VM_USERHI_PI \<Longrightarrow> cnt > 0 \<Longrightarrow>
     cpalloc_inner pn i e cnt s = Inr (e + 1, e, pn)"
  by (subst cpalloc_inner.simps) (auto simp: page_free_def layer_spec below_HI_in_table)

text \<open>
  Once page \<open>i\<close> is free the inner loop never looks at another page: it counts down until the
  request is exhausted or the end of user memory is reached.
\<close>

lemma cpalloc_inner_free:
  "page_free s i \<Longrightarrow> i < VM_USERHI_PI \<Longrightarrow> e \<le> VM_USERHI_PI \<Longrightarrow>
     cpalloc_inner pn i e cnt s =
       (if cnt \<le> VM_USERHI_PI - e then Inr (i, e + cnt, 0)
        else Inr (i, VM_USERHI_PI, cnt - (VM_USERHI_PI - e)))"
proof (induction pn i e cnt s rule: cpalloc_inner.induct)
  case (1 pn i e cnt s)
  show ?case
  proof (cases "e < VM_USERHI_PI \<and> cnt > 0")
    case True
    have free: "at_is_norm i s = Inr 1" "at_is_allocated i s = Inr 0"
      using "1.prems" by (auto simp: page_free_def layer_spec below_HI_in_table)
    have "e + 1 \<le> VM_USERHI_PI" using True by (simp add: word_Suc_le)
    with "1.IH"[of False] True "1.prems" free
    have IH: "cpalloc_inner pn i (e + 1) (cnt - 1) s =
       (if cnt - 1 \<le> VM_USERHI_PI - (e + 1) then Inr (i, e + 1 + (cnt - 1), 0)
        else Inr (i, VM_USERHI_PI, cnt - 1 - (VM_USERHI_PI - (e + 1))))"
      by simp
    have "cnt - 1 \<le> VM_USERHI_PI - (e + 1) \<longleftrightarrow> cnt \<le> VM_USERHI_PI - e"
      using True by (simp add: word_count_both)
    with True free IH show ?thesis
      by (subst cpalloc_inner.simps) (simp add: algebra_simps)
  next
    case False
    then have "e = VM_USERHI_PI \<or> cnt = 0" using "1.prems" by (auto simp: word_neq_0_conv)
    with False show ?thesis by (subst cpalloc_inner.simps) auto
  qed
qed

lemma cpalloc_outer_busy:
  assumes "\<not> page_free s i" "i < VM_USERHI_PI" "cnt > 0" "pn > 0"
  shows "cpalloc_outer pn i cnt s = cpalloc_outer pn (i + 1) pn s"
  using assms by (subst cpalloc_outer.simps) (auto simp: cpalloc_inner_busy)

lemma cpalloc_outer_skip:
  assumes "first_free s i f" "pn > 0"
  shows "cpalloc_outer pn i pn s = cpalloc_outer pn f pn s"
  using assms(1)
proof (induction "unat (VM_USERHI_PI - i)" arbitrary: i rule: less_induct)
  case less
  show ?case
  proof (cases "i = f")
    case False
    from first_free_next[OF less.prems this] have
      nx: "first_free s (i + 1) f" "i < VM_USERHI_PI" "\<not> page_free s i" by auto
    from less.hyps[OF word_count_down[OF nx(2)] nx(1)] nx assms(2)
    show ?thesis by (simp add: cpalloc_outer_busy)
  qed simp
qed

lemma cpalloc_outer_none:
  assumes "\<And>q. i \<le> q \<Longrightarrow> q < VM_USERHI_PI \<Longrightarrow> \<not> page_free s q" "pn > 0"
  shows "cpalloc_outer pn i pn s = Inr (0, s)"
  using assms(1)
proof (induction "unat (VM_USERHI_PI - i)" arbitrary: i rule: less_induct)
  case less
  show ?case
  proof (cases "i < VM_USERHI_PI")
    case True
    have "cpalloc_outer pn (i + 1) pn s = Inr (0, s)"
      by (rule less.hyps[OF word_count_down[OF True]]) (use less.prems True in \<open>simp add: word_Suc_le_iff\<close>)
    with True less.prems[of i] assms(2) show ?thesis by (simp add: cpalloc_outer_busy)
  next
    case False
    then show ?thesis by (subst cpalloc_outer.simps) simp
  qed
qed

text \<open>The number of pages the run that is marked really has.\<close>

definition run_length :: "u32 \<Rightarrow> u32 \<Rightarrow> nat" where
  "run_length f cnt = (unat cnt - 1) mod (unat VM_USERHI_PI - unat f) + 1"

lemma run_length_fits:
  "f < VM_USERHI_PI \<Longrightarrow> 0 < cnt \<Longrightarrow> cnt \<le> VM_USERHI_PI - f \<Longrightarrow> run_length f cnt = unat cnt"
proof -
  assume "f < VM_USERHI_PI" "0 < cnt" "cnt \<le> VM_USERHI_PI - f"
  then have "0 < unat cnt" "unat cnt \<le> unat VM_USERHI_PI - unat f"
    by (simp_all add: word_le_nat_alt unat_diff_less unat_gt_0 word_neq_0_conv)
  then show ?thesis by (simp add: run_length_def)
qed

lemma run_length_wraps:
  assumes "f < VM_USERHI_PI" "VM_USERHI_PI - f < cnt"
  shows "run_length f (cnt - (VM_USERHI_PI - f)) = run_length f cnt"
proof -
  define d where "d = unat VM_USERHI_PI - unat f"
  have "unat (cnt - (VM_USERHI_PI - f)) = unat cnt - d" "d < unat cnt"
    using assms by (simp_all add: d_def word_diff_less word_less_nat_alt unat_diff_less)
  moreover have "(unat cnt - d - 1) mod d = (unat cnt - 1) mod d"
    using \<open>d < unat cnt\<close> by (simp add: le_mod_geq diff_commute)
  ultimately show ?thesis by (simp add: run_length_def d_def)
qed

lemma cpalloc_outer_free:
  assumes "page_free s f" "f < VM_USERHI_PI" "pn > 0" "cnt > 0"
  shows "cpalloc_outer pn f cnt s
    = Inr (f, at_mark {f..<f + word_of_nat (run_length f cnt)} 1 s)"
  using assms(4)
proof (induction "unat cnt" arbitrary: cnt rule: less_induct)
  case less
  show ?case
  proof (cases "cnt \<le> VM_USERHI_PI - f")
    case True
    then have "f \<le> f + cnt" "f + cnt \<le> VM_USERHI_PI" using assms(2) by (rule word_add_in_range)+
    moreover from this have "f + cnt \<le> AT_SIZE" by (simp add: AT_SIZE_def VM_PI_eq order.trans)
    ultimately show ?thesis using True assms less.prems
      by (subst cpalloc_outer.simps) (simp add: cpalloc_inner_free mark_run run_length_fits)
  next
    case False
    define cnt' where "cnt' = cnt - (VM_USERHI_PI - f)"
    have "unat cnt' = unat cnt - (unat VM_USERHI_PI - unat f)"
        "unat VM_USERHI_PI - unat f < unat cnt" "unat f < unat VM_USERHI_PI"
      using False assms(2) unfolding cnt'_def
      by (simp_all add: word_diff_less not_le word_less_nat_alt unat_diff_less)
    then have "cnt' > 0" "unat cnt' < unat cnt" by (simp_all add: word_less_nat_alt)
    then have "cpalloc_outer pn f cnt' s
        = Inr (f, at_mark {f..<f + word_of_nat (run_length f cnt')} 1 s)"
      using less.hyps by simp
    moreover have "run_length f cnt' = run_length f cnt"
      unfolding cnt'_def by (rule run_length_wraps) (use False assms(2) in auto)
    moreover have "cnt' \<noteq> 0" using \<open>cnt' > 0\<close> by auto
    ultimately show ?thesis using False assms
      by (subst cpalloc_outer.simps) (simp add: cpalloc_inner_free flip: cnt'_def)
  qed
qed

section \<open>The interface of a page allocator\<close>

text \<open>A client that asks for \<open>n\<close> pages one after the other.\<close>

fun alloc_many :: "('s \<Rightarrow> (u32 \<times> 's) res) \<Rightarrow> nat \<Rightarrow> 's \<Rightarrow> (u32 list \<times> 's) res" where
  "alloc_many alloc 0 s = Inr ([], s)"
| "alloc_many alloc (Suc n) s =
     rbind (alloc s) (\<lambda>(p, s'). rbind (alloc_many alloc n s') (\<lambda>(ps, s''). Inr (p # ps, s'')))"

text \<open>
  What the layers above rely on: a request takes one page out of the available ones, or reports 0
  and changes nothing when there is none; releasing a page of the pool makes it available.
\<close>

locale page_allocator =
  fixes alloc :: "'s \<Rightarrow> (u32 \<times> 's) res"
    and release :: "u32 \<Rightarrow> 's \<Rightarrow> 's res"
    and avail :: "'s \<Rightarrow> u32 set"
    and poolp :: "'s \<Rightarrow> u32 \<Rightarrow> bool"
  assumes alloc_some: "avail s \<noteq> {} \<Longrightarrow> \<exists>p s'. alloc s = Inr (p, s') \<and> p \<in> avail s \<and> p \<noteq> 0
        \<and> avail s' = avail s - {p} \<and> poolp s' = poolp s"
    and alloc_none: "avail s = {} \<Longrightarrow> alloc s = Inr (0, s)"
    and release_pool: "poolp s p \<Longrightarrow>
        \<exists>s'. release p s = Inr s' \<and> avail s' = insert p (avail s) \<and> poolp s' = poolp s"
    and avail_pool: "p \<in> avail s \<Longrightarrow> poolp s p"
    and avail_finite: "finite (avail s)"
begin

lemma alloc_many_distinct:
  "n \<le> card (avail s) \<Longrightarrow> \<exists>ps s'. alloc_many alloc n s = Inr (ps, s') \<and> length ps = n
     \<and> distinct ps \<and> set ps \<subseteq> avail s \<and> avail s' = avail s - set ps"
proof (induction n arbitrary: s)
  case (Suc n)
  then have "avail s \<noteq> {}" by auto
  from alloc_some[OF this] obtain p s' where
    a: "alloc s = Inr (p, s')" "p \<in> avail s" "avail s' = avail s - {p}" by blast
  with Suc.prems have "n \<le> card (avail s')" by (simp add: avail_finite)
  from Suc.IH[OF this] obtain ps s'' where
    "alloc_many alloc n s' = Inr (ps, s'')" "length ps = n" "distinct ps"
    "set ps \<subseteq> avail s'" "avail s'' = avail s' - set ps" by blast
  with a show ?case by auto
qed simp

lemma alloc_exhausts:
  "\<exists>ps s'. alloc_many alloc (card (avail s)) s = Inr (ps, s') \<and> set ps = avail s
     \<and> alloc s' = Inr (0, s')"
proof -
  obtain ps s' where r: "alloc_many alloc (card (avail s)) s = Inr (ps, s')"
    "length ps = card (avail s)" "distinct ps" "set ps \<subseteq> avail s" "avail s' = avail s - set ps"
    using alloc_many_distinct[OF order.refl] by blast
  then have "set ps = avail s"
    by (intro card_subset_eq) (simp_all add: avail_finite distinct_card)
  with r show ?thesis by (auto intro: alloc_none)
qed

lemma release_then_alloc:
  assumes "poolp s p"
  shows "\<exists>s' q s''. release p s = Inr s' \<and> alloc s' = Inr (q, s'') \<and> q \<noteq> 0 \<and> q \<in> insert p (avail s)"
proof -
  from release_pool[OF assms] obtain s' where
    "release p s = Inr s'" "avail s' = insert p (avail s)" by blast
  with alloc_some[of s'] show ?thesis by blast
qed

end

lemma avail_pages_mark:
  "avail_pages (at_mark P v s)
     = {p. user_page p \<and> page_norm s p \<and> (if p \<in> P then v = 0 else \<not> page_used s p)}"
  by (simp add: avail_pages_def page_free_mark)

text \<open>Every result of \<^verbatim>\<open>palloc\<close>: the two branches of the scan are exhaustive.\<close>

lemma palloc_cases:
  obtains (found) p where "first_free s VM_USERLO_PI p" "palloc s = Inr (p, at_mark {p} 1 s)"
  | (none) "avail_pages s = {}" "palloc s = Inr (0, s)"
proof (cases "\<exists>q. VM_USERLO_PI \<le> q \<and> q < VM_USERHI_PI \<and> page_free s q")
  case True
  then obtain p where "first_free s VM_USERLO_PI p" using first_free_exists by blast
  with found show ?thesis by (simp add: palloc_def palloc_scan_found)
next
  case False
  then have "palloc s = Inr (0, s)" "avail_pages s = {}"
    by (auto simp: palloc_def avail_pages_def user_page_def intro!: palloc_scan_none)
  with none show ?thesis by simp
qed

lemma first_free_avail: "first_free s VM_USERLO_PI p \<Longrightarrow> p \<in> avail_pages s"
  by (simp add: first_free_def avail_pages_def user_page_def)

interpretation at: page_allocator palloc pfree avail_pages
  "\<lambda>s p. user_page p \<and> page_norm s p"
proof unfold_locales
  fix s :: "'a at_state_scheme" and p :: u32
  show "\<exists>p s'. palloc s = Inr (p, s') \<and> p \<in> avail_pages s \<and> p \<noteq> 0
      \<and> avail_pages s' = avail_pages s - {p}
      \<and> (\<lambda>p. user_page p \<and> page_norm s' p) = (\<lambda>p. user_page p \<and> page_norm s p)"
    if ne: "avail_pages s \<noteq> {}"
  proof (cases rule: palloc_cases[of s])
    case (found p)
    then have "p \<in> avail_pages s" by (intro first_free_avail)
    moreover from this have "p \<noteq> 0" by (simp add: avail_pages_def user_page_nonzero)
    ultimately show ?thesis using found
      by (auto simp: avail_pages_mark) (auto simp: avail_pages_def page_free_def)
  next
    case none
    with ne show ?thesis by simp
  qed
  show "palloc s = Inr (0, s)" if "avail_pages s = {}"
    using that by (cases rule: palloc_cases[of s]) (auto dest: first_free_avail)
  show "\<exists>s'. pfree p s = Inr s' \<and> avail_pages s' = insert p (avail_pages s)
      \<and> (\<lambda>p. user_page p \<and> page_norm s' p) = (\<lambda>p. user_page p \<and> page_norm s p)"
    if "user_page p \<and> page_norm s p"
    using that by (auto simp: pfree_def layer_spec user_page_in_table
        avail_pages_def page_free_def page_used_mark split: if_splits)
  show "user_page p \<and> page_norm s p" if "p \<in> avail_pages s"
    using that by (simp add: avail_pages_def page_free_def)
  show "finite (avail_pages s)" by simp
qed

section \<open>A concrete table\<close>

text \<open>The state at power-on except for a table with normal pages \<open>N\<close> and allocated pages \<open>U\<close>.\<close>

definition at_example :: "u32 set \<Rightarrow> u32 set \<Rightarrow> at_state" where
  "at_example N U = \<lparr>mem = (\<lambda>_. 0), cr0 = 0, cr2 = 0, cr3 = 0, cr4 = 0, layout = layout_example,
     segs = segs_example, devs = devs_example, loc_PDirPool = 0x200000,
     loc_IDPTbl = 0x400000, loc_STACK_LOC = 0x800000, pmmap_slots_next_free = 0, pmmap_list = [],
     pmmap_sublist = (\<lambda>_. []), max_usable_memory = 0, mem_npages = 0, pmmap_nentries = 0, NUM_PAGES = 0xFFFFF,
     AT = (\<lambda>p. \<lparr>at_perm = (if p \<in> N then 2 else 0), at_allocated = (if p \<in> U then 1 else 0)\<rparr>)\<rparr>"

lemma page_example [simp]:
  "page_norm (at_example N U) p \<longleftrightarrow> p \<in> N"
  "page_used (at_example N U) p \<longleftrightarrow> p \<in> U"
  "page_free (at_example N U) p \<longleftrightarrow> p \<in> N \<and> p \<notin> U"
  by (simp_all add: page_norm_def page_used_def page_free_def at_example_def)

lemma avail_example:
  "avail_pages (at_example {0x40000, 0x40001} {}) = {0x40000, 0x40001}"
  by (auto simp: avail_pages_def user_page_def VM_PI_eq)

lemma first_free_example: "first_free (at_example {0x40000, 0x40001} U) 0x40000 0x40000" if "0x40000 \<notin> U"
  using that by (auto simp: first_free_def VM_PI_eq)

section \<open>Properties\<close>

text \<open>
  C11: \<^verbatim>\<open>palloc\<close> always returns. When some page of user memory is normal and unallocated it
  answers the lowest such page and sets that page's allocation flag and nothing else; when there is
  none it answers 0 and leaves the state as it was.
\<close>

theorem palloc_first_free:
  "if \<exists>p. user_page p \<and> page_free s p
   then \<exists>p. first_free s VM_USERLO_PI p \<and> palloc s = Inr (p, at_mark {p} 1 s)
   else palloc s = Inr (0, s)"
proof (cases rule: palloc_cases[of s])
  case (found p)
  with first_free_avail[OF found(1)] show ?thesis by (auto simp: avail_pages_def)
qed (auto simp: avail_pages_def)

text \<open>
  Pages handed out by successive \<^verbatim>\<open>palloc\<close> calls with no release in between are pairwise
  distinct pages of the free pool, as long as the pool is not exhausted, and they leave the pool.
\<close>

theorem palloc_many_distinct:
  assumes "n \<le> card (avail_pages s)"
  shows "\<exists>ps s'. alloc_many palloc n s = Inr (ps, s') \<and> length ps = n \<and> distinct ps
     \<and> set ps \<subseteq> avail_pages s \<and> avail_pages s' = avail_pages s - set ps"
  using assms by (rule at.alloc_many_distinct)

theorem palloc_many_distinct_witness:
  "\<exists>ps s'. alloc_many palloc 2 (at_example {0x40000, 0x40001} {}) = Inr (ps, s') \<and> distinct ps
     \<and> length ps = 2"
  using palloc_many_distinct[of 2 "at_example {0x40000, 0x40001} {}"] by (auto simp: avail_example)

text \<open>
  Releasing the page \<^verbatim>\<open>palloc\<close> has just handed out restores the allocation table exactly.
\<close>

theorem palloc_pfree_roundtrip:
  assumes "palloc s = Inr (p, s')" "p \<noteq> 0"
  shows "pfree p s' = Inr s"
proof (cases rule: palloc_cases[of s])
  case (found q)
  with assms have q: "p = q" "s' = at_mark {p} 1 s" "p < AT_SIZE" "\<not> page_used s p"
    by (auto simp: first_free_def page_free_def below_HI_in_table)
  then have "pfree p s' = Inr (at_mark {p} 0 (at_mark {p} 1 s))"
    by (simp add: pfree_def layer_spec)
  also have "at_mark {p} 0 (at_mark {p} 1 s) = s"
    by (rule at_mark_release) (use q in simp)
  finally show ?thesis .
qed (use assms in simp)

theorem palloc_pfree_roundtrip_witness:
  "pfree 0x40000 (at_mark {0x40000} 1 (at_example {0x40000, 0x40001} {}))
     = Inr (at_example {0x40000, 0x40001} {})"
proof -
  have "palloc (at_example {0x40000, 0x40001} {})
      = Inr (0x40000, at_mark {0x40000} 1 (at_example {0x40000, 0x40001} {}))"
    by (simp add: palloc_def VM_PI_eq palloc_scan_found first_free_example)
  from palloc_pfree_roundtrip[OF this] show ?thesis by simp
qed

text \<open>
  What \<^verbatim>\<open>consecutive_palloc\<close> does for every positive length and every table. It always
  returns. With no free page it answers 0. Otherwise it answers the first free page \<open>f\<close> and marks
  the run of \<open>run_length\<close> pages that starts there, whatever the state of the pages after \<open>f\<close>; that
  run has the requested length exactly when the request fits between \<open>f\<close> and the end of user memory.
\<close>

theorem consecutive_palloc_result:
  assumes "0 < page_num"
  shows "if \<exists>p. user_page p \<and> page_free s p
     then \<exists>f. first_free s VM_USERLO_PI f
        \<and> consecutive_palloc page_num s
            = Inr (f, at_mark {f..<f + word_of_nat (run_length f page_num)} 1 s)
        \<and> (page_num \<le> VM_USERHI_PI - f \<longleftrightarrow> run_length f page_num = unat page_num)
     else consecutive_palloc page_num s = Inr (0, s)"
proof (cases "\<exists>p. user_page p \<and> page_free s p")
  case True
  then obtain f where f: "first_free s VM_USERLO_PI f"
    using first_free_exists unfolding user_page_def by blast
  then have free: "page_free s f" "f < VM_USERHI_PI" by (auto simp: first_free_def)
  have "\<not> page_num \<le> VM_USERHI_PI - f \<Longrightarrow> run_length f page_num \<noteq> unat page_num"
  proof -
    assume "\<not> page_num \<le> VM_USERHI_PI - f"
    then have "unat VM_USERHI_PI - unat f < unat page_num" "0 < unat VM_USERHI_PI - unat f"
      using free by (simp_all add: word_le_nat_alt word_less_nat_alt unat_diff_less)
    then show ?thesis
      using mod_less_divisor[of "unat VM_USERHI_PI - unat f" "unat page_num - 1"]
      unfolding run_length_def by linarith
  qed
  with f free True assms show ?thesis
    by (auto simp: consecutive_palloc_def cpalloc_outer_skip cpalloc_outer_free run_length_fits
        intro!: exI[of _ f])
next
  case False
  with assms show ?thesis
    by (auto simp: consecutive_palloc_def user_page_def intro!: cpalloc_outer_none)
qed

theorem consecutive_palloc_result_witness:
  "\<exists>f s'. consecutive_palloc 2 (at_example {0x40000, 0x40001} {}) = Inr (f, s') \<and> f \<noteq> 0
     \<and> page_used s' (f + 1)"
proof -
  let ?s = "at_example {0x40000, 0x40001} {}"
  have ex: "\<exists>p. user_page p \<and> page_free ?s p"
    using avail_example by (auto simp: avail_pages_def)
  obtain f where f: "first_free ?s VM_USERLO_PI f"
    "consecutive_palloc 2 ?s = Inr (f, at_mark {f..<f + word_of_nat (run_length f 2)} 1 ?s)"
    using consecutive_palloc_result[of 2 ?s] ex by auto
  have "f = 0x40000"
    using f(1) first_free_example[of "{}"] by (auto simp: first_free_def VM_PI_eq)
  with f show ?thesis by (simp add: page_used_mark run_length_def VM_PI_eq)
qed

text \<open>
  C38: the run allocator hands out pages that are already in use. When the page after the first free
  one is allocated, a request for two pages still succeeds with the run that contains it.
\<close>

theorem consecutive_palloc_double_allocation:
  assumes "first_free s VM_USERLO_PI f" "f + 1 < VM_USERHI_PI" "page_used s (f + 1)"
  shows "consecutive_palloc 2 s = Inr (f, at_mark {f, f + 1} 1 s)"
proof -
  from assms(1) have f: "page_free s f" "f < VM_USERHI_PI" by (auto simp: first_free_def)
  have u: "unat (f + 1) = Suc (unat f)" using f(2) by (rule unat_Suc)
  with assms(2) have "Suc (unat f) < unat VM_USERHI_PI" by (simp add: word_less_nat_alt)
  then have "run_length f 2 = 2" by (simp add: run_length_def)
  moreover have "{f..<f + 2} = {f, f + 1}"
    using word_range_Suc[of f "f + 1" VM_USERHI_PI] word_range_Suc[of f f VM_USERHI_PI] f assms(2) u
    by (auto simp: word_le_nat_alt algebra_simps)
  ultimately show ?thesis using assms(1) f
    by (simp add: consecutive_palloc_def cpalloc_outer_skip cpalloc_outer_free)
qed

theorem consecutive_palloc_double_allocation_witness:
  "consecutive_palloc 2 (at_example {0x40000, 0x40001} {0x40001})
     = Inr (0x40000, at_mark {0x40000, 0x40001} 1 (at_example {0x40000, 0x40001} {0x40001}))"
  using consecutive_palloc_double_allocation[of "at_example {0x40000, 0x40001} {0x40001}" "0x40000"]
    first_free_example[of "{0x40001}"] by (simp add: VM_PI_eq)

end
