(* ===== verification/KString.thy ===== *)
theory KString
  imports Machine
begin

text \<open>
  Memory and string routines of the kernel, \<^verbatim>\<open>kern/lib/string.c\<close>, over the bytes of memory.
  The x86 string instructions the routines are built from (\<^verbatim>\<open>rep stosb\<close>, \<^verbatim>\<open>rep movsl\<close>, in
  both directions) are the recursions \<open>rep_...\<close>; their counts come from 32-bit registers. The
  routines that return their first argument are modelled by the memory they leave.
\<close>

section \<open>String instructions\<close>

fun rep_stosb :: "nat \<Rightarrow> u32 \<Rightarrow> u8 \<Rightarrow> memory \<Rightarrow> memory" where
  "rep_stosb 0 edi al m = m"
| "rep_stosb (Suc n) edi al m = rep_stosb n (edi + 1) al (m(edi := al))"

fun rep_stosl :: "nat \<Rightarrow> u32 \<Rightarrow> u32 \<Rightarrow> memory \<Rightarrow> memory" where
  "rep_stosl 0 edi eax m = m"
| "rep_stosl (Suc n) edi eax m = rep_stosl n (edi + 4) eax (store32 m edi eax)"

fun rep_movsb :: "nat \<Rightarrow> u32 \<Rightarrow> u32 \<Rightarrow> memory \<Rightarrow> memory" where
  "rep_movsb 0 edi esi m = m"
| "rep_movsb (Suc n) edi esi m = rep_movsb n (edi + 1) (esi + 1) (m(edi := m esi))"

fun rep_movsl :: "nat \<Rightarrow> u32 \<Rightarrow> u32 \<Rightarrow> memory \<Rightarrow> memory" where
  "rep_movsl 0 edi esi m = m"
| "rep_movsl (Suc n) edi esi m = rep_movsl n (edi + 4) (esi + 4) (store32 m edi (load32 m esi))"

text \<open>With the direction flag set the pointers run downwards.\<close>

fun std_rep_movsb :: "nat \<Rightarrow> u32 \<Rightarrow> u32 \<Rightarrow> memory \<Rightarrow> memory" where
  "std_rep_movsb 0 edi esi m = m"
| "std_rep_movsb (Suc n) edi esi m = std_rep_movsb n (edi - 1) (esi - 1) (m(edi := m esi))"

fun std_rep_movsl :: "nat \<Rightarrow> u32 \<Rightarrow> u32 \<Rightarrow> memory \<Rightarrow> memory" where
  "std_rep_movsl 0 edi esi m = m"
| "std_rep_movsl (Suc n) edi esi m = std_rep_movsl n (edi - 4) (esi - 4) (store32 m edi (load32 m esi))"

section \<open>Routines\<close>

text \<open>
  \<^verbatim>\<open>(int) v % 4 == 0\<close> reads the address as a signed number; the remainder is 0 exactly when the
  two low bits are, so it is the unsigned remainder that is tested here.
\<close>

definition memset :: "u32 \<Rightarrow> i32 \<Rightarrow> u32 \<Rightarrow> memory \<Rightarrow> memory" where
  "memset v c n m =
     (if n = 0 then m
      else if v mod 4 = 0 \<and> n mod 4 = 0
      then (let c = c AND 0xFF;
                c = push_bit 24 c OR push_bit 16 c OR push_bit 8 c OR c
            in rep_stosl (unat (n div 4)) v c m)
      else rep_stosb (unat n) v (ucast c) m)"

definition memmove :: "u32 \<Rightarrow> u32 \<Rightarrow> u32 \<Rightarrow> memory \<Rightarrow> memory" where
  "memmove dst src n m =
     (let s = src; d = dst
      in if s < d \<and> d < s + n
         then (let s = s + n; d = d + n
               in if s mod 4 = 0 \<and> d mod 4 = 0 \<and> n mod 4 = 0
                  then std_rep_movsl (unat (n div 4)) (d - 4) (s - 4) m
                  else std_rep_movsb (unat n) (d - 1) (s - 1) m)
         else (if s mod 4 = 0 \<and> d mod 4 = 0 \<and> n mod 4 = 0
               then rep_movsl (unat (n div 4)) d s m
               else rep_movsb (unat n) d s m))"

definition memcpy :: "u32 \<Rightarrow> u32 \<Rightarrow> u32 \<Rightarrow> memory \<Rightarrow> memory" where
  "memcpy dst src n m = memmove dst src n m"

definition memzero :: "u32 \<Rightarrow> u32 \<Rightarrow> memory \<Rightarrow> memory" where
  "memzero v n m = memset v 0 n m"

text \<open>The difference of two bytes as an \<^verbatim>\<open>int\<close>.\<close>

definition byte_diff :: "u8 \<Rightarrow> u8 \<Rightarrow> int" where
  "byte_diff a b = uint a - uint b"

function strncmp :: "u32 \<Rightarrow> u32 \<Rightarrow> u32 \<Rightarrow> memory \<Rightarrow> int" where
  "strncmp p q n m =
     (if n > 0 \<and> m p \<noteq> 0 \<and> m p = m q then strncmp (p + 1) (q + 1) (n - 1) m
      else if n = 0 then 0 else byte_diff (m p) (m q))"
  by pat_completeness auto
termination
  by (relation "measure (\<lambda>(p, q, n, m). unat n)") (auto simp: word_less_nat_alt unat_eq_zero, unat_arith)

declare strncmp.simps [simp del]

text \<open>The counter \<^verbatim>\<open>n\<close> of the loop is an \<^verbatim>\<open>int\<close>: it is kept at 32 bits.\<close>

function strnlen_loop :: "u32 \<Rightarrow> u32 \<Rightarrow> i32 \<Rightarrow> memory \<Rightarrow> i32" where
  "strnlen_loop s sz n m =
     (if sz > 0 \<and> m s \<noteq> 0 then strnlen_loop (s + 1) (sz - 1) (n + 1) m else n)"
  by pat_completeness auto
termination
  by (relation "measure (\<lambda>(s, sz, n, m). unat sz)") (auto, unat_arith)

declare strnlen_loop.simps [simp del]

definition strnlen :: "u32 \<Rightarrow> u32 \<Rightarrow> memory \<Rightarrow> i32" where
  "strnlen s sz m = strnlen_loop s sz 0 m"

text \<open>Two loops with no bound: on memory without a zero byte they do not return.\<close>

partial_function (option) strcmp :: "u32 \<Rightarrow> u32 \<Rightarrow> memory \<Rightarrow> int option" where
  "strcmp p q m = (if m p \<noteq> 0 \<and> m p = m q then strcmp (p + 1) (q + 1) m else Some (byte_diff (m p) (m q)))"

partial_function (option) strchr :: "u32 \<Rightarrow> u8 \<Rightarrow> memory \<Rightarrow> u32 option" where
  "strchr s c m = (if m s = 0 then Some 0 else if m s = c then Some s else strchr (s + 1) c m)"

section \<open>What the instructions do\<close>

lemma unat_u32_less: "unat (a :: u32) < 4294967296"
  using unsigned_less[of a, where ?'a = nat] by simp

lemma offset_Suc: "unat ((a :: u32) - d) < Suc n \<longleftrightarrow> a = d \<or> unat (a - (d + 1)) < n" if "n < 4294967296"
proof (cases "a = d")
  case False
  then have "unat (a - (d + 1)) = unat (a - d) - 1" "unat (a - d) \<noteq> 0" by unat_arith+
  then show ?thesis using False by auto
qed simp

lemma unat_minus_one: "unat (- 1 :: u32) = 4294967295"
  by (simp add: unsigned_minus_1_eq_mask mask_eq_exp_minus_1)

lemma offset_self: "n < 4294967296 \<Longrightarrow> \<not> unat ((d :: u32) - (d + 1)) < n"
  using unat_minus_one by (simp add: algebra_simps del: unsigned_minus_1_eq_mask)

lemma rep_stosb_eq:
  "n \<le> 4294967296 \<Longrightarrow> rep_stosb n d b m = (\<lambda>a. if unat (a - d) < n then b else m a)"
proof (induction n arbitrary: d m)
  case (Suc n)
  then have n: "n < 4294967296" by simp
  have "rep_stosb (Suc n) d b m = (\<lambda>a. if unat (a - (d + 1)) < n then b else (m(d := b)) a)"
    using n by (simp only: rep_stosb.simps Suc.IH order_less_imp_le)
  then show ?case by (auto simp: fun_eq_iff offset_Suc[OF n] offset_self[OF n])
qed simp

lemma rep_movsb_eq:
  assumes "n \<le> 4294967296" "d = s \<or> n \<le> unat (d - s)"
  shows "rep_movsb n d s m = (\<lambda>a. if unat (a - d) < n then m (s + (a - d)) else m a)"
  using assms
proof (induction n arbitrary: d s m)
  case (Suc n)
  then have n: "n < 4294967296" by simp
  have "d + 1 = s + 1 \<or> n \<le> unat ((d + 1) - (s + 1))" using Suc.prems(2) by auto
  note IH = Suc.IH[OF order_less_imp_le[OF n] this, of "m(d := m s)"]
  have same: "(m(d := m s)) (s + (a - d)) = m (s + (a - d))" if "unat (a - (d + 1)) < n" for a
  proof (cases "d = s \<or> s + (a - d) \<noteq> d")
    case False
    then have eq: "a - d = d - s" by (metis add_diff_cancel_left')
    moreover have "unat (a - d) < Suc n" using that offset_Suc[OF n, of a d] by simp
    ultimately show ?thesis using Suc.prems(2) False by simp
  qed auto
  have "s + 1 + (a - (d + 1)) = s + (a - d)" for a by simp
  then have step: "rep_movsb (Suc n) d s m
      = (\<lambda>a. if unat (a - (d + 1)) < n then (m(d := m s)) (s + (a - d)) else (m(d := m s)) a)"
    using IH by (simp only: rep_movsb.simps)
  show ?case
  proof
    fix a
    show "rep_movsb (Suc n) d s m a = (if unat (a - d) < Suc n then m (s + (a - d)) else m a)"
      using fun_cong[OF step, of a] same[of a] offset_self[OF n, of d]
      by (cases "a = d") (simp_all add: offset_Suc[OF n] del: rep_movsb.simps)
  qed
qed simp

lemma offset_down: "unat ((d :: u32) - a) < Suc n \<longleftrightarrow> a = d \<or> unat (d - 1 - a) < n" if "n < 4294967296"
proof (cases "a = d")
  case False
  then have "unat (d - 1 - a) = unat (d - a) - 1" "unat (d - a) \<noteq> 0" by unat_arith+
  then show ?thesis using False by auto
qed simp

lemma offset_down_self: "n < 4294967296 \<Longrightarrow> \<not> unat ((d :: u32) - 1 - d) < n"
  using unat_minus_one by (simp add: algebra_simps del: unsigned_minus_1_eq_mask)

lemma std_rep_movsb_eq:
  assumes "n \<le> 4294967296" "d = s \<or> n \<le> unat (s - d)"
  shows "std_rep_movsb n d s m = (\<lambda>a. if unat (d - a) < n then m (s - (d - a)) else m a)"
  using assms
proof (induction n arbitrary: d s m)
  case (Suc n)
  then have n: "n < 4294967296" by simp
  have "d - 1 = s - 1 \<or> n \<le> unat ((s - 1) - (d - 1))" using Suc.prems(2) by auto
  note IH = Suc.IH[OF order_less_imp_le[OF n] this, of "m(d := m s)"]
  have same: "(m(d := m s)) (s - (d - a)) = m (s - (d - a))" if "unat (d - 1 - a) < n" for a
  proof (cases "d = s \<or> s - (d - a) \<noteq> d")
    case False
    then have eq: "d - a = s - d" by (metis diff_eq_eq add.commute)
    have "unat (d - a) < Suc n" using that offset_down[OF n, of d a] by simp
    then have "unat (s - d) < Suc n" by (simp only: eq)
    then show ?thesis using Suc.prems(2) False by auto
  qed auto
  have "s - 1 - (d - 1 - a) = s - (d - a)" for a by simp
  then have step: "std_rep_movsb (Suc n) d s m
      = (\<lambda>a. if unat (d - 1 - a) < n then (m(d := m s)) (s - (d - a)) else (m(d := m s)) a)"
    using IH by (simp only: std_rep_movsb.simps)
  show ?case
  proof
    fix a
    show "std_rep_movsb (Suc n) d s m a = (if unat (d - a) < Suc n then m (s - (d - a)) else m a)"
      using fun_cong[OF step, of a] same[of a] offset_down_self[OF n, of d]
      by (cases "a = d") (simp_all add: offset_down[OF n] del: std_rep_movsb.simps)
  qed
qed simp

text \<open>Four-byte steps on aligned pointers are four one-byte steps.\<close>

lemma rep_stosb_add: "rep_stosb (j + n) d b m = rep_stosb n (d + word_of_nat j) b (rep_stosb j d b m)"
  by (induction j arbitrary: d m) (simp_all add: algebra_simps)

lemma rep_movsb_add:
  "rep_movsb (j + n) d s m = rep_movsb n (d + word_of_nat j) (s + word_of_nat j) (rep_movsb j d s m)"
  by (induction j arbitrary: d s m) (simp_all add: algebra_simps)

lemma std_rep_movsb_add:
  "std_rep_movsb (j + n) d s m = std_rep_movsb n (d - word_of_nat j) (s - word_of_nat j) (std_rep_movsb j d s m)"
  by (induction j arbitrary: d s m) (simp_all add: algebra_simps)

lemma aligned4_mod: "aligned4 a \<longleftrightarrow> a mod 4 = 0"
  by (simp add: aligned4_def unat_mod flip: unat_eq_zero)

lemma aligned4_diff: "aligned4 a \<Longrightarrow> aligned4 b \<Longrightarrow> aligned4 (a - b)"
  unfolding aligned4_def unat_sub_if' word_size using unat_u32_less[of a] unat_u32_less[of b]
  by (simp split: if_splits) presburger

lemma aligned4_add: "aligned4 a \<Longrightarrow> aligned4 b \<Longrightarrow> aligned4 (a + b)"
  using aligned4_diff[of a "0 - b"] aligned4_diff[of 0 b] by (simp add: aligned4_def)

lemma aligned4_4: "aligned4 4"
  by (simp add: aligned4_def)

lemma aligned4_apart:
  assumes "aligned4 d" "aligned4 s"
  shows "d = s \<or> 4 \<le> unat (d - s)"
proof -
  have "4 dvd unat (d - s)" using aligned4_diff[OF assms] by (auto simp: aligned4_def)
  moreover have "unat (d - s) = 0 \<longleftrightarrow> d = s" by (simp add: unat_eq_zero)
  ultimately show ?thesis using dvd_imp_le[of 4 "unat (d - s)"] by (cases "unat (d - s) = 0") simp_all
qed

lemma store32_bytes:
  "store32 m d v = (\<lambda>a. if a = d then ucast v else if a = d + 1 then ucast (drop_bit 8 v)
     else if a = d + 2 then ucast (drop_bit 16 v) else if a = d + 3 then ucast (drop_bit 24 v) else m a)"
  by (auto simp: store32_def)

lemma load32_bytes:
  "ucast (load32 m s) = m s" "ucast (drop_bit 8 (load32 m s)) = m (s + 1)"
  "ucast (drop_bit 16 (load32 m s)) = m (s + 2)" "ucast (drop_bit 24 (load32 m s)) = m (s + 3)"
  by (rule bit_word_eqI; auto simp: load32_def bit_simps dest: bit_imp_le_length)+

lemma unat_less_4: "unat (x :: u32) < 4 \<longleftrightarrow> x = 0 \<or> x = 1 \<or> x = 2 \<or> x = 3"
  by unat_arith

lemma store32_load32:
  "store32 m d (load32 m s) = (\<lambda>a. if unat (a - d) < 4 then m (s + (a - d)) else m a)"
proof
  fix a
  consider "a = d" | "a = d + 1" | "a = d + 2" | "a = d + 3" | "\<not> unat (a - d) < 4"
    unfolding unat_less_4 by (metis diff_eq_eq add.commute add_0)
  then show "store32 m d (load32 m s) a = (if unat (a - d) < 4 then m (s + (a - d)) else m a)"
    by cases (auto simp: store32_bytes load32_bytes)
qed

lemma movsl_movsb:
  assumes "aligned4 d" "aligned4 s"
  shows "rep_movsl n d s m = rep_movsb (4 * n) d s m"
  using assms
proof (induction n arbitrary: d s m)
  case (Suc n)
  then have "rep_movsl n (d + 4) (s + 4) m' = rep_movsb (4 * n) (d + 4) (s + 4) m'" for m'
    using aligned4_add[OF _ aligned4_4] by blast
  moreover have "store32 m d (load32 m s) = rep_movsb 4 d s m"
    using rep_movsb_eq[of 4 d s m] aligned4_apart[OF Suc.prems] by (simp add: store32_load32)
  ultimately show ?case using rep_movsb_add[of 4 "4 * n" d s m] by (simp only: rep_movsl.simps mult_Suc_right) simp
qed simp

lemma std_movsl_movsb:
  assumes "aligned4 d" "aligned4 s"
  shows "std_rep_movsl n d s m = std_rep_movsb (4 * n) (d + 3) (s + 3) m"
  using assms
proof (induction n arbitrary: d s m)
  case (Suc n)
  then have IH: "std_rep_movsl n (d - 4) (s - 4) m' = std_rep_movsb (4 * n) (d - 4 + 3) (s - 4 + 3) m'" for m'
    using aligned4_diff[OF _ aligned4_4] by blast
  have off: "(d + 3) - a = 3 - (a - d)" "(s + 3) - (3 - (a - d)) = s + (a - d)" for a by simp_all
  have lt: "unat (3 - x) < 4 \<longleftrightarrow> unat x < 4" for x :: u32 unfolding unat_less_4 by (auto simp: algebra_simps)
  have "std_rep_movsb 4 (d + 3) (s + 3) m = store32 m d (load32 m s)"
    using std_rep_movsb_eq[of 4 "d + 3" "s + 3" m] aligned4_apart[OF Suc.prems(2,1)]
    by (simp only: store32_load32 off lt) auto
  then show ?case using std_rep_movsb_add[of 4 "4 * n" "d + 3" "s + 3" m] IH
    by (simp only: std_rep_movsl.simps mult_Suc_right) simp
qed simp

lemma stosl_stosb:
  assumes "ucast v = b" "ucast (drop_bit 8 v) = b" "ucast (drop_bit 16 v) = b" "ucast (drop_bit 24 v) = b"
  shows "rep_stosl n d v m = rep_stosb (4 * n) d b m"
proof (induction n arbitrary: d m)
  case (Suc n)
  have "store32 m d v = rep_stosb 4 d b m" using assms by (simp add: store32_def numeral_eq_Suc add.assoc)
  with Suc rep_stosb_add[of 4 "4 * n" d b m] show ?case by (simp only: rep_stosl.simps mult_Suc_right) simp
qed simp

section \<open>Memory routines are correct\<close>

lemma byte_replicate:
  fixes c :: u32
  defines "v \<equiv> push_bit 24 (c AND 0xFF) OR push_bit 16 (c AND 0xFF) OR push_bit 8 (c AND 0xFF) OR (c AND 0xFF)"
  shows "ucast v = (ucast c :: u8)" "ucast (drop_bit 8 v) = (ucast c :: u8)"
    "ucast (drop_bit 16 v) = (ucast c :: u8)" "ucast (drop_bit 24 v) = (ucast c :: u8)"
proof -
  have "c AND 0xFF = take_bit 8 c" by (simp add: take_bit_eq_mask mask_eq_exp_minus_1)
  then show "ucast v = (ucast c :: u8)" "ucast (drop_bit 8 v) = (ucast c :: u8)"
    "ucast (drop_bit 16 v) = (ucast c :: u8)" "ucast (drop_bit 24 v) = (ucast c :: u8)"
    unfolding v_def by (simp_all only:) (rule bit_word_eqI; auto simp: bit_simps)+
qed

lemma unat_div4: "n mod 4 = 0 \<Longrightarrow> 4 * unat (n div 4) = unat (n :: u32)"
  using aligned4_mod[of n] by (simp add: aligned4_def unat_div) presburger

lemma memset_eq: "memset v c n m = (\<lambda>a. if a - v < n then ucast c else m a)"
proof (cases "n = 0")
  case True
  then show ?thesis by (simp add: memset_def)
next
  case False
  have eq: "rep_stosb (unat n) v (ucast c) m = (\<lambda>a. if a - v < n then ucast c else m a)"
    using rep_stosb_eq[of "unat n" v "ucast c" m] unat_u32_less[of n] by (simp add: word_less_nat_alt)
  show ?thesis
  proof (cases "v mod 4 = 0 \<and> n mod 4 = 0")
    case True
    then show ?thesis using False stosl_stosb[OF byte_replicate[of c], of "unat (n div 4)" v m] unat_div4[of n] eq
      by (simp add: memset_def Let_def)
  next
    case False
    then show ?thesis using \<open>n \<noteq> 0\<close> eq by (simp only: memset_def if_False)
  qed
qed

text \<open>A block of \<open>n\<close> bytes from \<open>p\<close> on that does not run past the end of the address space.\<close>

definition in_space :: "u32 \<Rightarrow> u32 \<Rightarrow> bool" where
  "in_space p n \<longleftrightarrow> unat p + unat n \<le> 4294967296"

lemma block_end:
  "(n :: u32) \<noteq> 0 \<Longrightarrow> unat (p + (n - 1) - a) < unat n \<longleftrightarrow> unat (a - p) < unat n"
proof -
  assume n: "n \<noteq> 0"
  have "unat ((n - 1) - x) < unat n \<longleftrightarrow> unat x < unat n" for x using n by unat_arith
  moreover have e: "p + (n - 1) - a = (n - 1) - (a - p)" by simp
  ultimately show ?thesis unfolding e by blast
qed

lemma memmove_eq:
  assumes "in_space dst n" "in_space src n"
  shows "memmove dst src n m = (\<lambda>a. if a - dst < n then m (src + (a - dst)) else m a)"
proof (cases "src < dst \<and> dst < src + n")
  case True
  have up: "dst = src \<or> unat n \<le> unat (src - dst)"
    using True assms by (auto simp: in_space_def unat_sub_if' word_size word_less_nat_alt)
  have n0: "n \<noteq> 0" using True by auto
  have "memmove dst src n m = std_rep_movsb (unat n) (dst + n - 1) (src + n - 1) m"
  proof (cases "(src + n) mod 4 = 0 \<and> (dst + n) mod 4 = 0 \<and> n mod 4 = 0")
    case al: True
    then have "aligned4 (dst + n - 4)" "aligned4 (src + n - 4)"
      using aligned4_diff[OF _ aligned4_4] by (simp_all add: aligned4_mod)
    from std_movsl_movsb[OF this, of "unat (n div 4)" m] al True unat_div4[of n] show ?thesis
      by (simp add: memmove_def Let_def)
  next
    case False
    with True show ?thesis by (simp only: memmove_def Let_def simp_thms if_True if_False)
  qed
  also have "\<dots> = (\<lambda>a. if unat (dst + n - 1 - a) < unat n then m (src + n - 1 - (dst + n - 1 - a)) else m a)"
    using std_rep_movsb_eq[of "unat n" "dst + n - 1" "src + n - 1" m] up unat_u32_less[of n] by simp
  also have "\<dots> = (\<lambda>a. if a - dst < n then m (src + (a - dst)) else m a)"
    using block_end[OF n0, of dst] by (simp add: word_less_nat_alt fun_eq_iff algebra_simps)
  finally show ?thesis .
next
  case False
  have down: "dst = src \<or> unat n \<le> unat (dst - src)"
    using False assms by (auto simp: in_space_def unat_sub_if' word_size word_less_nat_alt unat_word_ariths
      dest: unsigned_word_eqI)
  have "memmove dst src n m = rep_movsb (unat n) dst src m"
    using False movsl_movsb[of dst src "unat (n div 4)" m] unat_div4[of n]
    by (auto simp: memmove_def Let_def aligned4_mod)
  then show ?thesis
    using rep_movsb_eq[of "unat n" dst src m] down unat_u32_less[of n] by (simp add: word_less_nat_alt)
qed

section \<open>Strings\<close>

text \<open>The bytes of \<open>xs\<close> lie from \<open>p\<close> on, followed by a zero byte, and hold no zero byte.\<close>

fun str_at :: "memory \<Rightarrow> u32 \<Rightarrow> u8 list \<Rightarrow> bool" where
  "str_at m p [] \<longleftrightarrow> m p = 0"
| "str_at m p (x # xs) \<longleftrightarrow> m p = x \<and> x \<noteq> 0 \<and> str_at m (p + 1) xs"

text \<open>Comparison of byte strings: the difference at the first place where they differ.\<close>

fun str_diff :: "u8 list \<Rightarrow> u8 list \<Rightarrow> int" where
  "str_diff [] [] = 0"
| "str_diff (x # xs) [] = uint x"
| "str_diff [] (y # ys) = - uint y"
| "str_diff (x # xs) (y # ys) = (if x = y then str_diff xs ys else uint x - uint y)"

lemma str_at_Nil: "str_at m p xs \<Longrightarrow> m p = 0 \<longleftrightarrow> xs = []"
  by (cases xs) auto

lemma strcmp_eq:
  assumes "str_at m p xs" "str_at m q ys"
  shows "strcmp p q m = Some (str_diff xs ys)"
  using assms
proof (induction xs ys arbitrary: p q rule: str_diff.induct)
  case (4 x xs y ys)
  then show ?case by (subst strcmp.simps) (auto simp: byte_diff_def)
qed (subst strcmp.simps; auto simp: byte_diff_def)+

lemma strncmp_eq:
  assumes "str_at m p xs" "str_at m q ys"
  shows "strncmp p q n m = str_diff (take (unat n) xs) (take (unat n) ys)"
  using assms
proof (induction xs ys arbitrary: p q n rule: str_diff.induct)
  case (4 x xs y ys)
  show ?case
  proof (cases "n = 0")
    case False
    then have "unat n = Suc (unat (n - 1))" by unat_arith
    then show ?thesis using 4 False by (subst strncmp.simps) (auto simp: byte_diff_def word_neq_0_conv)
  qed (simp add: strncmp.simps)
qed (subst strncmp.simps; auto simp: byte_diff_def take_Cons' unat_eq_zero)+

lemma str_diff_eq0: "str_diff xs ys = 0 \<longleftrightarrow> xs = ys" if "0 \<notin> set xs" "0 \<notin> set ys"
  using that by (induction xs ys rule: str_diff.induct) (auto simp: uint_0_iff dest: unsigned_word_eqI)

lemma str_at_nonzero: "str_at m p xs \<Longrightarrow> 0 \<notin> set xs"
  by (induction xs arbitrary: p) auto

lemma str_at_cong:
  "(\<And>j. j \<le> length xs \<Longrightarrow> m' (p + word_of_nat j) = m (p + word_of_nat j)) \<Longrightarrow> str_at m' p xs = str_at m p xs"
proof (induction xs arbitrary: p)
  case (Cons x xs)
  have "m' (p + 1 + word_of_nat j) = m (p + 1 + word_of_nat j)" if "j \<le> length xs" for j
    using Cons.prems[of "Suc j"] that by (simp add: algebra_simps)
  then show ?case using Cons.IH[of "p + 1"] Cons.prems[of 0] by simp
qed simp

lemma str_at_take:
  assumes "0 \<notin> set xs" "\<And>i. i < length xs \<Longrightarrow> m (p + word_of_nat i) = xs ! i" "m (p + word_of_nat (length xs)) = 0"
  shows "str_at m p xs"
  using assms
proof (induction xs arbitrary: p)
  case (Cons x xs)
  have "str_at m (p + 1) xs"
  proof (rule Cons.IH)
    show "m (p + 1 + word_of_nat i) = xs ! i" if "i < length xs" for i
      using Cons.prems(2)[of "Suc i"] that by (simp add: algebra_simps)
    show "m (p + 1 + word_of_nat (length xs)) = 0" using Cons.prems(3) by (simp add: algebra_simps)
  qed (use Cons.prems(1) in simp)
  then show ?case using Cons.prems(1) Cons.prems(2)[of 0] by simp
qed simp

text \<open>The \<open>n\<close> bytes from \<open>dst\<close> on do not meet the \<open>k + 1\<close> bytes from \<open>src\<close> on.\<close>

definition apart :: "u32 \<Rightarrow> nat \<Rightarrow> u32 \<Rightarrow> nat \<Rightarrow> bool" where
  "apart dst n src k \<longleftrightarrow> (\<forall>i<n. \<forall>j\<le>k. dst + word_of_nat i \<noteq> src + word_of_nat j)"

lemma apart_above: "unat src + k < unat dst \<Longrightarrow> unat dst + n \<le> 4294967296 \<Longrightarrow> apart dst n src k"
proof -
  assume a: "unat src + k < unat dst" "unat dst + n \<le> 4294967296"
  have "dst + word_of_nat i \<noteq> src + word_of_nat j" if "i < n" "j \<le> k" for i j
  proof -
    have "unat (dst + word_of_nat i) = unat dst + i" "unat (src + word_of_nat j) = unat src + j"
      using a that by (simp_all add: unat_word_ariths unat_u32)
    then show ?thesis using a that by (metis add_lessD1 le_add1 nat_add_left_cancel_le not_le order_le_less_trans)
  qed
  then show ?thesis by (simp add: apart_def)
qed

lemma str_at_drop: "str_at m p (xs @ ys) \<Longrightarrow> str_at m (p + word_of_nat (length xs)) ys"
proof (induction xs arbitrary: p)
  case (Cons x xs)
  then show ?case using Cons.IH[of "p + 1"] by (simp add: add.assoc)
qed simp

lemma str_at_nth: "str_at m p xs \<Longrightarrow> i < length xs \<Longrightarrow> m (p + word_of_nat i) = xs ! i"
proof (induction xs arbitrary: p i)
  case (Cons x xs)
  then show ?case using Cons.IH[of "p + 1" "i - 1"] by (cases i) (auto simp: algebra_simps)
qed simp

lemma str_at_end: "str_at m p xs \<Longrightarrow> m (p + word_of_nat (length xs)) = 0"
  using str_at_drop[of m p xs "[]"] by simp

text \<open>A string is shorter than the address space.\<close>

lemma str_at_length:
  assumes "str_at m p xs"
  shows "length xs < 4294967296"
proof (rule ccontr)
  assume "\<not> length xs < 4294967296"
  then have i: "length xs - 4294967296 < length xs" "length xs = (length xs - 4294967296) + 4294967296" by auto
  have "word_of_nat (length xs) = (word_of_nat (length xs - 4294967296) :: u32)"
    by (subst i(2), simp add: word_of_nat_eq_iff)
  with str_at_end[OF assms] str_at_nth[OF assms i(1)] str_at_nonzero[OF assms] i(1) show False
    by (metis nth_mem)
qed

lemma strnlen_loop_eq:
  assumes "str_at m p xs"
  shows "strnlen_loop p n k m = k + word_of_nat (min (unat n) (length xs))"
  using assms
proof (induction xs arbitrary: p n k)
  case Nil
  then show ?case by (simp add: strnlen_loop.simps)
next
  case (Cons x xs)
  show ?case
  proof (cases "n = 0")
    case False
    then have "unat n = Suc (unat (n - 1))" by unat_arith
    with Cons False show ?thesis by (subst strnlen_loop.simps) (auto simp: word_neq_0_conv)
  qed (simp add: strnlen_loop.simps)
qed

lemma strchr_eq:
  assumes "str_at m p xs"
  shows "strchr p c m = Some (if c \<in> set xs then p + word_of_nat (length (takeWhile (\<lambda>x. x \<noteq> c) xs)) else 0)"
  using assms
proof (induction xs arbitrary: p)
  case Nil
  then show ?case by (simp add: strchr.simps)
next
  case (Cons x xs)
  then show ?case by (subst strchr.simps) (auto simp: algebra_simps)
qed

section \<open>Properties\<close>

text \<open>
  C19: \<^verbatim>\<open>memmove\<close> (and so \<^verbatim>\<open>memcpy\<close>) copies correctly even when the blocks overlap: for any two blocks that do
  not run past the end of the address space, the destination ends with the bytes the source held
  before and no other byte changes, whichever of the four instruction sequences is taken.
\<close>

theorem memmove_correct:
  assumes "in_space dst n" "in_space src n"
  shows "memmove dst src n m = (\<lambda>a. if a - dst < n then m (src + (a - dst)) else m a)
    \<and> memcpy dst src n m = memmove dst src n m"
  using memmove_eq[OF assms] by (simp add: memcpy_def)

theorem memmove_correct_witness:
  "\<forall>m. memmove 0x1002 0x1000 6 m 0x1007 = m 0x1005 \<and> memmove 0x1002 0x1000 6 m 0x1008 = m 0x1008"
proof
  fix m
  have "in_space 0x1002 6" "in_space 0x1000 6" by (simp_all add: in_space_def)
  from memmove_correct[OF this, of m]
  show "memmove 0x1002 0x1000 6 m 0x1007 = m 0x1005 \<and> memmove 0x1002 0x1000 6 m 0x1008 = m 0x1008" by simp
qed

text \<open>
  \<^verbatim>\<open>memset\<close> sets exactly the \<open>n\<close> bytes from \<open>v\<close> on to the low byte of \<open>c\<close>, on both of its paths
  and for every alignment and count; \<^verbatim>\<open>memzero\<close> clears them.
\<close>

theorem memset_correct:
  "memset v c n m = (\<lambda>a. if a - v < n then ucast c else m a)
   \<and> memzero v n m = (\<lambda>a. if a - v < n then 0 else m a)"
  using memset_eq[of v c n m] memset_eq[of v 0 n m] by (simp add: memzero_def cong: if_cong)

text \<open>
  On two zero-terminated strings \<^verbatim>\<open>strcmp\<close> returns, its result is the difference of the bytes at
  the first place where they differ, and it is 0 exactly for equal strings; \<^verbatim>\<open>strncmp\<close> is the
  same comparison of the first \<open>n\<close> bytes; \<^verbatim>\<open>strnlen\<close> is the length cut at its bound; \<^verbatim>\<open>strchr\<close>
  returns the first occurrence or the null pointer.
\<close>

theorem string_routines_correct:
  assumes "str_at m p xs" "str_at m q ys"
  shows "strcmp p q m = Some (str_diff xs ys) \<and> (strcmp p q m = Some 0 \<longleftrightarrow> xs = ys)
    \<and> strncmp p q n m = str_diff (take (unat n) xs) (take (unat n) ys)
    \<and> strnlen p n m = word_of_nat (min (unat n) (length xs))
    \<and> strchr p c m = Some (if c \<in> set xs then p + word_of_nat (length (takeWhile (\<lambda>x. x \<noteq> c) xs)) else 0)"
  using strcmp_eq[OF assms] strncmp_eq[OF assms] strnlen_loop_eq[OF assms(1)] strchr_eq[OF assms(1)]
    str_diff_eq0[OF str_at_nonzero[OF assms(1)] str_at_nonzero[OF assms(2)]]
  by (simp add: strnlen_def)

theorem string_routines_correct_witness:
  "strcmp 0x100 0x200 ((\<lambda>_. 0)(0x100 := 104, 0x101 := 105, 0x200 := 104)) = Some 105"
proof -
  let ?m = "(\<lambda>_. 0)(0x100 := 104, 0x101 := 105, 0x200 := 104 :: u8) :: memory"
  have "str_at ?m 0x100 [104, 105]" "str_at ?m 0x200 [104]" by simp_all
  from string_routines_correct[OF this] show ?thesis by simp
qed

end
