(* ===== verification/SegInit.thy ===== *)
theory SegInit
  imports KString
begin

text \<open>
  Segmentation, \<^verbatim>\<open>kern/lib/seg.c\<close>: the flat segments of kernel and user code, one task state
  segment per process with a kernel stack of its own, and the switch between them.
\<close>

section \<open>Operations\<close>

text \<open>\<^verbatim>\<open>&tss_LOC[pid]\<close> as the task state segment of the descriptor table, loaded into the task register.\<close>

definition tss_desc :: "u32 \<Rightarrow> segdesc" where
  "tss_desc addr = (SEGDESC16 STS_T32A addr (sizeof_tss - 1) 0)\<lparr>sd_s := False\<rparr>"

definition ltr :: "u16 \<Rightarrow> segs \<Rightarrow> segs" where
  "ltr sel g = g\<lparr>tr := sel\<rparr>"

definition gdt_set :: "u16 \<Rightarrow> segdesc \<Rightarrow> segs \<Rightarrow> segs" where
  "gdt_set sel d g = g\<lparr>gdt_LOC := (gdt_LOC g)(ucast (drop_bit 3 sel) := d)\<rparr>"

definition tss_switch :: "u32 \<Rightarrow> 'a machine_scheme \<Rightarrow> 'a machine_scheme" where
  "tss_switch pid s = s\<lparr>segs := ltr CPU_GDT_TSS
     (gdt_set CPU_GDT_TSS (tss_desc (loc_tss_LOC (layout s) + pid * sizeof_tss)) (segs s))\<rparr>"

text \<open>
  Clearing the zero-initialised data, all but the stack the processor is running on. The static
  objects that are fields of the state rather than bytes of \<^const>\<open>mem\<close> are part of it; those of the
  drivers and of this file are cleared here, and those of the layers above are hypotheses of their
  initialisation theorems.
\<close>

definition bss_devs :: "devs \<Rightarrow> devs" where
  "bss_devs d = d\<lparr>serial_exists := False, cons_buf := (\<lambda>_. 0), cons_rpos := 0, cons_wpos := 0,
     kbd_shift := 0, pic_inited := False, idt := (\<lambda>_. gate_zero),
     intr_inited := False, addr_6845 := 0, crt_buf := 0, crt_pos := 0, active_console := 0,
     tsc_per_ms := 0\<rparr>"

definition clear_bss :: "'a machine_scheme \<Rightarrow> 'a machine_scheme" where
  "clear_bss s =
     (let l = layout s;
          m = memzero (loc_edata l) (loc_bsp_kstack l - loc_edata l) (mem s);
          m = memzero (loc_bsp_kstack l + 4096) (loc_end l - loc_bsp_kstack l - 4096) m
      in s\<lparr>mem := m, devs := bss_devs (devs s),
           segs := (segs s)\<lparr>gdt_LOC := (\<lambda>_. SEGDESC_NULL), tss0 := tss_zero, tss_LOC := (\<lambda>_. tss_zero)\<rparr>\<rparr>)"

text \<open>The descriptor table and the segment registers.\<close>

definition seg_gdt :: "layout \<Rightarrow> segs \<Rightarrow> segs" where
  "seg_gdt l g =
     (let g = gdt_set 0 SEGDESC_NULL g;
          g = gdt_set CPU_GDT_KCODE (SEGDESC32 (STA_X OR STA_R) 0x0 0xffffffff 0) g;
          g = gdt_set CPU_GDT_KDATA (SEGDESC32 STA_W 0x0 0xffffffff 0) g;
          g = gdt_set CPU_GDT_UCODE (SEGDESC32 (STA_X OR STA_R) 0x0 0xffffffff 3) g;
          g = gdt_set CPU_GDT_UDATA (SEGDESC32 STA_W 0x0 0xffffffff 3) g;
          g = g\<lparr>tss0 := (tss0 g)\<lparr>ts_esp0 := loc_bsp_kstack l + 4096, ts_ss0 := CPU_GDT_KDATA\<rparr>\<rparr>;
          g = gdt_set CPU_GDT_TSS (tss_desc (loc_tss0 l)) g;
          g = g\<lparr>gdtr_lim := ucast (CPU_GDT_NDESC * 8 - 1), gdtr_base := loc_gdt_LOC l\<rparr>;
          g = g\<lparr>sel_gs := CPU_GDT_KDATA, sel_fs := CPU_GDT_KDATA, sel_es := CPU_GDT_KDATA,
                sel_ds := CPU_GDT_KDATA, sel_ss := CPU_GDT_KDATA, sel_cs := CPU_GDT_KCODE\<rparr>;
          g = g\<lparr>ldtr := 0\<rparr>
      in ltr CPU_GDT_TSS g)"

text \<open>The body of the loop over the task state segments.\<close>

definition tss_setup :: "u32 \<Rightarrow> 'a machine_scheme \<Rightarrow> 'a machine_scheme" where
  "tss_setup pid s =
     (let t = tss_LOC (segs s) pid;
          t = t\<lparr>ts_esp0 := loc_STACK_LOC s + pid * 4096 + 4096, ts_ss0 := CPU_GDT_KDATA,
                ts_iomb := offsetof_iopm\<rparr>;
          t = t\<lparr>ts_iopm := (\<lambda>i. if i < 128 then 0 else ts_iopm t i)\<rparr>;
          t = t\<lparr>ts_iopm := (ts_iopm t)(128 := 0xFF)\<rparr>
      in s\<lparr>segs := (segs s)\<lparr>tss_LOC := (tss_LOC (segs s))(pid := t)\<rparr>\<rparr>)"

definition seg_init :: "'a machine_scheme \<Rightarrow> 'a machine_scheme res" where
  "seg_init s =
     (let s = clear_bss s;
          s = s\<lparr>segs := seg_gdt (layout s) (segs s)\<rparr>;
          s = s\<lparr>segs := (segs s)\<lparr>tss_LOC := (\<lambda>i. if i < 64 then tss_zero else tss_LOC (segs s) i)\<rparr>\<rparr>;
          s = s\<lparr>mem := memzero (loc_STACK_LOC s) (64 * 4096) (mem s)\<rparr>
      in for_u32 0 64 (\<lambda>pid s. Inr (tss_setup pid s)) s)"

section \<open>What the processor sees\<close>

lemma flat_segment:
  "seg_limit (SEGDESC32 ty b 0xFFFFFFFF dpl) = 0xFFFFFFFF" "sd_dpl (SEGDESC32 ty b lim dpl) = take_bit 2 dpl"
  "sd_p (SEGDESC32 ty b lim dpl)" "sd_s (SEGDESC32 ty b lim dpl)"
  by (simp_all add: seg_limit_def SEGDESC32_def)

lemma seg_base_tss [simp]: "seg_base (tss_desc a) = a"
  using seg_base_16[of STS_T32A a "sizeof_tss - 1" 0] by (simp add: tss_desc_def seg_base_def)

definition tss_ready :: "u32 \<Rightarrow> u32 \<Rightarrow> tss_t" where
  "tss_ready stacks pid = tss_zero\<lparr>ts_esp0 := stacks + pid * 4096 + 4096, ts_ss0 := CPU_GDT_KDATA,
     ts_iomb := offsetof_iopm, ts_iopm := (\<lambda>_. 0)(128 := 0xFF)\<rparr>"

lemma tss_loop:
  assumes "\<And>i. i < 64 \<Longrightarrow> tss_LOC (segs s) i = tss_zero"
  shows "\<exists>f. for_u32 0 64 (\<lambda>pid s. Inr (tss_setup pid s)) s = Inr (s\<lparr>segs := (segs s)\<lparr>tss_LOC := f\<rparr>\<rparr>)
    \<and> (\<forall>i<64. f i = tss_ready (loc_STACK_LOC s) i)"
proof -
  let ?I = "\<lambda>n t. \<exists>f. t = s\<lparr>segs := (segs s)\<lparr>tss_LOC := f\<rparr>\<rparr>
    \<and> (\<forall>i<64. f i = (if i < n then tss_ready (loc_STACK_LOC s) i else tss_zero))"
  have init: "?I 0 s" using assms by (intro exI[of _ "tss_LOC (segs s)"]) simp
  have "\<exists>s'. for_u32 0 64 (\<lambda>pid s. Inr (tss_setup pid s)) s = Inr s' \<and> ?I 64 s'"
  proof (rule for_u32_rule[where I = ?I, OF init])
    fix i :: u32 and t assume i: "i < 64" and "?I i t"
    then obtain f where f: "t = s\<lparr>segs := (segs s)\<lparr>tss_LOC := f\<rparr>\<rparr>"
      "\<And>j. j < 64 \<Longrightarrow> f j = (if j < i then tss_ready (loc_STACK_LOC s) j else tss_zero)" by blast
    have nx: "j < i + 1 \<longleftrightarrow> j < i \<or> j = i" if "j < 64" for j
      using word_less_Suc[of i 64 j] i by auto
    have "tss_setup i t = s\<lparr>segs := (segs s)\<lparr>tss_LOC := f(i := tss_ready (loc_STACK_LOC s) i)\<rparr>\<rparr>"
      using f(2)[OF i] by (simp add: f(1) tss_setup_def tss_ready_def tss_zero_def Let_def fun_upd_def cong: if_cong)
    then show "\<exists>s'. Inr (tss_setup i t) = Inr s' \<and> ?I (i + 1) s'"
      using f(2) nx by (intro exI[of _ "tss_setup i t"] conjI refl) (rule exI, erule conjI, auto)
  qed simp
  then show ?thesis by auto
qed

lemma seg_init_eq:
  "\<exists>f. seg_init s = Inr (s\<lparr>mem := memzero (loc_STACK_LOC s) (64 * 4096) (mem (clear_bss s)),
       devs := bss_devs (devs s), segs := (seg_gdt (layout s) (segs (clear_bss s)))\<lparr>tss_LOC := f\<rparr>\<rparr>)
    \<and> (\<forall>i<64. f i = tss_ready (loc_STACK_LOC s) i)"
proof -
  let ?s = "clear_bss s"
  let ?g = "(seg_gdt (layout s) (segs ?s))\<lparr>tss_LOC := (\<lambda>i. if i < 64 then tss_zero else tss_LOC (seg_gdt (layout s) (segs ?s)) i)\<rparr>"
  let ?t = "?s\<lparr>segs := ?g, mem := memzero (loc_STACK_LOC s) (64 * 4096) (mem ?s)\<rparr>"
  have l: "layout ?s = layout s" "loc_STACK_LOC ?s = loc_STACK_LOC s" by (simp_all add: clear_bss_def Let_def)
  then have "seg_init s = for_u32 0 64 (\<lambda>pid s. Inr (tss_setup pid s)) ?t"
    by (simp add: seg_init_def Let_def cong: if_cong)
  then obtain f where f: "seg_init s = Inr (?t\<lparr>segs := ?g\<lparr>tss_LOC := f\<rparr>\<rparr>)"
    "\<forall>i<64. f i = tss_ready (loc_STACK_LOC s) i" using tss_loop[of ?t] l by auto
  moreover have "?t\<lparr>segs := g\<rparr> = s\<lparr>mem := mem ?t, devs := bss_devs (devs s), segs := g\<rparr>" for g
    by (simp add: clear_bss_def Let_def)
  ultimately show ?thesis by (intro exI[of _ f]) simp
qed

text \<open>
  C35: segmentation after \<^verbatim>\<open>seg_init\<close>. The routine returns; the four code and data segments all span
  the whole address space, those of the kernel for privilege level 0 and those of user programs for
  level 3. Switching to a process makes the task register describe exactly that process's task state
  segment, whose stack pointer for entering the kernel is the end of that process's page of
  \<^verbatim>\<open>STACK_LOC\<close>. The permission map is all zero, which to the processor means that user code may
  use every port below 1024.
\<close>

theorem seg_init_correct:
  "\<exists>s'. seg_init s = Inr s'
    \<and> (\<forall>(sel, dpl) \<in> {(CPU_GDT_KCODE, 0), (CPU_GDT_KDATA, 0), (CPU_GDT_UCODE, 3), (CPU_GDT_UDATA, 3)}.
        let d = gdt_LOC (segs s') (ucast (drop_bit 3 sel)) in
        seg_base d = 0 \<and> seg_limit d = 0xFFFFFFFF \<and> sd_dpl d = dpl \<and> sd_p d \<and> sd_s d)
    \<and> (\<forall>pid<64. seg_base (gdt_LOC (segs (tss_switch pid s')) (ucast (drop_bit 3 (tr (segs (tss_switch pid s'))))))
          = loc_tss_LOC (layout s) + pid * sizeof_tss
        \<and> ts_esp0 (tss_LOC (segs s') pid) = loc_STACK_LOC s + pid * 4096 + 4096
        \<and> ts_ss0 (tss_LOC (segs s') pid) = CPU_GDT_KDATA
        \<and> ts_iomb (tss_LOC (segs s') pid) = 104 \<and> (\<forall>i<128. ts_iopm (tss_LOC (segs s') pid) i = 0))"
proof -
  obtain f where "seg_init s = Inr (s\<lparr>mem := memzero (loc_STACK_LOC s) (64 * 4096) (mem (clear_bss s)),
       devs := bss_devs (devs s), segs := (seg_gdt (layout s) (segs (clear_bss s)))\<lparr>tss_LOC := f\<rparr>\<rparr>)"
    "\<forall>i<64. f i = tss_ready (loc_STACK_LOC s) i" using seg_init_eq[of s] by blast
  then show ?thesis
    by (simp add: tss_switch_def tss_ready_def seg_gdt_def gdt_set_def ltr_def Let_def seg_consts
      flat_segment offsetof_iopm_def word_less_nat_alt)
qed

theorem seg_init_correct_witness:
  "\<exists>s'. seg_init machine_example = Inr s' \<and> ts_esp0 (tss_LOC (segs s') 3) = 0x804000"
proof -
  obtain s' where s': "seg_init machine_example = Inr s'"
    "\<forall>pid<64. ts_esp0 (tss_LOC (segs s') pid) = loc_STACK_LOC machine_example + pid * 4096 + 4096"
    using seg_init_correct[of machine_example] by blast
  then have "ts_esp0 (tss_LOC (segs s') 3) = loc_STACK_LOC machine_example + 3 * 4096 + 4096" by simp
  then show ?thesis using s'(1) by (simp add: machine_example_def)
qed

end
