(* ===== verification/DevSerial.thy ===== *)
theory DevSerial
  imports DevIO
begin

text \<open>The serial port, \<^verbatim>\<open>kern/dev/serial.c\<close>, without its console interrupt (see \<^verbatim>\<open>DevCons\<close>).\<close>

definition COM1 :: u32 where "COM1 = 0x3F8"
definition COM_LSR :: u32 where "COM_LSR = 5"
definition COM_LSR_DATA :: u8 where "COM_LSR_DATA = 0x01"
definition COM_LSR_TXRDY :: u8 where "COM_LSR_TXRDY = 0x20"

text \<open>The static function \<^verbatim>\<open>delay\<close>.\<close>

definition serial_delay :: "devs \<Rightarrow> devs" where
  "serial_delay d = snd (inb 0x84 (snd (inb 0x84 (snd (inb 0x84 (snd (inb 0x84 d)))))))"

definition serial_proc_data :: "devs \<Rightarrow> i32 \<times> devs" where
  "serial_proc_data d =
     (let (lsr, d) = inb (COM1 + COM_LSR) d
      in if lsr AND COM_LSR_DATA = 0 then (- 1, d)
         else (let (c, d) = inb COM1 d in (ucast c, d)))"

definition serial_reformatnewline :: "i32 \<Rightarrow> u32 \<Rightarrow> devs \<Rightarrow> i32 \<times> devs" where
  "serial_reformatnewline c p d = (if c = 10 then (1, outb p 10 (outb p 13 d)) else (0, d))"

text \<open>The loop of \<^verbatim>\<open>serial_putc\<close> waits for the transmitter, at most 12800 rounds.\<close>

lemma sint_count_up: "sint i < n \<Longrightarrow> n \<le> 2147483647 \<Longrightarrow> sint ((i :: i32) + 1) = sint i + 1"
  using sint_add_range[of i 1] sint_u32_bounds(1)[of i] by simp

function serial_wait :: "i32 \<Rightarrow> devs \<Rightarrow> devs" where
  "serial_wait i d =
     (let (lsr, d1) = inb (COM1 + COM_LSR) d
      in if lsr AND COM_LSR_TXRDY = 0 \<and> sint i < 12800 then serial_wait (i + 1) (serial_delay d1) else d1)"
  by pat_completeness auto
termination
  by (relation "measure (\<lambda>(i, d). nat (12800 - sint i))")
    (auto simp: sint_count_up[of _ 12800])

declare serial_wait.simps [simp del]

definition serial_putc :: "u8 \<Rightarrow> devs \<Rightarrow> devs" where
  "serial_putc c d =
     (if \<not> serial_exists d then d
      else (let d1 = serial_wait 0 d;
                (r, d2) = serial_reformatnewline (scast c) COM1 d1
            in if r = 0 then outb COM1 c d2 else d2))"

definition serial_init :: "devs \<Rightarrow> devs" where
  "serial_init d =
     (let d = outb (COM1 + 1) 0 d;
          d = outb (COM1 + 3) 0x80 d;
          d = outb (COM1 + 0) (0x0001 AND 0xFF) d;
          d = outb (COM1 + 1) (drop_bit 8 0x0001) d;
          d = outb (COM1 + 3) (0x03 AND NOT 0x80) d;
          d = outb (COM1 + 2) 0xc7 d;
          d = outb (COM1 + 4) 0x0b d;
          (lsr, d) = inb (COM1 + COM_LSR) d;
          d = d\<lparr>serial_exists := lsr \<noteq> 0xFF\<rparr>;
          d = snd (inb (COM1 + 2) d)
      in snd (inb (COM1 + 0) d))"

section \<open>What is sent\<close>

lemma serial_wait_out [simp]: "io_out (serial_wait i d) = io_out d" "serial_exists (serial_wait i d) = serial_exists d"
  by (induction i d rule: serial_wait.induct; subst serial_wait.simps; simp add: inb_def serial_delay_def Let_def)+

lemma serial_wait_same: "io_same d (serial_wait i d)"
proof (induction i d rule: serial_wait.induct)
  case (1 i d)
  obtain lsr d1 where inb: "inb (COM1 + COM_LSR) d = (lsr, d1)" by (cases "inb (COM1 + COM_LSR) d")
  then have "io_same d d1" using io_same_inb by (metis snd_conv)
  moreover have "io_same d1 (serial_delay d1)" by (simp add: io_same_def serial_delay_def inb_def)
  ultimately have s: "io_same d d1" "io_same d (serial_delay d1)" using io_same_trans by blast+
  show ?case
  proof (cases "lsr AND COM_LSR_TXRDY = 0 \<and> sint i < 12800")
    case True
    then show ?thesis using 1[OF inb[symmetric] refl True] s inb io_same_trans by (subst serial_wait.simps) auto
  next
    case False
    then show ?thesis using s inb by (subst serial_wait.simps) auto
  qed
qed

text \<open>One character puts itself on the line, a newline as carriage return and newline.\<close>

lemma serial_putc_out:
  assumes "serial_exists d"
  shows "io_out (serial_putc c d) = map (Pair COM1) (rev (if c = 10 then [13, 10] else [c])) @ io_out d"
proof -
  have "scast c = (10 :: u32) \<longleftrightarrow> c = 10"
  proof
    assume "scast c = (10 :: u32)"
    then have "ucast (scast c :: u32) = (10 :: u8)" by simp
    moreover have "ucast (scast c :: u32) = c" by (rule bit_word_eqI) (auto simp: bit_simps)
    ultimately show "c = 10" by simp
  qed (simp add: scast_eq)
  then show ?thesis using assms
    by (simp add: serial_putc_def serial_reformatnewline_def outb_def Let_def)
qed

end
