(* ===== verification/DevVideo.thy ===== *)
theory DevVideo
  imports KString DevSerial
begin

text \<open>
  The text display, \<^verbatim>\<open>kern/dev/video.c\<close>, and console output, \<^verbatim>\<open>cons_putc\<close> of
  \<^verbatim>\<open>kern/dev/console.c\<close>. The screen is 2000 two-byte cells of memory from \<^verbatim>\<open>terminal.crt_buf\<close> on.
\<close>

section \<open>Operations\<close>

definition MONO_BASE :: u32 where "MONO_BASE = 0x3B4"
definition MONO_BUF :: u32 where "MONO_BUF = 0xB0000"
definition CGA_BASE :: u32 where "CGA_BASE = 0x3D4"
definition CGA_BUF :: u32 where "CGA_BUF = 0xB8000"
definition CRT_ROWS :: u16 where "CRT_ROWS = 25"
definition CRT_COLS :: u16 where "CRT_COLS = 80"
definition CRT_SIZE :: u16 where "CRT_SIZE = CRT_ROWS * CRT_COLS"

lemmas video_consts = MONO_BASE_def MONO_BUF_def CGA_BASE_def CGA_BUF_def CRT_ROWS_def CRT_COLS_def CRT_SIZE_def

text \<open>The cursor position as the display controller has it.\<close>

definition video_read_pos :: "devs \<Rightarrow> u32 \<times> devs" where
  "video_read_pos d =
     (let d = outb (addr_6845 d) 14 d;
          (hi, d) = inb (addr_6845 d + 1) d;
          d = outb (addr_6845 d) 15 d;
          (lo, d) = inb (addr_6845 d + 1) d
      in (push_bit 8 (ucast hi) OR ucast lo, d))"

definition video_init :: "'a machine_scheme \<Rightarrow> 'a machine_scheme" where
  "video_init s =
     (let was = load16 (mem s) CGA_BUF;
          s = s\<lparr>mem := store16 (mem s) CGA_BUF 0xA55A\<rparr>;
          (cp, s) = (if load16 (mem s) CGA_BUF \<noteq> 0xA55A
                     then (MONO_BUF, upd_devs (addr_6845_update (\<lambda>_. MONO_BASE)) s)
                     else (CGA_BUF, upd_devs (addr_6845_update (\<lambda>_. CGA_BASE))
                             (s\<lparr>mem := store16 (mem s) CGA_BUF (ucast was)\<rparr>)));
          (pos, d) = video_read_pos (devs s)
      in s\<lparr>devs := d\<lparr>crt_buf := cp, crt_pos := ucast pos, active_console := 0\<rparr>\<rparr>)"

text \<open>Writing the cell with a given index.\<close>

definition crt_cell :: "u16 \<Rightarrow> i32 \<Rightarrow> 'a machine_scheme \<Rightarrow> 'a machine_scheme" where
  "crt_cell i c s = s\<lparr>mem := store16 (mem s) (crt_buf (devs s) + 2 * ucast i) (ucast c)\<rparr>"

text \<open>
  \<^verbatim>\<open>video_putc\<close> in three parts: the attribute, the switch on the character without the tabulator,
  and what follows the switch (scrolling, the cursor).
\<close>

definition video_attr :: "i32 \<Rightarrow> i32" where
  "video_attr c = (if c AND NOT 0xFF = 0 then c OR 0x0700 else c)"

definition video_switch :: "i32 \<Rightarrow> 'a machine_scheme \<Rightarrow> 'a machine_scheme" where
  "video_switch c s =
     (let pos = crt_pos (devs s); ch = c AND 0xFF in
      if ch = 8 then
        (if pos > 0 then crt_cell (pos - 1) ((c AND NOT 0xFF) OR 0x20) (upd_devs (crt_pos_update (\<lambda>_. pos - 1)) s)
         else s)
      else if ch = 10 then upd_devs (crt_pos_update (\<lambda>_. pos + CRT_COLS - (pos + CRT_COLS) mod CRT_COLS)) s
      else if ch = 13 then upd_devs (crt_pos_update (\<lambda>_. pos - pos mod CRT_COLS)) s
      else upd_devs (crt_pos_update (\<lambda>_. pos + 1)) (crt_cell pos c s))"

definition video_scroll :: "'a machine_scheme \<Rightarrow> 'a machine_scheme" where
  "video_scroll s =
     (if crt_pos (devs s) \<ge> CRT_SIZE
      then (let b = crt_buf (devs s);
                s = s\<lparr>mem := memmove b (b + 2 * ucast CRT_COLS) (ucast (CRT_SIZE - CRT_COLS) * 2) (mem s)\<rparr>;
                s = fold (\<lambda>i. crt_cell i (0x0700 OR 0x20))
                      (map word_of_nat [unat (CRT_SIZE - CRT_COLS)..<unat CRT_SIZE]) s
            in upd_devs (crt_pos_update (\<lambda>p. p - CRT_COLS)) s)
      else s)"

definition video_cursor :: "devs \<Rightarrow> devs" where
  "video_cursor d =
     (let d = outb (addr_6845 d) 14 d;
          d = outb (addr_6845 d + 1) (ucast (drop_bit 8 (crt_pos d))) d;
          d = outb (addr_6845 d) 15 d
      in outb (addr_6845 d + 1) (ucast (crt_pos d)) d)"

definition video_plain :: "i32 \<Rightarrow> 'a machine_scheme \<Rightarrow> 'a machine_scheme" where
  "video_plain c s = upd_devs video_cursor (video_scroll (video_switch (video_attr c) s))"

text \<open>The tabulator calls \<^verbatim>\<open>video_putc(' ')\<close> five times and falls out of the switch.\<close>

definition video_putc :: "i32 \<Rightarrow> 'a machine_scheme \<Rightarrow> 'a machine_scheme" where
  "video_putc c s =
     (if c AND 0xFF = 9 then upd_devs video_cursor (video_scroll ((video_plain 0x20 ^^ 5) s))
      else video_plain c s)"

definition video_set_cursor :: "i32 \<Rightarrow> i32 \<Rightarrow> devs \<Rightarrow> devs" where
  "video_set_cursor x y d = d\<lparr>crt_pos := ucast (x * ucast CRT_COLS + y)\<rparr>"

definition video_clear_screen :: "'a machine_scheme \<Rightarrow> 'a machine_scheme" where
  "video_clear_screen s = fold (\<lambda>i. crt_cell i 0x20) (map word_of_nat [0..<unat CRT_SIZE]) s"

text \<open>\<^verbatim>\<open>cons_putc\<close> and \<^verbatim>\<open>putchar\<close>; the display gets the sign-extended character.\<close>

definition cons_putc :: "u8 \<Rightarrow> 'a machine_scheme \<Rightarrow> 'a machine_scheme" where
  "cons_putc c s = video_putc (scast c) (upd_devs (serial_putc c) s)"

section \<open>Cells\<close>

definition cell :: "u32 \<Rightarrow> nat \<Rightarrow> u32" where
  "cell b k = b + word_of_nat (2 * k)"

lemma offset_eq_iff:
  "x < 4294967296 \<Longrightarrow> y < 4294967296 \<Longrightarrow> (b :: u32) + word_of_nat x = b + word_of_nat y \<longleftrightarrow> x = y"
  by (simp add: word_of_nat_eq_iff take_bit_nat_eq_self)

lemma cell_next: "cell b k + 1 = b + word_of_nat (2 * k + 1)"
  by (simp add: cell_def)

lemma store16_cell:
  assumes "i < 2147483648" "j < 2147483648"
  shows "store16 m (cell b i) v (cell b j) = (if i = j then ucast v else m (cell b j))"
    "store16 m (cell b i) v (cell b j + 1) = (if i = j then ucast (drop_bit 8 v) else m (cell b j + 1))"
proof -
  have ne: "cell b i = cell b j \<longleftrightarrow> i = j" "cell b i \<noteq> cell b j + 1" "cell b i + 1 \<noteq> cell b j"
    "cell b i + 1 = cell b j + 1 \<longleftrightarrow> i = j"
    using assms unfolding cell_next unfolding cell_def by (subst offset_eq_iff; presburger)+
  then show "store16 m (cell b i) v (cell b j) = (if i = j then ucast v else m (cell b j))"
    "store16 m (cell b i) v (cell b j + 1) = (if i = j then ucast (drop_bit 8 v) else m (cell b j + 1))"
    by (auto simp: store16_def)
qed

lemma half_join: "ucast ((ucast (ucast v :: u8) :: u32) OR push_bit 8 (ucast (ucast (drop_bit 8 v) :: u8))) = (v :: u16)"
proof (rule bit_word_eqI)
  fix n assume "n < LENGTH(16)"
  then have "n < 8 \<or> 8 \<le> n \<and> n < 16" by auto
  then show "bit (ucast ((ucast (ucast v :: u8) :: u32) OR push_bit 8 (ucast (ucast (drop_bit 8 v) :: u8))) :: u16) n = bit v n"
    by (auto simp: bit_simps)
qed

text \<open>The contents of the screen.\<close>

definition cellv :: "'a machine_scheme \<Rightarrow> nat \<Rightarrow> u16" where
  "cellv s k = ucast (load16 (mem s) (cell (crt_buf (devs s)) k))"

definition screen :: "'a machine_scheme \<Rightarrow> u16 list \<times> nat" where
  "screen s = (map (cellv s) [0..<2000], unat (crt_pos (devs s)))"

text \<open>The display is set up: the screen lies in the address space and the cursor on the screen.\<close>

definition on_screen :: "'a machine_scheme \<Rightarrow> bool" where
  "on_screen s \<longleftrightarrow> in_space (crt_buf (devs s)) 4000 \<and> crt_pos (devs s) < CRT_SIZE"

lemma crt_cell_devs [simp]: "devs (crt_cell i c s) = devs s"
  by (simp add: crt_cell_def)

lemma crt_cell_addr: "(b :: u32) + 2 * ucast (i :: u16) = cell b (unat i)"
  by (simp add: cell_def)

lemma cellv_crt_cell:
  assumes "k < 2000"
  shows "cellv (crt_cell i c s) k = (if k = unat i then ucast c else cellv s k)"
proof -
  have "unat i < 65536" using unsigned_less[of i] by simp
  then show ?thesis using assms
    by (auto simp: cellv_def load16_def crt_cell_def crt_cell_addr store16_cell half_join)
qed

lemma crt_cell_off:
  assumes "unat i < 2000" "\<not> a - crt_buf (devs s) < 4000"
  shows "mem (crt_cell i c s) a = mem s a"
proof -
  have "b + word_of_nat n - b < (4000 :: u32)" if "n < 4000" for b :: u32 and n
    using that by (simp add: word_less_nat_alt unat_u32)
  from this[of "2 * unat i" "crt_buf (devs s)"] this[of "2 * unat i + 1" "crt_buf (devs s)"] assms
  have "a \<noteq> cell (crt_buf (devs s)) (unat i)" "a \<noteq> cell (crt_buf (devs s)) (unat i) + 1"
    unfolding cell_next by (auto simp: cell_def)
  then show ?thesis by (simp add: crt_cell_def crt_cell_addr store16_def)
qed

lemma unat_u16: "n < 65536 \<Longrightarrow> unat (word_of_nat n :: u16) = n"
  by (simp add: unsigned_of_nat take_bit_nat_eq_self)

lemma blanks_devs [simp]: "devs (fold (\<lambda>i. crt_cell i c) is s) = devs s"
  by (induction "is" arbitrary: s) simp_all

lemma blanks_mem: "\<exists>m. fold (\<lambda>i. crt_cell i c) is s = s\<lparr>mem := m\<rparr>"
proof (induction "is" arbitrary: s)
  case Nil
  show ?case by (rule exI[of _ "mem s"]) simp
next
  case (Cons i "is")
  obtain m where "fold (\<lambda>i. crt_cell i c) is (crt_cell i c s) = (crt_cell i c s)\<lparr>mem := m\<rparr>" using Cons by blast
  moreover have "(crt_cell i c s)\<lparr>mem := m\<rparr> = s\<lparr>mem := m\<rparr>" by (simp add: crt_cell_def)
  ultimately show ?case by auto
qed

lemma cellv_blanks:
  "y \<le> 2000 \<Longrightarrow> k < 2000 \<Longrightarrow>
   cellv (fold (\<lambda>i. crt_cell i c) (map word_of_nat [x..<y]) s) k = (if x \<le> k \<and> k < y then ucast c else cellv s k)"
  by (induction y) (auto simp: cellv_crt_cell unat_u16)

lemma blanks_off:
  "y \<le> 2000 \<Longrightarrow> \<not> a - crt_buf (devs s) < 4000 \<Longrightarrow>
   mem (fold (\<lambda>i. crt_cell i c) (map word_of_nat [x..<y]) s) a = mem s a"
  by (induction y) (auto simp: crt_cell_off unat_u16)

section \<open>The abstract display\<close>

text \<open>A list of cells and a cursor, and what the parts of \<^verbatim>\<open>video_putc\<close> do with them.\<close>

definition scr_switch :: "i32 \<Rightarrow> u16 list \<times> nat \<Rightarrow> u16 list \<times> nat" where
  "scr_switch c = (\<lambda>(cs, p). let ch = c AND 0xFF in
     if ch = 8 then (if p > 0 then (cs[p - 1 := ucast ((c AND NOT 0xFF) OR 0x20)], p - 1) else (cs, p))
     else if ch = 10 then (cs, p + 80 - p mod 80)
     else if ch = 13 then (cs, p - p mod 80)
     else (cs[p := ucast c], p + 1))"

definition scr_scroll :: "u16 list \<times> nat \<Rightarrow> u16 list \<times> nat" where
  "scr_scroll = (\<lambda>(cs, p). if p \<ge> 2000 then (drop 80 cs @ replicate 80 0x0720, p - 80) else (cs, p))"

definition scr_putc :: "i32 \<Rightarrow> u16 list \<times> nat \<Rightarrow> u16 list \<times> nat" where
  "scr_putc c = (if c AND 0xFF = 9 then (scr_scroll \<circ> scr_switch (video_attr 0x20)) ^^ 5
     else scr_scroll \<circ> scr_switch (video_attr c))"

lemma video_cursor_same: "io_same d (video_cursor d)"
  unfolding video_cursor_def Let_def by (meson io_same_outb io_same_trans)

lemma video_cursor_sel [simp]:
  "crt_buf (video_cursor d) = crt_buf d" "crt_pos (video_cursor d) = crt_pos d"
  "addr_6845 (video_cursor d) = addr_6845 d" "serial_exists (video_cursor d) = serial_exists d"
  by (simp_all add: video_cursor_def outb_def Let_def)

lemma cellv_cong: "mem s = mem t \<Longrightarrow> crt_buf (devs s) = crt_buf (devs t) \<Longrightarrow> cellv s = cellv t"
  by (rule ext) (simp add: cellv_def)

lemma screen_cursor [simp]: "screen (upd_devs video_cursor s) = screen s"
  using cellv_cong[of "upd_devs video_cursor s" s] by (simp add: screen_def)

text \<open>What every part keeps: where the screen is, and memory off the screen.\<close>

definition display_frame :: "'a machine_scheme \<Rightarrow> 'a machine_scheme \<Rightarrow> bool" where
  "display_frame s t \<longleftrightarrow> t = s\<lparr>mem := mem t, devs := devs t\<rparr>
     \<and> devs t = (devs s)\<lparr>io_time := io_time (devs t), io_out := io_out (devs t), crt_pos := crt_pos (devs t)\<rparr>
     \<and> (\<forall>a. \<not> a - crt_buf (devs s) < 4000 \<longrightarrow> mem t a = mem s a)"

lemma display_frame_buf: "display_frame s t \<Longrightarrow> crt_buf (devs t) = crt_buf (devs s)"
  unfolding display_frame_def by (elim conjE, drule arg_cong[of "devs t" _ crt_buf]) simp

lemma display_frame_refl [simp]: "display_frame s s"
  by (simp add: display_frame_def)

lemma display_frame_trans:
  assumes "display_frame s t" "display_frame t u"
  shows "display_frame s u"
proof -
  have b: "crt_buf (devs t) = crt_buf (devs s)" by (rule display_frame_buf[OF assms(1)])
  have "u = s\<lparr>mem := mem u, devs := devs u\<rparr>" using assms
    unfolding display_frame_def by (cases s, cases t, cases u) simp
  moreover have "devs u = (devs s)\<lparr>io_time := io_time (devs u), io_out := io_out (devs u), crt_pos := crt_pos (devs u)\<rparr>"
    using assms unfolding display_frame_def by (cases "devs s", cases "devs t", cases "devs u") simp
  ultimately show ?thesis using assms b unfolding display_frame_def by simp
qed

lemma screen_pos [simp]: "screen (upd_devs (crt_pos_update f) s) = (fst (screen s), unat (f (crt_pos (devs s))))"
  using cellv_cong[of "upd_devs (crt_pos_update f) s" s] by (simp add: screen_def)

lemma screen_cell:
  "unat i < 2000 \<Longrightarrow> screen (crt_cell i c s) = ((fst (screen s))[unat i := ucast c], snd (screen s))"
  by (auto simp: screen_def cellv_crt_cell intro!: nth_equalityI)

lemma frame_pos [simp]: "display_frame s (upd_devs (crt_pos_update f) s)"
  by (simp add: display_frame_def upd_devs_def)

lemma frame_cell: "unat i < 2000 \<Longrightarrow> display_frame s (crt_cell i c s)"
  using crt_cell_off[of i _ s c] by (simp add: display_frame_def) (simp add: crt_cell_def)

lemma unat_newline:
  assumes "(p :: u16) < 2000"
  shows "unat (p + 80 - (p + 80) mod 80) = unat p + 80 - unat p mod 80" "unat (p - p mod 80) = unat p - unat p mod 80"
proof -
  have u: "unat (p + 80) = unat p + 80" using assms by (simp add: unat_word_ariths word_less_nat_alt)
  have "unat (p + 80 - (p + 80) mod 80) = unat (p + 80) - unat ((p + 80) mod 80)"
    by (rule unat_sub) (simp add: word_le_nat_alt unat_mod)
  then show "unat (p + 80 - (p + 80) mod 80) = unat p + 80 - unat p mod 80" by (simp add: unat_mod u)
  have "unat (p - p mod 80) = unat p - unat (p mod 80)"
    by (rule unat_sub) (simp add: word_le_nat_alt unat_mod)
  then show "unat (p - p mod 80) = unat p - unat p mod 80" by (simp add: unat_mod)
qed

lemma switch_ok:
  assumes "on_screen s"
  shows "screen (video_switch c s) = scr_switch c (screen s)" "display_frame s (video_switch c s)"
    "snd (scr_switch c (screen s)) \<le> 2079"
proof -
  let ?p = "crt_pos (devs s)"
  have p: "?p < 2000" "unat ?p < 2000"
    using assms by (simp_all add: on_screen_def video_consts word_less_nat_alt)
  have up: "unat (?p + 1) = unat ?p + 1" using p by (simp add: unat_word_ariths)
  have down: "unat (?p - 1) = unat ?p - 1" "unat (?p - 1) < 2000" if "?p > 0"
    using that p unat_sub[of 1 ?p] by (auto simp: word_le_nat_alt word_less_nat_alt)
  have zero: "?p > 0 \<longleftrightarrow> unat ?p > 0" by (simp add: word_less_nat_alt)
  note nl = unat_newline[OF p(1)]
  show "screen (video_switch c s) = scr_switch c (screen s)"
    using p up down zero nl
    by (auto simp: video_switch_def scr_switch_def Let_def screen_cell video_consts)
      (auto simp: screen_def)
  show "display_frame s (video_switch c s)"
    using p down unfolding video_switch_def Let_def
    by (simp add: display_frame_trans[OF frame_pos frame_cell] display_frame_trans[OF frame_cell frame_pos])
  show "snd (scr_switch c (screen s)) \<le> 2079"
    using p(2) by (auto simp: scr_switch_def screen_def Let_def)
qed

declare upt_rec_numeral [simp del]

lemma cellv_memmove:
  assumes "in_space (crt_buf (devs s)) 4000" "k < 2000"
  shows "cellv (s\<lparr>mem := memmove (crt_buf (devs s)) (crt_buf (devs s) + 160) 3840 (mem s)\<rparr>) k
    = cellv s (if k < 1920 then k + 80 else k)"
proof -
  let ?b = "crt_buf (devs s)"
  have b: "unat ?b + 4000 \<le> 4294967296" using assms(1) by (simp add: in_space_def)
  then have "unat (?b + 160) = unat ?b + 160" by (simp add: unat_word_ariths)
  with b have sp: "in_space ?b 3840" "in_space (?b + 160) 3840" by (simp_all add: in_space_def)
  have byte: "memmove ?b (?b + 160) 3840 (mem s) (?b + word_of_nat n)
      = mem s (?b + word_of_nat (if n < 3840 then n + 160 else n))" if "n < 4000" for n
  proof -
    have "word_of_nat n < (3840 :: u32) \<longleftrightarrow> n < 3840" using that by (simp add: word_less_nat_alt unat_u32)
    then show ?thesis by (simp add: memmove_eq[OF sp] ac_simps)
  qed
  let ?k = "if k < 1920 then k + 80 else k"
  have "memmove ?b (?b + 160) 3840 (mem s) (cell ?b k) = mem s (cell ?b ?k)"
    "memmove ?b (?b + 160) 3840 (mem s) (cell ?b k + 1) = mem s (cell ?b ?k + 1)"
    using assms(2) byte[of "2 * k"] byte[of "2 * k + 1"]
    by (cases "k < 1920"; simp add: cell_def ac_simps)+
  then show ?thesis by (simp add: cellv_def load16_def)
qed

lemma scroll_ok:
  assumes "in_space (crt_buf (devs s)) 4000" "crt_pos (devs s) < 2080"
  shows "screen (video_scroll s) = scr_scroll (screen s)" "display_frame s (video_scroll s)"
    "on_screen (video_scroll s)"
proof -
  let ?b = "crt_buf (devs s)"
  let ?m = "s\<lparr>mem := memmove ?b (?b + 160) 3840 (mem s)\<rparr>"
  let ?f = "fold (\<lambda>i. crt_cell i 0x720) (map word_of_nat [1920..<2000]) ?m"
  have sub: "unat (crt_pos (devs s) - 80) = unat (crt_pos (devs s)) - 80" if "crt_pos (devs s) \<ge> 2000"
    using that unat_sub[of 80 "crt_pos (devs s)"] by (simp add: word_le_nat_alt)
  have "video_scroll s = (if crt_pos (devs s) \<ge> 2000 then upd_devs (crt_pos_update (\<lambda>p. p - 80)) ?f else s)"
    unfolding video_scroll_def Let_def by (simp add: video_consts)
  note vs = this
  have cells: "map (cellv ?f) [0..<2000] = drop 80 (map (cellv s) [0..<2000]) @ replicate 80 0x0720"
    using assms(1) by (auto intro!: nth_equalityI simp: cellv_blanks cellv_memmove nth_append add.commute[of 80])
  show "screen (video_scroll s) = scr_scroll (screen s)"
    using cells sub by (auto simp: vs scr_scroll_def screen_def word_le_nat_alt not_le
       cellv_cong[of "upd_devs _ ?f" ?f])
  have off: "\<not> a - ?b < 4000 \<Longrightarrow> mem ?f a = mem s a" for a
  proof -
    assume a: "\<not> a - ?b < 4000"
    then have "\<not> a - ?b < 3840" by (simp add: word_less_nat_alt)
    moreover have "in_space ?b 3840" "in_space (?b + 160) 3840"
      using assms(1) by (simp_all add: in_space_def unat_word_ariths)
    ultimately have "mem ?m a = mem s a" by (simp add: memmove_eq)
    then show ?thesis using blanks_off[of 2000 a ?m] a by simp
  qed
  obtain m where m: "?f = ?m\<lparr>mem := m\<rparr>" using blanks_mem by blast
  show "display_frame s (video_scroll s)" unfolding vs
    using off unfolding m by (simp add: display_frame_def upd_devs_def)
  show "on_screen (video_scroll s)"
    using assms sub by (auto simp: vs on_screen_def video_consts word_less_nat_alt word_le_nat_alt)
qed

lemma plain_ok:
  assumes "on_screen s"
  shows "screen (video_plain c s) = scr_scroll (scr_switch (video_attr c) (screen s))"
    "display_frame s (video_plain c s)" "on_screen (video_plain c s)"
proof -
  let ?t = "video_switch (video_attr c) s"
  note sw = switch_ok[OF assms, of "video_attr c"]
  have buf: "crt_buf (devs ?t) = crt_buf (devs s)" by (rule display_frame_buf[OF sw(2)])
  have "unat (crt_pos (devs ?t)) \<le> 2079" using sw(1,3) by (metis screen_def snd_conv)
  then have "crt_pos (devs ?t) < 2080" by (simp add: word_less_nat_alt)
  note sc = scroll_ok[of ?t, unfolded buf, OF assms[unfolded on_screen_def, THEN conjunct1] this]
  have cur: "display_frame u (upd_devs video_cursor u)" for u :: "'a machine_scheme"
    using video_cursor_same[of "devs u"] by (simp add: display_frame_def upd_devs_def video_cursor_def outb_def Let_def)
  show "screen (video_plain c s) = scr_scroll (scr_switch (video_attr c) (screen s))"
    by (simp add: video_plain_def sc(1) sw(1))
  show "display_frame s (video_plain c s)" unfolding video_plain_def
    by (rule display_frame_trans[OF display_frame_trans[OF sw(2) sc(2)] cur])
  show "on_screen (video_plain c s)" using sc(3) by (simp add: video_plain_def on_screen_def)
qed

lemma plains_ok:
  assumes "on_screen s"
  shows "screen ((video_plain c ^^ n) s) = ((scr_scroll \<circ> scr_switch (video_attr c)) ^^ n) (screen s)
    \<and> display_frame s ((video_plain c ^^ n) s) \<and> on_screen ((video_plain c ^^ n) s)"
proof (induction n)
  case (Suc n)
  then show ?case using plain_ok[of "(video_plain c ^^ n) s" c] by (auto intro: display_frame_trans)
qed (simp add: assms)

text \<open>On a screen that is in order, the code after the switch only moves the cursor.\<close>

lemma tail_idle: "on_screen s \<Longrightarrow> video_scroll s = s"
  by (auto simp: video_scroll_def on_screen_def)

lemma putc_ok:
  assumes "on_screen s"
  shows "screen (video_putc c s) = scr_putc c (screen s)" "display_frame s (video_putc c s)"
    "on_screen (video_putc c s)"
proof -
  have cur: "display_frame u (upd_devs video_cursor u)" "on_screen (upd_devs video_cursor u) = on_screen u"
    for u :: "'a machine_scheme"
    by (simp_all add: display_frame_def upd_devs_def video_cursor_def outb_def Let_def on_screen_def)
  note p = plains_ok[where c = "0x20" and n = 5, OF assms]
  have idle: "video_scroll ((video_plain 0x20 ^^ 5) s) = (video_plain 0x20 ^^ 5) s"
    using p tail_idle by blast
  show "screen (video_putc c s) = scr_putc c (screen s)"
    unfolding video_putc_def scr_putc_def idle using p plain_ok[OF assms, of c] by simp
  show "display_frame s (video_putc c s)" unfolding video_putc_def idle
    using p plain_ok[OF assms, of c] display_frame_trans[OF _ cur(1)] by auto
  show "on_screen (video_putc c s)" unfolding video_putc_def idle
    using p plain_ok[OF assms, of c] cur by simp
qed

declare upt_rec_numeral [simp]

section \<open>Console output\<close>

lemma serial_putc_same: "io_same d (serial_putc c d)"
proof -
  have "io_same d (serial_wait 0 d)" by (rule serial_wait_same)
  moreover have "io_same e (outb p 10 (outb p 13 e))" for e p by (meson io_same_outb io_same_trans)
  ultimately show ?thesis unfolding serial_putc_def serial_reformatnewline_def Let_def
    by (auto intro: io_same_trans)
qed

text \<open>A character goes to both devices; the display part sees the serial part's traffic only.\<close>

lemma cons_putc_ok:
  assumes "on_screen s"
  shows "screen (cons_putc c s) = scr_putc (scast c) (screen s)" "display_frame s (cons_putc c s)"
    "on_screen (cons_putc c s)"
proof -
  let ?t = "upd_devs (serial_putc c) s"
  have d: "serial_putc c (devs s) = (devs s)\<lparr>io_time := io_time (serial_putc c (devs s)), io_out := io_out (serial_putc c (devs s))\<rparr>"
    using serial_putc_same[of "devs s" c] by (simp add: io_same_def)
  have b: "crt_buf (devs ?t) = crt_buf (devs s)" "crt_pos (devs ?t) = crt_pos (devs s)"
    by (simp, subst d, simp)+
  have "display_frame s ?t" using d by (simp add: display_frame_def upd_devs_def)
  moreover have "screen ?t = screen s" using b cellv_cong[of ?t s] by (simp add: screen_def)
  moreover have "on_screen ?t" using assms b by (simp add: on_screen_def)
  ultimately show "screen (cons_putc c s) = scr_putc (scast c) (screen s)" "display_frame s (cons_putc c s)"
    "on_screen (cons_putc c s)"
    using putc_ok[of ?t "scast c"] display_frame_trans unfolding cons_putc_def by auto
qed

lemma prints_ok:
  "on_screen s \<Longrightarrow> screen (fold cons_putc cs s) = fold (\<lambda>c. scr_putc (scast c)) cs (screen s)
    \<and> on_screen (fold cons_putc cs s) \<and> display_frame s (fold cons_putc cs s)"
proof (induction cs arbitrary: s)
  case (Cons c cs)
  note c = cons_putc_ok[OF Cons.prems, of c]
  show ?case using Cons.IH[OF c(3)] c display_frame_trans[OF c(2)] by auto
qed simp

lemma cursor_on_screen: "on_screen s \<Longrightarrow> snd (screen s) < 2000"
  by (simp add: on_screen_def screen_def video_consts word_less_nat_alt)

text \<open>
  C20: the display refines a list of 2000 cells with a cursor. Once the display is set up, printing a
  sequence of characters keeps it set up, changes the cells and the cursor the way the list says
  (backspace, newline, carriage return, tabulator, wrapping and scrolling included), and changes no
  byte of memory outside the 4000 bytes of the screen.
\<close>

theorem console_output_refines:
  assumes "on_screen s"
  shows "screen (fold cons_putc cs s) = fold (\<lambda>c. scr_putc (scast c)) cs (screen s)
    \<and> on_screen (fold cons_putc cs s) \<and> snd (screen (fold cons_putc cs s)) < 2000
    \<and> (\<forall>a. \<not> a - crt_buf (devs s) < 4000 \<longrightarrow> mem (fold cons_putc cs s) a = mem s a)"
  using prints_ok[OF assms, of cs] cursor_on_screen[of "fold cons_putc cs s"]
  by (simp add: display_frame_def)

text \<open>The cursor in the last cell of an empty screen: a character makes the screen scroll.\<close>

definition video_example :: machine where
  "video_example = machine_example\<lparr>devs := devs_example\<lparr>crt_buf := CGA_BUF, crt_pos := 1999\<rparr>\<rparr>"

theorem console_output_refines_witness:
  "screen (fold cons_putc [65] video_example) = (replicate 1919 0 @ [0x0741] @ replicate 80 0x0720, 1920)"
proof -
  have "on_screen video_example"
    by (simp add: on_screen_def video_example_def devs_example_def in_space_def video_consts)
  note r = console_output_refines[OF this, of "[65]"]
  have "cellv video_example k = 0" for k
    by (simp add: cellv_def video_example_def machine_example_def load16_def)
  then have "map (cellv video_example) [0..<2000] = replicate 2000 0" by (simp add: map_replicate_trivial list_eq_iff_nth_eq del: upt_rec_numeral)
  then have "screen video_example = (replicate 2000 0, 1999)"
    by (simp add: screen_def video_example_def del: upt_rec_numeral)
  moreover have "scr_putc (scast (65 :: u8)) (replicate 2000 0, 1999)
      = (replicate 1919 0 @ [0x0741] @ replicate 80 0x0720, 1920)"
    by (simp add: scr_putc_def scr_switch_def scr_scroll_def video_attr_def scast_eq list_eq_iff_nth_eq
      nth_append nth_list_update)
  ultimately show ?thesis using r by simp
qed

section \<open>Setting up the display\<close>

lemma load16_store16: "ucast (load16 (store16 m a v) a) = v"
  by (simp add: load16_def store16_def half_join)

text \<open>
  The probe of the memory at \<^verbatim>\<open>CGA_BUF\<close> always finds it, and leaves its contents; the cursor is
  wherever the display controller says.
\<close>

lemma video_init_ok:
  "mem (video_init s) = mem s" "crt_buf (devs (video_init s)) = CGA_BUF"
  "addr_6845 (devs (video_init s)) = CGA_BASE"
proof -
  have "load16 (store16 (mem s) CGA_BUF 0xA55A) CGA_BUF = 0xA55A"
    by (simp add: load16_def store16_def)
  moreover have "store16 (store16 (mem s) CGA_BUF v) CGA_BUF (ucast (load16 (mem s) CGA_BUF)) = mem s" for v
  proof -
    have "(ucast (ucast (load16 m a) :: u16) :: u8) = m a" "(ucast (drop_bit 8 (ucast (load16 m a) :: u16)) :: u8) = m (a + 1)"
      for m a by (rule bit_word_eqI; auto simp: load16_def bit_simps dest: bit_imp_le_length)+
    then show ?thesis by (simp add: store16_def fun_eq_iff)
  qed
  ultimately show "mem (video_init s) = mem s" "crt_buf (devs (video_init s)) = CGA_BUF"
    "addr_6845 (devs (video_init s)) = CGA_BASE"
    by (simp_all add: video_init_def video_read_pos_def inb_def outb_def Let_def)
qed

end
