(* ===== verification/DevKbd.thy ===== *)
theory DevKbd
  imports DevIO
begin

text \<open>
  The keyboard, \<^verbatim>\<open>kern/dev/keyboard.c\<close>: from scan codes to characters. Characters are their ASCII
  codes; a table entry the source does not mention is \<^verbatim>\<open>NO\<close>, that is 0.
\<close>

section \<open>Tables\<close>

definition SHIFT :: u32 where "SHIFT = 1"
definition CTL :: u32 where "CTL = 2"
definition ALT :: u32 where "ALT = 4"
definition CAPSLOCK :: u32 where "CAPSLOCK = 8"
definition NUMLOCK :: u32 where "NUMLOCK = 16"
definition SCROLLLOCK :: u32 where "SCROLLLOCK = 32"
definition E0ESC :: u32 where "E0ESC = 64"
definition KEY_DEL :: u8 where "KEY_DEL = 0xE9"

lemmas kbd_flags = SHIFT_def CTL_def ALT_def CAPSLOCK_def NUMLOCK_def SCROLLLOCK_def E0ESC_def

definition shiftcode :: "u8 \<Rightarrow> u32" where
  "shiftcode k = (if k = 0x1D \<or> k = 0x9D then CTL else if k = 0x2A \<or> k = 0x36 then SHIFT
     else if k = 0x38 \<or> k = 0xB8 then ALT else 0)"

definition togglecode :: "u8 \<Rightarrow> u32" where
  "togglecode k = (if k = 0x3A then CAPSLOCK else if k = 0x45 then NUMLOCK else if k = 0x46 then SCROLLLOCK else 0)"

text \<open>The keys of the extended keypad, the same in \<^verbatim>\<open>normalmap\<close> and \<^verbatim>\<open>shiftmap\<close>.\<close>

definition extended_keys :: "(u8 \<times> u8) list" where
  "extended_keys = [(0xC8, 0xE2), (0xC9, 0xE6), (0xCB, 0xE4), (0xCD, 0xE5), (0xCF, 0xE1), (0xD0, 0xE3),
     (0xD1, 0xE7), (0xD2, 0xE8), (0xD3, 0xE9)]"

definition key_table :: "u8 list \<Rightarrow> (u8 \<times> u8) list \<Rightarrow> u8 \<Rightarrow> u8" where
  "key_table low high k =
     (if unat k < length low then low ! unat k else case map_of high k of Some c \<Rightarrow> c | None \<Rightarrow> 0)"

definition normalmap :: "u8 \<Rightarrow> u8" where
  "normalmap = key_table
    [0, 27, 49, 50, 51, 52, 53, 54,
     55, 56, 57, 48, 45, 61, 8, 9,
     113, 119, 101, 114, 116, 121, 117, 105,
     111, 112, 91, 93, 10, 0, 97, 115,
     100, 102, 103, 104, 106, 107, 108, 59,
     39, 96, 0, 92, 122, 120, 99, 118,
     98, 110, 109, 44, 46, 47, 0, 42,
     0, 32, 0, 0, 0, 0, 0, 0,
     0, 0, 0, 0, 0, 0, 0, 55,
     56, 57, 45, 52, 53, 54, 43, 49,
     50, 51, 48, 46, 0, 0, 0, 0]
    ((0xC7, 0xE0) # (0x9C, 10) # (0xB5, 47) # extended_keys)"

definition shiftmap :: "u8 \<Rightarrow> u8" where
  "shiftmap = key_table
    [0, 27, 33, 64, 35, 36, 37, 94,
     38, 42, 40, 41, 95, 43, 8, 9,
     81, 87, 69, 82, 84, 89, 85, 73,
     79, 80, 123, 125, 10, 0, 65, 83,
     68, 70, 71, 72, 74, 75, 76, 58,
     34, 126, 0, 124, 90, 88, 67, 86,
     66, 78, 77, 60, 62, 63, 0, 42,
     0, 32, 0, 0, 0, 0, 0, 0,
     0, 0, 0, 0, 0, 0, 0, 55,
     56, 57, 45, 52, 53, 54, 43, 49,
     50, 51, 48, 46, 0, 0, 0, 0]
    ((0xC7, 0xE0) # (0x9C, 10) # (0xB5, 47) # extended_keys)"

text \<open>\<^verbatim>\<open>C(x)\<close> is \<^verbatim>\<open>x - '@'\<close> at 8 bits. The key at \<^verbatim>\<open>0x97\<close> is the source's.\<close>

definition ctlmap :: "u8 \<Rightarrow> u8" where
  "ctlmap = key_table
    [0, 0, 0, 0, 0, 0, 0, 0,
     0, 0, 0, 0, 0, 0, 0, 0,
     17, 23, 5, 18, 20, 25, 21, 9,
     15, 16, 0, 0, 13, 0, 1, 19,
     4, 6, 7, 8, 10, 11, 12, 0,
     0, 0, 0, 28, 26, 24, 3, 22,
     2, 14, 13, 0, 0, 239, 0, 0]
    ((0x97, 0xE0) # (0xB5, 239) # extended_keys)"

definition charcode :: "u32 \<Rightarrow> u8 \<Rightarrow> u8" where
  "charcode i = (if i = 0 then normalmap else if i = 1 then shiftmap else ctlmap)"

section \<open>Scan codes\<close>

definition KBSTATP :: u32 where "KBSTATP = 0x64"
definition KBS_DIB :: u8 where "KBS_DIB = 0x01"
definition KBDATAP :: u32 where "KBDATAP = 0x60"

text \<open>The effect of one scan code on the shift state, and the character it completes.\<close>

definition kbd_decode :: "u8 \<Rightarrow> u32 \<Rightarrow> u8 \<times> u32" where
  "kbd_decode data shift =
     (if data = 0xE0 then (0, shift OR E0ESC)
      else if data AND 0x80 \<noteq> 0
      then (let data = (if shift AND E0ESC \<noteq> 0 then data else data AND 0x7F)
            in (0, shift AND NOT (shiftcode data OR E0ESC)))
      else (let (data, shift) = (if shift AND E0ESC \<noteq> 0 then (data OR 0x80, shift AND NOT E0ESC) else (data, shift));
                shift = shift OR shiftcode data;
                shift = shift XOR togglecode data;
                c = charcode (shift AND (CTL OR SHIFT)) data;
                c = (if shift AND CAPSLOCK \<noteq> 0
                     then (if 97 \<le> c \<and> c \<le> 122 then c - 32 else if 65 \<le> c \<and> c \<le> 90 then c + 32 else c)
                     else c)
            in (c, shift)))"

definition kbd_proc_data :: "devs \<Rightarrow> i32 \<times> devs" where
  "kbd_proc_data d =
     (let (st, d) = inb KBSTATP d
      in if st AND KBS_DIB = 0 then (- 1, d)
         else (let (data, d) = inb KBDATAP d;
                   (c, shift) = kbd_decode data (kbd_shift d);
                   d = d\<lparr>kbd_shift := shift\<rparr>;
                   d = (if data \<noteq> 0xE0 \<and> data AND 0x80 = 0 \<and> NOT shift AND (CTL OR ALT) = 0 \<and> c = KEY_DEL
                        then outb 0x92 0x3 d else d)
               in (ucast c, d)))"

end
