(* ===== verification/DevCons.thy ===== *)
theory DevCons
  imports DevSerial DevKbd
begin

text \<open>
  Console input, \<^verbatim>\<open>kern/dev/console.c\<close>: the ring buffer that the serial and keyboard interrupts fill
  and \<^verbatim>\<open>cons_getc\<close> empties. Output (\<^verbatim>\<open>cons_putc\<close>) needs the display and is in \<^verbatim>\<open>DevVideo\<close>.
\<close>

section \<open>Operations\<close>

definition CONSOLE_BUFFER_SIZE :: u32 where "CONSOLE_BUFFER_SIZE = 512"

text \<open>The body of the loop of \<^verbatim>\<open>cons_intr\<close> for a character other than 0.\<close>

definition cons_put :: "u8 \<Rightarrow> devs \<Rightarrow> devs res" where
  "cons_put c d =
     (if cons_wpos d < CONSOLE_BUFFER_SIZE
      then (let d = d\<lparr>cons_buf := (cons_buf d)(cons_wpos d := c), cons_wpos := cons_wpos d + 1\<rparr>
            in Inr (if cons_wpos d = CONSOLE_BUFFER_SIZE then d\<lparr>cons_wpos := 0\<rparr> else d))
      else Inl OutOfBounds)"

text \<open>A device that never runs dry keeps the loop going for ever.\<close>

partial_function (option) cons_intr :: "(devs \<Rightarrow> i32 \<times> devs) \<Rightarrow> devs \<Rightarrow> devs res option" where
  "cons_intr getdata d =
     (case getdata d of (c, d1) \<Rightarrow>
        if c = - 1 then Some (Inr d1)
        else if c = 0 then cons_intr getdata d1
        else (case cons_put (ucast c) d1 of Inl e \<Rightarrow> Some (Inl e) | Inr d2 \<Rightarrow> cons_intr getdata d2))"

definition drain :: "(devs \<Rightarrow> i32 \<times> devs) \<Rightarrow> devs \<Rightarrow> devs res" where
  "drain getdata d = (case cons_intr getdata d of None \<Rightarrow> Inl Diverges | Some r \<Rightarrow> r)"

definition serial_intr :: "devs \<Rightarrow> devs res" where
  "serial_intr d = (if serial_exists d then drain serial_proc_data d else Inr d)"

definition serial_intenable :: "devs \<Rightarrow> devs res" where
  "serial_intenable d = (if serial_exists d then serial_intr (outb (COM1 + 1) 1 d) else Inr d)"

definition keyboard_intr :: "devs \<Rightarrow> devs res" where
  "keyboard_intr d = drain kbd_proc_data d"

text \<open>The second half of \<^verbatim>\<open>cons_getc\<close>: the next character from the buffer, 0 when there is none.\<close>

definition cons_take :: "devs \<Rightarrow> (u8 \<times> devs) res" where
  "cons_take d =
     (if cons_rpos d \<noteq> cons_wpos d
      then (if cons_rpos d < CONSOLE_BUFFER_SIZE
            then (let c = cons_buf d (cons_rpos d);
                      d = d\<lparr>cons_rpos := cons_rpos d + 1\<rparr>
                  in Inr (c, if cons_rpos d = CONSOLE_BUFFER_SIZE then d\<lparr>cons_rpos := 0\<rparr> else d))
            else Inl OutOfBounds)
      else Inr (0, d))"

definition cons_getc :: "devs \<Rightarrow> (u8 \<times> devs) res" where
  "cons_getc d = rbind (serial_intr d) (\<lambda>d1. rbind (keyboard_intr d1) cons_take)"

section \<open>The ring as a queue\<close>

text \<open>The positions are in range, and the characters between them, oldest first.\<close>

definition ring_ok :: "devs \<Rightarrow> bool" where
  "ring_ok d \<longleftrightarrow> cons_rpos d < CONSOLE_BUFFER_SIZE \<and> cons_wpos d < CONSOLE_BUFFER_SIZE"

text \<open>Positions advance around the ring.\<close>

definition ring_at :: "nat \<Rightarrow> nat \<Rightarrow> nat" where
  "ring_at r i = (if r + i < 512 then r + i else r + i - 512)"

definition npending :: "devs \<Rightarrow> nat" where
  "npending d = (if cons_rpos d \<le> cons_wpos d then unat (cons_wpos d) - unat (cons_rpos d)
     else unat (cons_wpos d) + 512 - unat (cons_rpos d))"

definition pending :: "devs \<Rightarrow> u8 list" where
  "pending d = map (\<lambda>i. cons_buf d (word_of_nat (ring_at (unat (cons_rpos d)) i))) [0..<npending d]"

lemma unat_CBS: "unat CONSOLE_BUFFER_SIZE = 512"
  by (simp add: CONSOLE_BUFFER_SIZE_def)

lemma ring_bounds: "ring_ok d \<Longrightarrow> unat (cons_rpos d) < 512 \<and> unat (cons_wpos d) < 512"
  by (simp add: ring_ok_def word_less_nat_alt unat_CBS)

lemma ring_next:
  assumes "p < CONSOLE_BUFFER_SIZE"
  shows "unat (if p + 1 = CONSOLE_BUFFER_SIZE then 0 else p + 1) = ring_at (unat p) 1"
proof -
  have p: "unat p < 512" using assms by (simp add: word_less_nat_alt unat_CBS)
  then have u: "unat (p + 1) = unat p + 1" by (simp add: unat_word_ariths)
  have "p + 1 = CONSOLE_BUFFER_SIZE \<longleftrightarrow> unat p + 1 = 512" using u unat_CBS by (metis unsigned_word_eqI)
  then show ?thesis using u p by (auto simp: ring_at_def)
qed

lemma ring_word_eq: "n < 512 \<Longrightarrow> unat p < 512 \<Longrightarrow> word_of_nat n = (p :: u32) \<longleftrightarrow> n = unat p"
  using unat_u32[of n] by auto

section \<open>Bounded queues\<close>

text \<open>
  What a bounded queue promises through its abstraction to a list: \<open>put\<close> appends while there is room,
  \<open>take\<close> removes the first element or returns \<open>none\<close>.
\<close>

locale bounded_queue =
  fixes put :: "'c \<Rightarrow> 's \<Rightarrow> 's res"
    and get :: "'s \<Rightarrow> ('c \<times> 's) res"
    and contents :: "'s \<Rightarrow> 'c list"
    and invar :: "'s \<Rightarrow> bool"
    and cap :: nat
    and none :: 'c
  assumes put: "invar s \<Longrightarrow> length (contents s) < cap \<Longrightarrow>
      \<exists>s'. put c s = Inr s' \<and> invar s' \<and> contents s' = contents s @ [c]"
    and get_empty: "invar s \<Longrightarrow> contents s = [] \<Longrightarrow> get s = Inr (none, s)"
    and get_first: "invar s \<Longrightarrow> contents s = x # xs \<Longrightarrow> \<exists>s'. get s = Inr (x, s') \<and> invar s' \<and> contents s' = xs"
begin

fun put_all :: "'c list \<Rightarrow> 's \<Rightarrow> 's res" where
  "put_all [] s = Inr s"
| "put_all (c # cs) s = rbind (put c s) (put_all cs)"

fun get_many :: "nat \<Rightarrow> 's \<Rightarrow> ('c list \<times> 's) res" where
  "get_many 0 s = Inr ([], s)"
| "get_many (Suc n) s = rbind (get s) (\<lambda>(c, s1). rbind (get_many n s1) (\<lambda>(cs, s2). Inr (c # cs, s2)))"

lemma put_all_ok:
  assumes "invar s" "length (contents s) + length cs \<le> cap"
  shows "\<exists>s'. put_all cs s = Inr s' \<and> invar s' \<and> contents s' = contents s @ cs"
  using assms
proof (induction cs arbitrary: s)
  case (Cons c cs)
  obtain s1 where s1: "put c s = Inr s1" "invar s1" "contents s1 = contents s @ [c]"
    using put[OF Cons.prems(1), of c] Cons.prems(2) by auto
  from Cons.IH[OF s1(2)] Cons.prems(2) s1 show ?case by auto
qed simp

lemma get_many_ok:
  assumes "invar s" "n \<le> length (contents s)"
  shows "\<exists>s'. get_many n s = Inr (take n (contents s), s') \<and> invar s' \<and> contents s' = drop n (contents s)"
  using assms
proof (induction n arbitrary: s)
  case (Suc n)
  then obtain x xs where x: "contents s = x # xs" by (cases "contents s") auto
  obtain s1 where s1: "get s = Inr (x, s1)" "invar s1" "contents s1 = xs" using get_first[OF Suc.prems(1) x] by blast
  from Suc.IH[OF s1(2)] Suc.prems(2) s1 x show ?case by auto
qed simp

text \<open>First in, first out.\<close>

lemma fifo:
  assumes "invar s" "contents s = []" "length cs \<le> cap"
  shows "\<exists>s' s''. put_all cs s = Inr s' \<and> get_many (length cs) s' = Inr (cs, s'') \<and> contents s'' = []"
proof -
  obtain s' where s': "put_all cs s = Inr s'" "invar s'" "contents s' = cs"
    using put_all_ok[OF assms(1), of cs] assms(2,3) by auto
  from get_many_ok[OF s'(2), of "length cs"] s' show ?thesis by auto
qed

end

section \<open>The console buffer is a bounded queue\<close>

lemma pending_length [simp]: "length (pending d) = npending d"
  by (simp add: pending_def)

lemma cons_put_ok:
  assumes "ring_ok d" "npending d < 511"
  shows "\<exists>d'. cons_put c d = Inr d' \<and> ring_ok d' \<and> pending d' = pending d @ [c]
    \<and> d' = d\<lparr>cons_buf := cons_buf d', cons_wpos := cons_wpos d'\<rparr>"
proof -
  let ?r = "unat (cons_rpos d)" and ?w = "unat (cons_wpos d)"
  let ?n = "if cons_wpos d + 1 = CONSOLE_BUFFER_SIZE then 0 else cons_wpos d + 1"
  let ?d = "d\<lparr>cons_buf := (cons_buf d)(cons_wpos d := c), cons_wpos := ?n\<rparr>"
  have wp: "cons_wpos d < CONSOLE_BUFFER_SIZE" using assms(1) by (simp add: ring_ok_def)
  have b: "?r < 512" "?w < 512" using ring_bounds[OF assms(1)] by auto
  have n: "unat ?n = ring_at ?w 1" by (rule ring_next[OF wp])
  have np: "npending ?d = Suc (npending d)" and last: "ring_at ?r (npending d) = ?w"
    using assms(2) b n by (auto simp: npending_def word_le_nat_alt ring_at_def split: if_splits)
  have old: "ring_at ?r i \<noteq> ?w" "ring_at ?r i < 512" if "i < npending d" for i
    using that b by (auto simp: npending_def word_le_nat_alt ring_at_def split: if_splits)
  have "pending ?d = pending d @ [c]"
    unfolding pending_def np using old b ring_word_eq[of _ "cons_wpos d"] last by (simp add: ring_word_eq)
  moreover have "ring_ok ?d" using assms(1) n b by (auto simp: ring_ok_def word_less_nat_alt unat_CBS ring_at_def split: if_splits)
  moreover have "cons_put c d = Inr ?d" using wp by (simp add: cons_put_def)
  ultimately show ?thesis by (intro exI[of _ ?d]) simp
qed

lemma cons_take_ok:
  assumes "ring_ok d" "pending d = x # xs"
  shows "\<exists>d'. cons_take d = Inr (x, d') \<and> ring_ok d' \<and> pending d' = xs"
proof -
  let ?r = "unat (cons_rpos d)" and ?w = "unat (cons_wpos d)"
  let ?n = "if cons_rpos d + 1 = CONSOLE_BUFFER_SIZE then 0 else cons_rpos d + 1"
  let ?d = "d\<lparr>cons_rpos := ?n\<rparr>"
  have rp: "cons_rpos d < CONSOLE_BUFFER_SIZE" using assms(1) by (simp add: ring_ok_def)
  have b: "?r < 512" "?w < 512" using ring_bounds[OF assms(1)] by auto
  have n: "unat ?n = ring_at ?r 1" by (rule ring_next[OF rp])
  obtain k where k: "npending d = Suc k" using assms(2) pending_length[of d] by (cases "npending d") auto
  then have np: "npending ?d = k" and ne: "cons_rpos d \<noteq> cons_wpos d"
    using b n by (auto simp: npending_def word_le_nat_alt ring_at_def split: if_splits)
  have idx: "ring_at (ring_at ?r 1) i = ring_at ?r (Suc i)" if "i < k" for i
    using that k b by (auto simp: npending_def word_le_nat_alt ring_at_def split: if_splits)
  have "pending d = cons_buf d (cons_rpos d) # pending ?d"
    unfolding pending_def np k upt_conv_Cons[OF zero_less_Suc] using idx n b
    by (simp add: map_Suc_upt[symmetric] del: upt_Suc) (simp add: ring_at_def)
  moreover have "ring_ok ?d" using assms(1) n b by (auto simp: ring_ok_def word_less_nat_alt unat_CBS ring_at_def split: if_splits)
  moreover have "cons_take d = Inr (cons_buf d (cons_rpos d), ?d)" using rp ne by (simp add: cons_take_def Let_def)
  ultimately show ?thesis using assms(2) by auto
qed

lemma cons_take_empty: "ring_ok d \<Longrightarrow> pending d = [] \<Longrightarrow> cons_take d = Inr (0, d)"
  using ring_bounds[of d] pending_length[of d]
  by (auto simp: cons_take_def npending_def word_le_nat_alt split: if_splits dest: unsigned_word_eqI)

interpretation cons: bounded_queue cons_put cons_take pending ring_ok 511 0
proof unfold_locales
  show "\<exists>d'. cons_put c d = Inr d' \<and> ring_ok d' \<and> pending d' = pending d @ [c]"
    if "ring_ok d" "length (pending d) < 511" for d c using cons_put_ok[OF that(1), of c] that(2) by auto
qed (auto simp: cons_take_empty intro: cons_take_ok)

section \<open>Interrupts fill the queue\<close>

text \<open>Polled until it has no more data, a device delivers these characters.\<close>

inductive delivers :: "(devs \<Rightarrow> i32 \<times> devs) \<Rightarrow> devs \<Rightarrow> u8 list \<Rightarrow> devs \<Rightarrow> bool" for getdata where
  stop: "getdata d = (- 1, d') \<Longrightarrow> delivers getdata d [] d'"
| skip: "getdata d = (0, d1) \<Longrightarrow> delivers getdata d1 cs d' \<Longrightarrow> delivers getdata d cs d'"
| char: "getdata d = (c, d1) \<Longrightarrow> c \<noteq> - 1 \<Longrightarrow> c \<noteq> 0 \<Longrightarrow> delivers getdata d1 cs d' \<Longrightarrow> delivers getdata d (ucast c # cs) d'"

text \<open>A driver that neither reads nor writes the console buffer.\<close>

definition off_console :: "(devs \<Rightarrow> i32 \<times> devs) \<Rightarrow> bool" where
  "off_console getdata \<longleftrightarrow> (\<forall>d b w. getdata (d\<lparr>cons_buf := b, cons_wpos := w\<rparr>)
     = (fst (getdata d), (snd (getdata d))\<lparr>cons_buf := b, cons_wpos := w\<rparr>))
     \<and> (\<forall>d. cons_buf (snd (getdata d)) = cons_buf d \<and> cons_wpos (snd (getdata d)) = cons_wpos d
        \<and> cons_rpos (snd (getdata d)) = cons_rpos d)"

lemma serial_off_console: "off_console serial_proc_data"
  by (simp add: off_console_def serial_proc_data_def inb_def Let_def)

lemma kbd_off_console: "off_console kbd_proc_data"
  by (simp add: off_console_def kbd_proc_data_def inb_def outb_def Let_def split: prod.splits)

lemma off_consoleD:
  assumes "off_console getdata" "getdata d = (c, d1)"
  shows "getdata (d\<lparr>cons_buf := b, cons_wpos := w\<rparr>) = (c, d1\<lparr>cons_buf := b, cons_wpos := w\<rparr>)"
    "cons_buf d1 = cons_buf d" "cons_wpos d1 = cons_wpos d" "cons_rpos d1 = cons_rpos d"
  using assms by (auto simp: off_console_def dest!: spec[of _ d])

lemma delivers_with:
  assumes off: "off_console getdata" and "delivers getdata d cs d'"
  shows "delivers getdata (d\<lparr>cons_buf := b, cons_wpos := w\<rparr>) cs (d'\<lparr>cons_buf := b, cons_wpos := w\<rparr>)"
  using assms(2)
proof induction
  case (stop d d')
  show ?case by (rule delivers.stop) (rule off_consoleD(1)[OF off stop])
next
  case (skip d d1 cs d')
  show ?case by (rule delivers.skip[where getdata = getdata, OF off_consoleD(1)[OF off skip(1)]]) (rule skip.IH)
next
  case (char d c d1 cs d')
  show ?case by (rule delivers.char[where getdata = getdata, OF off_consoleD(1)[OF off char(1)] char(2,3)]) (rule char.IH)
qed

lemma same_ring:
  assumes "cons_buf d' = cons_buf d" "cons_wpos d' = cons_wpos d" "cons_rpos d' = cons_rpos d"
  shows "ring_ok d' = ring_ok d" "pending d' = pending d" "npending d' = npending d"
  using assms by (simp_all add: ring_ok_def pending_def npending_def)

lemma cons_intr_ok:
  assumes off: "off_console getdata" and "delivers getdata d cs e" "ring_ok d" "npending d + length cs \<le> 511"
  shows "\<exists>d'. cons_intr getdata d = Some (Inr d') \<and> ring_ok d' \<and> pending d' = pending d @ cs"
  using assms(2-4)
proof (induction cs arbitrary: d e rule: length_induct)
  case (1 cs)
  have run: "\<exists>d'. cons_intr getdata d = Some (Inr d') \<and> ring_ok d' \<and> pending d' = pending d @ cs'"
    if "delivers getdata d cs' e" "length cs' = length cs" "ring_ok d" "npending d + length cs' \<le> 511" for cs' d e
    using that
  proof induction
    case (stop d d')
    then have "cons_intr getdata d = Some (Inr d')" by (subst cons_intr.simps) simp
    moreover have "ring_ok d'" "pending d' = pending d"
      using same_ring[OF off_consoleD(2-4)[OF off stop.hyps]] stop.prems by simp_all
    ultimately show ?case by simp
  next
    case (skip d d1 cs' d')
    have "ring_ok d1 = ring_ok d" "pending d1 = pending d" "npending d1 = npending d"
      by (rule same_ring[OF off_consoleD(2-4)[OF off skip.hyps(1)]])+
    with skip show ?case by (subst cons_intr.simps) simp
  next
    case (char d c d1 cs' d')
    have same: "ring_ok d1 = ring_ok d" "pending d1 = pending d" "npending d1 = npending d"
      by (rule same_ring[OF off_consoleD(2-4)[OF off char.hyps(1)]])+
    obtain d2 where d2: "cons_put (ucast c) d1 = Inr d2" "ring_ok d2" "pending d2 = pending d1 @ [ucast c]"
      "d2 = d1\<lparr>cons_buf := cons_buf d2, cons_wpos := cons_wpos d2\<rparr>"
      using cons_put_ok[of d1 "ucast c"] same char.prems by auto
    have "delivers getdata d2 cs' (d'\<lparr>cons_buf := cons_buf d2, cons_wpos := cons_wpos d2\<rparr>)"
      using delivers_with[OF off char.hyps(4), where b = "cons_buf d2" and w = "cons_wpos d2"] d2(4) by simp
    moreover have "npending d2 = Suc (npending d)" using arg_cong[OF d2(3), of length] same by simp
    ultimately obtain d3 where "cons_intr getdata d2 = Some (Inr d3)" "ring_ok d3" "pending d3 = pending d2 @ cs'"
      using 1(1) char.prems d2(2) by (metis (no_types, lifting) add_Suc add_Suc_right length_Cons lessI)
    then show ?case using char.hyps(1-3) d2(1,3) same by (subst cons_intr.simps) simp
  qed
  from run[OF 1(2) refl 1(3,4)] show ?case .
qed

section \<open>Properties\<close>

text \<open>
  C34: console input is a queue. While no more than 511 characters wait, the interrupt handlers of the
  serial line and of the keyboard append the characters their device delivers, in order and without
  leaving the buffer's bounds, and taking characters out delivers the oldest first.
\<close>

theorem console_input_queue:
  assumes "getdata = serial_proc_data \<or> getdata = kbd_proc_data" "delivers getdata d cs e"
    "ring_ok d" "npending d + length cs \<le> 511"
  shows "\<exists>d'. cons_intr getdata d = Some (Inr d') \<and> ring_ok d' \<and> pending d' = pending d @ cs
    \<and> (\<forall>x xs. pending d @ cs = x # xs \<longrightarrow> (\<exists>d''. cons_take d' = Inr (x, d'') \<and> ring_ok d'' \<and> pending d'' = xs))"
proof -
  have "off_console getdata" using assms(1) serial_off_console kbd_off_console by auto
  from cons_intr_ok[OF this assms(2-4)] obtain d' where
    d': "cons_intr getdata d = Some (Inr d')" "ring_ok d'" "pending d' = pending d @ cs" by blast
  then show ?thesis using cons_take_ok[OF d'(2)] by auto
qed

text \<open>
  The console buffer does not notice that it is full. The 512th waiting character brings the write
  position onto the read position, and all waiting characters, the new one included, are lost.
\<close>

theorem console_overrun:
  assumes "ring_ok d" "npending d = 511"
  shows "\<exists>d'. cons_put c d = Inr d' \<and> pending d' = []"
proof -
  let ?n = "if cons_wpos d + 1 = CONSOLE_BUFFER_SIZE then 0 else cons_wpos d + 1"
  let ?d = "d\<lparr>cons_buf := (cons_buf d)(cons_wpos d := c), cons_wpos := ?n\<rparr>"
  have wp: "cons_wpos d < CONSOLE_BUFFER_SIZE" using assms(1) by (simp add: ring_ok_def)
  have "unat ?n = unat (cons_rpos d)"
    using ring_next[OF wp] ring_bounds[OF assms(1)] assms(2)
    by (auto simp: npending_def word_le_nat_alt ring_at_def split: if_splits)
  then have "npending ?d = 0" by (auto simp: npending_def dest: unsigned_word_eqI)
  then show ?thesis using wp by (intro exI[of _ ?d]) (simp add: cons_put_def pending_def)
qed

section \<open>Witnesses\<close>

text \<open>A keyboard on which the key A is pressed, and a console with an empty buffer.\<close>

definition kbd_example :: devs where
  "kbd_example = undefined\<lparr>io_time := 0, cons_rpos := 3, cons_wpos := 3, kbd_shift := 0,
     io_in := (\<lambda>n port. if n = 0 then 1 else if n = 1 then 0x1E else 0)\<rparr>"

theorem console_input_queue_witness: "\<exists>d'. cons_intr kbd_proc_data kbd_example = Some (Inr d') \<and> pending d' = [97]"
proof -
  let ?e = "kbd_example\<lparr>io_time := 2, kbd_shift := 0\<rparr>"
  have "kbd_decode 0x1E 0 = (97, 0)"
    by (simp add: kbd_decode_def kbd_flags shiftcode_def togglecode_def charcode_def normalmap_def key_table_def)
  then have a: "kbd_proc_data kbd_example = (97, ?e)"
    by (simp add: kbd_proc_data_def inb_def kbd_example_def KBS_DIB_def KEY_DEL_def)
  have b: "kbd_proc_data ?e = (- 1, ?e\<lparr>io_time := 3\<rparr>)"
    by (simp add: kbd_proc_data_def inb_def kbd_example_def)
  have "delivers kbd_proc_data ?e [] (?e\<lparr>io_time := 3\<rparr>)" by (rule delivers.stop) (rule b)
  then have "delivers kbd_proc_data kbd_example [ucast (97 :: u32)] (?e\<lparr>io_time := 3\<rparr>)"
    by (intro delivers.char[where getdata = kbd_proc_data, OF a]) simp_all
  then have "delivers kbd_proc_data kbd_example [97] (?e\<lparr>io_time := 3\<rparr>)" by simp
  moreover have "ring_ok kbd_example" "npending kbd_example = 0"
    by (simp_all add: ring_ok_def npending_def kbd_example_def CONSOLE_BUFFER_SIZE_def)
  moreover from this have "pending kbd_example = []" by (simp add: pending_def)
  ultimately show ?thesis using console_input_queue[of kbd_proc_data kbd_example "[97]"] by force
qed

theorem console_overrun_witness:
  "\<exists>d'. cons_put 97 (kbd_example\<lparr>cons_rpos := 0, cons_wpos := 511\<rparr>) = Inr d' \<and> pending d' = []"
  by (rule console_overrun) (simp_all add: ring_ok_def npending_def CONSOLE_BUFFER_SIZE_def)

end
