(* ===== verification/DevPic.thy ===== *)
theory DevPic
  imports DevIO SegDesc
begin

text \<open>
  Interrupts: the two 8259A controllers (\<^verbatim>\<open>kern/dev/pic.c\<close>), the interrupt descriptor table
  and its handlers (\<^verbatim>\<open>kern/dev/intr.c\<close>), and the interval timer (\<^verbatim>\<open>kern/dev/timer.c\<close>).
\<close>

section \<open>Interrupt controllers\<close>

definition IO_PIC1 :: u32 where "IO_PIC1 = 0x20"
definition IO_PIC2 :: u32 where "IO_PIC2 = 0xA0"
definition IRQ_SLAVE :: u8 where "IRQ_SLAVE = 2"
definition T_IRQ0 :: u32 where "T_IRQ0 = 32"

text \<open>The value the loader gives \<^verbatim>\<open>irqmask\<close>.\<close>

definition irqmask_boot :: u16 where "irqmask_boot = 0xFFFF AND NOT (push_bit 2 1)"

definition pic_init :: "devs \<Rightarrow> devs" where
  "pic_init d =
     (if pic_inited d then d
      else (let d = d\<lparr>pic_inited := True\<rparr>;
                d = outb (IO_PIC1 + 1) 0xFF d;
                d = outb (IO_PIC2 + 1) 0xFF d;
                d = outb IO_PIC1 0x11 d;
                d = outb (IO_PIC1 + 1) (ucast T_IRQ0) d;
                d = outb (IO_PIC1 + 1) (push_bit 2 1) d;
                d = outb (IO_PIC1 + 1) 0x1 d;
                d = outb IO_PIC2 0x11 d;
                d = outb (IO_PIC2 + 1) (ucast (T_IRQ0 + 8)) d;
                d = outb (IO_PIC2 + 1) IRQ_SLAVE d;
                d = outb (IO_PIC2 + 1) 0x01 d;
                d = outb IO_PIC1 0x68 d;
                d = outb IO_PIC1 0x0a d;
                d = outb IO_PIC2 0x68 d;
                d = outb IO_PIC2 0x0a d;
                d = outb (IO_PIC1 + 1) 0xFF d;
                d = outb (IO_PIC2 + 1) 0xFF d
            in d))"

definition pic_setmask :: "u16 \<Rightarrow> devs \<Rightarrow> devs" where
  "pic_setmask msk d =
     (let d = d\<lparr>irqmask := msk\<rparr>;
          d = outb (IO_PIC1 + 1) (ucast msk) d
      in outb (IO_PIC2 + 1) (ucast (drop_bit 8 msk)) d)"

definition pic_enable :: "nat \<Rightarrow> devs \<Rightarrow> devs" where
  "pic_enable irq d = pic_setmask (irqmask d AND NOT (push_bit irq 1)) d"

definition pic_eoi :: "devs \<Rightarrow> devs" where
  "pic_eoi d = outb IO_PIC2 0x20 (outb IO_PIC1 0x20 d)"

definition pic_reset :: "devs \<Rightarrow> devs" where
  "pic_reset d =
     (let d = outb (IO_PIC1 + 1) 0x00 d;
          d = outb (IO_PIC2 + 1) 0x00 d;
          d = outb IO_PIC1 0x11 d;
          d = outb (IO_PIC1 + 1) (ucast T_IRQ0) d;
          d = outb (IO_PIC1 + 1) (push_bit 2 1) d;
          d = outb (IO_PIC1 + 1) 0x3 d;
          d = outb IO_PIC2 0x11 d;
          d = outb (IO_PIC2 + 1) (ucast (T_IRQ0 + 8)) d;
          d = outb (IO_PIC2 + 1) IRQ_SLAVE d;
          d = outb (IO_PIC2 + 1) 0x01 d;
          d = outb IO_PIC1 0x68 d;
          d = outb IO_PIC1 0x0a d;
          d = outb IO_PIC2 0x68 d
      in outb IO_PIC2 0x0a d)"

section \<open>Interrupt descriptor table\<close>

definition STS_IG32 :: u8 where "STS_IG32 = 0xE"
definition STS_TG32 :: u8 where "STS_TG32 = 0xF"

definition SETGATE :: "bool \<Rightarrow> u16 \<Rightarrow> u32 \<Rightarrow> u8 \<Rightarrow> gatedesc" where
  "SETGATE istrap sel off dpl = \<lparr>gd_off_15_0 = ucast (off AND 0xFFFF), gd_ss = sel, gd_args = 0, gd_rsv1 = 0,
     gd_type = (if istrap then STS_TG32 else STS_IG32), gd_s = False, gd_dpl = dpl, gd_p = True,
     gd_off_31_16 = ucast (drop_bit 16 off)\<rparr>"

text \<open>
  The vectors and privilege levels of the table \<^verbatim>\<open>intr_init_idt\<close> fills; the address of the handler
  \<^verbatim>\<open>X...\<close> of a vector is a parameter, since the linker chooses it. \<open>None\<close> stands for \<^verbatim>\<open>Xdefault\<close>.
\<close>

definition T_SYSCALL :: u32 where "T_SYSCALL = 48"
definition T_DEFAULT :: u32 where "T_DEFAULT = 254"

definition exception_vectors :: "(u32 \<times> u8) list" where
  "exception_vectors = [(0, 0), (1, 0), (2, 0), (3, 3), (4, 3), (5, 0), (6, 0), (7, 0), (8, 0), (10, 0), (11, 0),
     (12, 0), (13, 0), (14, 0), (16, 0), (17, 0), (18, 0)]"

definition irq_vectors :: "(u32 \<times> u8) list" where
  "irq_vectors = map (\<lambda>n. (T_IRQ0 + word_of_nat n, 0)) [0..<16]"

definition intr_init_idt :: "(u32 option \<Rightarrow> u32) \<Rightarrow> devs \<Rightarrow> devs" where
  "intr_init_idt handler d =
     (let t = (\<lambda>i. if i < 256 then SETGATE False CPU_GDT_KCODE (handler None) 0 else idt d i);
          t = fold (\<lambda>(v, dpl) t. t(v := SETGATE False CPU_GDT_KCODE (handler (Some v)) dpl))
                (exception_vectors @ irq_vectors @ [(T_SYSCALL, 3)]) t;
          t = t(T_DEFAULT := SETGATE False CPU_GDT_KCODE (handler None) 0)
      in d\<lparr>idt := t\<rparr>)"

definition intr_init :: "(u32 option \<Rightarrow> u32) \<Rightarrow> devs \<Rightarrow> devs" where
  "intr_init handler d =
     (if intr_inited d then d
      else (intr_init_idt handler (pic_init d))\<lparr>intr_inited := True\<rparr>)"

definition intr_enable :: "nat \<Rightarrow> devs \<Rightarrow> devs" where
  "intr_enable irq d = (if irq \<ge> 16 then d else pic_enable irq d)"

definition intr_eoi :: "devs \<Rightarrow> devs" where "intr_eoi d = pic_eoi d"
definition intr_local_enable :: "devs \<Rightarrow> devs" where "intr_local_enable d = sti d"
definition intr_local_disable :: "devs \<Rightarrow> devs" where "intr_local_disable d = cli d"

text \<open>The interrupt part of \<^verbatim>\<open>devinit\<close>: \<^verbatim>\<open>IRQ_TIMER\<close>, \<^verbatim>\<open>IRQ_KBD\<close>, \<^verbatim>\<open>IRQ_SERIAL13\<close>.\<close>

definition devinit_intr :: "(u32 option \<Rightarrow> u32) \<Rightarrow> devs \<Rightarrow> devs" where
  "devinit_intr handler d = intr_enable 4 (intr_enable 1 (intr_enable 0 (intr_init handler d)))"

section \<open>Interval timer\<close>

definition TIMER_FREQ :: nat where "TIMER_FREQ = 1193182"
definition FREQ :: nat where "FREQ = 100"

definition TIMER_DIV :: "nat \<Rightarrow> nat" where "TIMER_DIV x = (TIMER_FREQ + x div 2) div x"
definition LATCH :: u32 where "LATCH = word_of_nat (TIMER_DIV FREQ)"

definition timer_hw_init :: "devs \<Rightarrow> devs" where
  "timer_hw_init d =
     (let d = outb 0x043 (0x00 OR 0x04 OR 0x30) d;
          d = outb 0x040 (ucast (LATCH AND 0xFF)) d
      in outb 0x040 (ucast (drop_bit 8 LATCH AND 0xFF)) d)"

section \<open>Properties\<close>

text \<open>The mask that the controllers hold: the last byte written to each of the two data ports.\<close>

definition last_out :: "u32 \<Rightarrow> devs \<Rightarrow> u8 option" where
  "last_out port d = map_of (io_out d) port"

definition pic_masks :: "devs \<Rightarrow> (u8 option \<times> u8 option)" where
  "pic_masks d = (last_out (IO_PIC1 + 1) d, last_out (IO_PIC2 + 1) d)"

text \<open>Interrupt line \<open>n\<close> is let through by the controllers.\<close>

definition irq_open :: "nat \<Rightarrow> devs \<Rightarrow> bool" where
  "irq_open n d = (case pic_masks d of
     (Some lo, Some hi) \<Rightarrow> if n < 8 then \<not> bit lo n else \<not> bit hi (n - 8)
   | _ \<Rightarrow> False)"

lemma setmask_open: "n < 16 \<Longrightarrow> irq_open n (pic_setmask msk d) \<longleftrightarrow> \<not> bit msk n"
  by (auto simp: irq_open_def pic_masks_def last_out_def pic_setmask_def outb_def IO_PIC1_def IO_PIC2_def
      bit_simps Let_def)

lemma enable_open:
  assumes "irq < 16" "n < 16"
  shows "irq_open n (intr_enable irq d) \<longleftrightarrow> n = irq \<or> \<not> bit (irqmask d) n" "irqmask (intr_enable irq d) = irqmask d AND NOT (push_bit irq 1)"
  using assms
  by (auto simp: intr_enable_def pic_enable_def setmask_open bit_simps) (simp add: pic_setmask_def outb_def Let_def)

lemma irqmask_boot_bit: "n < 16 \<Longrightarrow> bit irqmask_boot n \<longleftrightarrow> n \<noteq> 2"
proof -
  have e: "irqmask_boot = mask 16 AND NOT (push_bit 2 1)" by (simp add: irqmask_boot_def mask_eq_exp_minus_1)
  show "n < 16 \<Longrightarrow> bit irqmask_boot n \<longleftrightarrow> n \<noteq> 2" 
    unfolding e bit_and_iff bit_not_iff bit_push_bit_iff bit_mask_iff bit_1_iff by auto
qed

lemma idt_fold:
  "fold (\<lambda>(v, dpl) t. t(v := f v dpl)) xs t0 v = (case map_of (rev xs) v of Some dpl \<Rightarrow> f v dpl | None \<Rightarrow> t0 v)"
  for xs :: "(u32 \<times> u8) list" and f :: "u32 \<Rightarrow> u8 \<Rightarrow> gatedesc"
  by (induction xs rule: rev_induct) auto

definition user_vectors :: "(u32 \<times> u8) list" where
  "user_vectors = exception_vectors @ irq_vectors @ [(T_SYSCALL, 3)]"

lemma idt_lookup:
  "idt (intr_init_idt handler d) v =
     (if v = T_DEFAULT then SETGATE False CPU_GDT_KCODE (handler None) 0
      else case map_of (rev user_vectors) v of
        Some dpl \<Rightarrow> SETGATE False CPU_GDT_KCODE (handler (Some v)) dpl
      | None \<Rightarrow> if v < 256 then SETGATE False CPU_GDT_KCODE (handler None) 0 else idt d v)"
  unfolding intr_init_idt_def Let_def user_vectors_def[symmetric] by (simp add: idt_fold)

lemma user_vectors_eq:
  "map_of (rev user_vectors) v = (if v = 3 \<or> v = 4 \<or> v = 48 then Some 3
     else if v \<in> {0, 1, 2, 5, 6, 7, 8, 10, 11, 12, 13, 14, 16, 17, 18} \<union>
       {32, 33, 34, 35, 36, 37, 38, 39, 40, 41, 42, 43, 44, 45, 46, 47} then Some 0 else None)"
proof -
  have "[0..<16] = [0, 1, 2, 3, 4, 5, 6, 7, 8, 9, 10, 11, 12, 13, 14, 15 :: nat]" by (simp add: upt_conv_Cons)
  then have irq: "irq_vectors = [(32, 0), (33, 0), (34, 0), (35, 0), (36, 0), (37, 0), (38, 0), (39, 0), (40, 0), (41, 0),
     (42, 0), (43, 0), (44, 0), (45, 0), (46, 0), (47, 0)]" by (simp add: irq_vectors_def T_IRQ0_def)
  show ?thesis by (simp add: irq user_vectors_def exception_vectors_def T_SYSCALL_def)
qed

text \<open>The gate's offset is the handler's address.\<close>

definition gate_offset :: "gatedesc \<Rightarrow> u32" where
  "gate_offset g = ucast (gd_off_15_0 g) OR push_bit 16 (ucast (gd_off_31_16 g))"

lemma SETGATE_offset [simp]: "gate_offset (SETGATE b sel off dpl) = off"
proof -
  have "off AND 0xFFFF = take_bit 16 off" by (simp add: take_bit_eq_mask mask_eq_exp_minus_1)
  then show ?thesis by (simp only: gate_offset_def SETGATE_def gatedesc.simps) (rule bit_word_eqI; auto simp: bit_simps)
qed


lemma SETGATE_sel [simp]:
  "gd_p (SETGATE False sel off dpl)" "gd_type (SETGATE False sel off dpl) = STS_IG32"
  "gd_ss (SETGATE False sel off dpl) = sel" "gd_dpl (SETGATE False sel off dpl) = dpl"
  by (simp_all add: SETGATE_def)

text \<open>
  C36: the interrupt set-up of the kernel. After \<^verbatim>\<open>intr_init\<close> and the three \<^verbatim>\<open>intr_enable\<close> calls of
  \<^verbatim>\<open>devinit\<close> the controllers let exactly the timer, keyboard, serial and cascade lines through;
  every vector leads through a present interrupt gate of the kernel code segment to its
  own handler or to the default one; and user code can raise exactly the breakpoint, overflow and
  system call vectors.
\<close>

theorem intr_setup_correct:
  fixes d :: devs
  assumes "irqmask d = irqmask_boot" "\<not> intr_inited d"
  shows "let d' = devinit_intr handler d in (\<forall>n<16. irq_open n d' \<longleftrightarrow> n = 0 \<or> n = 1 \<or> n = 2 \<or> n = 4)
    \<and> (\<forall>v<256. gd_p (idt d' v) \<and> gd_type (idt d' v) = STS_IG32 \<and> gd_ss (idt d' v) = CPU_GDT_KCODE
         \<and> gate_offset (idt d' v) = handler (if v \<in> set (map fst user_vectors) then Some v else None)
         \<and> (gd_dpl (idt d' v) = 3 \<longleftrightarrow> v = 3 \<or> v = 4 \<or> v = T_SYSCALL))"
proof -
  define d' where "d' = devinit_intr handler d"
  have idt': "idt d' = idt (intr_init_idt handler (pic_init d))"
    using assms(2) by (simp add: d'_def devinit_intr_def intr_enable_def pic_enable_def pic_setmask_def outb_def intr_init_def Let_def)
  have im: "irqmask (intr_init handler d) = irqmask_boot"
    using assms(1,2) by (simp add: intr_init_def intr_init_idt_def pic_init_def outb_def Let_def)
  have "irq_open n d' \<longleftrightarrow> n = 0 \<or> n = 1 \<or> n = 2 \<or> n = 4" if "n < 16" for n
    unfolding d'_def devinit_intr_def using that by (auto simp: enable_open im irqmask_boot_bit bit_simps)
  moreover have "gd_p (idt d' v) \<and> gd_type (idt d' v) = STS_IG32 \<and> gd_ss (idt d' v) = CPU_GDT_KCODE
         \<and> gate_offset (idt d' v) = handler (if v \<in> set (map fst user_vectors) then Some v else None)
         \<and> (gd_dpl (idt d' v) = 3 \<longleftrightarrow> v = 3 \<or> v = 4 \<or> v = T_SYSCALL)" if "v < 256" for v
  proof -
    have dom: "v \<in> set (map fst user_vectors) \<longleftrightarrow> map_of (rev user_vectors) v \<noteq> None"
      by (simp add: map_of_eq_None_iff)
    show ?thesis unfolding idt' idt_lookup dom using that
      by (auto simp: user_vectors_eq T_DEFAULT_def T_SYSCALL_def split: option.splits if_splits)
  qed
  ultimately show ?thesis unfolding Let_def d'_def[symmetric] by blast
qed


theorem intr_setup_correct_witness:
  "\<exists>d :: devs. irqmask d = irqmask_boot \<and> \<not> intr_inited d
     \<and> (let d' = devinit_intr (\<lambda>_. 0x101234) d in irq_open 4 d' \<and> \<not> irq_open 3 d' \<and> gd_dpl (idt d' 48) = 3
         \<and> gate_offset (idt d' 48) = 0x101234)"
proof -
  obtain d :: devs where d: "irqmask d = irqmask_boot" "\<not> intr_inited d"
    by (rule that[of "undefined\<lparr>irqmask := irqmask_boot, intr_inited := False\<rparr>"]) simp_all
  from intr_setup_correct[OF d, of "\<lambda>_. 0x101234"] d show ?thesis
    by (intro exI[of _ d]) (simp add: Let_def T_SYSCALL_def)
qed

end
