(* ===== verification/DevTsc.thy ===== *)
theory DevTsc
  imports DevPic
begin

text \<open>
  Calibration of the time stamp counter, \<^verbatim>\<open>kern/dev/tsc.c\<close>, and the detection of the KVM hypervisor
  it asks first, \<^verbatim>\<open>kern/dev/kvm.c\<close>. Diagnostic prints are left out.
\<close>

section \<open>KVM\<close>

definition CPUID_FEATURE_HYPERVISOR :: u32 where "CPUID_FEATURE_HYPERVISOR = push_bit 31 1"
definition CPUID_KVM_SIGNATURE :: u32 where "CPUID_KVM_SIGNATURE = 0x40000000"
definition CPUID_KVM_FEATURES :: u32 where "CPUID_KVM_FEATURES = 0x40000001"
definition MSR_KVM_SYSTEM_TIME_NEW :: u32 where "MSR_KVM_SYSTEM_TIME_NEW = 0x4b564d01"
definition MSR_KVM_SYSTEM_TIME :: u32 where "MSR_KVM_SYSTEM_TIME = 0x12"

definition cpu_has :: "u32 \<Rightarrow> devs \<Rightarrow> u32" where
  "cpu_has flag d =
     (let info = (if flag AND 0x100 \<noteq> 0 then 7 else if flag AND 0x20 \<noteq> 0 then 0x80000001 else 1);
          (eax, ebx, ecx, edx) = cpuid info d
      in drop_bit (unat (flag AND 31)) (if flag AND 0x100 \<noteq> 0 then ebx else if flag AND 0x80 \<noteq> 0 then ecx else edx) AND 1)"

text \<open>
  \<^verbatim>\<open>strncmp ("KVMKVMKVM", ..., 9)\<close> on the three words, which \<^verbatim>\<open>cpuid\<close> delivers in the order of the
  variables \<^verbatim>\<open>hyper_vendor_id[0..2]\<close>, that is from ebx, ecx and edx: the first two are the bytes
  \<^verbatim>\<open>KVMK\<close> and \<^verbatim>\<open>VMKV\<close>, and only the low byte of the third is compared.
\<close>

definition detect_kvm :: "devs \<Rightarrow> bool" where
  "detect_kvm d =
     (if cpu_has CPUID_FEATURE_HYPERVISOR d \<noteq> 0
      then (let (eax, ebx, ecx, edx) = cpuid CPUID_KVM_SIGNATURE d
            in ebx = 0x4B4D564B \<and> ecx = 0x564B4D56 \<and> edx AND 0xFF = 0x4D)
      else False)"

definition kvm_has_feature :: "u32 \<Rightarrow> devs \<Rightarrow> bool" where
  "kvm_has_feature feature d = (let (eax, ebx, ecx, edx) = cpuid CPUID_KVM_FEATURES d in eax AND feature \<noteq> 0)"

text \<open>The arguments \<^verbatim>\<open>eax\<close>, \<^verbatim>\<open>edx\<close> set before the instruction do not reach it.\<close>

definition kvm_enable_feature :: "u32 \<Rightarrow> devs \<Rightarrow> bool" where
  "kvm_enable_feature feature d = (let (eax, ebx, ecx, edx) = cpuid CPUID_KVM_FEATURES d in ebx = 0)"

text \<open>The address of \<^verbatim>\<open>pvclock\<close> is a parameter; the hypervisor fills the structure.\<close>

definition kvm_get_tsc_hz :: "u32 \<Rightarrow> devs \<Rightarrow> u64 \<times> devs" where
  "kvm_get_tsc_hz loc_pvclock d =
     (if kvm_has_feature 3 d \<or> kvm_has_feature 0 d
      then (let msr = (if kvm_has_feature 3 d then MSR_KVM_SYSTEM_TIME_NEW else MSR_KVM_SYSTEM_TIME);
                d = wrmsr msr (ucast loc_pvclock OR 1) d;
                tsc_hz = ucast (io_pvclock d);
                d = wrmsr msr (ucast loc_pvclock) d
            in (tsc_hz, d))
      else (0, d))"

section \<open>Calibration\<close>

text \<open>
  The polling loop of \<^verbatim>\<open>tsc_calibrate\<close>, with the variables \<^verbatim>\<open>tsc\<close>, \<^verbatim>\<open>t2\<close>, \<^verbatim>\<open>tscmin\<close>, \<^verbatim>\<open>tscmax\<close> and
  \<^verbatim>\<open>pitcnt\<close>; it ends when the timer raises its output. A timer that never does keeps it going.
\<close>

partial_function (option) pit_poll ::
  "u64 \<Rightarrow> u64 \<Rightarrow> u64 \<Rightarrow> u64 \<Rightarrow> i32 \<Rightarrow> devs \<Rightarrow> (u64 \<times> u64 \<times> u64 \<times> i32 \<times> devs) option" where
  "pit_poll tsc t2 tscmin tscmax pitcnt d =
     (case inb 0x61 d of (st, d1) \<Rightarrow>
        if st AND 0x20 = 0
        then (case rdtsc d1 of (t, d2) \<Rightarrow>
                let delta = t - tsc
                in pit_poll t t (if delta < tscmin then delta else tscmin) (if delta > tscmax then delta else tscmax)
                     (pitcnt + 1) d2)
        else Some (t2, tscmin, tscmax, pitcnt, d1))"

definition tsc_calibrate :: "u32 \<Rightarrow> u32 \<Rightarrow> i32 \<Rightarrow> devs \<Rightarrow> (u64 \<times> devs) res" where
  "tsc_calibrate latch ms loopmin d =
     (let (v, d) = inb 0x61 d;
          d = outb 0x61 ((v AND NOT 0x02) OR 0x01) d;
          d = outb 0x43 0xb0 d;
          d = outb 0x42 (ucast (latch AND 0xff)) d;
          d = outb 0x42 (ucast (drop_bit 8 latch)) d;
          (t1, d) = rdtsc d
      in case pit_poll t1 t1 (NOT 0) 0 0 d of
           None \<Rightarrow> Inl Diverges
         | Some (t2, tscmin, tscmax, pitcnt, d) \<Rightarrow>
             if sint pitcnt < sint loopmin \<or> tscmax > 10 * tscmin then Inr (NOT 0, d)
             else Inr ((t2 - t1) div ucast ms, d))"

definition CAL_MS :: u32 where "CAL_MS = 10"
definition CAL_LATCH :: u32 where "CAL_LATCH = word_of_nat (TIMER_FREQ div (1000 div 10))"
definition CAL_PIT_LOOPS :: i32 where "CAL_PIT_LOOPS = 1000"

text \<open>At most \<open>n\<close> further attempts.\<close>

fun tsc_attempts :: "nat \<Rightarrow> u64 \<Rightarrow> devs \<Rightarrow> (u64 \<times> devs) res" where
  "tsc_attempts 0 ret d = Inr (ret, d)"
| "tsc_attempts (Suc n) ret d =
     rbind (tsc_calibrate CAL_LATCH CAL_MS CAL_PIT_LOOPS d) (\<lambda>(ret, d).
     if ret \<noteq> NOT 0 then Inr (ret, d) else tsc_attempts n ret d)"

definition tsc_init :: "u32 \<Rightarrow> devs \<Rightarrow> (i32 \<times> devs) res" where
  "tsc_init loc_pvclock d =
     (let d = (timer_hw_init d)\<lparr>tsc_per_ms := 0\<rparr>
      in if detect_kvm d
         then (let (hz, d) = kvm_get_tsc_hz loc_pvclock d in Inr (0, d\<lparr>tsc_per_ms := hz div 1000\<rparr>))
         else rbind (tsc_attempts 10 0 d) (\<lambda>(ret, d).
              if ret = NOT 0 then Inr (1, timer_hw_init (d\<lparr>tsc_per_ms := 1000000\<rparr>))
              else Inr (0, timer_hw_init (d\<lparr>tsc_per_ms := ret\<rparr>))))"

text \<open>
  The waiting loop shared by \<^verbatim>\<open>delay\<close> and \<^verbatim>\<open>udelay\<close>: \<^verbatim>\<open>while (rdtsc() < start + ticks);\<close>
\<close>

partial_function (option) tsc_wait :: "u64 \<Rightarrow> devs \<Rightarrow> devs option" where
  "tsc_wait until d = (case rdtsc d of (t, d1) \<Rightarrow> if t < until then tsc_wait until d1 else Some d1)"

definition delay :: "u32 \<Rightarrow> devs \<Rightarrow> devs option" where
  "delay ms d = (let ticks = tsc_per_ms d * ucast ms; (start, d) = rdtsc d in tsc_wait (start + ticks) d)"

definition udelay :: "u32 \<Rightarrow> devs \<Rightarrow> devs option" where
  "udelay us d = (let ticks = tsc_per_ms d div 1000 * ucast us; (start, d) = rdtsc d in tsc_wait (start + ticks) d)"

section \<open>Properties\<close>

text \<open>If the timer raises its output in some later read, the loop ends.\<close>

lemma io_step [simp]:
  "io_in (snd (inb p d)) = io_in d" "io_time (snd (inb p d)) = Suc (io_time d)"
  "io_in (snd (rdtsc d)) = io_in d" "io_time (snd (rdtsc d)) = Suc (io_time d)" "io_in (outb p v d) = io_in d"
  "io_time (outb p v d) = io_time d"
  by (simp_all add: inb_def rdtsc_def outb_def)

definition only_io :: "devs \<Rightarrow> devs \<Rightarrow> bool" where
  "only_io d d' \<longleftrightarrow> d' = d\<lparr>io_time := io_time d', io_out := io_out d', tsc_per_ms := tsc_per_ms d', io_msr := io_msr d'\<rparr>"

lemma only_io_refl: "only_io d d"
  by (simp add: only_io_def)

lemma only_io_trans: "only_io d e \<Longrightarrow> only_io e f \<Longrightarrow> only_io d f"
  by (cases d, cases e, cases f) (simp add: only_io_def)

lemma only_io_inb: "only_io d (snd (inb p d))"
  by (simp add: only_io_def inb_def)

lemma only_io_rdtsc: "only_io d (snd (rdtsc d))"
  by (simp add: only_io_def rdtsc_def)

lemma only_io_outb: "only_io d (outb p v d)"
  by (simp add: only_io_def outb_def)

definition timer_fires :: "devs \<Rightarrow> bool" where
  "timer_fires d \<longleftrightarrow> (\<forall>n. \<exists>m\<ge>n. io_in d m 0x61 AND 0x20 \<noteq> 0 \<and> io_in d (Suc m) 0x61 AND 0x20 \<noteq> 0)"

lemma only_io_in: "only_io d d' \<Longrightarrow> io_in d' = io_in d"
  unfolding only_io_def by (drule arg_cong[of _ _ io_in]) simp

lemma timer_fires_only_io: "only_io d d' \<Longrightarrow> timer_fires d' = timer_fires d"
  by (simp add: timer_fires_def only_io_in)

lemma pit_poll_until:
  assumes "io_in d m 0x61 AND 0x20 \<noteq> 0" "io_in d (Suc m) 0x61 AND 0x20 \<noteq> 0" "io_time d \<le> Suc m"
  shows "\<exists>t2' lo' hi' cnt' d'. pit_poll tsc t2 lo hi cnt d = Some (t2', lo', hi', cnt', d') \<and> only_io d d'"
  using assms
proof (induction "Suc m - io_time d" arbitrary: tsc t2 lo hi cnt d rule: less_induct)
  case less
  obtain st d1 where i: "inb 0x61 d = (st, d1)" by (cases "inb 0x61 d")
  obtain t d2 where r: "rdtsc d1 = (t, d2)" by (cases "rdtsc d1")
  have st: "st = io_in d (io_time d) 0x61" using i by (simp add: inb_def)
  have e: "only_io d d1" "only_io d d2" using only_io_inb[of d "0x61"] only_io_rdtsc[of d1] i r only_io_trans by auto
  have tm: "io_time d2 = io_time d + 2" using io_step(2)[of "0x61" d] io_step(4)[of d1] i r by simp
  show ?case
  proof (cases "st AND 0x20 = 0")
    case True
    then have "io_time d \<noteq> m" "io_time d \<noteq> Suc m" using less.prems st by auto
    then have lt: "Suc m - io_time d2 < Suc m - io_time d" "io_time d2 \<le> Suc m" using tm less.prems(3) by auto
    have "io_in d2 = io_in d" using e only_io_in by auto
    with less.hyps[OF lt(1) _ _ lt(2), of t t "if t - tsc < lo then t - tsc else lo"
        "if hi < t - tsc then t - tsc else hi" "cnt + 1"] less.prems
    obtain t2' lo' hi' cnt' d' where
      "pit_poll t t (if t - tsc < lo then t - tsc else lo) (if hi < t - tsc then t - tsc else hi) (cnt + 1) d2
         = Some (t2', lo', hi', cnt', d')" "only_io d2 d'" by auto
    then show ?thesis using True i r e only_io_trans by (subst pit_poll.simps) (auto simp: Let_def)
  next
    case False
    then show ?thesis using i e by (subst pit_poll.simps) auto
  qed
qed

lemma tsc_calibrate_returns:
  assumes "timer_fires d"
  shows "\<exists>r d'. tsc_calibrate latch ms loopmin d = Inr (r, d') \<and> only_io d d'"
proof -
  obtain v d1 where i: "inb 0x61 d = (v, d1)" by (cases "inb 0x61 d")
  let ?d2 = "outb 0x42 (ucast (drop_bit 8 latch)) (outb 0x42 (ucast (latch AND 0xff)) (outb 0x43 0xb0
     (outb 0x61 ((v AND NOT 0x02) OR 0x01) d1)))"
  obtain t1 d3 where r: "rdtsc ?d2 = (t1, d3)" by (cases "rdtsc ?d2")
  have "only_io d d1" using only_io_inb[of d "0x61"] i by simp
  moreover have "only_io d1 ?d2" by (meson only_io_outb only_io_trans)
  moreover have "only_io ?d2 d3" using only_io_rdtsc[of ?d2] r by simp
  ultimately have e: "only_io d d3" using only_io_trans by blast
  obtain m where m: "io_time d3 \<le> m" "io_in d m 0x61 AND 0x20 \<noteq> 0" "io_in d (Suc m) 0x61 AND 0x20 \<noteq> 0"
    using assms by (auto simp: timer_fires_def)
  obtain t2 lo hi cnt d4 where p: "pit_poll t1 t1 (NOT 0) 0 0 d3 = Some (t2, lo, hi, cnt, d4)" "only_io d3 d4"
    using pit_poll_until[of d3 m t1 t1 "NOT 0" 0 0] m only_io_in[OF e] by auto
  have "only_io d d4" using e p(2) only_io_trans by blast
  then show ?thesis using i r p(1) by (auto simp: tsc_calibrate_def Let_def)
qed

lemma tsc_attempts_returns:
  assumes "timer_fires d"
  shows "\<exists>r d'. tsc_attempts n ret d = Inr (r, d') \<and> only_io d d'"
  using assms
proof (induction n arbitrary: ret d)
  case 0
  then show ?case by (simp add: only_io_refl)
next
  case (Suc n)
  obtain r d1 where c: "tsc_calibrate CAL_LATCH CAL_MS CAL_PIT_LOOPS d = Inr (r, d1)" "only_io d d1"
    using tsc_calibrate_returns[OF Suc.prems] by blast
  have "timer_fires d1" using timer_fires_only_io[OF c(2)] Suc.prems by simp
  from Suc.IH[OF this, of r] c show ?case using only_io_trans by fastforce
qed

lemma only_io_timer: "only_io d (timer_hw_init d)"
  by (simp add: only_io_def timer_hw_init_def outb_def Let_def)

lemma only_io_tsc: "only_io d (d\<lparr>tsc_per_ms := v\<rparr>)"
  by (simp add: only_io_def)

lemma only_io_kvm: "only_io d (snd (kvm_get_tsc_hz loc d))"
  by (simp add: only_io_def kvm_get_tsc_hz_def wrmsr_def Let_def)

lemma tsc_init_ok:
  assumes "timer_fires d"
  shows "\<exists>r d'. tsc_init loc d = Inr (r, d') \<and> only_io d d' \<and> (r = 0 \<or> r = 1 \<and> tsc_per_ms d' = 1000000)"
proof -
  let ?d = "(timer_hw_init d)\<lparr>tsc_per_ms := 0\<rparr>"
  have e: "only_io d ?d" by (rule only_io_trans[OF only_io_timer only_io_tsc])
  show ?thesis
  proof (cases "detect_kvm ?d")
    case True
    obtain hz d1 where k: "kvm_get_tsc_hz loc ?d = (hz, d1)" by (cases "kvm_get_tsc_hz loc ?d")
    have "only_io ?d d1" using only_io_kvm[of ?d loc] k by simp
    from only_io_trans[OF only_io_trans[OF e this] only_io_tsc]
    have "only_io d (d1\<lparr>tsc_per_ms := hz div 1000\<rparr>)" .
    then show ?thesis using True k by (simp add: tsc_init_def Let_def)
  next
    case False
    have "timer_fires ?d" using assms timer_fires_only_io[OF e] by simp
    from tsc_attempts_returns[OF this] obtain r d1 where a: "tsc_attempts 10 0 ?d = Inr (r, d1)" "only_io ?d d1" by blast
    have o: "only_io d (timer_hw_init (d1\<lparr>tsc_per_ms := v\<rparr>))" for v
      by (rule only_io_trans[OF only_io_trans[OF only_io_trans[OF e a(2)] only_io_tsc] only_io_timer])
    have "tsc_per_ms (timer_hw_init (d1\<lparr>tsc_per_ms := v\<rparr>)) = v" for v
      by (simp add: timer_hw_init_def outb_def Let_def)
    then show ?thesis using False a(1) o by (auto simp: tsc_init_def Let_def)
  qed
qed

text \<open>
  \<^verbatim>\<open>tsc_init\<close> ends if the interval timer keeps raising its output: ten attempts at most, each of which
  polls until the output is up. It touches nothing but the ports, the model-specific registers and
  \<^verbatim>\<open>tsc_per_ms\<close>, and when it reports failure it assumes a clock of 1 GHz.
\<close>

theorem tsc_init_returns:
  assumes "timer_fires d"
  shows "\<exists>r d'. tsc_init loc d = Inr (r, d') \<and> only_io d d' \<and> (r = 0 \<or> r = 1 \<and> tsc_per_ms d' = 1000000)"
  by (rule tsc_init_ok[OF assms])

theorem tsc_init_returns_witness:
  "\<exists>r d'. tsc_init 0x300000 (undefined\<lparr>io_in := (\<lambda>n port. if port = 0x61 \<and> even (n div 5) then 0x20 else 0)\<rparr>) = Inr (r, d')"
proof -
  let ?d = "undefined\<lparr>io_in := (\<lambda>n port. if port = 0x61 \<and> even (n div 5) then 0x20 else 0)\<rparr> :: devs"
  have "\<exists>m\<ge>n. even (m div 5) \<and> even (Suc m div 5)" for n :: nat
  proof (rule exI[of _ "10 * n"])
    have "Suc (10 * n) div 5 = 2 * n" by linarith
    then show "n \<le> 10 * n \<and> even (10 * n div 5) \<and> even (Suc (10 * n) div 5)" by simp
  qed
  then have "timer_fires ?d" by (simp add: timer_fires_def) metis
  from tsc_init_returns[OF this] show ?thesis by blast
qed

end
