(* ===== verification/DevInit.thy ===== *)
theory DevInit
  imports MBoot SegInit DevVideo DevCons DevTsc
begin

text \<open>
  Device initialisation, \<^verbatim>\<open>kern/dev/devinit.c\<close>: segments, processor extensions, the console, the
  clock, the interrupt controller, and last the physical memory map. The diagnostic messages printed
  on the way are left out; what printing does is the subject of \<^verbatim>\<open>DevVideo\<close>.
\<close>

section \<open>Operations\<close>

definition CR4_OSFXSR :: u32 where "CR4_OSFXSR = 0x00000200"
definition CR4_OSXMMEXCPT :: u32 where "CR4_OSXMMEXCPT = 0x00000400"

text \<open>\<^verbatim>\<open>enable_sse\<close> of \<^verbatim>\<open>kern/lib/x86.c\<close>; the new value of \<^verbatim>\<open>cr0\<close> it computes is not written back.\<close>

definition enable_sse :: "'a machine_scheme \<Rightarrow> 'a machine_scheme" where
  "enable_sse s = s\<lparr>cr4 := cr4 s OR CR4_OSFXSR OR CR4_OSXMMEXCPT\<rparr>"

definition cons_init :: "'a machine_scheme \<Rightarrow> 'a machine_scheme" where
  "cons_init s =
     (let s = upd_devs (\<lambda>d. d\<lparr>cons_buf := (\<lambda>_. 0), cons_rpos := 0, cons_wpos := 0\<rparr>) s;
          s = upd_devs serial_init s
      in video_init s)"

definition devinit :: "u32 \<Rightarrow> 'a pmmap_state_scheme \<Rightarrow> 'a pmmap_state_scheme res" where
  "devinit mbi_addr s =
     rbind (seg_init s) (\<lambda>s.
     let s = cons_init (enable_sse s) in
     rbind (tsc_init (loc_pvclock (layout s)) (devs s)) (\<lambda>(r, d).
     let s = s\<lparr>devs := devinit_intr (loc_handler (layout s)) d\<rparr>
     in pmmap_init mbi_addr s))"

section \<open>What start-up keeps\<close>

definition boot_frame :: "'a pmmap_state_scheme \<Rightarrow> 'a pmmap_state_scheme \<Rightarrow> bool" where
  "boot_frame s s' \<longleftrightarrow> s' = s\<lparr>mem := mem s', cr4 := cr4 s', segs := segs s', devs := devs s',
     pmmap_slots_next_free := pmmap_slots_next_free s',
     pmmap_list := pmmap_list s', pmmap_sublist := pmmap_sublist s',
     max_usable_memory := max_usable_memory s', mem_npages := mem_npages s',
     pmmap_nentries := pmmap_nentries s'\<rparr>"

text \<open>Memory with the zero-initialised data and the kernel stacks cleared.\<close>

definition boot_mem :: "'a machine_scheme \<Rightarrow> memory" where
  "boot_mem s = memzero (loc_STACK_LOC s) (64 * 4096) (mem (clear_bss s))"

lemma boot_mem_keeps:
  assumes "\<not> a - loc_edata (layout s) < loc_bsp_kstack (layout s) - loc_edata (layout s)"
    "\<not> a - (loc_bsp_kstack (layout s) + 4096) < loc_end (layout s) - loc_bsp_kstack (layout s) - 4096"
    "\<not> a - loc_STACK_LOC s < 64 * 4096"
  shows "boot_mem s a = mem s a"
  using assms by (simp add: boot_mem_def clear_bss_def memzero_def memset_eq Let_def)

lemma cons_init_eq: "cons_init s = s\<lparr>devs := devs (cons_init s)\<rparr>"
  "mem (cons_init s) = mem s"
proof -
  have "video_init t = t\<lparr>mem := mem (video_init t), devs := devs (video_init t)\<rparr>" for t :: "'a machine_scheme"
    by (simp add: video_init_def upd_devs_def Let_def split: prod.split)
  then have v: "video_init t = t\<lparr>devs := devs (video_init t)\<rparr>" for t :: "'a machine_scheme"
    unfolding video_init_ok by simp
  show "cons_init s = s\<lparr>devs := devs (cons_init s)\<rparr>"
    unfolding cons_init_def Let_def by (subst v) (simp add: upd_devs_def)
  show "mem (cons_init s) = mem s"
    unfolding cons_init_def Let_def by (simp add: video_init_ok)
qed

text \<open>Up to the memory map, start-up clears memory and sets up processor and devices, nothing else.\<close>

lemma devinit_split:
  "\<exists>g c. devinit mbi_addr s = rbind (tsc_init (loc_pvclock (layout s)) (devs (cons_init (enable_sse
       (s\<lparr>mem := boot_mem s, devs := bss_devs (devs s), segs := g\<rparr>))))) (\<lambda>(r, d).
     pmmap_init mbi_addr (s\<lparr>mem := boot_mem s, cr4 := c, segs := g, devs := devinit_intr (loc_handler (layout s)) d\<rparr>))"
proof -
  obtain g where g: "seg_init s = Inr (s\<lparr>mem := boot_mem s, devs := bss_devs (devs s), segs := g\<rparr>)"
    using seg_init_eq[of s] unfolding boot_mem_def by blast
  let ?s = "enable_sse (s\<lparr>mem := boot_mem s, devs := bss_devs (devs s), segs := g\<rparr>)"
  have "(cons_init ?s)\<lparr>devs := d\<rparr> = s\<lparr>mem := boot_mem s, cr4 := cr4 ?s, segs := g, devs := d\<rparr>" for d
    by (subst cons_init_eq) (simp add: enable_sse_def)
  moreover have "layout (cons_init ?s) = layout s" by (subst cons_init_eq) (simp add: enable_sse_def)
  ultimately show ?thesis using g by (auto simp: devinit_def Let_def split: prod.split)
qed

lemma devinit_frame:
  assumes "devinit mbi_addr s = Inr s'"
  shows "boot_frame s s'"
proof -
  obtain g c where e: "devinit mbi_addr s = rbind (tsc_init (loc_pvclock (layout s)) (devs (cons_init (enable_sse
       (s\<lparr>mem := boot_mem s, devs := bss_devs (devs s), segs := g\<rparr>))))) (\<lambda>(r, d).
     pmmap_init mbi_addr (s\<lparr>mem := boot_mem s, cr4 := c, segs := g, devs := devinit_intr (loc_handler (layout s)) d\<rparr>))"
    using devinit_split by blast
  from assms[unfolded e] obtain d where
    "pmmap_init mbi_addr (s\<lparr>mem := boot_mem s, cr4 := c, segs := g, devs := d\<rparr>) = Inr s'"
    by (auto simp: rbind_eq_Inr)
  from pmmap_init_frame[OF this] show ?thesis
    unfolding pmmap_frame_def boot_frame_def by (cases s, cases s') simp
qed

text \<open>If the timer works, start-up comes down to reading the memory map.\<close>

lemma cons_init_in: "io_in (devs (cons_init s)) = io_in (devs s)"
  by (simp add: cons_init_def video_init_def video_read_pos_def serial_init_def upd_devs_def inb_def
      outb_def Let_def)

lemma devinit_runs:
  assumes "timer_fires (devs s)"
  shows "\<exists>c g d. devinit mbi_addr s = pmmap_init mbi_addr (s\<lparr>mem := boot_mem s, cr4 := c, segs := g, devs := d\<rparr>)"
proof -
  obtain g c where e: "devinit mbi_addr s = rbind (tsc_init (loc_pvclock (layout s)) (devs (cons_init (enable_sse
       (s\<lparr>mem := boot_mem s, devs := bss_devs (devs s), segs := g\<rparr>))))) (\<lambda>(r, d).
     pmmap_init mbi_addr (s\<lparr>mem := boot_mem s, cr4 := c, segs := g, devs := devinit_intr (loc_handler (layout s)) d\<rparr>))"
    using devinit_split by blast
  let ?d = "devs (cons_init (enable_sse (s\<lparr>mem := boot_mem s, devs := bss_devs (devs s), segs := g\<rparr>)))"
  have "io_in ?d = io_in (devs s)" by (simp add: cons_init_in enable_sse_def bss_devs_def)
  then have "timer_fires ?d" using assms by (simp add: timer_fires_def)
  from tsc_init_ok[OF this] obtain r d where "tsc_init (loc_pvclock (layout s)) ?d = Inr (r, d)" by blast
  with e show ?thesis by auto
qed

text \<open>A machine that starts with the one-row memory map of \<^const>\<open>pmmap_example\<close>.\<close>

lemma devinit_example:
  assumes "mem s = mem pmmap_example" "layout s = layout_example" "devs s = devs_example"
    "loc_STACK_LOC s = 0x800000" "pmmap_slots_next_free s = 0" "pmmap_nentries s = 0"
  shows "\<exists>s'. devinit 0 s = Inr s' \<and> pmmap_nentries s' = 1 \<and>
    pmmap_list s' = [\<lparr>pm_start = 0x50000000, pm_end = 0x50002000, pm_type = 1\<rparr>]"
proof -
  have "timer_fires (devs s)" using assms(3) by (auto simp: timer_fires_def devs_example_def)
  then obtain c g d where e: "devinit 0 s = pmmap_init 0 (s\<lparr>mem := boot_mem s, cr4 := c, segs := g, devs := d\<rparr>)"
    using devinit_runs by blast
  have "boot_mem s a = mem s a" if "a < 256" for a
  proof (rule boot_mem_keeps)
    have u: "unat a < 256" using that by (simp add: word_less_nat_alt)
    show "\<not> a - loc_edata (layout s) < loc_bsp_kstack (layout s) - loc_edata (layout s)"
      "\<not> a - (loc_bsp_kstack (layout s) + 4096) < loc_end (layout s) - loc_bsp_kstack (layout s) - 4096"
      "\<not> a - loc_STACK_LOC s < 64 * 4096"
      using u by (simp_all add: assms layout_example_def word_less_nat_alt unat_sub_if_size word_size)
  qed
  then show ?thesis unfolding e using assms by (intro pmmap_example_init) simp_all
qed

end
