(* ===== verification/MATInit.thy ===== *)
theory MATInit
  imports MATOp DevInit
begin

text \<open>
  Initialisation of the allocation table, \<^verbatim>\<open>kern/pmm/MATInit/MATInit.c\<close>: every page outside
  user memory gets permission 1, a page of user memory gets 2 when some usable row of the memory
  map contains it and 0 otherwise.
\<close>

text \<open>The arrays \<^verbatim>\<open>starts\<close> and \<^verbatim>\<open>ends\<close> that the first loop fills.\<close>

definition row_start :: "'a pmmap_state_scheme \<Rightarrow> u32 \<Rightarrow> u32" where
  "row_start s i = (if is_usable i s \<noteq> 0 then get_mms i s else 0)"

definition row_end :: "'a pmmap_state_scheme \<Rightarrow> u32 \<Rightarrow> u32" where
  "row_end s i = (if is_usable i s \<noteq> 0 then get_mms i s + get_mml i s else 0)"

definition pmem_init :: "u32 \<Rightarrow> 'a at_state_scheme \<Rightarrow> 'a at_state_scheme res" where
  "pmem_init mbi_addr s =
     rbind (devinit mbi_addr s) (\<lambda>s0.
     let nps = 0xFFFFFFFF div PAGESIZE;
         size = get_size s0;
         starts = row_start s0;
         ends = row_end s0;
         s1 = set_nps nps s0
     in rbind (for_u32 0 nps (\<lambda>i. at_set_perm i 0) s1) (\<lambda>s2.
        rbind (for_u32 0 VM_USERLO_PI (\<lambda>i. at_set_perm i 1) s2) (\<lambda>s3.
        rbind (for_u32 VM_USERHI_PI nps (\<lambda>i. at_set_perm i 1) s3) (\<lambda>s4.
        for_u32 VM_USERLO_PI VM_USERHI_PI (\<lambda>i t.
          let start = i * PAGESIZE; en = start + PAGESIZE - 1
          in for_u32 0 size (\<lambda>j u.
               if start > starts j \<and> en < ends j then at_set_perm i 2 u else Inr u) t) s4))))"

section \<open>The loops\<close>

text \<open>The table with the entries of \<open>F\<close> reset to the given permission and unallocated.\<close>

definition at_fill :: "(u32 \<rightharpoonup> u32) \<Rightarrow> 'a at_state_scheme \<Rightarrow> 'a at_state_scheme" where
  "at_fill F s = s\<lparr>AT := (\<lambda>p. case F p of None \<Rightarrow> AT s p
     | Some v \<Rightarrow> \<lparr>at_perm = v, at_allocated = 0\<rparr>)\<rparr>"

lemma at_fill_fill: "at_fill F (at_fill G s) = at_fill (G ++ F) s"
  by (simp add: at_fill_def map_add_def fun_eq_iff split: option.split)

lemma at_fill_empty [simp]: "at_fill Map.empty s = s"
  by (simp add: at_fill_def)

lemma at_set_perm_fill: "p < AT_SIZE \<Longrightarrow> at_set_perm p v s = Inr (at_fill [p \<mapsto> v] s)"
  by (auto simp: layer_spec at_fill_def fun_upd_def fun_eq_iff
      intro!: arg_cong[where f = "\<lambda>t. s\<lparr>AT := t\<rparr>"])

lemma fill_run:
  assumes "a \<le> b" "b \<le> AT_SIZE"
  shows "for_u32 a b (\<lambda>i. at_set_perm i v) s
    = Inr (at_fill (\<lambda>p. if a \<le> p \<and> p < b then Some v else None) s)"
proof -
  let ?F = "\<lambda>b p. if a \<le> p \<and> p < b then Some v else None"
  have "\<exists>t. for_u32 a b (\<lambda>i. at_set_perm i v) s = Inr t \<and> t = at_fill (?F b) s"
  proof (rule for_u32_rule)
    fix i t assume i: "a \<le> i" "i < b" "t = at_fill (?F i) s"
    then have "i < AT_SIZE" using assms(2) by (metis order_less_le_trans)
    moreover have "?F i ++ [i \<mapsto> v] = ?F (i + 1)"
      using i by (auto simp: fun_eq_iff map_add_def word_less_Suc)
    ultimately show "\<exists>t'. at_set_perm i v t = Inr t' \<and> t' = at_fill (?F (i + 1)) s"
      by (simp add: at_set_perm_fill at_fill_fill i(3))
  next
    have "?F a = Map.empty" by (auto simp: fun_eq_iff)
    then show "s = at_fill (?F a) s" by simp
  qed (rule assms(1))
  then show ?thesis by simp
qed

lemma fill_if_any:
  assumes "i < AT_SIZE"
  shows "for_u32 0 n (\<lambda>j u. if c j then at_set_perm i 2 u else Inr u) t
    = Inr (at_fill (if \<exists>j < n. c j then [i \<mapsto> 2] else Map.empty) t)"
proof -
  let ?F = "\<lambda>n. if \<exists>j < n. c j then [i \<mapsto> 2 :: u32] else Map.empty"
  have "\<exists>t'. for_u32 0 n (\<lambda>j u. if c j then at_set_perm i 2 u else Inr u) t = Inr t'
      \<and> t' = at_fill (?F n) t"
  proof (rule for_u32_rule)
    fix j u assume j: "0 \<le> j" "j < n" "u = at_fill (?F j) t"
    have ex: "(\<exists>k < j + 1. c k) \<longleftrightarrow> c j \<or> (\<exists>k < j. c k)"
      using word_less_Suc[OF j(2)] by auto
    show "\<exists>u'. (if c j then at_set_perm i 2 u else Inr u) = Inr u' \<and> u' = at_fill (?F (j + 1)) t"
      using assms by (simp add: ex j(3) at_set_perm_fill at_fill_fill)
  qed (simp_all add: word_zero_le)
  then show ?thesis by simp
qed

lemma fill_where:
  assumes "a \<le> b" "b \<le> AT_SIZE"
  shows "for_u32 a b (\<lambda>i t. for_u32 0 n (\<lambda>j u. if c i j then at_set_perm i 2 u else Inr u) t) s
    = Inr (at_fill (\<lambda>p. if a \<le> p \<and> p < b \<and> (\<exists>j < n. c p j) then Some (2 :: u32) else None) s)"
proof -
  let ?F = "\<lambda>b p. if a \<le> p \<and> p < b \<and> (\<exists>j < n. c p j) then Some (2 :: u32) else None"
  let ?body = "\<lambda>i t. for_u32 0 n (\<lambda>j u. if c i j then at_set_perm i 2 u else Inr u) t"
  have "\<exists>t. for_u32 a b ?body s = Inr t \<and> t = at_fill (?F b) s"
  proof (rule for_u32_rule)
    fix i t assume i: "a \<le> i" "i < b" "t = at_fill (?F i) s"
    then have "i < AT_SIZE" using assms(2) by (metis order_less_le_trans)
    moreover have "?F i ++ (if \<exists>j < n. c i j then [i \<mapsto> (2 :: u32)] else Map.empty) = ?F (i + 1)"
      using i by (auto simp: fun_eq_iff map_add_def word_less_Suc)
    ultimately show "\<exists>t'. ?body i t = Inr t' \<and> t' = at_fill (?F (i + 1)) s"
      by (simp add: fill_if_any at_fill_fill i(3))
  next
    have "?F a = Map.empty" by (auto simp: fun_eq_iff)
    then show "s = at_fill (?F a) s" by simp
  qed (rule assms(1))
  then show ?thesis by simp
qed

text \<open>The permission every page below the last one gets.\<close>

definition page_in_row :: "'a pmmap_state_scheme \<Rightarrow> u32 \<Rightarrow> bool" where
  "page_in_row s p \<longleftrightarrow> (\<exists>j < get_size s.
     p * PAGESIZE > row_start s j \<and> p * PAGESIZE + PAGESIZE - 1 < row_end s j)"

definition init_perm :: "'a pmmap_state_scheme \<Rightarrow> u32 \<Rightarrow> u32" where
  "init_perm s p = (if \<not> user_page p then 1 else if page_in_row s p then 2 else 0)"

lemma pmem_init_eq [layer_spec]:
  assumes "devinit mbi_addr s = Inr s0"
  shows "pmem_init mbi_addr s = Inr (s0\<lparr>NUM_PAGES := 0xFFFFF,
    AT := (\<lambda>p. if p < 0xFFFFF then \<lparr>at_perm = init_perm s0 p, at_allocated = 0\<rparr> else AT s0 p)\<rparr>)"
proof -
  let ?s1 = "set_nps 0xFFFFF s0"
  let ?F0 = "\<lambda>p. if 0 \<le> p \<and> p < 0xFFFFF then Some (0 :: u32) else None"
  let ?F1 = "\<lambda>p. if 0 \<le> p \<and> p < VM_USERLO_PI then Some (1 :: u32) else None"
  let ?F2 = "\<lambda>p. if VM_USERHI_PI \<le> p \<and> p < 0xFFFFF then Some (1 :: u32) else None"
  let ?F3 = "\<lambda>p. if VM_USERLO_PI \<le> p \<and> p < VM_USERHI_PI \<and> page_in_row s0 p then Some (2 :: u32) else None"
  have nps: "(0xFFFFFFFF :: u32) div PAGESIZE = 0xFFFFF" by (simp add: PAGESIZE_def)
  have bounds: "(0xFFFFF :: u32) \<le> AT_SIZE" "VM_USERLO_PI \<le> AT_SIZE" "VM_USERHI_PI \<le> AT_SIZE"
      "VM_USERHI_PI \<le> 0xFFFFF" "VM_USERLO_PI \<le> VM_USERHI_PI"
    by (simp_all add: AT_SIZE_def VM_PI_eq)
  have run: "pmem_init mbi_addr s = Inr (at_fill ?F3 (at_fill ?F2 (at_fill ?F1 (at_fill ?F0 ?s1))))"
    using assms bounds
    by (simp add: pmem_init_def nps Let_def fill_run fill_where word_zero_le page_in_row_def)
  have "p < 0xFFFFF" if "p < 0x40000 \<or> p < 0xF0000" for p :: u32
    using that by (auto intro: order_less_trans[of _ "0x40000"] order_less_trans[of _ "0xF0000"])
  then have fills: "?F0 ++ ?F1 ++ ?F2 ++ ?F3
      = (\<lambda>p. if p < 0xFFFFF then Some (init_perm s0 p) else None)"
    by (auto simp: fun_eq_iff map_add_def init_perm_def user_page_def VM_PI_eq word_zero_le)
  show ?thesis
    unfolding run at_fill_fill fills
    by (auto simp: at_fill_def set_nps_def intro!: arg_cong[where f = "\<lambda>t. s0\<lparr>NUM_PAGES := _, AT := t\<rparr>"])
qed

lemma pmem_init_inv:
  "pmem_init mbi_addr s = Inr s' \<Longrightarrow> \<exists>s0. devinit mbi_addr s = Inr s0 \<and> s' = s0\<lparr>NUM_PAGES := 0xFFFFF,
    AT := (\<lambda>p. if p < 0xFFFFF then \<lparr>at_perm = init_perm s0 p, at_allocated = 0\<rparr> else AT s0 p)\<rparr>"
  by (cases "devinit mbi_addr s") (auto simp: pmem_init_eq, simp add: pmem_init_def)

text \<open>A page found inside a row lies inside an entry of the map marked as RAM.\<close>

lemma page_in_row_entry:
  assumes "page_in_row s p"
  shows "\<exists>e \<in> set (pmmap_list s). pm_type e = MEM_RAM \<and> pm_start e < p * PAGESIZE
      \<and> p * PAGESIZE + PAGESIZE - 1 < pm_end e"
proof -
  from assms obtain j where j: "p * PAGESIZE > row_start s j" "p * PAGESIZE + PAGESIZE - 1 < row_end s j"
    by (auto simp: page_in_row_def)
  from j(2) obtain e where e: "pmmap_entry j s = Some e" "pm_type e = MEM_RAM"
    by (auto simp: row_end_def is_usable_def split: if_splits option.splits)
  then have "e \<in> set (pmmap_list s)" by (auto simp: pmmap_entry_def split: if_splits)
  with e j show ?thesis
    by (auto simp: row_start_def row_end_def is_usable_def get_mms_def get_mml_def)
qed

text \<open>A booting machine: the one-row memory map in front of an empty allocation table.\<close>

definition boot_example :: at_state where
  "boot_example = (at_example {} {})\<lparr>mem := mem pmmap_example\<rparr>"

lemma boot_example_devinit: "\<exists>s0. devinit 0 boot_example = Inr s0 \<and> pmmap_nentries s0 = 1 \<and>
    pmmap_list s0 = [\<lparr>pm_start = 0x50000000, pm_end = 0x50002000, pm_type = 1\<rparr>]"
  by (rule devinit_example) (simp_all add: boot_example_def at_example_def)

lemma boot_example_pages:
  assumes "pmmap_nentries s0 = 1"
    "pmmap_list s0 = [\<lparr>pm_start = 0x50000000, pm_end = 0x50002000, pm_type = 1\<rparr>]"
  shows "init_perm s0 0x50000 = 0" "init_perm s0 0x50001 = 2"
proof -
  have "(\<exists>j < (1 :: u32). P j) = P 0" for P
    by (metis word_gt_0_no word_less_1 zero_less_one)
  with assms show "init_perm s0 0x50000 = 0" "init_perm s0 0x50001 = 2"
    by (simp_all add: init_perm_def user_page_def VM_PI_eq page_in_row_def get_size_def row_start_def
        row_end_def is_usable_def pmmap_entry_def get_mms_def get_mml_def MEM_RAM_def PAGESIZE_def)
qed

section \<open>Properties\<close>



text \<open>
  After \<^verbatim>\<open>pmem_init\<close> a page the allocator may hand out lies entirely inside user memory and
  entirely inside an entry of the physical memory map that the BIOS reported as RAM.
\<close>

theorem pmem_init_sound:
  assumes "pmem_init mbi_addr s = Inr s'" "p < 0xFFFFF" "page_norm s' p"
  shows "user_page p \<and> (\<exists>e \<in> set (pmmap_list s'). pm_type e = MEM_RAM
      \<and> pm_start e \<le> p * PAGESIZE \<and> p * PAGESIZE + PAGESIZE - 1 < pm_end e)"
proof -
  obtain s0 where s': "s' = s0\<lparr>NUM_PAGES := 0xFFFFF, AT := (\<lambda>p. if p < 0xFFFFF
      then \<lparr>at_perm = init_perm s0 p, at_allocated = 0\<rparr> else AT s0 p)\<rparr>"
    using pmem_init_inv[OF assms(1)] by blast
  with assms(2,3) have "user_page p" "page_in_row s0 p"
    by (auto simp: page_norm_def init_perm_def split: if_splits)
  with page_in_row_entry[of s0 p] s' show ?thesis by (auto intro: order_less_imp_le)
qed

theorem pmem_init_sound_witness:
  "\<exists>s'. pmem_init 0 boot_example = Inr s' \<and> page_norm s' 0x50001 \<and> user_page 0x50001"
proof -
  obtain s0 where s0: "devinit 0 boot_example = Inr s0" "init_perm s0 0x50001 = 2"
    using boot_example_devinit boot_example_pages by blast
  obtain s' where s': "pmem_init 0 boot_example = Inr s'" "page_norm s' 0x50001"
    using s0 by (simp add: pmem_init_eq page_norm_def)
  from pmem_init_sound[OF s'(1) _ s'(2)] s' show ?thesis by auto
qed

text \<open>
  A page whose first byte is the first byte of a RAM row is lost. In the example the page
  0x50000 lies entirely inside the RAM row [0x50000000, 0x50002000), and after \<^verbatim>\<open>pmem_init\<close> it
  is not available, because the start of the page is compared with a strict inequality.
\<close>

theorem pmem_init_first_page_lost:
  "\<exists>s'. pmem_init 0 boot_example = Inr s' \<and> \<not> page_norm s' 0x50000 \<and>
    (\<exists>e \<in> set (pmmap_list s'). pm_type e = MEM_RAM \<and> pm_start e \<le> 0x50000 * PAGESIZE
       \<and> 0x50000 * PAGESIZE + PAGESIZE - 1 < pm_end e)"
proof -
  obtain s0 where "devinit 0 boot_example = Inr s0" "init_perm s0 0x50000 = 0"
    "pmmap_list s0 = [\<lparr>pm_start = 0x50000000, pm_end = 0x50002000, pm_type = 1\<rparr>]"
    using boot_example_devinit boot_example_pages by blast
  then show ?thesis by (simp add: pmem_init_eq page_norm_def MEM_RAM_def PAGESIZE_def)
qed

end
