(* ===== verification/MContainer.thy ===== *)
theory MContainer
  imports MATInit
begin

text \<open>
  Resource containers, \<^verbatim>\<open>kern/pmm/MContainer/MContainer.c\<close>: every process has a container
  with a page quota and a page usage; the containers form a ternary tree, and a child's quota is
  charged to its parent. The \<^verbatim>\<open>int\<close> fields keep their 32 bits; a comparison between two of
  them is signed, one in which an \<^verbatim>\<open>unsigned int\<close> takes part is unsigned.
\<close>

section \<open>State and operations\<close>

record SContainer =
  c_quota :: i32
  c_usage :: i32
  c_parent :: i32
  c_nchildren :: i32
  c_used :: i32

record container_state = at_state +
  CONTAINER :: "u32 \<Rightarrow> SContainer"

definition upd_container ::
  "u32 \<Rightarrow> (SContainer \<Rightarrow> SContainer) \<Rightarrow> 'a container_state_scheme \<Rightarrow> 'a container_state_scheme" where
  "upd_container pid f s = s\<lparr>CONTAINER := (CONTAINER s)(pid := f (CONTAINER s pid))\<rparr>"

definition container_init :: "u32 \<Rightarrow> 'a container_state_scheme \<Rightarrow> 'a container_state_scheme res" where
  "container_init mbi_addr s =
     rbind (pmem_init mbi_addr s) (\<lambda>s1.
     let nps = 0xFFFFFFFF div 4096
     in rbind (for_u32 0 nps (\<lambda>i real_quota.
          rbind (at_is_norm i s1) (\<lambda>n.
          if n \<noteq> 0
          then rbind (at_is_allocated i s1) (\<lambda>a. if a = 0 then Inr (real_quota + 1) else Inr real_quota)
          else Inr real_quota)) 0) (\<lambda>real_quota.
        Inr (upd_container 0 (\<lambda>c. c\<lparr>c_quota := real_quota, c_usage := 0, c_parent := 0,
               c_nchildren := 0, c_used := 1\<rparr>) s1)))"

definition container_get_parent :: "u32 \<Rightarrow> 'a container_state_scheme \<Rightarrow> u32" where
  "container_get_parent pid s =
     (if pid < NUM_IDS \<and> c_used (CONTAINER s pid) \<noteq> 0 then c_parent (CONTAINER s pid) else 0)"

definition container_get_nchildren :: "u32 \<Rightarrow> 'a container_state_scheme \<Rightarrow> u32" where
  "container_get_nchildren pid s =
     (if pid < NUM_IDS \<and> c_used (CONTAINER s pid) \<noteq> 0 then c_nchildren (CONTAINER s pid) else 0)"

definition container_get_quota :: "u32 \<Rightarrow> 'a container_state_scheme \<Rightarrow> u32" where
  "container_get_quota pid s =
     (if pid < NUM_IDS \<and> c_used (CONTAINER s pid) \<noteq> 0 then c_quota (CONTAINER s pid) else 0)"

definition container_get_usage :: "u32 \<Rightarrow> 'a container_state_scheme \<Rightarrow> u32" where
  "container_get_usage pid s = (if pid < NUM_IDS then c_usage (CONTAINER s pid) else 0)"

definition container_can_consume :: "u32 \<Rightarrow> u32 \<Rightarrow> 'a container_state_scheme \<Rightarrow> u32" where
  "container_can_consume pid n s =
     (if pid < NUM_IDS \<and> c_used (CONTAINER s pid) \<noteq> 0
      then (if n \<le> c_quota (CONTAINER s pid) - c_usage (CONTAINER s pid) then 1 else 0)
      else 0)"

definition container_split ::
  "u32 \<Rightarrow> u32 \<Rightarrow> 'a container_state_scheme \<Rightarrow> (u32 \<times> 'a container_state_scheme) res" where
  "container_split pid quota s =
     (if pid < NUM_IDS
      then (let nc = c_nchildren (CONTAINER s pid)
            in if nc \<ge> MAX_CHILDREN then Inr (NUM_IDS, s)
               else (let child = pid * MAX_CHILDREN + 1 + nc
                     in if NUM_IDS \<le> child then Inr (NUM_IDS, s)
                        else (let s1 = upd_container pid
                                    (\<lambda>c. c\<lparr>c_nchildren := c_nchildren c + 1, c_usage := c_usage c + quota\<rparr>) s;
                                  s2 = upd_container child
                                    (\<lambda>c. c\<lparr>c_used := 1, c_quota := quota, c_usage := 0, c_parent := pid,
                                           c_nchildren := 0\<rparr>) s1
                              in Inr (child, s2))))
      else Inl OutOfBounds)"

definition container_alloc ::
  "u32 \<Rightarrow> 'a container_state_scheme \<Rightarrow> (u32 \<times> 'a container_state_scheme) res" where
  "container_alloc pid s =
     rbind (palloc s) (\<lambda>(page_index, s1).
     if page_index \<noteq> 0
     then (if pid < NUM_IDS
           then (if sint (c_usage (CONTAINER s1 pid)) < sint (c_quota (CONTAINER s1 pid))
                 then Inr (page_index, upd_container pid (\<lambda>c. c\<lparr>c_usage := c_usage c + 1\<rparr>) s1)
                 else Inr (0, s1))
           else Inl OutOfBounds)
     else Inr (0, s1))"

definition container_consecutive_alloc ::
  "u32 \<Rightarrow> u32 \<Rightarrow> 'a container_state_scheme \<Rightarrow> (u32 \<times> 'a container_state_scheme) res" where
  "container_consecutive_alloc pid len s =
     (if pid < NUM_IDS
      then (if c_usage (CONTAINER s pid) + len > c_quota (CONTAINER s pid) then Inr (0, s)
            else rbind (consecutive_palloc len s) (\<lambda>(page_index, s1).
                 if page_index \<noteq> 0
                    \<and> sint (c_usage (CONTAINER s1 pid)) < sint (c_quota (CONTAINER s1 pid))
                 then Inr (page_index, upd_container pid (\<lambda>c. c\<lparr>c_usage := c_usage c + len\<rparr>) s1)
                 else Inr (0, s1)))
      else Inl OutOfBounds)"

definition container_free ::
  "u32 \<Rightarrow> u32 \<Rightarrow> 'a container_state_scheme \<Rightarrow> 'a container_state_scheme res" where
  "container_free pid page_index s =
     (if pid < NUM_IDS
      then (if sint (c_usage (CONTAINER s pid)) > 0
            then pfree page_index (upd_container pid (\<lambda>c. c\<lparr>c_usage := c_usage c - 1\<rparr>) s)
            else Inr s)
      else Inl OutOfBounds)"

definition container_consecutive_free ::
  "u32 \<Rightarrow> u32 \<Rightarrow> u32 \<Rightarrow> 'a container_state_scheme \<Rightarrow> 'a container_state_scheme res" where
  "container_consecutive_free pid page_index len s =
     (if pid < NUM_IDS
      then consecutive_pfree page_index len (upd_container pid (\<lambda>c. c\<lparr>c_usage := c_usage c - len\<rparr>) s)
      else Inl OutOfBounds)"

definition container_super_free ::
  "u32 \<Rightarrow> u32 \<Rightarrow> 'a container_state_scheme \<Rightarrow> 'a container_state_scheme res" where
  "container_super_free pid page_index s = container_consecutive_free pid page_index 1024 s"

section \<open>Invariant\<close>

text \<open>Every container stays within its quota; an unused container is empty.\<close>

definition quota_ok :: "'a container_state_scheme \<Rightarrow> bool" where
  "quota_ok s \<longleftrightarrow> (\<forall>pid<NUM_IDS. 0 \<le> sint (c_usage (CONTAINER s pid))
     \<and> sint (c_usage (CONTAINER s pid)) \<le> sint (c_quota (CONTAINER s pid)))"

text \<open>
  The tree: the root is used, a used container other than the root is one of the children its
  parent counts, and the parent is used.
\<close>

definition is_child :: "u32 \<Rightarrow> u32 \<Rightarrow> u32 \<Rightarrow> bool" where
  "is_child c p n \<longleftrightarrow> (\<exists>k<n. k < MAX_CHILDREN \<and> c = p * MAX_CHILDREN + 1 + k)"

definition tree_ok :: "'a container_state_scheme \<Rightarrow> bool" where
  "tree_ok s \<longleftrightarrow> c_used (CONTAINER s 0) \<noteq> 0
     \<and> (\<forall>c<NUM_IDS. c \<noteq> 0 \<longrightarrow> (if c_used (CONTAINER s c) \<noteq> 0
           then c_parent (CONTAINER s c) < NUM_IDS \<and> c_used (CONTAINER s (c_parent (CONTAINER s c))) \<noteq> 0
             \<and> is_child c (c_parent (CONTAINER s c)) (c_nchildren (CONTAINER s (c_parent (CONTAINER s c))))
           else c_quota (CONTAINER s c) = 0 \<and> c_usage (CONTAINER s c) = 0))"

definition container_inv :: "'a container_state_scheme \<Rightarrow> bool" where
  "container_inv s \<longleftrightarrow> quota_ok s \<and> tree_ok s"

text \<open>
  The pages charged to the containers themselves: all usage, less the quotas that were handed on
  to children.
\<close>

definition charged :: "'a container_state_scheme \<Rightarrow> int" where
  "charged s = (\<Sum>pid | pid < NUM_IDS. sint (c_usage (CONTAINER s pid)))
     - (\<Sum>pid | pid < NUM_IDS \<and> pid \<noteq> 0. sint (c_quota (CONTAINER s pid)))"

text \<open>The books balance: free pages and charged pages are together the root's quota.\<close>

definition books_balance :: "'a container_state_scheme \<Rightarrow> bool" where
  "books_balance s \<longleftrightarrow> int (card (avail_pages s)) + charged s = sint (c_quota (CONTAINER s 0))"

section \<open>Lemmas on the tree and on the books\<close>

lemma CONTAINER_upd [simp]:
  "CONTAINER (upd_container i f s) = (CONTAINER s)(i := f (CONTAINER s i))"
  by (simp add: upd_container_def)

lemma CONTAINER_mark [simp]: "CONTAINER (at_mark P v s) = CONTAINER s"
  by (simp add: at_mark_def)

lemma avail_pages_upd [simp]: "avail_pages (upd_container i f s) = avail_pages s"
  by (simp add: avail_pages_def page_free_def page_norm_def page_used_def upd_container_def)

lemma upd_mark_commute: "at_mark P v (upd_container i f s) = upd_container i f (at_mark P v s)"
  by (simp add: at_mark_def upd_container_def cong: if_cong)

lemma NUM_IDS_zero [simp]: "0 < NUM_IDS" by (simp add: NUM_IDS_def)

text \<open>The children of different containers are different, and no child is its own parent.\<close>

lemma child_index:
  assumes "p < NUM_IDS" "k < MAX_CHILDREN"
  shows "unat (p * MAX_CHILDREN + 1 + k) = 3 * unat p + 1 + unat k"
proof -
  have "unat p < 64" "unat k < 3"
    using assms by (simp_all add: word_less_nat_alt NUM_IDS_def MAX_CHILDREN_def)
  then show ?thesis by (simp add: unat_word_ariths MAX_CHILDREN_def)
qed

lemma child_inj:
  assumes "p < NUM_IDS" "k < MAX_CHILDREN" "q < NUM_IDS" "j < MAX_CHILDREN"
    "p * MAX_CHILDREN + 1 + k = q * MAX_CHILDREN + 1 + j"
  shows "p = q \<and> k = j"
proof -
  have "3 * unat p + 1 + unat k = 3 * unat q + 1 + unat j"
    using assms child_index by metis
  moreover have "unat k < 3" "unat j < 3"
    using assms by (simp_all add: word_less_nat_alt MAX_CHILDREN_def)
  ultimately have "unat p = unat q" "unat k = unat j" by presburger+
  then show ?thesis by (simp add: unsigned_word_eqI)
qed

lemma child_not_parent:
  assumes "p < NUM_IDS" "k < MAX_CHILDREN"
  shows "p * MAX_CHILDREN + 1 + k \<noteq> p" "p * MAX_CHILDREN + 1 + k \<noteq> 0"
  using child_index[OF assms] by (metis add.commute add.left_commute le_add1 mult_2 mult_Suc
      not_less_eq_eq numeral_3_eq_3 plus_1_eq_Suc trans_le_add2 numeral_2_eq_2,
      metis add_is_0 unsigned_0 zero_neq_one)

lemma is_child_mono: "is_child c p n \<Longrightarrow> n \<le> n' \<Longrightarrow> is_child c p n'"
  unfolding is_child_def using order_less_le_trans by blast

text \<open>The slot that \<^verbatim>\<open>container_split\<close> fills is not in use.\<close>

lemma split_slot_unused:
  assumes "tree_ok s" "pid < NUM_IDS" "c_nchildren (CONTAINER s pid) < MAX_CHILDREN"
    "pid * MAX_CHILDREN + 1 + c_nchildren (CONTAINER s pid) < NUM_IDS"
  shows "c_used (CONTAINER s (pid * MAX_CHILDREN + 1 + c_nchildren (CONTAINER s pid))) = 0"
proof (rule ccontr)
  let ?c = "pid * MAX_CHILDREN + 1 + c_nchildren (CONTAINER s pid)"
  assume used: "c_used (CONTAINER s ?c) \<noteq> 0"
  let ?p = "c_parent (CONTAINER s ?c)"
  have "?c \<noteq> 0" using child_not_parent assms by blast
  with used assms have p: "?p < NUM_IDS" "is_child ?c ?p (c_nchildren (CONTAINER s ?p))"
    unfolding tree_ok_def by presburger+
  then obtain k where k: "k < c_nchildren (CONTAINER s ?p)" "k < MAX_CHILDREN"
    "?c = ?p * MAX_CHILDREN + 1 + k" by (auto simp: is_child_def)
  from child_inj[OF assms(2,3) p(1) k(2,3)] k(1) show False by auto
qed

lemma sum_word_upd:
  fixes f :: "u32 \<Rightarrow> int"
  assumes "P i"
  shows "(\<Sum>j | P j. (f(i := x)) j) = (\<Sum>j | P j. f j) - f i + x"
proof -
  have "(\<Sum>j | P j. (f(i := x)) j) = x + (\<Sum>j \<in> {j. P j} - {i}. f j)"
    using assms by (subst sum.remove[of _ i]) (auto intro!: sum.cong)
  moreover have "(\<Sum>j | P j. f j) = f i + (\<Sum>j \<in> {j. P j} - {i}. f j)"
    using assms by (subst sum.remove[of _ i]) auto
  ultimately show ?thesis by simp
qed

text \<open>The effect of one container update on the books.\<close>

lemma charged_upd:
  assumes "pid < NUM_IDS"
  shows "charged (upd_container pid f s) = charged s
     + (sint (c_usage (f (CONTAINER s pid))) - sint (c_usage (CONTAINER s pid)))
     - (if pid = 0 then 0 else sint (c_quota (f (CONTAINER s pid))) - sint (c_quota (CONTAINER s pid)))"
proof -
  let ?g = "\<lambda>i. sint (c_usage (CONTAINER s i))" and ?h = "\<lambda>i. sint (c_quota (CONTAINER s i))"
  let ?c = "f (CONTAINER s pid)"
  have "(\<Sum>i | i < NUM_IDS. sint (c_usage (((CONTAINER s)(pid := ?c)) i)))
      = (\<Sum>i | i < NUM_IDS. (?g(pid := sint (c_usage ?c))) i)"
    by (rule sum.cong) auto
  moreover have "(\<Sum>i | i < NUM_IDS \<and> i \<noteq> 0. sint (c_quota (((CONTAINER s)(pid := ?c)) i)))
      = (\<Sum>i | i < NUM_IDS \<and> i \<noteq> 0. (?h(pid := sint (c_quota ?c))) i)"
    by (rule sum.cong) auto
  moreover have "(\<Sum>i | i < NUM_IDS \<and> i \<noteq> 0. (?h(0 := x)) i) = (\<Sum>i | i < NUM_IDS \<and> i \<noteq> 0. ?h i)" for x
    by (rule sum.cong) auto
  ultimately show ?thesis using assms
    sum_word_upd[of "\<lambda>i. i < NUM_IDS" pid ?g] sum_word_upd[of "\<lambda>i. i < NUM_IDS \<and> i \<noteq> 0" pid ?h]
    unfolding charged_def CONTAINER_upd by (cases "pid = 0") auto
qed

lemma charged_mark [simp]: "charged (at_mark P v s) = charged s"
  by (simp add: charged_def)

text \<open>
  What is charged is the root's usage less the quota that its descendants have not used: room in
  any container is room below the root's quota.
\<close>

lemma charged_room:
  assumes "quota_ok s" "pid < NUM_IDS"
  shows "charged s \<le> sint (c_quota (CONTAINER s 0))
     - (sint (c_quota (CONTAINER s pid)) - sint (c_usage (CONTAINER s pid)))"
proof -
  let ?g = "\<lambda>i. sint (c_quota (CONTAINER s i)) - sint (c_usage (CONTAINER s i))"
  have "?g pid \<le> (\<Sum>i | i < NUM_IDS. ?g i)"
    by (rule member_le_sum) (use assms in \<open>auto simp: quota_ok_def\<close>)
  moreover have "(\<Sum>i | i < NUM_IDS. sint (c_quota (CONTAINER s i)))
     = sint (c_quota (CONTAINER s 0)) + (\<Sum>i | i < NUM_IDS \<and> i \<noteq> 0. sint (c_quota (CONTAINER s i)))"
    by (subst sum.remove[of _ 0]) (auto intro!: sum.cong)
  ultimately show ?thesis by (simp add: charged_def sum_subtractf)
qed

section \<open>What the operations do\<close>

lemma container_alloc_cases [case_names found none]:
  assumes "pid < NUM_IDS"
  obtains (found) p where "first_free s VM_USERLO_PI p" "p \<noteq> 0"
      "container_alloc pid s =
         (if sint (c_usage (CONTAINER s pid)) < sint (c_quota (CONTAINER s pid))
          then Inr (p, upd_container pid (\<lambda>c. c\<lparr>c_usage := c_usage c + 1\<rparr>) (at_mark {p} 1 s))
          else Inr (0, at_mark {p} 1 s))"
  | (none) "avail_pages s = {}" "container_alloc pid s = Inr (0, s)"
proof (cases rule: palloc_cases[of s])
  case (found p)
  from found first_free_avail[OF found(1)] have "p \<noteq> 0" by (auto simp: avail_pages_def user_page_nonzero)
  with found assms that(1) show ?thesis by (auto simp: container_alloc_def)
next
  case none
  with that(2) show ?thesis by (auto simp: container_alloc_def)
qed

lemma quota_ok_upd:
  assumes "quota_ok s" "0 \<le> sint (c_usage (f (CONTAINER s pid)))"
    "sint (c_usage (f (CONTAINER s pid))) \<le> sint (c_quota (f (CONTAINER s pid)))"
  shows "quota_ok (upd_container pid f s)"
  using assms by (simp add: quota_ok_def)

lemma quota_ok_mark [simp]: "quota_ok (at_mark P v s) = quota_ok s"
  by (simp add: quota_ok_def)

lemma tree_ok_mark [simp]: "tree_ok (at_mark P v s) = tree_ok s"
  by (simp add: tree_ok_def)

text \<open>The tree does not depend on the usage of used containers.\<close>

lemma tree_ok_usage:
  assumes "tree_ok s" "c_used (CONTAINER s pid) \<noteq> 0"
  shows "tree_ok (upd_container pid (\<lambda>c. c\<lparr>c_usage := g c\<rparr>) s)"
  using assms by (auto simp: tree_ok_def)

lemma used_container:
  assumes "container_inv s" "pid < NUM_IDS" "sint (c_quota (CONTAINER s pid)) > 0"
  shows "c_used (CONTAINER s pid) \<noteq> 0"
  using assms by (auto simp: container_inv_def tree_ok_def split: if_splits)

lemma can_consume_room:
  assumes "quota_ok s" "container_can_consume pid n s = 1"
  shows "pid < NUM_IDS" "c_used (CONTAINER s pid) \<noteq> 0" "0 \<le> sint n"
    "sint (c_usage (CONTAINER s pid)) + sint n \<le> sint (c_quota (CONTAINER s pid))"
proof -
  let ?q = "c_quota (CONTAINER s pid)" and ?u = "c_usage (CONTAINER s pid)"
  show id: "pid < NUM_IDS" "c_used (CONTAINER s pid) \<noteq> 0"
    using assms(2) by (auto simp: container_can_consume_def split: if_splits)
  have n: "n \<le> ?q - ?u" using assms(2) by (auto simp: container_can_consume_def split: if_splits)
  have qu: "0 \<le> sint ?u" "sint ?u \<le> sint ?q" using assms(1) id by (auto simp: quota_ok_def)
  have d: "sint (?q - ?u) = sint ?q - sint ?u"
    by (rule sint_sub_range) (use qu sint_u32_bounds[of ?q] sint_u32_bounds[of ?u] in linarith)+
  then have "uint (?q - ?u) = sint ?q - sint ?u" using qu sint_nonneg_uint[of "?q - ?u"] by simp
  then have un: "uint n \<le> sint ?q - sint ?u" using n by (simp add: word_le_def)
  then have "uint n < 2147483648" using qu sint_u32_bounds[of ?q] by linarith
  then have "sint n = uint n" 
    using signed_take_bit_int_eq_self[of 31 "uint n"] uint_ge_0[of n] by (simp add: sint_uint)
  with un show "0 \<le> sint n" "sint ?u + sint n \<le> sint ?q" by simp_all
qed

lemma usage_succ:
  assumes "sint (u :: i32) < sint (q :: i32)"
  shows "sint (u + 1) = sint u + 1"
  using assms sint_u32_bounds[of u] sint_u32_bounds[of q] sint_add_range[of u 1] by simp

lemma usage_pred:
  assumes "0 < sint (u :: i32)"
  shows "sint (u - 1) = sint u - 1"
  using assms sint_u32_bounds[of u] sint_sub_range[of u 1] by simp

lemma avail_pages_mark_alloc: "avail_pages (at_mark {p} 1 s) = avail_pages s - {p}"
  by (auto simp: avail_pages_def page_free_def page_used_mark split: if_splits)

lemma avail_pages_mark_free:
  "user_page p \<Longrightarrow> page_norm s p \<Longrightarrow> avail_pages (at_mark {p} 0 s) = insert p (avail_pages s)"
  by (auto simp: avail_pages_def page_free_def page_used_mark split: if_splits)

lemma first_free_room:
  "first_free s VM_USERLO_PI p \<Longrightarrow> int (card (avail_pages s - {p})) = int (card (avail_pages s)) - 1"
  using first_free_avail[of s p] card_Diff_singleton[of p "avail_pages s"]
    card_gt_0_iff[of "avail_pages s"] by (auto simp: of_nat_diff Suc_le_eq)

text \<open>An allocation within the quota succeeds and keeps invariant and books.\<close>

lemma container_alloc_ok:
  assumes "container_inv s" "books_balance s" "pid < NUM_IDS"
    "sint (c_usage (CONTAINER s pid)) < sint (c_quota (CONTAINER s pid))"
  shows "\<exists>p. p \<in> avail_pages s \<and> p \<noteq> 0 \<and> container_alloc pid s
      = Inr (p, upd_container pid (\<lambda>c. c\<lparr>c_usage := c_usage c + 1\<rparr>) (at_mark {p} 1 s))
      \<and> container_inv (upd_container pid (\<lambda>c. c\<lparr>c_usage := c_usage c + 1\<rparr>) (at_mark {p} 1 s))
      \<and> books_balance (upd_container pid (\<lambda>c. c\<lparr>c_usage := c_usage c + 1\<rparr>) (at_mark {p} 1 s))"
  using assms(3)
proof (cases rule: container_alloc_cases[where s = s])
  case (found p)
  let ?s = "upd_container pid (\<lambda>c. c\<lparr>c_usage := c_usage c + 1\<rparr>) (at_mark {p} 1 s)"
  note u = usage_succ[OF assms(4)]
  have q: "0 \<le> sint (c_usage (CONTAINER s pid))"
    using assms by (simp add: container_inv_def quota_ok_def)
  have "c_used (CONTAINER s pid) \<noteq> 0" using used_container[OF assms(1,3)] assms(4) q by linarith
  then have "container_inv ?s" using assms q u
    by (auto simp: container_inv_def intro!: quota_ok_upd tree_ok_usage)
  moreover have "books_balance ?s"
    using assms first_free_room[OF found(1)]
    by (auto simp: books_balance_def charged_upd avail_pages_mark_alloc u)
  ultimately show ?thesis using found first_free_avail[OF found(1)] assms by auto
next
  case none
  have "charged s < sint (c_quota (CONTAINER s 0))"
    using charged_room[of s pid] assms by (simp add: container_inv_def)
  with none assms(2) show ?thesis by (simp add: books_balance_def)
qed

lemma container_free_ok:
  assumes "container_inv s" "books_balance s" "pid < NUM_IDS"
    "0 < sint (c_usage (CONTAINER s pid))" "user_page p" "page_norm s p" "page_used s p"
  shows "container_free pid p s
      = Inr (at_mark {p} 0 (upd_container pid (\<lambda>c. c\<lparr>c_usage := c_usage c - 1\<rparr>) s))
      \<and> container_inv (at_mark {p} 0 (upd_container pid (\<lambda>c. c\<lparr>c_usage := c_usage c - 1\<rparr>) s))
      \<and> books_balance (at_mark {p} 0 (upd_container pid (\<lambda>c. c\<lparr>c_usage := c_usage c - 1\<rparr>) s))"
proof -
  let ?s = "upd_container pid (\<lambda>c. c\<lparr>c_usage := c_usage c - 1\<rparr>) s"
  note u = usage_pred[OF assms(4)]
  have q: "sint (c_usage (CONTAINER s pid)) \<le> sint (c_quota (CONTAINER s pid))"
    using assms by (simp add: container_inv_def quota_ok_def)
  have "c_used (CONTAINER s pid) \<noteq> 0" using used_container[OF assms(1,3)] assms(4) q by linarith
  then have inv: "container_inv (at_mark {p} 0 ?s)" using assms q u
    by (auto simp: container_inv_def intro!: quota_ok_upd tree_ok_usage)
  have "p \<notin> avail_pages s" using assms by (simp add: avail_pages_def page_free_def)
  moreover have "page_norm ?s p" using assms by (simp add: page_norm_def upd_container_def)
  ultimately have "books_balance (at_mark {p} 0 ?s)"
    using assms by (simp add: books_balance_def charged_upd avail_pages_mark_free u)
  with inv assms show ?thesis
    by (simp add: container_free_def pfree_def layer_spec user_page_in_table)
qed

lemma container_split_cases [consumes 1, case_names full child]:
  assumes "pid < NUM_IDS"
  obtains (full) "container_split pid quota s = Inr (NUM_IDS, s)"
  | (child) "c_nchildren (CONTAINER s pid) < MAX_CHILDREN"
    "pid * MAX_CHILDREN + 1 + c_nchildren (CONTAINER s pid) < NUM_IDS"
    "container_split pid quota s = Inr (pid * MAX_CHILDREN + 1 + c_nchildren (CONTAINER s pid),
       upd_container (pid * MAX_CHILDREN + 1 + c_nchildren (CONTAINER s pid))
         (\<lambda>c. c\<lparr>c_used := 1, c_quota := quota, c_usage := 0, c_parent := pid, c_nchildren := 0\<rparr>)
         (upd_container pid (\<lambda>c. c\<lparr>c_nchildren := c_nchildren c + 1, c_usage := c_usage c + quota\<rparr>) s))"
proof (cases "c_nchildren (CONTAINER s pid) < MAX_CHILDREN \<and>
    pid * MAX_CHILDREN + 1 + c_nchildren (CONTAINER s pid) < NUM_IDS")
  case True
  with assms show ?thesis
    by (intro that(2)) (simp_all add: container_split_def Let_def flip: not_le)
next
  case False
  with assms show ?thesis
    by (intro that(1)) (auto simp: container_split_def Let_def not_less)
qed

text \<open>Splitting off a quota the container can consume.\<close>

lemma tree_ok_split:
  assumes tree: "tree_ok s" and pid: "pid < NUM_IDS" "c_used (CONTAINER s pid) \<noteq> 0"
    and nc: "c_nchildren (CONTAINER s pid) < MAX_CHILDREN"
    and child: "child = pid * MAX_CHILDREN + 1 + c_nchildren (CONTAINER s pid)" "child < NUM_IDS"
  shows "tree_ok (upd_container child
         (\<lambda>c. c\<lparr>c_used := 1, c_quota := quota, c_usage := 0, c_parent := pid, c_nchildren := 0\<rparr>)
         (upd_container pid (\<lambda>c. c\<lparr>c_nchildren := c_nchildren c + 1, c_usage := c_usage c + quota\<rparr>) s))"
    (is "tree_ok ?s")
proof -
  let ?nc = "c_nchildren (CONTAINER s pid)"
  have ne: "child \<noteq> pid" "child \<noteq> 0" using child_not_parent[OF pid(1) nc] child by auto
  have unused: "c_used (CONTAINER s child) = 0"
    using split_slot_unused[OF tree pid(1) nc] child by simp
  have "?nc < ?nc + 1" using word_less_Suc[OF nc] by simp
  then have own: "is_child child pid (?nc + 1)" using nc child by (auto simp: is_child_def)
  have grow: "is_child c pid (?nc + 1)" if "is_child c pid ?nc" for c
    using that \<open>?nc < ?nc + 1\<close> is_child_mono order_less_imp_le by blast
  have "if c_used (CONTAINER ?s c) \<noteq> 0
      then c_parent (CONTAINER ?s c) < NUM_IDS \<and> c_used (CONTAINER ?s (c_parent (CONTAINER ?s c))) \<noteq> 0
        \<and> is_child c (c_parent (CONTAINER ?s c)) (c_nchildren (CONTAINER ?s (c_parent (CONTAINER ?s c))))
      else c_quota (CONTAINER ?s c) = 0 \<and> c_usage (CONTAINER ?s c) = 0"
    if c: "c < NUM_IDS" "c \<noteq> 0" for c
  proof (cases "c = child")
    case True
    with ne own pid show ?thesis by simp
  next
    case False
    have old: "if c_used (CONTAINER s c) \<noteq> 0
      then c_parent (CONTAINER s c) < NUM_IDS \<and> c_used (CONTAINER s (c_parent (CONTAINER s c))) \<noteq> 0
        \<and> is_child c (c_parent (CONTAINER s c)) (c_nchildren (CONTAINER s (c_parent (CONTAINER s c))))
      else c_quota (CONTAINER s c) = 0 \<and> c_usage (CONTAINER s c) = 0"
      using tree c by (simp add: tree_ok_def)
    then have "c_parent (CONTAINER s c) \<noteq> child" if "c_used (CONTAINER s c) \<noteq> 0"
      using that unused by auto
    with old False pid grow show ?thesis by (cases "c = pid") auto
  qed
  moreover have "c_used (CONTAINER ?s 0) \<noteq> 0" using tree ne by (simp add: tree_ok_def)
  ultimately show ?thesis by (simp only: tree_ok_def) blast
qed

lemma container_split_ok:
  assumes inv: "container_inv s" and can: "container_can_consume pid quota s = 1"
    and r: "container_split pid quota s = Inr (child, s')"
  shows "container_inv s' \<and> charged s' = charged s \<and> avail_pages s' = avail_pages s
    \<and> c_quota (CONTAINER s' 0) = c_quota (CONTAINER s 0)
    \<and> (child = NUM_IDS \<and> s' = s \<or> child < NUM_IDS \<and> child \<noteq> 0 \<and> c_used (CONTAINER s child) = 0
        \<and> CONTAINER s' child = \<lparr>c_quota = quota, c_usage = 0, c_parent = pid, c_nchildren = 0, c_used = 1\<rparr>)"
proof -
  from inv have ok: "quota_ok s" "tree_ok s" by (auto simp: container_inv_def)
  note room = can_consume_room[OF ok(1) can]
  from room(1) show ?thesis
  proof (cases rule: container_split_cases[where quota = quota and s = s])
    case full
    with r inv show ?thesis by auto
  next
    case child
    define t where "t = upd_container pid
      (\<lambda>c. c\<lparr>c_nchildren := c_nchildren c + 1, c_usage := c_usage c + quota\<rparr>) s"
    from child(3) r have c: "child = pid * MAX_CHILDREN + 1 + c_nchildren (CONTAINER s pid)"
      "s' = upd_container child
         (\<lambda>c. c\<lparr>c_used := 1, c_quota := quota, c_usage := 0, c_parent := pid, c_nchildren := 0\<rparr>) t"
      by (auto simp: t_def)
    with child have lt: "child < NUM_IDS" by simp
    have ne: "child \<noteq> pid" "child \<noteq> 0" using child_not_parent[OF room(1) child(1)] c by auto
    have unused: "c_used (CONTAINER s child) = 0"
      using split_slot_unused[OF ok(2) room(1) child(1,2)] c by simp
    then have zero: "c_quota (CONTAINER s child) = 0" "c_usage (CONTAINER s child) = 0"
      using ok(2) lt ne by (auto simp: tree_ok_def)
    have u: "sint (c_usage (CONTAINER s pid) + quota) = sint (c_usage (CONTAINER s pid)) + sint quota"
      by (rule sint_add_range)
         (use room ok(1) sint_u32_bounds[of "c_quota (CONTAINER s pid)"] in \<open>auto simp: quota_ok_def\<close>)
    have "quota_ok t" unfolding t_def
      by (rule quota_ok_upd) (use ok(1) room u in \<open>auto simp: quota_ok_def\<close>)
    then have "quota_ok s'" unfolding c(2) by (rule quota_ok_upd) (use room in auto)
    moreover have "tree_ok s'" unfolding c(2) t_def
      by (rule tree_ok_split) (use ok room child c lt in auto)
    moreover have "charged s' = charged s" unfolding c(2) t_def
      using room(1) lt ne zero u by (simp add: charged_upd)
    moreover have "c_quota (CONTAINER s' 0) = c_quota (CONTAINER s 0)"
      using ne by (simp add: c(2) t_def)
    ultimately show ?thesis using lt ne unused
      by (simp add: container_inv_def c(2)) (simp add: t_def)
  qed
qed

section \<open>Initialisation\<close>

lemma count_free_pages:
  fixes s1 :: "'a at_state_scheme"
  assumes "n \<le> AT_SIZE"
  shows "for_u32 0 n (\<lambda>i real_quota.
          rbind (at_is_norm i s1) (\<lambda>m.
          if m \<noteq> 0
          then rbind (at_is_allocated i s1) (\<lambda>a. if a = 0 then Inr (real_quota + 1) else Inr real_quota)
          else Inr real_quota)) 0 = Inr (word_of_nat (card {p. p < n \<and> page_free s1 p}) :: u32)"
    (is "for_u32 0 n ?body 0 = _")
proof -
  have "\<exists>q. for_u32 0 n ?body 0 = Inr q \<and> q = word_of_nat (card {p. p < n \<and> page_free s1 p})"
  proof (rule for_u32_rule)
    fix i q :: u32 assume i: "0 \<le> i" "i < n" "q = word_of_nat (card {p. p < i \<and> page_free s1 p})"
    then have lt: "i < AT_SIZE" using assms by (metis order_less_le_trans)
    have "{p. p < i + 1 \<and> page_free s1 p}
        = (if page_free s1 i then insert i {p. p < i \<and> page_free s1 p} else {p. p < i \<and> page_free s1 p})"
      by (auto simp: word_less_Suc[OF i(2)])
    then have "word_of_nat (card {p. p < i + 1 \<and> page_free s1 p}) = q + (if page_free s1 i then 1 else 0)"
      by (simp add: i(3))
    with lt show "\<exists>q'. ?body i q = Inr q' \<and> q' = word_of_nat (card {p. p < i + 1 \<and> page_free s1 p})"
      by (auto simp: layer_spec page_free_def)
  qed simp_all
  then show ?thesis by simp
qed

lemma container_init_eq:
  assumes "pmem_init mbi_addr s = Inr s1"
  shows "container_init mbi_addr s = Inr (upd_container 0 (\<lambda>c. c\<lparr>
     c_quota := word_of_nat (card {p. p < 0xFFFFF \<and> page_free s1 p}), c_usage := 0, c_parent := 0,
     c_nchildren := 0, c_used := 1\<rparr>) s1)"
  using assms count_free_pages[of "0xFFFFF" s1] by (simp add: container_init_def AT_SIZE_def)

text \<open>After \<^verbatim>\<open>pmem_init\<close> only pages of user memory are free, so the count is the size of the pool.\<close>

lemma free_pages_are_user:
  assumes "pmem_init mbi_addr s = Inr s1"
  shows "{p. p < 0xFFFFF \<and> page_free s1 p} = avail_pages s1"
proof -
  from pmem_init_inv[OF assms] obtain s0 where s1: "s1 = s0\<lparr>NUM_PAGES := 0xFFFFF,
    AT := (\<lambda>p. if p < 0xFFFFF then \<lparr>at_perm = init_perm s0 p, at_allocated = 0\<rparr> else AT s0 p)\<rparr>"
    by blast
  have "user_page p \<Longrightarrow> p < 0xFFFFF" for p
    unfolding user_page_def VM_PI_eq using order_less_trans[of p "0xF0000" "0xFFFFF"] by simp
  moreover have "user_page p" if "p < 0xFFFFF" "page_norm s1 p" for p
    using that by (auto simp: s1 page_norm_def init_perm_def split: if_splits)
  ultimately show ?thesis by (auto simp: avail_pages_def page_free_def)
qed

lemma card_avail_bound: "card (avail_pages s) < 0x100000"
proof -
  have "unat p < 0xF0000" if "p \<in> avail_pages s" for p
    using that by (auto simp: avail_pages_def user_page_def VM_PI_eq word_less_nat_alt)
  then have "avail_pages s \<subseteq> word_of_nat ` {..<0xF0000}"
    by (intro subsetI, rule_tac x = "unat x" in image_eqI) simp_all
  then have "card (avail_pages s) \<le> card {..<0xF0000 :: nat}" by (meson finite_lessThan surj_card_le)
  then show ?thesis by simp
qed

definition CONTAINER_zero :: SContainer where
  "CONTAINER_zero = \<lparr>c_quota = 0, c_usage = 0, c_parent = 0, c_nchildren = 0, c_used = 0\<rparr>"

lemma container_init_ok:
  assumes "pmem_init mbi_addr s = Inr s1" "\<And>c. CONTAINER s1 c = CONTAINER_zero"
  shows "\<exists>s'. container_init mbi_addr s = Inr s' \<and> container_inv s' \<and> books_balance s'
     \<and> avail_pages s' = avail_pages s1
     \<and> sint (c_quota (CONTAINER s' 0)) = int (card (avail_pages s1))"
proof -
  let ?q = "word_of_nat (card (avail_pages s1)) :: u32"
  let ?s = "upd_container 0 (\<lambda>c. c\<lparr>c_quota := ?q, c_usage := 0, c_parent := 0,
     c_nchildren := 0, c_used := 1\<rparr>) s1"
  have "uint ?q = int (card (avail_pages s1))"
    using card_avail_bound[of s1] by (simp add: unsigned_of_nat take_bit_nat_eq_self flip: uint_nat)
  then have q: "sint ?q = int (card (avail_pages s1))"
    using signed_take_bit_int_eq_self[of 31 "uint ?q"] card_avail_bound[of s1] by (simp add: sint_uint)
  have "charged s1 = 0" by (simp add: charged_def assms(2) CONTAINER_zero_def)
  then have "books_balance ?s" by (simp add: books_balance_def charged_upd assms(2) CONTAINER_zero_def q)
  moreover have "container_inv ?s"
    using q by (simp add: container_inv_def quota_ok_def tree_ok_def assms(2) CONTAINER_zero_def)
  ultimately show ?thesis
    using container_init_eq[OF assms(1)] q by (simp add: free_pages_are_user[OF assms(1)])
qed

lemma pmem_init_CONTAINER:
  fixes s :: "'a container_state_scheme"
  assumes "pmem_init mbi_addr s = Inr s1"
  shows "CONTAINER s1 = CONTAINER s"
proof -
  from pmem_init_inv[OF assms] obtain s0 where s0: "devinit mbi_addr s = Inr s0"
    "CONTAINER s1 = CONTAINER s0" by auto
  from s0(1) have "boot_frame s s0" by (rule devinit_frame)
  then have "CONTAINER s0 = CONTAINER s" unfolding boot_frame_def
    by (rule forw_subst) (simp add: container_state.defs)
  with s0 show ?thesis by simp
qed

lemma container_init_loc:
  assumes "container_init mbi_addr s = Inr s1"
  shows "loc_IDPTbl s1 = loc_IDPTbl s \<and> loc_PDirPool s1 = loc_PDirPool s"
proof -
  obtain t where t: "pmem_init mbi_addr s = Inr t"
    using assms by (auto simp: container_init_def rbind_eq_Inr)
  from pmem_init_inv[OF t] obtain s0 where s0: "devinit mbi_addr s = Inr s0"
    "loc_IDPTbl t = loc_IDPTbl s0" "loc_PDirPool t = loc_PDirPool s0" by auto
  from s0(1) have "boot_frame s s0" by (rule devinit_frame)
  then have "loc_IDPTbl s0 = loc_IDPTbl s \<and> loc_PDirPool s0 = loc_PDirPool s"
    unfolding boot_frame_def by (rule forw_subst) simp
  moreover have "loc_IDPTbl s1 = loc_IDPTbl t \<and> loc_PDirPool s1 = loc_PDirPool t"
    using assms container_init_eq[OF t] by (auto simp: upd_container_def)
  ultimately show ?thesis using s0 by simp
qed

section \<open>Histories\<close>

text \<open>
  The states the kernel reaches from boot by the container operations, called as the layers above
  call them: a split and an allocation after \<^verbatim>\<open>container_can_consume\<close>, a release of a page of
  user memory that is in use.
\<close>

inductive container_reach ::
  "u32 \<Rightarrow> 'a container_state_scheme \<Rightarrow> 'a container_state_scheme \<Rightarrow> bool"
  for mbi_addr and s0 where
  init: "container_init mbi_addr s0 = Inr s \<Longrightarrow> container_reach mbi_addr s0 s"
| split: "container_reach mbi_addr s0 s \<Longrightarrow> container_can_consume pid q s = 1 \<Longrightarrow>
    container_split pid q s = Inr (c, s') \<Longrightarrow> container_reach mbi_addr s0 s'"
| alloc: "container_reach mbi_addr s0 s \<Longrightarrow> container_can_consume pid 1 s = 1 \<Longrightarrow>
    container_alloc pid s = Inr (p, s') \<Longrightarrow> container_reach mbi_addr s0 s'"
| free: "container_reach mbi_addr s0 s \<Longrightarrow> pid < NUM_IDS \<Longrightarrow>
    0 < sint (container_get_usage pid s) \<Longrightarrow> user_page p \<Longrightarrow> page_norm s p \<Longrightarrow> page_used s p \<Longrightarrow>
    container_free pid p s = Inr s' \<Longrightarrow> container_reach mbi_addr s0 s'"

lemma can_consume_one:
  assumes "container_inv s" "container_can_consume pid 1 s = 1"
  shows "pid < NUM_IDS" "sint (c_usage (CONTAINER s pid)) < sint (c_quota (CONTAINER s pid))"
  using can_consume_room[of s pid 1] assms by (auto simp: container_inv_def)

lemma container_reach_inv:
  assumes "container_reach mbi_addr s0 s" "\<And>c. CONTAINER s0 c = CONTAINER_zero"
  shows "container_inv s \<and> books_balance s"
  using assms(1)
proof induction
  case (init s)
  then obtain s1 where "pmem_init mbi_addr s0 = Inr s1"
    by (auto simp: container_init_def rbind_eq_Inr)
  with container_init_ok[OF this] init assms(2) show ?case by (auto simp: pmem_init_CONTAINER)
next
  case (split s pid q c s')
  with container_split_ok[of s pid q c s'] show ?case by (auto simp: books_balance_def)
next
  case (alloc s pid p s')
  with container_alloc_ok[of s pid] can_consume_one[of s pid] show ?case by auto
next
  case (free s pid p s')
  with container_free_ok[of s pid p] show ?case by (auto simp: container_get_usage_def)
qed

section \<open>Concrete machines\<close>

definition container_example :: "u32 set \<Rightarrow> u32 set \<Rightarrow> (u32 \<Rightarrow> SContainer) \<Rightarrow> container_state" where
  "container_example N U C = at_state.extend (at_example N U) \<lparr>CONTAINER = C\<rparr>"

lemma container_example_sel [simp]:
  "CONTAINER (container_example N U C) = C" "AT (container_example N U C) = AT (at_example N U)"
  by (simp_all add: container_example_def at_state.defs)

lemma container_example_pages [simp]:
  "page_norm (container_example N U C) = page_norm (at_example N U)"
  "page_used (container_example N U C) = page_used (at_example N U)"
  "avail_pages (container_example N U C) = avail_pages (at_example N U)"
  by (simp_all add: fun_eq_iff page_norm_def page_used_def avail_pages_def page_free_def)

definition container_boot :: container_state where
  "container_boot = at_state.extend boot_example \<lparr>CONTAINER = (\<lambda>_. CONTAINER_zero)\<rparr>"

lemma container_boot_init:
  "\<exists>s. container_init 0 container_boot = Inr s \<and> container_can_consume 0 1 s = 1"
proof -
  have "\<exists>s0. devinit 0 container_boot = Inr s0 \<and> pmmap_nentries s0 = 1 \<and>
      pmmap_list s0 = [\<lparr>pm_start = 0x50000000, pm_end = 0x50002000, pm_type = 1\<rparr>]"
    by (rule devinit_example)
       (simp_all add: container_boot_def boot_example_def at_example_def at_state.defs)
  then obtain s0 where s0: "devinit 0 container_boot = Inr s0" "init_perm s0 0x50001 = 2"
    using boot_example_pages by blast
  then obtain s1 where s1: "pmem_init 0 container_boot = Inr s1" "page_free s1 0x50001"
    by (simp add: pmem_init_eq page_free_def page_norm_def page_used_def)
  have "CONTAINER s1 c = CONTAINER_zero" for c
    using pmem_init_CONTAINER[OF s1(1)] by (simp add: container_boot_def at_state.defs)
  from container_init_ok[OF s1(1) this] obtain s where s: "container_init 0 container_boot = Inr s"
    "container_inv s" "sint (c_quota (CONTAINER s 0)) = int (card (avail_pages s1))" by blast
  have "0x50001 \<in> avail_pages s1" using s1(2) by (simp add: avail_pages_def user_page_def VM_PI_eq)
  then have "card (avail_pages s1) > 0" by (auto simp: card_gt_0_iff)
  then have "c_quota (CONTAINER s 0) \<noteq> 0" using s(3) by auto
  moreover have "c_usage (CONTAINER s 0) = 0"
    using s(1) container_init_eq[OF s1(1)] by auto
  moreover have "c_used (CONTAINER s 0) \<noteq> 0" using s(2) by (simp add: container_inv_def tree_ok_def)
  ultimately show ?thesis using s(1)
    by (auto simp: container_can_consume_def word_one_le word_neq_0_conv)
qed

section \<open>Properties\<close>





text \<open>
  \<^verbatim>\<open>container_split\<close> of a quota the container can consume always returns. Either it answers
  \<^verbatim>\<open>NUM_IDS\<close> and changes nothing (three children, or no identifier left), or it fills a container
  that was unused with that quota, charges the parent, and keeps the invariant and the books.
\<close>

theorem container_split_fresh:
  assumes "container_inv s" "books_balance s" "container_can_consume pid quota s = 1"
  shows "\<exists>child s'. container_split pid quota s = Inr (child, s') \<and> container_inv s' \<and> books_balance s'
     \<and> (child = NUM_IDS \<and> s' = s
        \<or> child < NUM_IDS \<and> c_used (CONTAINER s child) = 0 \<and> c_used (CONTAINER s' child) = 1
          \<and> container_get_quota child s' = quota \<and> container_get_usage child s' = 0
          \<and> container_get_parent child s' = pid)"
proof -
  have "pid < NUM_IDS" using can_consume_room[of s pid quota] assms by (simp add: container_inv_def)
  then obtain child s' where r: "container_split pid quota s = Inr (child, s')"
    by (cases rule: container_split_cases[of pid quota s]) auto
  from container_split_ok[OF assms(1,3) r] assms(2) r show ?thesis
    by (auto simp: books_balance_def container_get_quota_def container_get_usage_def
        container_get_parent_def)
qed

definition two_containers :: "u32 \<Rightarrow> SContainer" where
  "two_containers = (\<lambda>_. CONTAINER_zero)(0 := \<lparr>c_quota = 2, c_usage = 0, c_parent = 0,
     c_nchildren = 0, c_used = 1\<rparr>)"

lemma two_containers_inv:
  "container_inv (container_example N U two_containers)"
  by (simp add: container_inv_def quota_ok_def tree_ok_def two_containers_def CONTAINER_zero_def)

lemma two_containers_books:
  "books_balance (container_example {0x40000, 0x40001} {} two_containers)"
proof -
  have "two_containers = CONTAINER (upd_container 0 (\<lambda>_. \<lparr>c_quota = 2, c_usage = 0, c_parent = 0,
      c_nchildren = 0, c_used = 1\<rparr>) (container_example {0x40000, 0x40001} {} (\<lambda>_. CONTAINER_zero)))"
    by (simp add: two_containers_def)
  then have "charged (container_example {0x40000, 0x40001} {} two_containers)
      = charged (upd_container 0 (\<lambda>_. \<lparr>c_quota = 2, c_usage = 0, c_parent = 0,
      c_nchildren = 0, c_used = 1\<rparr>) (container_example {0x40000, 0x40001} {} (\<lambda>_. CONTAINER_zero)))"
    by (simp add: charged_def)
  also have "\<dots> = 0" by (simp add: charged_upd) (simp add: charged_def CONTAINER_zero_def)
  finally show ?thesis by (simp add: books_balance_def avail_example two_containers_def)
qed

theorem container_split_fresh_witness:
  "\<exists>s'. container_split 0 1 (container_example {0x40000, 0x40001} {} two_containers) = Inr (1, s')
     \<and> container_get_quota 1 s' = 1 \<and> books_balance s'"
proof -
  let ?s = "container_example {0x40000, 0x40001} {} two_containers"
  have "container_can_consume 0 1 ?s = 1"
    by (simp add: container_can_consume_def two_containers_def)
  from container_split_fresh[OF two_containers_inv two_containers_books this] obtain child s' where
    r: "container_split 0 1 ?s = Inr (child, s')" "books_balance s'"
      "child = NUM_IDS \<or> container_get_quota child s' = 1" by blast
  moreover have "\<not> (64 :: u32) \<le> 1" by (simp add: word_le_nat_alt)
  ultimately have "child = 1"
    by (auto simp: container_split_def two_containers_def NUM_IDS_def MAX_CHILDREN_def Let_def)
  with r show ?thesis by (simp add: NUM_IDS_def)
qed

text \<open>
  Releasing a page right after \<^verbatim>\<open>container_alloc\<close> handed it out restores the allocation table
  and the container exactly.
\<close>

theorem container_alloc_free_roundtrip:
  assumes "container_alloc pid s = Inr (p, s')" "p \<noteq> 0" "quota_ok s"
  shows "container_free pid p s' = Inr s"
proof -
  have pid: "pid < NUM_IDS" using assms(1,2)
    by (auto simp: container_alloc_def rbind_eq_Inr split: if_splits prod.splits)
  then show ?thesis
  proof (cases rule: container_alloc_cases[where s = s])
    case (found q)
    with assms have q: "p = q" and lt: "sint (c_usage (CONTAINER s pid)) < sint (c_quota (CONTAINER s pid))"
      and s': "s' = upd_container pid (\<lambda>c. c\<lparr>c_usage := c_usage c + 1\<rparr>) (at_mark {p} 1 s)"
      by (auto split: if_splits)
    have "0 < sint (c_usage (CONTAINER s pid) + 1)"
      using usage_succ[OF lt] pid assms(3) by (auto simp: quota_ok_def)
    moreover have "p < AT_SIZE" "\<not> page_used s p"
      using found(1) by (auto simp: q first_free_def page_free_def below_HI_in_table)
    moreover have "(upd_container pid (\<lambda>c. c\<lparr>c_usage := c_usage c - 1\<rparr>)
        (upd_container pid (\<lambda>c. c\<lparr>c_usage := c_usage c + 1\<rparr>) t)) = t" for t :: "'a container_state_scheme"
      by (simp add: upd_container_def)
    moreover from \<open>\<not> page_used s p\<close> have "at_mark {p} 0 (at_mark {p} 1 s) = s"
      by (intro at_mark_release) simp
    ultimately show ?thesis using pid
      by (simp add: container_free_def pfree_def layer_spec s' upd_mark_commute)
  qed (use assms in simp)
qed

theorem container_alloc_free_roundtrip_witness:
  "\<exists>s'. container_alloc 0 (container_example {0x40000, 0x40001} {} two_containers) = Inr (0x40000, s')
     \<and> container_free 0 0x40000 s' = Inr (container_example {0x40000, 0x40001} {} two_containers)"
proof -
  let ?s = "container_example {0x40000, 0x40001} {} two_containers"
  have "first_free ?s 0x40000 0x40000"
    using first_free_example[of "{}"] by (simp add: first_free_def page_free_def)
  then have "palloc ?s = Inr (0x40000, at_mark {0x40000} 1 ?s)"
    by (simp add: palloc_def VM_PI_eq palloc_scan_found)
  then obtain s' where s': "container_alloc 0 ?s = Inr (0x40000, s')"
    by (simp add: container_alloc_def two_containers_def)
  have "quota_ok ?s" using two_containers_inv by (simp add: container_inv_def)
  from container_alloc_free_roundtrip[OF s' _ this] s' show ?thesis by simp
qed

text \<open>
  A container at its quota leaks pages. When the pool is not empty, \<^verbatim>\<open>container_alloc\<close> takes a
  page from it before it looks at the quota; it then answers 0, and the page stays marked as
  allocated although no container is charged for it.
\<close>

theorem container_alloc_leaks:
  assumes "pid < NUM_IDS" "avail_pages s \<noteq> {}"
    "sint (c_quota (CONTAINER s pid)) \<le> sint (c_usage (CONTAINER s pid))"
  shows "\<exists>p s'. container_alloc pid s = Inr (0, s') \<and> p \<in> avail_pages s
     \<and> avail_pages s' = avail_pages s - {p} \<and> CONTAINER s' = CONTAINER s"
  using assms(1)
proof (cases rule: container_alloc_cases[where s = s])
  case (found p)
  with assms first_free_avail[OF found(1)] show ?thesis by (auto simp: avail_pages_mark_alloc)
qed (use assms in simp)

theorem container_alloc_leaks_witness:
  "\<exists>s'. container_alloc 1 (container_example {0x40000, 0x40001} {} two_containers) = Inr (0, s')
     \<and> avail_pages s' \<noteq> {0x40000, 0x40001}"
  using container_alloc_leaks[of 1 "container_example {0x40000, 0x40001} {} two_containers"]
  by (auto simp: NUM_IDS_def two_containers_def CONTAINER_zero_def avail_example)

end
