(* ===== verification/MPTIntro.thy ===== *)
theory MPTIntro
  imports MContainer
begin

text \<open>
  The two-level page tables of \<^verbatim>\<open>kern/vmm/MPTIntro/MPTIntro.c\<close>. The page directories of all
  processes are the static array \<^verbatim>\<open>PDirPool\<close>; page tables are pages of physical memory, reached
  through the address bits of a directory entry, and the kernel's identity tables \<^verbatim>\<open>IDPTbl\<close> are
  1024 such pages at a fixed address.
\<close>

section \<open>State and operations\<close>

record pt_state = container_state +
  PDirPool :: "u32 \<Rightarrow> u32 \<Rightarrow> u32"

definition PT_PERM_PTU :: u32 where "PT_PERM_PTU = PTE_P OR PTE_W OR PTE_U"

definition set_pdir_base :: "u32 \<Rightarrow> 'a pt_state_scheme \<Rightarrow> 'a pt_state_scheme" where
  "set_pdir_base index s = set_cr3 (loc_PDirPool s + index * (1024 * 4)) s"

definition get_pdir_entry :: "u32 \<Rightarrow> u32 \<Rightarrow> 'a pt_state_scheme \<Rightarrow> u32" where
  "get_pdir_entry proc_index pde_index s =
     (if proc_index < NUM_IDS \<and> pde_index < 1024 then PDirPool s proc_index pde_index else 0)"

definition upd_pdir :: "u32 \<Rightarrow> u32 \<Rightarrow> u32 \<Rightarrow> 'a pt_state_scheme \<Rightarrow> 'a pt_state_scheme" where
  "upd_pdir i j v s = s\<lparr>PDirPool := (PDirPool s)(i := (PDirPool s i)(j := v))\<rparr>"

definition set_pdir_entry :: "u32 \<Rightarrow> u32 \<Rightarrow> u32 \<Rightarrow> 'a pt_state_scheme \<Rightarrow> 'a pt_state_scheme" where
  "set_pdir_entry proc_index pde_index page_index s =
     (if proc_index < NUM_IDS \<and> pde_index < 1024
      then upd_pdir proc_index pde_index (page_index * PAGESIZE + PT_PERM_PTU) s else s)"

definition set_pdir_entry_identity :: "u32 \<Rightarrow> u32 \<Rightarrow> 'a pt_state_scheme \<Rightarrow> 'a pt_state_scheme" where
  "set_pdir_entry_identity proc_index pde_index s =
     (if proc_index < NUM_IDS \<and> pde_index < 1024
      then upd_pdir proc_index pde_index ((loc_IDPTbl s + pde_index * (1024 * 4)) OR PT_PERM_PTU) s else s)"

definition rmv_pdir_entry :: "u32 \<Rightarrow> u32 \<Rightarrow> 'a pt_state_scheme \<Rightarrow> 'a pt_state_scheme" where
  "rmv_pdir_entry proc_index pde_index s =
     (if proc_index < NUM_IDS \<and> pde_index < 1024 then upd_pdir proc_index pde_index 0 s else s)"

text \<open>The pointer \<^verbatim>\<open>ptbl_entry_ptr\<close>: the address of a page table entry.\<close>

definition pte_addr :: "u32 \<Rightarrow> u32 \<Rightarrow> u32" where
  "pte_addr pdir_entry pte_index = (pdir_entry AND 0xFFFFF000) + pte_index * 4"

definition get_ptbl_entry :: "u32 \<Rightarrow> u32 \<Rightarrow> u32 \<Rightarrow> 'a pt_state_scheme \<Rightarrow> u32" where
  "get_ptbl_entry proc_index pde_index pte_index s =
     (if proc_index < NUM_IDS \<and> pde_index < 1024 \<and> pte_index < 1024
      then load32 (mem s) (pte_addr (PDirPool s proc_index pde_index) pte_index) else 0)"

definition poke :: "u32 \<Rightarrow> u32 \<Rightarrow> 'a pt_state_scheme \<Rightarrow> 'a pt_state_scheme" where
  "poke a v s = s\<lparr>mem := store32 (mem s) a v\<rparr>"

definition set_ptbl_entry ::
  "u32 \<Rightarrow> u32 \<Rightarrow> u32 \<Rightarrow> u32 \<Rightarrow> u32 \<Rightarrow> 'a pt_state_scheme \<Rightarrow> 'a pt_state_scheme" where
  "set_ptbl_entry proc_index pde_index pte_index page_index perm s =
     (if proc_index < NUM_IDS \<and> pde_index < 1024 \<and> pte_index < 1024
      then poke (pte_addr (PDirPool s proc_index pde_index) pte_index) (page_index * PAGESIZE + perm) s
      else s)"

definition set_ptbl_entry_identity :: "u32 \<Rightarrow> u32 \<Rightarrow> u32 \<Rightarrow> 'a pt_state_scheme \<Rightarrow> 'a pt_state_scheme" where
  "set_ptbl_entry_identity pde_index pte_index perm s =
     (if pde_index < 1024 \<and> pte_index < 1024
      then poke (loc_IDPTbl s + (pde_index * 1024 + pte_index) * 4)
             (push_bit 22 pde_index + push_bit 12 pte_index + perm) s
      else s)"

definition rmv_ptbl_entry :: "u32 \<Rightarrow> u32 \<Rightarrow> u32 \<Rightarrow> 'a pt_state_scheme \<Rightarrow> 'a pt_state_scheme" where
  "rmv_ptbl_entry proc_index pde_index pte_index s =
     (if proc_index < NUM_IDS \<and> pde_index < 1024 \<and> pte_index < 1024
      then poke (pte_addr (PDirPool s proc_index pde_index) pte_index) 0 s
      else s)"

section \<open>Page numbers, offsets and entry addresses\<close>

lemma unat_drop_bit: "unat (drop_bit n (x :: u32)) = unat x div 2 ^ n"
  using unsigned_less[of x, where ?'a = nat]
  unfolding unsigned_drop_bit_eq by (simp add: drop_bit_eq_div take_bit_nat_eq_self)

lemma unat_take_bit: "n \<le> 32 \<Longrightarrow> unat (take_bit n (x :: u32)) = unat x mod 2 ^ n"
  by (simp add: unsigned_take_bit_eq flip: take_bit_eq_mod)

lemma mask_page: "(x :: u32) AND 0xFFFFF000 = push_bit 12 (drop_bit 12 x)"
proof -
  have "x AND NOT (mask 12) = push_bit 12 (drop_bit 12 x)"
    by (rule bit_word_eqI) (auto simp: bit_simps)
  moreover have "(0xFFFFF000 :: u32) = NOT (mask 12)" by (simp add: mask_eq_exp_minus_1)
  ultimately show ?thesis by (simp only:)
qed

lemma page_number_bound: "unat (e :: u32) div 4096 < 1048576"
  using unsigned_less[of e, where ?'a = nat] by (simp add: less_mult_imp_div_less)

lemma unat_mask_page: "unat ((x :: u32) AND 0xFFFFF000) = 4096 * (unat x div 4096)"
proof -
  have "unat (drop_bit 12 x) = unat x div 4096" by (simp only: unat_drop_bit) simp
  then show ?thesis using page_number_bound[of x]
    unfolding mask_page push_bit_eq_mult by (simp add: unat_word_ariths)
qed

lemma unat_pte_addr:
  assumes "i < 1024"
  shows "unat (pte_addr e i) = 4096 * (unat e div 4096) + 4 * unat i"
proof -
  have i: "unat i < 1024" using assms by (simp add: word_less_nat_alt)
  have "4096 * (unat e div 4096) + 4 * unat i < 4294967296"
    using i page_number_bound[of e] by linarith
  moreover have "unat (i * 4) = 4 * unat i" using i by (simp add: unat_word_ariths)
  ultimately show ?thesis by (simp only: pte_addr_def unat_word_ariths(1) unat_mask_page) simp
qed

lemma aligned4_pte_addr: "i < 1024 \<Longrightarrow> aligned4 (pte_addr e i)"
  unfolding aligned4_def by (simp add: unat_pte_addr mod_add_eq[symmetric])

lemma pte_addr_eq_iff:
  assumes "i < 1024" "j < 1024"
  shows "pte_addr e i = pte_addr f j \<longleftrightarrow> drop_bit 12 e = drop_bit 12 f \<and> i = j"
proof
  have lt: "4 * unat i < 4096" "4 * unat j < 4096" using assms by (simp_all add: word_less_nat_alt)
  assume "pte_addr e i = pte_addr f j"
  then have eq: "4 * unat i + 4096 * (unat e div 4096) = 4 * unat j + 4096 * (unat f div 4096)"
    using assms unat_pte_addr by (metis add.commute)
  have "unat e div 4096 = unat f div 4096"
    using arg_cong[OF eq, of "\<lambda>x. x div 4096"] lt by simp
  moreover have "unat i = unat j" using eq calculation by simp
  ultimately have "unat (drop_bit 12 e) = unat (drop_bit 12 f)" "i = j"
    by (simp_all only: unat_drop_bit unsigned_word_eqI) simp
  then show "drop_bit 12 e = drop_bit 12 f \<and> i = j" by (simp only: unsigned_word_eqI)
next
  assume "drop_bit 12 e = drop_bit 12 f \<and> i = j"
  then show "pte_addr e i = pte_addr f j" by (simp add: pte_addr_def mask_page)
qed

text \<open>The entry \<^verbatim>\<open>page * PAGESIZE + perm\<close> gives back page number and permission.\<close>

lemma unat_entry:
  assumes "page < 0x100000" "perm < 0x1000"
  shows "unat (page * PAGESIZE + perm) = 4096 * unat page + unat perm"
proof -
  have lt: "unat page < 1048576" "unat perm < 4096" using assms by (simp_all add: word_less_nat_alt)
  then have "unat (page * PAGESIZE) = 4096 * unat page" by (simp add: PAGESIZE_def unat_word_ariths)
  with lt show ?thesis by (simp add: unat_word_ariths(1))
qed

lemma entry_page:
  assumes "page < 0x100000" "perm < 0x1000"
  shows "drop_bit 12 (page * PAGESIZE + perm) = page"
proof -
  have "unat perm < 4096" using assms by (simp add: word_less_nat_alt)
  then have "unat (drop_bit 12 (page * PAGESIZE + perm)) = unat page"
    using assms by (simp only: unat_drop_bit unat_entry) simp
  then show ?thesis by (simp add: unsigned_word_eqI)
qed

lemma entry_perm:
  assumes "page < 0x100000" "perm < 0x1000"
  shows "(page * PAGESIZE + perm) AND 0xFFF = perm"
proof -
  have m: "x AND 0xFFF = take_bit 12 (x :: u32)" for x
    by (simp add: take_bit_eq_mask mask_eq_exp_minus_1)
  have "unat perm < 4096" using assms by (simp add: word_less_nat_alt)
  then have "unat ((page * PAGESIZE + perm) AND 0xFFF) = unat perm"
    using assms unfolding m by (subst unat_take_bit) (simp_all add: unat_entry)
  then show ?thesis by (simp add: unsigned_word_eqI)
qed

end
