(* ===== verification/MPTOp.thy ===== *)
theory MPTOp
  imports MPTIntro
begin

text \<open>
  Access to the page tables by virtual address, \<^verbatim>\<open>kern/vmm/MPTOp/MPTOp.c\<close>, and the page walk
  of the x86 memory management unit as the specification these operations are measured against.
\<close>

section \<open>Operations\<close>

text \<open>The two index expressions of the code.\<close>

definition pde_of :: "u32 \<Rightarrow> u32" where
  "pde_of vaddr = drop_bit 22 (vaddr AND 0xFFC00000)"

definition pte_of :: "u32 \<Rightarrow> u32" where
  "pte_of vaddr = drop_bit 12 (vaddr AND 0x003FF000)"

definition get_ptbl_entry_by_va :: "u32 \<Rightarrow> u32 \<Rightarrow> 'a pt_state_scheme \<Rightarrow> u32" where
  "get_ptbl_entry_by_va proc_index vaddr s =
     (let pdir_entry = get_pdir_entry proc_index (pde_of vaddr) s
      in if pdir_entry AND 1 = 0 then 0
         else (let ptbl_entry = get_ptbl_entry proc_index (pde_of vaddr) (pte_of vaddr) s
               in if ptbl_entry AND 1 = 0 then 0 else ptbl_entry))"

definition get_pdir_entry_by_va :: "u32 \<Rightarrow> u32 \<Rightarrow> 'a pt_state_scheme \<Rightarrow> u32" where
  "get_pdir_entry_by_va proc_index vaddr s =
     (let pdir_entry = get_pdir_entry proc_index (pde_of vaddr) s
      in if pdir_entry AND 1 = 0 then 0 else pdir_entry)"

definition rmv_ptbl_entry_by_va :: "u32 \<Rightarrow> u32 \<Rightarrow> 'a pt_state_scheme \<Rightarrow> 'a pt_state_scheme" where
  "rmv_ptbl_entry_by_va proc_index vaddr s = rmv_ptbl_entry proc_index (pde_of vaddr) (pte_of vaddr) s"

definition rmv_pdir_entry_by_va :: "u32 \<Rightarrow> u32 \<Rightarrow> 'a pt_state_scheme \<Rightarrow> 'a pt_state_scheme" where
  "rmv_pdir_entry_by_va proc_index vaddr s = rmv_pdir_entry proc_index (pde_of vaddr) s"

definition set_ptbl_entry_by_va ::
  "u32 \<Rightarrow> u32 \<Rightarrow> u32 \<Rightarrow> u32 \<Rightarrow> 'a pt_state_scheme \<Rightarrow> 'a pt_state_scheme" where
  "set_ptbl_entry_by_va proc_index vaddr page_index perm s =
     set_ptbl_entry proc_index (pde_of vaddr) (pte_of vaddr) page_index perm s"

definition set_pdir_entry_by_va :: "u32 \<Rightarrow> u32 \<Rightarrow> u32 \<Rightarrow> 'a pt_state_scheme \<Rightarrow> 'a pt_state_scheme" where
  "set_pdir_entry_by_va proc_index vaddr page_index s =
     set_pdir_entry proc_index (pde_of vaddr) page_index s"

definition idptbl_init :: "u32 \<Rightarrow> 'a pt_state_scheme \<Rightarrow> 'a pt_state_scheme res" where
  "idptbl_init mbi_addr s =
     (let userlo = 0x40000000 div 4096; userhi = 0xF0000000 div 4096;
          nps = 0xFFFFFFFF div 4096; pagesize = 4096
      in rbind (container_init mbi_addr s) (\<lambda>s1.
         for_u32 0 nps (\<lambda>i t.
           let vm_addr = i * pagesize
           in Inr (set_ptbl_entry_identity (pde_of vm_addr) (pte_of vm_addr)
                (if i < userlo \<or> i \<ge> userhi then PTE_P OR PTE_W OR PTE_G else PTE_P OR PTE_W) t)) s1))"

section \<open>The page walk\<close>

text \<open>
  What the processor does with a virtual address under the page directory of a process: two table
  look-ups, each of which needs the present bit.
\<close>

definition translate :: "u32 \<Rightarrow> u32 \<Rightarrow> 'a pt_state_scheme \<Rightarrow> u32 option" where
  "translate pid va s =
     (let pde = PDirPool s pid (drop_bit 22 va)
      in if bit pde 0
         then (let pte = load32 (mem s) (pte_addr pde (take_bit 10 (drop_bit 12 va)))
               in if bit pte 0 then Some ((pte AND 0xFFFFF000) + take_bit 12 va) else None)
         else None)"

section \<open>Indices\<close>

lemma pde_of_eq: "pde_of va = drop_bit 22 va"
proof -
  have "drop_bit 22 (va AND NOT (mask 22)) = drop_bit 22 va"
    by (rule bit_word_eqI) (auto simp: bit_simps dest: bit_imp_le_length)
  moreover have "(0xFFC00000 :: u32) = NOT (mask 22)" by (simp add: mask_eq_exp_minus_1)
  ultimately show ?thesis by (simp only: pde_of_def)
qed

lemma pte_of_eq: "pte_of va = take_bit 10 (drop_bit 12 va)"
proof -
  have "drop_bit 12 (va AND push_bit 12 (mask 10)) = take_bit 10 (drop_bit 12 va)"
    by (rule bit_word_eqI) (auto simp: bit_simps)
  moreover have "(0x003FF000 :: u32) = push_bit 12 (mask 10)"
    by (simp add: mask_eq_exp_minus_1 push_bit_eq_mult)
  ultimately show ?thesis by (simp only: pte_of_def)
qed

lemma unat_pde_of: "unat (pde_of va) = unat va div 4194304"
  unfolding pde_of_eq unat_drop_bit by simp

lemma unat_pte_of: "unat (pte_of va) = unat va div 4096 mod 1024"
  unfolding pte_of_eq by (subst unat_take_bit) (simp_all only: unat_drop_bit, simp)

lemma pde_of_lt [simp]: "pde_of va < 1024"
  using unsigned_less[of va, where ?'a = nat]
  by (simp add: word_less_nat_alt unat_pde_of less_mult_imp_div_less)

lemma pte_of_lt [simp]: "pte_of va < 1024"
  by (simp add: word_less_nat_alt unat_pte_of)

lemma index_split: "unat v div 4096 = 1024 * unat (pde_of v) + unat (pte_of v)"
proof -
  have "unat v div 4194304 = unat v div 4096 div 1024"
    by (simp flip: div_mult2_eq)
  then show ?thesis by (simp add: unat_pde_of unat_pte_of)
qed

text \<open>Equal indices mean the same page.\<close>

lemma same_page_iff: "pde_of va = pde_of vb \<and> pte_of va = pte_of vb \<longleftrightarrow> drop_bit 12 va = drop_bit 12 vb"
proof
  assume "pde_of va = pde_of vb \<and> pte_of va = pte_of vb"
  then have "unat va div 4096 = unat vb div 4096" using index_split by metis
  then have "unat (drop_bit 12 va) = unat (drop_bit 12 vb)" by (simp only: unat_drop_bit) simp
  then show "drop_bit 12 va = drop_bit 12 vb" by (simp only: unsigned_word_eqI)
next
  assume eq: "drop_bit 12 va = drop_bit 12 vb"
  have "drop_bit 22 v = drop_bit 10 (drop_bit 12 v)" for v :: u32
    by (simp only: drop_bit_drop_bit) simp
  with eq show "pde_of va = pde_of vb \<and> pte_of va = pte_of vb" by (simp only: pde_of_eq pte_of_eq)
qed

lemma and_one_bit: "(x :: u32) AND 1 = 0 \<longleftrightarrow> \<not> bit x 0"
  by (simp add: and_one_eq bit_0 flip: even_iff_mod_2_eq_zero)

text \<open>The look-up by virtual address is the page walk.\<close>

lemma translate_by_va:
  assumes "pid < NUM_IDS"
  shows "translate pid va s = (let e = get_ptbl_entry_by_va pid va s
     in if e = 0 then None else Some ((e AND 0xFFFFF000) + take_bit 12 va))"
  using assms
  by (auto simp: translate_def get_ptbl_entry_by_va_def get_pdir_entry_def get_ptbl_entry_def Let_def
      and_one_bit simp flip: pde_of_eq pte_of_eq)

section \<open>The identity tables\<close>

text \<open>The linker places \<^verbatim>\<open>IDPTbl\<close> on a page boundary, and its 4 MiB fit in the address space.\<close>

definition idptbl_placed :: "'a pt_state_scheme \<Rightarrow> bool" where
  "idptbl_placed s \<longleftrightarrow> loc_IDPTbl s AND 0xFFF = 0 \<and> loc_IDPTbl s \<le> 0xFFC00000"

definition id_perm :: "u32 \<Rightarrow> u32" where
  "id_perm i = (if i < VM_USERLO_PI \<or> i \<ge> VM_USERHI_PI then PTE_P OR PTE_W OR PTE_G else PTE_P OR PTE_W)"

lemma index_word: "pde_of v * 1024 + pte_of v = drop_bit 12 v"
proof -
  have "unat v div 4096 < 1048576" by (rule page_number_bound)
  then have lt: "1024 * unat (pde_of v) + unat (pte_of v) < 1048576" by (simp only: index_split)
  then have m: "unat (pde_of v * 1024) = 1024 * unat (pde_of v)"
    by (simp add: unat_word_ariths)
  then have "unat (pde_of v * 1024 + pte_of v) = 1024 * unat (pde_of v) + unat (pte_of v)"
    using lt by (simp only: unat_word_ariths(1)) simp
  moreover have "unat (drop_bit 12 v) = unat v div 4096" by (simp only: unat_drop_bit) simp
  ultimately show ?thesis by (metis index_split unsigned_word_eqI)
qed

lemma index_join: "push_bit 22 (pde_of v) + push_bit 12 (pte_of v) = v AND 0xFFFFF000"
proof -
  have "push_bit 22 (pde_of v) + push_bit 12 (pte_of v) = (pde_of v * 1024 + pte_of v) * 4096"
    by (simp add: push_bit_eq_mult algebra_simps)
  also have "\<dots> = push_bit 12 (drop_bit 12 v)" by (simp add: index_word push_bit_eq_mult)
  finally show ?thesis by (simp only: mask_page)
qed

lemma page_base:
  assumes "(i :: u32) < 0x100000"
  shows "drop_bit 12 (i * 4096) = i" "(i * 4096) AND 0xFFFFF000 = i * 4096"
proof -
  show d: "drop_bit 12 (i * 4096) = i"
    using entry_page[OF assms, of 0] by (simp add: PAGESIZE_def)
  show "(i * 4096) AND 0xFFFFF000 = i * 4096" unfolding mask_page d by (simp add: push_bit_eq_mult)
qed

text \<open>The cells of the identity tables.\<close>

definition id_cell :: "'a pt_state_scheme \<Rightarrow> u32 \<Rightarrow> u32" where
  "id_cell s i = loc_IDPTbl s + i * 4"

lemma unat_loc_IDPTbl:
  assumes "idptbl_placed s"
  shows "4096 * (unat (loc_IDPTbl s) div 4096) = unat (loc_IDPTbl s)" "unat (loc_IDPTbl s) \<le> 4290772992"
proof -
  have "x AND 0xFFF = take_bit 12 (x :: u32)" for x
    by (simp add: take_bit_eq_mask mask_eq_exp_minus_1)
  then have "unat (take_bit 12 (loc_IDPTbl s)) = 0"
    using assms by (simp only: idptbl_placed_def unsigned_0)
  then have "unat (loc_IDPTbl s) mod 4096 = 0" by (subst (asm) unat_take_bit) simp_all
  then show "4096 * (unat (loc_IDPTbl s) div 4096) = unat (loc_IDPTbl s)" 
    using mult_div_mod_eq[of 4096 "unat (loc_IDPTbl s)"] by simp
  show "unat (loc_IDPTbl s) \<le> 4290772992" using assms by (simp add: idptbl_placed_def word_le_nat_alt)
qed

lemma unat_id_cell:
  assumes "idptbl_placed s" "i < 0x100000"
  shows "unat (id_cell s i) = unat (loc_IDPTbl s) + 4 * unat i"
proof -
  have i: "unat i < 1048576" using assms by (simp add: word_less_nat_alt)
  then have "unat (i * 4) = 4 * unat i" by (simp add: unat_word_ariths)
  then show ?thesis using i unat_loc_IDPTbl[OF assms(1)]
    unfolding id_cell_def unat_word_ariths(1) by simp
qed

lemma aligned4_id_cell:
  assumes "idptbl_placed s" "i < 0x100000"
  shows "aligned4 (id_cell s i)"
proof -
  have "unat (loc_IDPTbl s) mod 4 = (4096 * (unat (loc_IDPTbl s) div 4096)) mod 4"
    using unat_loc_IDPTbl[OF assms(1)] by simp
  also have "\<dots> = 0" by (simp add: mod_mult_left_eq[symmetric])
  finally show ?thesis
    unfolding aligned4_def unat_id_cell[OF assms] by (simp add: mod_add_left_eq[symmetric])
qed

lemma id_cell_inj:
  assumes "idptbl_placed s" "i < 0x100000" "j < 0x100000" "id_cell s i = id_cell s j"
  shows "i = j"
proof (rule unsigned_word_eqI)
  show "unat i = unat j"
    using assms(4) unat_id_cell[OF assms(1,2)] unat_id_cell[OF assms(1,3)] by simp
qed

lemma set_identity_eq:
  assumes "i < 0x100000"
  shows "set_ptbl_entry_identity (pde_of (i * 4096)) (pte_of (i * 4096)) perm s
    = poke (id_cell s i) (i * 4096 + perm) s"
  by (simp add: set_ptbl_entry_identity_def index_word index_join page_base[OF assms] id_cell_def)

lemma poke_sel [simp]:
  "mem (poke a v s) = store32 (mem s) a v" "loc_IDPTbl (poke a v s) = loc_IDPTbl s"
  "PDirPool (poke a v s) = PDirPool s"
  by (simp_all add: poke_def)

lemma id_cell_poke [simp]: "id_cell (poke a v s) = id_cell s"
  by (simp add: id_cell_def fun_eq_iff)

lemma idptbl_placed_poke [simp]: "idptbl_placed (poke a v s) = idptbl_placed s"
  by (simp add: idptbl_placed_def)

lemma poke_frame: "poke a v (s\<lparr>mem := m\<rparr>) = s\<lparr>mem := store32 m a v\<rparr>"
  by (simp add: poke_def)

text \<open>The identity tables are filled up to page \<open>n\<close>, everything else is as it was.\<close>

definition id_filled :: "'a pt_state_scheme \<Rightarrow> u32 \<Rightarrow> 'a pt_state_scheme \<Rightarrow> bool" where
  "id_filled s1 n t \<longleftrightarrow> (\<exists>m. t = s1\<lparr>mem := m\<rparr>
     \<and> (\<forall>j<n. load32 m (id_cell s1 j) = j * 4096 + id_perm j)
     \<and> (\<forall>j<0x100000. n \<le> j \<longrightarrow> load32 m (id_cell s1 j) = load32 (mem s1) (id_cell s1 j)))"

lemma id_filled_step:
  assumes "idptbl_placed s1" "i < 0xFFFFF" "id_filled s1 i t"
  shows "id_filled s1 (i + 1) (poke (id_cell s1 i) (i * 4096 + id_perm i) t)"
proof -
  from assms(3) obtain m where m: "t = s1\<lparr>mem := m\<rparr>"
    "\<And>j. j < i \<Longrightarrow> load32 m (id_cell s1 j) = j * 4096 + id_perm j"
    "\<And>j. j < 0x100000 \<Longrightarrow> i \<le> j \<Longrightarrow> load32 m (id_cell s1 j) = load32 (mem s1) (id_cell s1 j)"
    by (auto simp: id_filled_def)
  let ?m = "store32 m (id_cell s1 i) (i * 4096 + id_perm i)"
  have i: "i < 0x100000" using assms(2) by (rule order_less_trans) simp
  have other: "load32 ?m (id_cell s1 j) = load32 m (id_cell s1 j)" if "j < 0x100000" "j \<noteq> i" for j
    using that i assms(1) id_cell_inj aligned4_id_cell by (intro load32_store32_other) blast+
  have "load32 ?m (id_cell s1 j) = j * 4096 + id_perm j" if "j < i + 1" for j
    using that word_less_Suc[OF assms(2)] m(2) other[of j] i order_less_trans
    by (cases "j = i") auto
  moreover have "load32 ?m (id_cell s1 j) = load32 (mem s1) (id_cell s1 j)"
    if "j < 0x100000" "i + 1 \<le> j" for j
    using that word_Suc_le_iff[OF assms(2)] m(3)[of j] other[of j] by auto
  ultimately show ?thesis unfolding id_filled_def m(1) poke_frame by blast
qed

lemma idptbl_init_eq:
  assumes "container_init mbi_addr s = Inr s1" "idptbl_placed s1"
  shows "\<exists>t. idptbl_init mbi_addr s = Inr t \<and> id_filled s1 0xFFFFF t"
proof -
  let ?body = "\<lambda>i t. Inr (set_ptbl_entry_identity (pde_of (i * 4096)) (pte_of (i * 4096)) (id_perm i) t)"
  have run: "idptbl_init mbi_addr s = for_u32 0 0xFFFFF ?body s1"
    using assms(1) by (simp add: idptbl_init_def Let_def id_perm_def VM_PI_eq)
  have "\<exists>t. for_u32 0 0xFFFFF ?body s1 = Inr t \<and> id_filled s1 0xFFFFF t"
  proof (rule for_u32_rule)
    fix i t assume i: "i < 0xFFFFF" "id_filled s1 i t"
    then have c: "i < 0x100000" "id_cell t = id_cell s1"
      by (auto intro: order_less_trans simp: id_filled_def id_cell_def fun_eq_iff)
    show "\<exists>t'. ?body i t = Inr t' \<and> id_filled s1 (i + 1) t'"
      using id_filled_step[OF assms(2) i] by (simp add: set_identity_eq[OF c(1)] c(2))
  qed (auto simp: id_filled_def intro!: exI[of _ "mem s1"])
  with run show ?thesis by simp
qed

end
