(* ===== verification/MPTComm.thy ===== *)
theory MPTComm
  imports MPTOp
begin

text \<open>
  \<^verbatim>\<open>kern/vmm/MPTComm/MPTComm.c\<close>: the page directories at boot, and allocation and release of
  second-level page tables.
\<close>

section \<open>Operations\<close>

definition pdir_init :: "u32 \<Rightarrow> 'a pt_state_scheme \<Rightarrow> 'a pt_state_scheme res" where
  "pdir_init mbi_addr s =
     (let userlo = drop_bit 22 0x40000000; userhi = drop_bit 22 0xF0000000; nps = 1024
      in rbind (idptbl_init mbi_addr s) (\<lambda>s1.
         for_u32 0 NUM_IDS (\<lambda>i. for_u32 0 nps (\<lambda>j t.
           Inr (if j < userlo \<or> j \<ge> userhi then set_pdir_entry_identity i j t
                else rmv_pdir_entry i j t))) s1))"

definition alloc_ptbl :: "u32 \<Rightarrow> u32 \<Rightarrow> 'a pt_state_scheme \<Rightarrow> (u32 \<times> 'a pt_state_scheme) res" where
  "alloc_ptbl proc_index vaddr s =
     rbind (container_alloc proc_index s) (\<lambda>(page_index, s1).
     if page_index \<noteq> 0
     then Inr (page_index, set_pdir_entry_by_va proc_index vaddr page_index s1)
     else Inr (0, s1))"

definition free_ptbl :: "u32 \<Rightarrow> u32 \<Rightarrow> 'a pt_state_scheme \<Rightarrow> 'a pt_state_scheme res" where
  "free_ptbl proc_index vaddr s =
     (let pdir_entry = get_pdir_entry_by_va proc_index vaddr s
      in if pdir_entry \<noteq> 0
         then container_free proc_index (drop_bit 12 pdir_entry) (rmv_pdir_entry_by_va proc_index vaddr s)
         else Inr s)"

section \<open>The directories at boot\<close>

text \<open>Directory entries of the kernel part of the address space, and the identity entry.\<close>

definition kern_pde :: "u32 \<Rightarrow> bool" where
  "kern_pde j \<longleftrightarrow> j < 256 \<or> j \<ge> 960"

definition id_pde :: "'a pt_state_scheme \<Rightarrow> u32 \<Rightarrow> u32" where
  "id_pde s j = (loc_IDPTbl s + j * 4096) OR PT_PERM_PTU"

lemma upd_pdir_sel [simp]:
  "PDirPool (upd_pdir i j v s) = (PDirPool s)(i := (PDirPool s i)(j := v))"
  "mem (upd_pdir i j v s) = mem s" "loc_IDPTbl (upd_pdir i j v s) = loc_IDPTbl s"
  "CONTAINER (upd_pdir i j v s) = CONTAINER s" "AT (upd_pdir i j v s) = AT s"
  by (simp_all add: upd_pdir_def)

lemma upd_pdir_frame: "upd_pdir i j v (s\<lparr>PDirPool := P\<rparr>) = s\<lparr>PDirPool := P(i := (P i)(j := v))\<rparr>"
  by (simp add: upd_pdir_def)

text \<open>A loop that writes one directory entry per round.\<close>

lemma pdir_row:
  fixes s :: "'a pt_state_scheme"
  assumes body: "\<And>j t. j < n \<Longrightarrow> loc_IDPTbl t = loc_IDPTbl s \<Longrightarrow> body j t = Inr (upd_pdir i j (f j) t)"
    and "a \<le> n"
  shows "for_u32 a n body s = Inr (s\<lparr>PDirPool := (PDirPool s)(i := (\<lambda>j. if a \<le> j \<and> j < n then f j else PDirPool s i j))\<rparr>)"
proof -
  let ?P = "\<lambda>k. (PDirPool s)(i := (\<lambda>j. if a \<le> j \<and> j < k then f j else PDirPool s i j))"
  have "\<exists>t. for_u32 a n body s = Inr t \<and> t = s\<lparr>PDirPool := ?P n\<rparr>"
  proof (rule for_u32_rule)
    fix j t assume j: "a \<le> j" "j < n" "t = s\<lparr>PDirPool := ?P j\<rparr>"
    have "(?P j)(i := (?P j i)(j := f j)) = ?P (j + 1)"
      using j by (auto simp: fun_eq_iff word_less_Suc)
    then show "\<exists>t'. body j t = Inr t' \<and> t' = s\<lparr>PDirPool := ?P (j + 1)\<rparr>"
      using body[OF j(2), of t] by (simp add: j(3) upd_pdir_frame)
  next
    have "?P a = PDirPool s" by (auto simp: fun_eq_iff)
    then show "s = s\<lparr>PDirPool := ?P a\<rparr>" by simp
  qed (rule assms(2))
  then show ?thesis by simp
qed

text \<open>Every directory maps the kernel part to the identity tables and nothing else.\<close>

definition boot_pdir :: "'a pt_state_scheme \<Rightarrow> u32 \<Rightarrow> u32" where
  "boot_pdir s j = (if kern_pde j then id_pde s j else 0)"

lemma pdir_init_eq:
  assumes "idptbl_init mbi_addr s = Inr s1"
  shows "pdir_init mbi_addr s = Inr (s1\<lparr>PDirPool := (\<lambda>i j.
     if i < NUM_IDS \<and> j < 1024 then boot_pdir s1 j else PDirPool s1 i j)\<rparr>)"
proof -
  let ?row = "\<lambda>i. for_u32 0 1024 (\<lambda>j t. Inr (if j < 256 \<or> j \<ge> 960 then set_pdir_entry_identity i j t
      else rmv_pdir_entry i j t))"
  let ?P = "\<lambda>n i j. if i < n \<and> j < 1024 then boot_pdir s1 j else PDirPool s1 i j"
  have "\<exists>t. for_u32 0 NUM_IDS ?row s1 = Inr t \<and> t = s1\<lparr>PDirPool := ?P NUM_IDS\<rparr>"
  proof (rule for_u32_rule)
    fix i t assume i: "i < NUM_IDS" "t = s1\<lparr>PDirPool := ?P i\<rparr>"
    have "?row i t = Inr (t\<lparr>PDirPool := (PDirPool t)(i := (\<lambda>j. if 0 \<le> j \<and> j < 1024 then boot_pdir t j
        else PDirPool t i j))\<rparr>)"
      by (rule pdir_row) (use i(1) in \<open>simp_all add: set_pdir_entry_identity_def rmv_pdir_entry_def
          boot_pdir_def kern_pde_def id_pde_def\<close>)
    moreover have "boot_pdir t = boot_pdir s1"
      by (simp add: i(2) boot_pdir_def id_pde_def fun_eq_iff)
    then have "(PDirPool t)(i := (\<lambda>j. if 0 \<le> j \<and> j < 1024 then boot_pdir t j else PDirPool t i j)) = ?P (i + 1)"
      using i(1) by (auto simp: fun_eq_iff word_less_Suc) (auto simp: i(2))
    moreover have "t\<lparr>PDirPool := Q\<rparr> = s1\<lparr>PDirPool := Q\<rparr>" for Q by (simp add: i(2))
    ultimately show "\<exists>t'. ?row i t = Inr t' \<and> t' = s1\<lparr>PDirPool := ?P (i + 1)\<rparr>"
      by (simp only:) blast
  qed simp_all
  then show ?thesis using assms by (simp add: pdir_init_def Let_def)
qed

end
