(* ===== verification/MPTKern.thy ===== *)
theory MPTKern
  imports MPTComm
begin

text \<open>
  \<^verbatim>\<open>kern/vmm/MPTKern/MPTKern.c\<close> and \<^verbatim>\<open>kern/vmm/MPTInit/MPTInit.c\<close>: the kernel's own
  page map, turning paging on, and mapping and unmapping of single pages and of runs of pages.
\<close>

section \<open>Operations\<close>

definition pdir_init_kern :: "u32 \<Rightarrow> 'a pt_state_scheme \<Rightarrow> 'a pt_state_scheme res" where
  "pdir_init_kern mbi_addr s =
     (let userlo = drop_bit 22 0x40000000; userhi = drop_bit 22 0xF0000000
      in rbind (pdir_init mbi_addr s) (\<lambda>s1.
         for_u32 userlo userhi (\<lambda>i t. Inr (set_pdir_entry_identity 0 i t)) s1))"

definition paging_init :: "u32 \<Rightarrow> 'a pt_state_scheme \<Rightarrow> 'a pt_state_scheme res" where
  "paging_init mbi_addr s =
     rbind (pdir_init_kern mbi_addr s) (\<lambda>s1. Inr (enable_paging (set_pdir_base 0 s1)))"

definition map_page ::
  "u32 \<Rightarrow> u32 \<Rightarrow> u32 \<Rightarrow> u32 \<Rightarrow> 'a pt_state_scheme \<Rightarrow> (u32 \<times> 'a pt_state_scheme) res" where
  "map_page proc_index vaddr page_index perm s =
     (let pdir_entry = get_pdir_entry_by_va proc_index vaddr s
      in rbind (if pdir_entry = 0 then alloc_ptbl proc_index vaddr s else Inr (1, s)) (\<lambda>(r, s1).
         if r = 0 then Inr (MagicNumber, s1)
         else (let s2 = set_ptbl_entry_by_va proc_index vaddr page_index perm s1
               in Inr (get_pdir_entry_by_va proc_index vaddr s2, s2))))"

text \<open>
  The loop of \<^verbatim>\<open>map_consecutive_page\<close>, from round \<^verbatim>\<open>i\<close> on; \<^const>\<open>True\<close> says that it was
  left by the early return.
\<close>

function map_run ::
  "u32 \<Rightarrow> u32 \<Rightarrow> u32 \<Rightarrow> u32 \<Rightarrow> u32 \<Rightarrow> u32 \<Rightarrow> 'a pt_state_scheme \<Rightarrow> (bool \<times> 'a pt_state_scheme) res" where
  "map_run proc_index perm len i vaddr_now page_now s =
     (if i < len
      then (let pdir_entry = get_pdir_entry_by_va proc_index vaddr_now s
            in rbind (if pdir_entry = 0 then alloc_ptbl proc_index vaddr_now s else Inr (1, s)) (\<lambda>(r, s1).
               if r = 0 then Inr (True, s1)
               else map_run proc_index perm len (i + 1) (vaddr_now + 0x1000) (page_now + 1)
                      (set_ptbl_entry_by_va proc_index vaddr_now page_now perm s1)))
      else Inr (False, s))"
  by pat_completeness auto
termination
  by (relation "measure (\<lambda>(p, perm, len, i, v, pg, s). unat (len - i))") (simp_all add: word_count_down)

declare map_run.simps [simp del]

definition map_consecutive_page ::
  "u32 \<Rightarrow> u32 \<Rightarrow> u32 \<Rightarrow> u32 \<Rightarrow> u32 \<Rightarrow> 'a pt_state_scheme \<Rightarrow> (u32 \<times> 'a pt_state_scheme) res" where
  "map_consecutive_page proc_index vaddr page_index perm len s =
     rbind (map_run proc_index perm len 0 vaddr page_index s) (\<lambda>(failed, s1).
     if failed then Inr (MagicNumber, s1)
     else Inr (get_pdir_entry_by_va proc_index vaddr s1, s1))"

text \<open>The loop of \<^verbatim>\<open>unmap_consecutive_page\<close>.\<close>

function unmap_run ::
  "u32 \<Rightarrow> u32 \<Rightarrow> u32 \<Rightarrow> u32 \<Rightarrow> 'a pt_state_scheme \<Rightarrow> u32 \<times> 'a pt_state_scheme" where
  "unmap_run proc_index len i vaddr_now s =
     (if i < len
      then (if get_ptbl_entry_by_va proc_index vaddr_now s = 0 then (MagicNumber, s)
            else unmap_run proc_index len (i + 1) (vaddr_now + 0x1000)
                   (rmv_ptbl_entry_by_va proc_index vaddr_now s))
      else (1, s))"
  by pat_completeness auto
termination
  by (relation "measure (\<lambda>(p, len, i, v, s). unat (len - i))") (simp_all add: word_count_down)

declare unmap_run.simps [simp del]

definition unmap_consecutive_page ::
  "u32 \<Rightarrow> u32 \<Rightarrow> u32 \<Rightarrow> 'a pt_state_scheme \<Rightarrow> u32 \<times> 'a pt_state_scheme" where
  "unmap_consecutive_page proc_index vaddr len s = unmap_run proc_index len 0 vaddr s"

text \<open>
  The \<^verbatim>\<open>while\<close> loop that looks for the start of a super page. Its condition reads the entry
  below \<^verbatim>\<open>vaddr\<close>, which the body does not change.
\<close>

partial_function (option) super_scan ::
  "u32 \<Rightarrow> u32 \<Rightarrow> u32 \<Rightarrow> 'a pt_state_scheme \<Rightarrow> u32 \<Rightarrow> u32 option" where
  "super_scan proc_index vaddr ptbl_entry s vaddr_now =
     (if get_ptbl_entry_by_va proc_index (vaddr - 0x1000) s = ptbl_entry
      then super_scan proc_index vaddr ptbl_entry s (vaddr_now - 0x1000)
      else Some vaddr_now)"

definition P_SUPER :: u32 where "P_SUPER = 0x200"

definition unmap_page :: "u32 \<Rightarrow> u32 \<Rightarrow> 'a pt_state_scheme \<Rightarrow> (u32 \<times> 'a pt_state_scheme) res" where
  "unmap_page proc_index vaddr s =
     (let ptbl_entry = get_ptbl_entry_by_va proc_index vaddr s
      in if ptbl_entry = 0 then Inr (0, s)
         else if ptbl_entry AND P_SUPER \<noteq> 0
         then (case super_scan proc_index vaddr ptbl_entry s vaddr of
                 None \<Rightarrow> Inl Diverges
               | Some vaddr_now \<Rightarrow> Inr (ptbl_entry, snd (unmap_consecutive_page proc_index vaddr_now 1024 s)))
         else Inr (ptbl_entry, rmv_ptbl_entry_by_va proc_index vaddr s))"

section \<open>The super page scan\<close>

lemma super_scan_stops:
  assumes "super_scan p va e s v = Some w"
  shows "get_ptbl_entry_by_va p (va - 0x1000) s \<noteq> e"
  by (rule super_scan.raw_induct[OF _ assms,
        where P = "\<lambda>p va e s v w. get_ptbl_entry_by_va p (va - 0x1000) s \<noteq> e"])
     (auto split: if_splits)

text \<open>The scan ends at once or never.\<close>

lemma super_scan_eq:
  "super_scan p va e s v = (if get_ptbl_entry_by_va p (va - 0x1000) s = e then None else Some v)"
proof (cases "get_ptbl_entry_by_va p (va - 0x1000) s = e")
  case True
  then show ?thesis using super_scan_stops[of p va e s v] by (cases "super_scan p va e s v") auto
next
  case False
  then show ?thesis by (subst super_scan.simps) simp
qed

section \<open>The identity map\<close>

lemma pte_addr_id:
  assumes "idptbl_placed s"
  shows "pte_addr (id_pde s (pde_of va)) (pte_of va) = id_cell s (drop_bit 12 va)"
proof -
  let ?j = "pde_of va" and ?loc = "loc_IDPTbl s"
  have low: "PT_PERM_PTU = 7" by (simp add: PT_PERM_PTU_def pte_flags)
  have j: "unat ?j < 1024" using pde_of_lt[of va] by (simp only: word_less_nat_alt) simp
  have "unat (?j * 4096) = 4096 * unat ?j" using j by (simp add: unat_word_ariths)
  then have sum: "unat (?loc + ?j * 4096) = unat ?loc + 4096 * unat ?j"
    using j unat_loc_IDPTbl[OF assms] by (simp only: unat_word_ariths(1)) simp
  have "id_pde s ?j AND 0xFFFFF000 = (?loc + ?j * 4096) AND 0xFFFFF000"
    by (simp add: id_pde_def low mask_page drop_bit_or)
  also have "\<dots> = ?loc + ?j * 4096"
  proof (rule unsigned_word_eqI)
    have "4096 * ((unat ?loc + 4096 * unat ?j) div 4096) = 4096 * (unat ?loc div 4096) + 4096 * unat ?j"
      by simp
    then show "unat ((?loc + ?j * 4096) AND 0xFFFFF000) = unat (?loc + ?j * 4096)"
      unfolding unat_mask_page sum using unat_loc_IDPTbl[OF assms] by simp
  qed
  finally have "pte_addr (id_pde s ?j) (pte_of va) = ?loc + (?j * 1024 + pte_of va) * 4"
    by (simp add: pte_addr_def algebra_simps)
  then show ?thesis by (simp add: id_cell_def index_word)
qed

lemma entry_present:
  assumes "page < 0x100000" "perm < 0x1000"
  shows "bit (page * PAGESIZE + perm) 0 = bit perm 0"
proof -
  have "bit perm 0 = bit ((page * PAGESIZE + perm) AND 0xFFF) 0" by (simp only: entry_perm[OF assms])
  then show ?thesis by (simp add: bit_and_iff)
qed

lemma entry_frame:
  assumes "page < 0x100000" "perm < 0x1000"
  shows "((page * PAGESIZE + perm) AND 0xFFFFF000) = page * PAGESIZE"
  by (simp only: mask_page entry_page[OF assms]) (simp add: push_bit_eq_mult PAGESIZE_def)

lemma page_and_offset: "drop_bit 12 va * PAGESIZE + take_bit 12 va = (va :: u32)"
  using bits_ident[of 12 va] by (simp add: push_bit_eq_mult PAGESIZE_def)

lemma id_perm_bits: "id_perm i < 0x1000" "bit (id_perm i) 0"
  by (simp_all add: id_perm_def pte_flags)

lemma page_number_lt: "drop_bit 12 (va :: u32) < 0x100000"
proof -
  have "unat (drop_bit 12 va) = unat va div 4096" by (simp only: unat_drop_bit) simp
  then show ?thesis using page_number_bound[of va] by (simp only: word_less_nat_alt) simp
qed

lemma translate_identity:
  assumes "id_filled s1 0xFFFFF t0" "idptbl_placed s1" "mem t = mem t0"
    "PDirPool t pid (pde_of va) = id_pde s1 (pde_of va)" "drop_bit 12 va < 0xFFFFF"
  shows "translate pid va t = Some va"
proof -
  let ?i = "drop_bit 12 va"
  have v: "load32 (mem t) (id_cell s1 ?i) = ?i * PAGESIZE + id_perm ?i"
    using assms(1,3,5) by (auto simp: id_filled_def PAGESIZE_def)
  have p: "bit (id_pde s1 (pde_of va)) 0"
    by (simp add: id_pde_def PT_PERM_PTU_def pte_flags bit_or_iff)
  have e: "bit (load32 (mem t) (id_cell s1 ?i)) 0"
    unfolding v entry_present[OF page_number_lt id_perm_bits(1)] by (rule id_perm_bits(2))
  have "((?i * PAGESIZE + id_perm ?i) AND 0xFFFFF000) + take_bit 12 va = va"
    unfolding entry_frame[OF page_number_lt id_perm_bits(1)] by (rule page_and_offset)
  with p e v assms(2,4) show ?thesis
    by (simp add: translate_def pte_addr_id flip: pde_of_eq pte_of_eq)
qed

lemma enable_paging_sel [simp]:
  "PDirPool (enable_paging s) = PDirPool s" "loc_IDPTbl (enable_paging s) = loc_IDPTbl s"
  "loc_PDirPool (enable_paging s) = loc_PDirPool s"
  by (simp_all add: enable_paging_def Let_def)

lemma set_pdir_base_sel [simp]:
  "PDirPool (set_pdir_base i s) = PDirPool s" "mem (set_pdir_base i s) = mem s"
  "cr3 (set_pdir_base i s) = loc_PDirPool s + i * 4096"
  "loc_PDirPool (set_pdir_base i s) = loc_PDirPool s" "loc_IDPTbl (set_pdir_base i s) = loc_IDPTbl s"
  by (simp_all add: set_pdir_base_def set_cr3_def lcr3_def)

lemma idptbl_placed_cong: "loc_IDPTbl s = loc_IDPTbl t \<Longrightarrow> idptbl_placed s = idptbl_placed t"
  by (simp add: idptbl_placed_def)

lemma pdir_init_kern_eq:
  fixes s :: "'a pt_state_scheme"
  assumes "idptbl_init mbi_addr s = Inr s1"
  shows "\<exists>t. pdir_init_kern mbi_addr s = Inr t \<and> mem t = mem s1 \<and> loc_PDirPool t = loc_PDirPool s1
    \<and> loc_IDPTbl t = loc_IDPTbl s1
    \<and> (\<forall>pid<NUM_IDS. \<forall>j<1024. PDirPool t pid j = (if pid = 0 \<or> kern_pde j then id_pde s1 j else 0))"
proof -
  let ?P = "\<lambda>i j. if i < NUM_IDS \<and> j < 1024 then boot_pdir s1 j else PDirPool s1 i j"
  let ?s = "s1\<lparr>PDirPool := ?P\<rparr>"
  have "for_u32 256 960 (\<lambda>i t. Inr (set_pdir_entry_identity 0 i t)) ?s
    = Inr (?s\<lparr>PDirPool := (PDirPool ?s)(0 := (\<lambda>j. if 256 \<le> j \<and> j < 960 then id_pde s1 j else PDirPool ?s 0 j))\<rparr>)"
  proof (rule pdir_row)
    fix j :: u32 and t :: "'a pt_state_scheme" assume j: "j < 960" "loc_IDPTbl t = loc_IDPTbl ?s"
    then have "j < 1024" by (auto intro: order_less_trans[of _ 960])
    with j show "Inr (set_pdir_entry_identity 0 j t) = Inr (upd_pdir 0 j (id_pde s1 j) t)"
      by (simp add: set_pdir_entry_identity_def id_pde_def)
  qed simp
  then show ?thesis using pdir_init_eq[OF assms]
    by (auto simp: pdir_init_kern_def Let_def boot_pdir_def kern_pde_def not_less not_le)
qed

lemma paging_init_eq:
  assumes "container_init mbi_addr s = Inr s1" "idptbl_placed s"
  shows "\<exists>t t0. paging_init mbi_addr s = Inr t \<and> id_filled s1 0xFFFFF t0 \<and> mem t = mem t0
    \<and> loc_PDirPool t = loc_PDirPool s \<and> loc_IDPTbl t = loc_IDPTbl s
    \<and> cr3 t = loc_PDirPool s \<and> bit (cr0 t) 31 \<and> bit (cr0 t) 16
    \<and> (\<forall>pid<NUM_IDS. \<forall>j<1024. PDirPool t pid j = (if pid = 0 \<or> kern_pde j then id_pde s1 j else 0))"
proof -
  have placed: "idptbl_placed s1"
    using assms(2) container_init_loc[OF assms(1)] idptbl_placed_cong by metis
  obtain t0 where t0: "idptbl_init mbi_addr s = Inr t0" "id_filled s1 0xFFFFF t0"
    using idptbl_init_eq[OF assms(1) placed] by blast
  have loc: "loc_PDirPool t0 = loc_PDirPool s" "loc_IDPTbl t0 = loc_IDPTbl s" "id_pde t0 = id_pde s1"
    using t0(2) container_init_loc[OF assms(1)] by (auto simp: id_filled_def id_pde_def fun_eq_iff)
  obtain t1 where t1: "pdir_init_kern mbi_addr s = Inr t1" "mem t1 = mem t0" "loc_PDirPool t1 = loc_PDirPool t0"
    "loc_IDPTbl t1 = loc_IDPTbl t0"
    "\<forall>pid<NUM_IDS. \<forall>j<1024. PDirPool t1 pid j = (if pid = 0 \<or> kern_pde j then id_pde t0 j else 0)"
    using pdir_init_kern_eq[OF t0(1)] by blast
  from t1 loc t0(2) enable_paging_bits[of "set_pdir_base 0 t1"] show ?thesis
    by (intro exI[of _ "enable_paging (set_pdir_base 0 t1)"] exI[of _ t0]) (simp add: paging_init_def)
qed

lemma kern_pde_iff: "kern_pde (pde_of va) \<longleftrightarrow> va < VM_USERLO \<or> va \<ge> VM_USERHI"
proof -
  have "unat va div 4194304 < 256 \<longleftrightarrow> unat va < 1073741824"
    "960 \<le> unat va div 4194304 \<longleftrightarrow> 4026531840 \<le> unat va"
    by (simp_all add: div_less_iff_less_mult less_eq_div_iff_mult_less_eq)
  then show ?thesis
    by (simp add: kern_pde_def word_less_nat_alt word_le_nat_alt unat_pde_of VM_USERLO_def VM_USERHI_def)
qed

section \<open>Separation of page tables\<close>

text \<open>
  The invariant that keeps address spaces apart: directory 0 and the kernel part of every directory
  are the identity entries, with the identity tables below user memory; every other present entry
  points to an allocated page of user memory, and no two entries share a page.
\<close>

definition user_pde :: "'a pt_state_scheme \<Rightarrow> u32 \<Rightarrow> u32 \<Rightarrow> bool" where
  "user_pde s p j \<longleftrightarrow> p < NUM_IDS \<and> j < 1024 \<and> p \<noteq> 0 \<and> \<not> kern_pde j \<and> bit (PDirPool s p j) 0"

definition pt_inv :: "'a pt_state_scheme \<Rightarrow> bool" where
  "pt_inv s \<longleftrightarrow> idptbl_placed s \<and> loc_IDPTbl s \<le> VM_USERLO - 0x400000
     \<and> (\<forall>p<NUM_IDS. \<forall>j<1024. p = 0 \<or> kern_pde j \<longrightarrow> PDirPool s p j = id_pde s j)
     \<and> (\<forall>p j. user_pde s p j \<longrightarrow> PDirPool s p j AND 0xFFF = 7
          \<and> user_page (drop_bit 12 (PDirPool s p j)) \<and> page_used s (drop_bit 12 (PDirPool s p j)))
     \<and> (\<forall>p j q k. user_pde s p j \<longrightarrow> user_pde s q k \<longrightarrow>
          drop_bit 12 (PDirPool s p j) = drop_bit 12 (PDirPool s q k) \<longrightarrow> p = q \<and> j = k)"

text \<open>States with the same address spaces.\<close>

definition vm_same :: "'a pt_state_scheme \<Rightarrow> 'a pt_state_scheme \<Rightarrow> bool" where
  "vm_same s s' \<longleftrightarrow> mem s' = mem s \<and> PDirPool s' = PDirPool s \<and> loc_IDPTbl s' = loc_IDPTbl s
     \<and> (\<forall>p. page_used s p \<longrightarrow> page_used s' p)"

lemma vm_same_translate: "vm_same s s' \<Longrightarrow> translate pid va s' = translate pid va s"
  by (simp add: vm_same_def translate_def Let_def)

lemma translate_cong: "PDirPool t = PDirPool s \<Longrightarrow> mem t = mem s \<Longrightarrow> translate q va t = translate q va s"
  by (simp add: translate_def Let_def cong: if_cong)

lemma vm_same_inv: "vm_same s s' \<Longrightarrow> pt_inv s \<Longrightarrow> pt_inv s'"
proof -
  assume same: "vm_same s s'" and inv: "pt_inv s"
  from same have eq: "PDirPool s' = PDirPool s" "loc_IDPTbl s' = loc_IDPTbl s"
    and used: "\<And>p. page_used s p \<Longrightarrow> page_used s' p" by (simp_all add: vm_same_def)
  have "user_pde s' = user_pde s" "id_pde s' = id_pde s" "idptbl_placed s' = idptbl_placed s"
    by (simp_all add: user_pde_def id_pde_def idptbl_placed_def fun_eq_iff eq)
  with inv eq used show ?thesis unfolding pt_inv_def by simp
qed

lemma vm_same_alloc:
  fixes s :: "'a pt_state_scheme"
  shows "vm_same s (at_mark P 1 s)" "vm_same s (upd_container i f (at_mark P 1 s))" "vm_same s s"
  by (auto simp: vm_same_def at_mark_def upd_container_def page_used_def)

text \<open>The two outcomes of allocating a page table.\<close>

lemma alloc_ptbl_cases [consumes 1, case_names fail table]:
  fixes s :: "'a pt_state_scheme"
  assumes "pid < NUM_IDS"
  obtains (fail) s' where "alloc_ptbl pid va s = Inr (0, s')" "vm_same s s'"
  | (table) p s1 where "p \<in> avail_pages s" "p \<noteq> 0" "vm_same s s1" "page_used s1 p"
    "alloc_ptbl pid va s = Inr (p, upd_pdir pid (pde_of va) (p * PAGESIZE + PT_PERM_PTU) s1)"
  using assms
proof (cases rule: container_alloc_cases[where s = s])
  case (found p)
  show ?thesis
  proof (cases "sint (c_usage (CONTAINER s pid)) < sint (c_quota (CONTAINER s pid))")
    case True
    let ?s1 = "upd_container pid (\<lambda>c. c\<lparr>c_usage := c_usage c + 1\<rparr>) (at_mark {p} 1 s)"
    have "page_used ?s1 p" by (simp add: page_used_def upd_container_def at_mark_def)
    with found True assms first_free_avail[OF found(1)] vm_same_alloc(2)[of s] show ?thesis
      by (intro table[of p ?s1])
         (simp_all add: alloc_ptbl_def set_pdir_entry_by_va_def set_pdir_entry_def)
  next
    case False
    with found vm_same_alloc(1)[of s] show ?thesis
      by (intro fail[of "at_mark {p} 1 s"]) (simp_all add: alloc_ptbl_def)
  qed
next
  case none
  with vm_same_alloc(3)[of s] show ?thesis by (intro fail[of s]) (simp_all add: alloc_ptbl_def)
qed

text \<open>Writing a page table entry: what the page walk finds afterwards.\<close>

lemma translate_eq:
  "translate pid va s =
     (if bit (PDirPool s pid (pde_of va)) 0 \<and>
         bit (load32 (mem s) (pte_addr (PDirPool s pid (pde_of va)) (pte_of va))) 0
      then Some ((load32 (mem s) (pte_addr (PDirPool s pid (pde_of va)) (pte_of va)) AND 0xFFFFF000) + take_bit 12 va)
      else None)"
  by (simp add: translate_def Let_def pde_of_eq pte_of_eq)

lemma set_ptbl_by_va_eq:
  "pid < NUM_IDS \<Longrightarrow> set_ptbl_entry_by_va pid va page perm s
     = poke (pte_addr (PDirPool s pid (pde_of va)) (pte_of va)) (page * PAGESIZE + perm) s"
  by (simp add: set_ptbl_entry_by_va_def set_ptbl_entry_def)

lemma rmv_ptbl_by_va_eq:
  "pid < NUM_IDS \<Longrightarrow> rmv_ptbl_entry_by_va pid va s
     = poke (pte_addr (PDirPool s pid (pde_of va)) (pte_of va)) 0 s"
  by (simp add: rmv_ptbl_entry_by_va_def rmv_ptbl_entry_def)

lemma translate_poke_same:
  assumes "bit (PDirPool s pid (pde_of va)) 0" "drop_bit 12 va' = drop_bit 12 va"
    "page < 0x100000" "perm < 0x1000" "bit perm 0"
  shows "translate pid va' (poke (pte_addr (PDirPool s pid (pde_of va)) (pte_of va)) (page * PAGESIZE + perm) s)
     = Some (page * PAGESIZE + take_bit 12 va')"
proof -
  have ix: "pde_of va' = pde_of va" "pte_of va' = pte_of va"
    using assms(2) same_page_iff[of va' va] by auto
  show ?thesis using assms
    by (simp add: translate_eq entry_present entry_frame ix)
qed

lemma translate_poke_other:
  assumes "\<not> (drop_bit 12 (PDirPool s q (pde_of vb)) = drop_bit 12 e \<and> pte_of vb = i)" "i < 1024"
  shows "translate q vb (poke (pte_addr e i) v s) = translate q vb s"
proof -
  have "load32 (store32 (mem s) (pte_addr e i) v) (pte_addr (PDirPool s q (pde_of vb)) (pte_of vb))
      = load32 (mem s) (pte_addr (PDirPool s q (pde_of vb)) (pte_of vb))"
    using assms aligned4_pte_addr pte_addr_eq_iff[OF assms(2) pte_of_lt, of e "PDirPool s q (pde_of vb)" vb]
    by (intro load32_store32_other) auto
  then show ?thesis by (simp add: translate_eq)
qed

lemma translate_poke_zero:
  assumes "drop_bit 12 va' = drop_bit 12 va"
  shows "translate pid va' (poke (pte_addr (PDirPool s pid (pde_of va)) (pte_of va)) 0 s) = None"
proof -
  have ix: "pde_of va' = pde_of va" "pte_of va' = pte_of va"
    using assms same_page_iff[of va' va] by auto
  show ?thesis by (simp add: translate_eq ix)
qed

text \<open>The identity tables lie below user memory.\<close>

lemma id_pde_page:
  assumes "loc_IDPTbl s \<le> VM_USERLO - 0x400000" "j < 1024"
  shows "unat (drop_bit 12 (id_pde s j)) = unat (loc_IDPTbl s) div 4096 + unat j"
proof -
  have low: "PT_PERM_PTU = 7" by (simp add: PT_PERM_PTU_def pte_flags)
  have j: "unat j < 1024" using assms(2) by (simp add: word_less_nat_alt)
  have loc: "unat (loc_IDPTbl s) \<le> 1069547520"
    using assms(1) by (simp add: word_le_nat_alt VM_USERLO_def)
  have "unat (j * 4096) = 4096 * unat j" using j by (simp add: unat_word_ariths)
  then have "unat (loc_IDPTbl s + j * 4096) = unat (loc_IDPTbl s) + 4096 * unat j"
    using j loc by (simp only: unat_word_ariths(1)) simp
  moreover have "drop_bit 12 (id_pde s j) = drop_bit 12 (loc_IDPTbl s + j * 4096)"
    by (simp add: id_pde_def low drop_bit_or)
  ultimately show ?thesis by (simp only: unat_drop_bit) simp
qed

lemma id_pde_page_low:
  assumes "idptbl_placed s" "loc_IDPTbl s \<le> VM_USERLO - 0x400000" "j < 1024"
  shows "\<not> user_page (drop_bit 12 (id_pde s j))"
proof -
  have "unat j < 1024" "unat (loc_IDPTbl s) \<le> 1069547520"
    using assms(2,3) by (simp_all add: word_less_nat_alt word_le_nat_alt VM_USERLO_def)
  then have "unat (drop_bit 12 (id_pde s j)) < 262144"
    unfolding id_pde_page[OF assms(2,3)] by linarith
  then show ?thesis unfolding user_page_def VM_PI_eq word_le_nat_alt by simp
qed

lemma pt_inv_poke [simp]: "pt_inv (poke a v s) = pt_inv s"
proof -
  have "user_pde (poke a v s) = user_pde s" "id_pde (poke a v s) = id_pde s"
    "page_used (poke a v s) = page_used s"
    by (simp_all add: fun_eq_iff user_pde_def id_pde_def page_used_def poke_def)
  then show ?thesis by (simp add: pt_inv_def)
qed

lemma table_isolated:
  assumes inv: "pt_inv s" and t: "user_pde s pid (pde_of va)" and q: "q < NUM_IDS"
    and ne: "\<not> (q = pid \<and> drop_bit 12 vb = drop_bit 12 va)"
  shows "translate q vb (poke (pte_addr (PDirPool s pid (pde_of va)) (pte_of va)) v s) = translate q vb s"
proof (cases "bit (PDirPool s q (pde_of vb)) 0")
  case True
  let ?e = "PDirPool s pid (pde_of va)" and ?f = "PDirPool s q (pde_of vb)"
  have "\<not> (drop_bit 12 ?f = drop_bit 12 ?e \<and> pte_of vb = pte_of va)"
  proof
    assume eq: "drop_bit 12 ?f = drop_bit 12 ?e \<and> pte_of vb = pte_of va"
    have "user_page (drop_bit 12 ?e)" using inv t by (simp add: pt_inv_def)
    then have "\<not> (q = 0 \<or> kern_pde (pde_of vb))"
      using inv eq q id_pde_page_low[of s "pde_of vb"] by (auto simp: pt_inv_def)
    then have "user_pde s q (pde_of vb)" using q True by (simp add: user_pde_def)
    with inv t eq have "q = pid" "pde_of vb = pde_of va" unfolding pt_inv_def by metis+
    with eq ne same_page_iff[of vb va] show False by blast
  qed
  then show ?thesis by (rule translate_poke_other) simp
next
  case False
  then show ?thesis by (simp add: translate_eq)
qed

lemma translate_upd_pdir:
  "q \<noteq> pid \<or> pde_of vb \<noteq> j \<Longrightarrow> translate q vb (upd_pdir pid j e s) = translate q vb s"
  by (auto simp: translate_eq)

lemma new_table_entry:
  assumes "user_page p"
  shows "bit (p * PAGESIZE + PT_PERM_PTU) 0" "drop_bit 12 (p * PAGESIZE + PT_PERM_PTU) = p"
    "(p * PAGESIZE + PT_PERM_PTU) AND 0xFFF = 7"
proof -
  have b: "p < 0x100000" "PT_PERM_PTU < 0x1000" "PT_PERM_PTU = 7"
    using user_page_in_table[OF assms] by (simp_all add: AT_SIZE_def PT_PERM_PTU_def pte_flags)
  show "bit (p * PAGESIZE + PT_PERM_PTU) 0" unfolding entry_present[OF b(1,2)] by (simp add: b(3))
  show "drop_bit 12 (p * PAGESIZE + PT_PERM_PTU) = p" by (rule entry_page[OF b(1,2)])
  show "(p * PAGESIZE + PT_PERM_PTU) AND 0xFFF = 7" unfolding entry_perm[OF b(1,2)] by (rule b(3))
qed

lemma pt_inv_new_table:
  assumes inv: "pt_inv s" and same: "vm_same s s1" and p: "p \<in> avail_pages s" "page_used s1 p"
    and j: "pid < NUM_IDS" "pid \<noteq> 0" "j < 1024" "\<not> kern_pde j"
  shows "pt_inv (upd_pdir pid j (p * PAGESIZE + PT_PERM_PTU) s1)" (is "pt_inv ?t")
proof -
  have up: "user_page p" "\<not> page_used s p" using p(1) by (auto simp: avail_pages_def page_free_def)
  note e = new_table_entry[OF up(1)]
  have inv1: "pt_inv s1" by (rule vm_same_inv[OF same inv])
  have P: "PDirPool s1 = PDirPool s" using same by (simp add: vm_same_def)
  have old: "user_pde ?t q k \<Longrightarrow> (q, k) \<noteq> (pid, j) \<Longrightarrow> user_pde s1 q k \<and> PDirPool ?t q k = PDirPool s1 q k" for q k
    by (auto simp: user_pde_def split: if_splits)
  have fresh: "drop_bit 12 (PDirPool s1 q k) \<noteq> p" if "user_pde s1 q k" for q k
  proof -
    have "user_pde s q k" using that P by (simp add: user_pde_def)
    then show ?thesis using inv up(2) P by (auto simp: pt_inv_def)
  qed
  have new: "PDirPool ?t pid j = p * PAGESIZE + PT_PERM_PTU" by simp
  have used: "page_used ?t = page_used s1" by (simp add: page_used_def fun_eq_iff)
  have "PDirPool ?t q k AND 0xFFF = 7 \<and> user_page (drop_bit 12 (PDirPool ?t q k))
      \<and> page_used ?t (drop_bit 12 (PDirPool ?t q k))" if "user_pde ?t q k" for q k
  proof (cases "(q, k) = (pid, j)")
    case True
    with e up p(2) used show ?thesis by (simp only: prod.inject new)
  next
    case False
    then have o: "user_pde s1 q k" "PDirPool ?t q k = PDirPool s1 q k" using old[OF that] by blast+
    then have "PDirPool s1 q k AND 0xFFF = 7 \<and> user_page (drop_bit 12 (PDirPool s1 q k))
      \<and> page_used s1 (drop_bit 12 (PDirPool s1 q k))" using inv1 by (simp add: pt_inv_def)
    then show ?thesis by (simp only: o(2) used)
  qed
  moreover have "q = q' \<and> k = k'" if "user_pde ?t q k" "user_pde ?t q' k'"
    "drop_bit 12 (PDirPool ?t q k) = drop_bit 12 (PDirPool ?t q' k')" for q k q' k'
  proof -
    have inj: "user_pde s1 q k \<Longrightarrow> user_pde s1 q' k' \<Longrightarrow>
        drop_bit 12 (PDirPool s1 q k) = drop_bit 12 (PDirPool s1 q' k') \<Longrightarrow> q = q' \<and> k = k'"
      using inv1 unfolding pt_inv_def by blast
    have pj: "drop_bit 12 (PDirPool ?t pid j) = p" by (simp only: new e(2))
    show ?thesis
      using inj old[OF that(1)] old[OF that(2)] fresh[of q k] fresh[of q' k'] that(3) pj
      by (cases "(q, k) = (pid, j)"; cases "(q', k') = (pid, j)") (auto simp del: upd_pdir_sel)
  qed
  moreover have "PDirPool ?t q k = id_pde ?t k" if "q < NUM_IDS" "k < 1024" "q = 0 \<or> kern_pde k" for q k
    using inv1 that j by (auto simp: pt_inv_def id_pde_def)
  moreover have "idptbl_placed ?t \<and> loc_IDPTbl ?t \<le> VM_USERLO - 0x400000"
    using inv1 by (simp add: pt_inv_def idptbl_placed_def)
  ultimately show ?thesis unfolding pt_inv_def by blast
qed

lemma magic_not_entry: "(e :: u32) AND 0xFFF = 7 \<Longrightarrow> e \<noteq> MagicNumber"
  by (auto simp: MagicNumber_def)

lemma user_va_pde: "VM_USERLO \<le> va \<Longrightarrow> va < VM_USERHI \<Longrightarrow> \<not> kern_pde (pde_of va)"
  by (simp add: kern_pde_iff not_less not_le)

text \<open>Mapping when the page table is there.\<close>

lemma map_page_present:
  assumes "pid < NUM_IDS" "bit (PDirPool s pid (pde_of va)) 0"
  shows "map_page pid va page perm s = Inr (PDirPool s pid (pde_of va),
     poke (pte_addr (PDirPool s pid (pde_of va)) (pte_of va)) (page * PAGESIZE + perm) s)"
proof -
  have "PDirPool s pid (pde_of va) \<noteq> 0" using assms(2) by auto
  then show ?thesis using assms
    by (simp add: map_page_def get_pdir_entry_by_va_def get_pdir_entry_def Let_def and_one_bit
        set_ptbl_by_va_eq)
qed

text \<open>Mapping when the page table has to be allocated.\<close>

lemma map_page_absent:
  assumes "pid < NUM_IDS" "\<not> bit (PDirPool s pid (pde_of va)) 0"
  shows "map_page pid va page perm s = rbind (alloc_ptbl pid va s) (\<lambda>(r, s1).
     if r = 0 then Inr (MagicNumber, s1)
     else (let s2 = set_ptbl_entry_by_va pid va page perm s1
           in Inr (get_pdir_entry_by_va pid va s2, s2)))"
  using assms by (simp add: map_page_def get_pdir_entry_by_va_def get_pdir_entry_def Let_def and_one_bit)

lemma map_page_new_table:
  assumes "pid < NUM_IDS" "\<not> bit (PDirPool s pid (pde_of va)) 0" "p \<in> avail_pages s" "p \<noteq> 0"
    "alloc_ptbl pid va s = Inr (p, upd_pdir pid (pde_of va) (p * PAGESIZE + PT_PERM_PTU) s1)"
  shows "map_page pid va page perm s = Inr (p * PAGESIZE + PT_PERM_PTU,
     poke (pte_addr (p * PAGESIZE + PT_PERM_PTU) (pte_of va)) (page * PAGESIZE + perm)
       (upd_pdir pid (pde_of va) (p * PAGESIZE + PT_PERM_PTU) s1))"
proof -
  have "user_page p" using assms(3) by (simp add: avail_pages_def)
  note e = new_table_entry[OF this]
  then have "(p * PAGESIZE + PT_PERM_PTU) AND 1 \<noteq> 0" by (simp add: and_one_bit)
  with assms show ?thesis
    by (simp add: map_page_absent set_ptbl_by_va_eq get_pdir_entry_by_va_def get_pdir_entry_def Let_def)
qed

text \<open>What \<^verbatim>\<open>map_page\<close> does to every address of every process.\<close>

lemma map_page_spec:
  assumes inv: "pt_inv s" and pid: "pid < NUM_IDS" "pid \<noteq> 0"
    and va: "VM_USERLO \<le> va" "va < VM_USERHI"
    and entry: "page < 0x100000" "perm < 0x1000" "bit perm 0"
  shows "\<exists>r s'. map_page pid va page perm s = Inr (r, s') \<and> pt_inv s' \<and>
    (if r = MagicNumber then \<forall>q vb. translate q vb s' = translate q vb s
     else (\<forall>vb. drop_bit 12 vb = drop_bit 12 va \<longrightarrow> translate pid vb s' = Some (page * PAGESIZE + take_bit 12 vb))
       \<and> (\<forall>q<NUM_IDS. \<forall>vb. (if get_pdir_entry_by_va pid va s = 0 then q \<noteq> pid \<or> pde_of vb \<noteq> pde_of va
              else q \<noteq> pid \<or> drop_bit 12 vb \<noteq> drop_bit 12 va) \<longrightarrow> translate q vb s' = translate q vb s))"
proof (cases "bit (PDirPool s pid (pde_of va)) 0")
  case True
  let ?e = "PDirPool s pid (pde_of va)"
  have u: "user_pde s pid (pde_of va)" using True pid user_va_pde[OF va] by (simp add: user_pde_def)
  then have "?e \<noteq> MagicNumber" using inv magic_not_entry by (simp add: pt_inv_def)
  moreover have "get_pdir_entry_by_va pid va s \<noteq> 0"
    using True pid by (auto simp: get_pdir_entry_by_va_def get_pdir_entry_def and_one_bit Let_def)
  ultimately show ?thesis
    using inv translate_poke_same[OF True _ entry] table_isolated[OF inv u]
    by (auto simp: map_page_present[OF pid(1) True])
next
  case False
  then have zero: "get_pdir_entry_by_va pid va s = 0"
    by (simp add: get_pdir_entry_by_va_def get_pdir_entry_def and_one_bit Let_def)
  from pid(1) show ?thesis
  proof (cases rule: alloc_ptbl_cases[where va = va and s = s])
    case (fail s')
    with False pid(1) vm_same_inv[OF fail(2) inv] vm_same_translate[OF fail(2)] show ?thesis
      by (simp add: map_page_absent)
  next
    case (table p s1)
    let ?e = "p * PAGESIZE + PT_PERM_PTU"
    let ?t = "upd_pdir pid (pde_of va) ?e s1"
    have "user_page p" using table(1) by (simp add: avail_pages_def)
    note e = new_table_entry[OF this]
    have inv': "pt_inv ?t"
      using pt_inv_new_table[OF inv table(3,1,4) pid] user_va_pde[OF va] by simp
    have pres: "bit (PDirPool ?t pid (pde_of va)) 0" using e(1) by simp
    then have u: "user_pde ?t pid (pde_of va)" using pid user_va_pde[OF va] by (simp only: user_pde_def) simp
    have far: "translate q vb ?t = translate q vb s" if "q \<noteq> pid \<or> pde_of vb \<noteq> pde_of va" for q vb
      by (simp only: translate_upd_pdir[OF that] vm_same_translate[OF table(3)])
    have "?e \<noteq> MagicNumber" using e(3) by (rule magic_not_entry)
    moreover have "translate q vb (poke (pte_addr ?e (pte_of va)) (page * PAGESIZE + perm) ?t) = translate q vb s"
      if "q < NUM_IDS" "q \<noteq> pid \<or> pde_of vb \<noteq> pde_of va" for q vb
      using table_isolated[OF inv' u that(1), of vb] that(2) same_page_iff[of vb va] far[OF that(2)] by auto
    ultimately show ?thesis using inv' zero translate_poke_same[OF pres _ entry]
      by (auto simp: map_page_new_table[OF pid(1) False table(1,2,5)])
  qed
qed

section \<open>Properties\<close>


text \<open>A machine after boot whose user processes have no memory yet.\<close>

definition pt_example :: "u32 set \<Rightarrow> u32 set \<Rightarrow> (u32 \<Rightarrow> SContainer) \<Rightarrow> (u32 \<Rightarrow> u32 \<Rightarrow> u32) \<Rightarrow> pt_state" where
  "pt_example N U C D = container_state.extend (container_example N U C)
     \<lparr>PDirPool = (\<lambda>p j. if p = 0 \<or> kern_pde j then (0x400000 + j * 4096) OR PT_PERM_PTU else D p j)\<rparr>"

lemma pt_example_sel [simp]:
  "PDirPool (pt_example N U C D)
     = (\<lambda>p j. if p = 0 \<or> kern_pde j then (0x400000 + j * 4096) OR PT_PERM_PTU else D p j)"
  "AT (pt_example N U C D) = AT (at_example N U)" "CONTAINER (pt_example N U C D) = C"
  "loc_IDPTbl (pt_example N U C D) = 0x400000" "mem (pt_example N U C D) = (\<lambda>_. 0)"
  by (simp_all add: pt_example_def container_state.defs container_example_def at_state.defs at_example_def)

lemma pt_example_pages [simp]:
  "page_norm (pt_example N U C D) = page_norm (at_example N U)"
  "page_used (pt_example N U C D) = page_used (at_example N U)"
  "avail_pages (pt_example N U C D) = avail_pages (at_example N U)"
  by (simp_all add: fun_eq_iff page_norm_def page_used_def avail_pages_def page_free_def)

lemma pt_example_inv: "pt_inv (pt_example N U C (\<lambda>_ _. 0))"
  by (simp add: pt_inv_def idptbl_placed_def user_pde_def id_pde_def VM_USERLO_def)

lemma pt_example_table_inv:
  assumes "user_page p" "p \<in> U" "pid < NUM_IDS" "pid \<noteq> 0" "j < 1024" "\<not> kern_pde j"
  shows "pt_inv (pt_example N U C ((\<lambda>_ _. 0)(pid := (\<lambda>_. 0)(j := p * PAGESIZE + PT_PERM_PTU))))"
  using new_table_entry[OF assms(1)] assms
  by (auto simp: pt_inv_def idptbl_placed_def user_pde_def id_pde_def VM_USERLO_def split: if_splits)

definition pt_example1 :: pt_state where
  "pt_example1 = pt_example {0x40000, 0x40001} {0x40000, 0x40001} two_containers
     ((\<lambda>_ _. 0)(1 := (\<lambda>_. 0)(256 := 0x40000 * PAGESIZE + PT_PERM_PTU)))"

lemma pt_example1_inv: "pt_inv pt_example1"
  unfolding pt_example1_def
  by (rule pt_example_table_inv) (simp_all add: user_page_def VM_PI_eq NUM_IDS_def kern_pde_def)

lemma pt_example1_pde: "pde_of 0x40000000 = 256" "PDirPool pt_example1 1 256 = 0x40000007"
  by (simp_all add: pde_of_def pt_example1_def kern_pde_def PAGESIZE_def PT_PERM_PTU_def pte_flags)


lemma paging_init_ok:
  assumes "container_init mbi_addr s = Inr s1" "idptbl_placed s" "loc_IDPTbl s \<le> VM_USERLO - 0x400000"
  shows "\<exists>t. paging_init mbi_addr s = Inr t \<and> pt_inv t \<and> cr3 t = loc_PDirPool t
    \<and> bit (cr0 t) 31 \<and> bit (cr0 t) 16
    \<and> (\<forall>pid<NUM_IDS. \<forall>va < 0xFFFFF000. translate pid va t =
        (if pid \<noteq> 0 \<and> VM_USERLO \<le> va \<and> va < VM_USERHI then None else Some va))"
proof -
  from paging_init_eq[OF assms(1,2)] obtain t t0 where t: "paging_init mbi_addr s = Inr t"
    "id_filled s1 0xFFFFF t0" "mem t = mem t0" "loc_PDirPool t = loc_PDirPool s"
    "loc_IDPTbl t = loc_IDPTbl s" "cr3 t = loc_PDirPool s"
    "bit (cr0 t) 31" "bit (cr0 t) 16" and P: "\<And>pid j. pid < NUM_IDS \<Longrightarrow> j < 1024 \<Longrightarrow>
        PDirPool t pid j = (if pid = 0 \<or> kern_pde j then id_pde s1 j else 0)" by blast
  have loc: "loc_IDPTbl s1 = loc_IDPTbl s" using container_init_loc[OF assms(1)] by simp
  have placed: "idptbl_placed s1" using assms(2) loc by (simp add: idptbl_placed_def)
  have "translate pid va t = (if pid \<noteq> 0 \<and> VM_USERLO \<le> va \<and> va < VM_USERHI then None else Some va)"
    if "pid < NUM_IDS" "va < 0xFFFFF000" for pid va
  proof (cases "pid = 0 \<or> kern_pde (pde_of va)")
    case True
    have "unat (drop_bit 12 va) < 1048575"
      unfolding unat_drop_bit using that(2) by (simp add: word_less_nat_alt less_mult_imp_div_less)
    then have "drop_bit 12 va < 0xFFFFF" by (simp add: word_less_nat_alt)
    from translate_identity[OF t(2) placed t(3) _ this] True P[OF that(1) pde_of_lt]
    show ?thesis by (auto simp: kern_pde_iff)
  next
    case False
    then show ?thesis using P[OF that(1) pde_of_lt] by (auto simp: translate_eq kern_pde_iff)
  qed
  moreover have "pt_inv t"
  proof -
    have "id_pde t = id_pde s1" "idptbl_placed t"
      using loc placed t(5) by (simp_all add: id_pde_def idptbl_placed_def fun_eq_iff)
    then show ?thesis using P assms(3) t(5)
      by (auto simp: pt_inv_def user_pde_def split: if_splits)
  qed
  ultimately show ?thesis using t by (intro exI[of _ t]) simp
qed

text \<open>
  C10: after \<^verbatim>\<open>paging_init\<close> the machine runs with paging and write protection on, under directory
  0, in which every address below the last page translates to itself; in the directory of every
  other process the kernel part translates to itself and user memory is unmapped. This establishes
  the separation invariant.
\<close>

theorem paging_init_correct:
  assumes "container_init mbi_addr s = Inr s1" "idptbl_placed s" "loc_IDPTbl s \<le> VM_USERLO - 0x400000"
  shows "\<exists>t. paging_init mbi_addr s = Inr t \<and> pt_inv t \<and> cr3 t = loc_PDirPool t
    \<and> bit (cr0 t) 31 \<and> bit (cr0 t) 16
    \<and> (\<forall>pid<NUM_IDS. \<forall>va < 0xFFFFF000. translate pid va t =
        (if pid \<noteq> 0 \<and> VM_USERLO \<le> va \<and> va < VM_USERHI then None else Some va))"
  using assms by (rule paging_init_ok)

definition pt_boot :: pt_state where
  "pt_boot = container_state.extend container_boot \<lparr>PDirPool = (\<lambda>_ _. 0)\<rparr>"

lemma pt_boot_init: "\<exists>s1. container_init 0 pt_boot = Inr s1"
proof -
  have "\<exists>s0. devinit 0 pt_boot = Inr s0 \<and> pmmap_nentries s0 = 1 \<and>
      pmmap_list s0 = [\<lparr>pm_start = 0x50000000, pm_end = 0x50002000, pm_type = 1\<rparr>]"
    by (rule devinit_example)
       (simp_all add: pt_boot_def container_boot_def boot_example_def at_example_def at_state.defs
         container_state.defs)
  then obtain s0 where s0: "devinit 0 pt_boot = Inr s0" by blast
  from container_init_eq[OF pmem_init_eq[OF this]] show ?thesis by blast
qed

theorem paging_init_correct_witness:
  "\<exists>t. paging_init 0 pt_boot = Inr t \<and> pt_inv t \<and> translate 0 0x100000 t = Some 0x100000
     \<and> translate 5 0x50000000 t = None"
proof -
  obtain s1 where s1: "container_init 0 pt_boot = Inr s1" using pt_boot_init by blast
  have "loc_IDPTbl pt_boot = 0x400000"
    by (simp add: pt_boot_def container_boot_def boot_example_def at_example_def at_state.defs
        container_state.defs)
  then have p: "idptbl_placed pt_boot" "loc_IDPTbl pt_boot \<le> VM_USERLO - 0x400000"
    by (simp_all add: idptbl_placed_def VM_USERLO_def)
  from paging_init_correct[OF s1 p] obtain t where t: "paging_init 0 pt_boot = Inr t" "pt_inv t"
    "\<And>pid va. pid < NUM_IDS \<Longrightarrow> va < 0xFFFFF000 \<Longrightarrow> translate pid va t =
        (if pid \<noteq> 0 \<and> VM_USERLO \<le> va \<and> va < VM_USERHI then None else Some va)" by blast
  from t(3)[of 0 "0x100000"] t(3)[of 5 "0x50000000"] t(1,2) show ?thesis
    by (simp add: NUM_IDS_def VM_USERLO_def VM_USERHI_def)
qed

lemma unmap_page_ok:
  assumes inv: "pt_inv s" and pid: "pid < NUM_IDS" "pid \<noteq> 0"
    and va: "VM_USERLO \<le> va" "va < VM_USERHI"
    and plain: "get_ptbl_entry_by_va pid va s AND P_SUPER = 0"
  shows "\<exists>s'. unmap_page pid va s = Inr (get_ptbl_entry_by_va pid va s, s') \<and> pt_inv s'
    \<and> (\<forall>vb. drop_bit 12 vb = drop_bit 12 va \<longrightarrow> translate pid vb s' = None)
    \<and> (\<forall>q<NUM_IDS. \<forall>vb. q \<noteq> pid \<or> drop_bit 12 vb \<noteq> drop_bit 12 va \<longrightarrow> translate q vb s' = translate q vb s)"
proof (cases "get_ptbl_entry_by_va pid va s = 0")
  case True
  have "translate pid vb s = None" if "drop_bit 12 vb = drop_bit 12 va" for vb
  proof -
    have ix: "pde_of vb = pde_of va" "pte_of vb = pte_of va" using that same_page_iff[of vb va] by auto
    have "get_ptbl_entry_by_va pid vb s = get_ptbl_entry_by_va pid va s"
      by (simp only: get_ptbl_entry_by_va_def ix)
    then show ?thesis using True pid(1) by (simp add: translate_by_va)
  qed
  with True inv show ?thesis by (simp add: unmap_page_def Let_def)
next
  case False
  then have "bit (PDirPool s pid (pde_of va)) 0"
    by (auto simp: get_ptbl_entry_by_va_def get_pdir_entry_def and_one_bit Let_def split: if_splits)
  then have u: "user_pde s pid (pde_of va)" using pid user_va_pde[OF va] by (simp add: user_pde_def)
  from False plain inv table_isolated[OF inv u] translate_poke_zero[of _ va pid s] pid(1) show ?thesis
    by (auto simp: unmap_page_def Let_def rmv_ptbl_by_va_eq)
qed

text \<open>
  C33: unmapping a page that is not part of a super page. \<^verbatim>\<open>unmap_page\<close> answers the page table
  entry; if there was a mapping it is gone afterwards, and no other page of any process is affected.
\<close>

theorem unmap_page_correct:
  assumes inv: "pt_inv s" and pid: "pid < NUM_IDS" "pid \<noteq> 0"
    and va: "VM_USERLO \<le> va" "va < VM_USERHI"
    and plain: "get_ptbl_entry_by_va pid va s AND P_SUPER = 0"
  shows "\<exists>s'. unmap_page pid va s = Inr (get_ptbl_entry_by_va pid va s, s') \<and> pt_inv s'
    \<and> (\<forall>vb. drop_bit 12 vb = drop_bit 12 va \<longrightarrow> translate pid vb s' = None)
    \<and> (\<forall>q<NUM_IDS. \<forall>vb. q \<noteq> pid \<or> drop_bit 12 vb \<noteq> drop_bit 12 va \<longrightarrow> translate q vb s' = translate q vb s)"
  using assms by (rule unmap_page_ok)

theorem unmap_page_correct_witness:
  "\<exists>s'. unmap_page 1 0x40000000 pt_example1 = Inr (0, s') \<and> pt_inv s'
     \<and> translate 1 0x40000123 s' = None"
proof -
  have e: "get_ptbl_entry_by_va 1 0x40000000 pt_example1 = 0"
    by (simp add: get_ptbl_entry_by_va_def get_ptbl_entry_def load32_def pt_example1_def Let_def)
  obtain s' where "unmap_page 1 0x40000000 pt_example1 = Inr (0, s')" "pt_inv s'"
    "\<And>vb. drop_bit 12 vb = drop_bit 12 (0x40000000 :: u32) \<Longrightarrow> translate 1 vb s' = None"
    using unmap_page_correct[OF pt_example1_inv, of 1 "0x40000000"] e
    by (auto simp: NUM_IDS_def VM_USERLO_def VM_USERHI_def)
  then show ?thesis by simp
qed

text \<open>
  Unmapping inside a super page never finds the start of the super page: the scan compares the
  entry below the given address and not below its moving position. If that entry equals the
  page's own entry \<^verbatim>\<open>unmap_page\<close> loops for ever; otherwise it unmaps 1024 pages from the given
  address on, wherever in the super page that address lies.
\<close>

theorem unmap_super_page_start:
  assumes "get_ptbl_entry_by_va pid va s AND P_SUPER \<noteq> 0"
  shows "unmap_page pid va s =
    (if get_ptbl_entry_by_va pid (va - 0x1000) s = get_ptbl_entry_by_va pid va s then Inl Diverges
     else Inr (get_ptbl_entry_by_va pid va s, snd (unmap_consecutive_page pid va 1024 s)))"
  using assms by (auto simp: unmap_page_def super_scan_eq Let_def)

theorem unmap_super_page_start_witness:
  "unmap_page 0 0x2000 (pt_example {} {} two_containers (\<lambda>_ _. 0)\<lparr>mem := (\<lambda>a. if a mod 4 = 0 then 1 else
       if a mod 4 = 1 then 2 else 0)\<rparr>) = Inl Diverges"
proof -
  let ?s = "pt_example {} {} two_containers (\<lambda>_ _. 0)\<lparr>mem := (\<lambda>a. if a mod 4 = 0 then 1 else
       if a mod 4 = 1 then 2 else 0)\<rparr>"
  have pde: "pde_of 0x2000 = 0" "pde_of 0x1000 = 0" "pte_of 0x2000 = 2" "pte_of 0x1000 = 1"
    by (simp_all add: pde_of_def pte_of_def)
  have e: "get_ptbl_entry_by_va 0 0x2000 ?s = 0x201" "get_ptbl_entry_by_va 0 0x1000 ?s = 0x201"
    by (simp_all add: get_ptbl_entry_by_va_def get_ptbl_entry_def get_pdir_entry_def pde Let_def
        pte_addr_def PT_PERM_PTU_def pte_flags load32_def)
  then show ?thesis using unmap_super_page_start[of 0 "0x2000" ?s] by (simp add: P_SUPER_def)
qed

text \<open>
  C39: a new page table is not cleared. When \<^verbatim>\<open>map_page\<close> has to allocate the page table, a word
  with the present bit that the page held before becomes a mapping of the process: an address that
  did not translate now reads the physical page that word names.
\<close>

theorem map_page_stale_entries:
  assumes pid: "pid < NUM_IDS" and absent: "\<not> bit (PDirPool s pid (pde_of va)) 0"
    and table: "alloc_ptbl pid va s = Inr (p, s1)" "p \<noteq> 0"
    and vb: "pde_of vb = pde_of va" "pte_of vb \<noteq> pte_of va"
    and w: "w = load32 (mem s) (p * PAGESIZE + pte_of vb * 4)" "bit w 0"
  shows "\<exists>r s'. map_page pid va page perm s = Inr (r, s') \<and> translate pid vb s = None
    \<and> translate pid vb s' = Some ((w AND 0xFFFFF000) + take_bit 12 vb)"
  using pid
proof (cases rule: alloc_ptbl_cases[where va = va and s = s])
  case (fail s')
  with table show ?thesis by simp
next
  case (table q t)
  with \<open>alloc_ptbl pid va s = Inr (p, s1)\<close> have q: "q = p" by simp
  let ?e = "p * PAGESIZE + PT_PERM_PTU"
  have up: "user_page p" using table(1) q by (simp add: avail_pages_def)
  note e = new_table_entry[OF up]
  have fr: "?e AND 0xFFFFF000 = p * PAGESIZE"
    by (rule entry_frame) (use user_page_in_table[OF up] in \<open>simp_all add: AT_SIZE_def PT_PERM_PTU_def pte_flags\<close>)
  let ?t = "upd_pdir pid (pde_of va) ?e t"
  have "translate pid vb (poke (pte_addr ?e (pte_of va)) (page * PAGESIZE + perm) ?t) = translate pid vb ?t"
    by (rule translate_poke_other) (use vb in auto)
  moreover have "mem t = mem s" using table(3) by (simp add: vm_same_def)
  then have "load32 (mem ?t) (pte_addr ?e (pte_of vb)) = w" by (simp add: pte_addr_def fr w(1))
  then have "translate pid vb ?t = Some ((w AND 0xFFFFF000) + take_bit 12 vb)"
    using e(1) w(2) vb(1) by (simp add: translate_eq)
  moreover have "translate pid vb s = None" using absent vb(1) by (simp add: translate_eq)
  ultimately show ?thesis
    using map_page_new_table[OF pid absent table(1,2,5)] q by simp
qed

theorem map_page_stale_entries_witness:
  "\<exists>r s'. map_page 0 0x40000000 0 7 (pt_example {0x40000} {} two_containers (\<lambda>_ _. 0)
       \<lparr>PDirPool := (\<lambda>_ _. 0), mem := (\<lambda>a. if a = 0x40000004 then 1 else 0)\<rparr>) = Inr (r, s')
     \<and> translate 0 0x40001000 s' = Some 0"
proof -
  let ?s = "pt_example {0x40000} {} two_containers (\<lambda>_ _. 0)
       \<lparr>PDirPool := (\<lambda>_ _. 0), mem := (\<lambda>a. if a = 0x40000004 then 1 else (0 :: u8))\<rparr>"
  have pg: "page_norm ?s = page_norm (at_example {0x40000} {})" "page_used ?s = page_used (at_example {0x40000} {})"
    by (simp_all add: fun_eq_iff page_norm_def page_used_def)
  have "first_free ?s 0x40000 0x40000"
    by (auto simp: first_free_def page_free_def pg VM_PI_eq)
  then have "palloc ?s = Inr (0x40000, at_mark {0x40000} 1 ?s)"
    by (simp add: palloc_def VM_PI_eq palloc_scan_found)
  then obtain s1 where t: "alloc_ptbl 0 0x40000000 ?s = Inr (0x40000, s1)"
    by (simp add: alloc_ptbl_def container_alloc_def two_containers_def)
  have ix: "pde_of 0x40000000 = 256" "pde_of 0x40001000 = 256" "pte_of 0x40000000 = 0" "pte_of 0x40001000 = 1"
    by (simp_all add: pde_of_def pte_of_def)
  show ?thesis
    using map_page_stale_entries[OF _ _ t, of "0x40001000" 1 0 7]
    by (simp add: ix NUM_IDS_def PAGESIZE_def load32_def) blast
qed

end
