(* ===== verification/MPTNew.thy ===== *)
theory MPTNew
  imports MPTKern
begin

text \<open>
  \<^verbatim>\<open>kern/vmm/MPTNew/MPTNew.c\<close>: a fresh physical page, a run of pages or a super page for a
  virtual address, and the quota of a new child.
\<close>

section \<open>Operations\<close>

definition alloc_page :: "u32 \<Rightarrow> u32 \<Rightarrow> u32 \<Rightarrow> 'a pt_state_scheme \<Rightarrow> (u32 \<times> 'a pt_state_scheme) res" where
  "alloc_page proc_index vaddr perm s =
     rbind (container_alloc proc_index s) (\<lambda>(page_index, s1).
     if page_index = 0 then Inr (MagicNumber, s1)
     else rbind (map_page proc_index vaddr page_index perm s1) (\<lambda>(reg_page_index, s2).
          if reg_page_index = MagicNumber then Inr (MagicNumber, s2)
          else Inr (reg_page_index, s2)))"

definition alloc_consecutive_page ::
  "u32 \<Rightarrow> u32 \<Rightarrow> u32 \<Rightarrow> u32 \<Rightarrow> 'a pt_state_scheme \<Rightarrow> (u32 \<times> 'a pt_state_scheme) res" where
  "alloc_consecutive_page proc_index vaddr perm len s =
     rbind (container_consecutive_alloc proc_index len s) (\<lambda>(page_index, s1).
     if page_index = 0 then Inr (MagicNumber, s1)
     else rbind (map_consecutive_page proc_index vaddr page_index perm len s1) (\<lambda>(reg_page_index, s2).
          if reg_page_index = MagicNumber then Inr (MagicNumber, s2)
          else Inr (reg_page_index, s2)))"

definition alloc_super_page ::
  "u32 \<Rightarrow> u32 \<Rightarrow> u32 \<Rightarrow> 'a pt_state_scheme \<Rightarrow> (u32 \<times> 'a pt_state_scheme) res" where
  "alloc_super_page proc_index vaddr perm s =
     (let len = 1024
      in rbind (container_consecutive_alloc proc_index len s) (\<lambda>(page_index, s1).
         if page_index = 0 then Inr (MagicNumber, s1)
         else rbind (map_consecutive_page proc_index vaddr page_index (perm OR P_SUPER) len s1)
                (\<lambda>(reg_page_index, s2).
              if reg_page_index = MagicNumber then Inr (MagicNumber, s2)
              else Inr (reg_page_index, s2))))"

definition alloc_mem_quota :: "u32 \<Rightarrow> u32 \<Rightarrow> 'a pt_state_scheme \<Rightarrow> (u32 \<times> 'a pt_state_scheme) res" where
  "alloc_mem_quota pid quota s = container_split pid quota s"

section \<open>Properties\<close>

text \<open>A page from the pool, or no change of the address spaces.\<close>

lemma container_alloc_outcome [consumes 1, case_names fail page]:
  fixes s :: "'a pt_state_scheme"
  assumes "pid < NUM_IDS"
  obtains (fail) s' where "container_alloc pid s = Inr (0, s')" "vm_same s s'"
  | (page) p s' where "container_alloc pid s = Inr (p, s')" "p \<in> avail_pages s" "p \<noteq> 0"
    "vm_same s s'" "page_used s' p"
  using assms
proof (cases rule: container_alloc_cases[where s = s])
  case (found p)
  let ?s1 = "upd_container pid (\<lambda>c. c\<lparr>c_usage := c_usage c + 1\<rparr>) (at_mark {p} 1 s)"
  have "page_used ?s1 p" by (simp add: page_used_def upd_container_def at_mark_def)
  with found first_free_avail[OF found(1)] vm_same_alloc[of s] that show ?thesis
    by (cases "sint (c_usage (CONTAINER s pid)) < sint (c_quota (CONTAINER s pid))") auto
next
  case none
  with vm_same_alloc(3)[of s] show ?thesis by (intro fail[of s]) simp_all
qed

lemma alloc_page_ok:
  assumes inv: "pt_inv s" and pid: "pid < NUM_IDS" "pid \<noteq> 0"
    and va: "VM_USERLO \<le> va" "va < VM_USERHI" and perm: "perm < 0x1000" "bit perm 0"
  shows "\<exists>r s'. alloc_page pid va perm s = Inr (r, s') \<and> pt_inv s' \<and>
    (if r = MagicNumber then \<forall>q vb. translate q vb s' = translate q vb s
     else (\<exists>p \<in> avail_pages s. \<forall>vb. drop_bit 12 vb = drop_bit 12 va \<longrightarrow>
            translate pid vb s' = Some (p * PAGESIZE + take_bit 12 vb))
       \<and> (\<forall>q<NUM_IDS. \<forall>vb. q \<noteq> pid \<or> pde_of vb \<noteq> pde_of va \<longrightarrow> translate q vb s' = translate q vb s))"
  using pid(1)
proof (cases rule: container_alloc_outcome[where s = s])
  case (fail s')
  then show ?thesis using vm_same_inv[OF fail(2) inv] vm_same_translate[OF fail(2)]
    by (simp add: alloc_page_def)
next
  case (page p s1)
  have "p < 0x100000"
    using user_page_in_table page(2) by (simp add: avail_pages_def AT_SIZE_def)
  from map_page_spec[OF vm_same_inv[OF page(4) inv] pid va this perm] obtain r s' where
    m: "map_page pid va p perm s1 = Inr (r, s')" "pt_inv s'"
    "if r = MagicNumber then \<forall>q vb. translate q vb s' = translate q vb s1
     else (\<forall>vb. drop_bit 12 vb = drop_bit 12 va \<longrightarrow> translate pid vb s' = Some (p * PAGESIZE + take_bit 12 vb))
       \<and> (\<forall>q<NUM_IDS. \<forall>vb. (if get_pdir_entry_by_va pid va s1 = 0 then q \<noteq> pid \<or> pde_of vb \<noteq> pde_of va
              else q \<noteq> pid \<or> drop_bit 12 vb \<noteq> drop_bit 12 va) \<longrightarrow> translate q vb s' = translate q vb s1)"
    by blast
  have far: "translate q vb s' = translate q vb s"
    if "r \<noteq> MagicNumber" "q < NUM_IDS" "q \<noteq> pid \<or> pde_of vb \<noteq> pde_of va" for q vb
  proof -
    have "if get_pdir_entry_by_va pid va s1 = 0 then q \<noteq> pid \<or> pde_of vb \<noteq> pde_of va
              else q \<noteq> pid \<or> drop_bit 12 vb \<noteq> drop_bit 12 va"
      using that(3) same_page_iff[of vb va] by auto
    with m(3) that(1,2) have "translate q vb s' = translate q vb s1" by (simp only: if_False)
    with vm_same_translate[OF page(4)] show ?thesis by simp
  qed
  have run: "alloc_page pid va perm s = Inr (r, s')" using page m(1) by (simp add: alloc_page_def)
  show ?thesis using run m(2,3) far page(2) vm_same_translate[OF page(4)]
    by (cases "r = MagicNumber") (simp_all, blast)
qed

text \<open>
  A fresh page for a user address. \<^verbatim>\<open>alloc_page\<close> always returns and keeps the separation of the
  page tables. Unless it answers \<^verbatim>\<open>MagicNumber\<close>, every address of the page translates to one
  physical page that was in the free pool and is allocated now, and addresses of other processes, or
  outside the 4 MiB region of the page table, translate as before.
\<close>

theorem alloc_page_correct:
  assumes inv: "pt_inv s" and pid: "pid < NUM_IDS" "pid \<noteq> 0"
    and va: "VM_USERLO \<le> va" "va < VM_USERHI" and perm: "perm < 0x1000" "bit perm 0"
  shows "\<exists>r s'. alloc_page pid va perm s = Inr (r, s') \<and> pt_inv s' \<and>
    (if r = MagicNumber then \<forall>q vb. translate q vb s' = translate q vb s
     else (\<exists>p \<in> avail_pages s. \<forall>vb. drop_bit 12 vb = drop_bit 12 va \<longrightarrow>
            translate pid vb s' = Some (p * PAGESIZE + take_bit 12 vb))
       \<and> (\<forall>q<NUM_IDS. \<forall>vb. q \<noteq> pid \<or> pde_of vb \<noteq> pde_of va \<longrightarrow> translate q vb s' = translate q vb s))"
  using assms by (rule alloc_page_ok)

theorem alloc_page_correct_witness:
  "\<exists>r s'. alloc_page 1 0x40000000 7 (pt_example {0x40000, 0x40001} {} two_containers (\<lambda>_ _. 0)) = Inr (r, s')
     \<and> pt_inv s'"
  using alloc_page_correct[OF pt_example_inv, of 1 "0x40000000" 7 "{0x40000, 0x40001}" "{}" two_containers]
  by (auto simp: NUM_IDS_def VM_USERLO_def VM_USERHI_def)

end
