(* ===== verification/MPTFork.thy ===== *)
theory MPTFork
  imports MPTNew
begin

text \<open>
  \<^verbatim>\<open>kern/vmm/MPTFork/MPTFork.c\<close>: sharing an address space read-only between a parent and a
  child, and the private copy of a page that the first write to it makes.
\<close>

section \<open>Operations\<close>

text \<open>The permissions \<^verbatim>\<open>vmm_copy\<close> gives a shared page.\<close>

definition cow_perm :: "u32 \<Rightarrow> u32" where
  "cow_perm from_ptbl_entry =
     (if from_ptbl_entry AND P_SUPER \<noteq> 0 then PTE_P OR PTE_U OR PTE_COW OR P_SUPER
      else PTE_P OR PTE_U OR PTE_COW)"

text \<open>One round of the inner loop.\<close>

definition vmm_copy_pte :: "u32 \<Rightarrow> u32 \<Rightarrow> u32 \<Rightarrow> u32 \<Rightarrow> 'a pt_state_scheme \<Rightarrow> 'a pt_state_scheme" where
  "vmm_copy_pte from_id to_id pde_index pte_index s =
     (let from_ptbl_entry = get_ptbl_entry from_id pde_index pte_index s
      in if from_ptbl_entry AND PTE_P = 0 then s
         else (let perm = cow_perm from_ptbl_entry;
                   s1 = set_ptbl_entry from_id pde_index pte_index (drop_bit 12 from_ptbl_entry) perm s
               in set_ptbl_entry to_id pde_index pte_index (drop_bit 12 from_ptbl_entry) perm s1))"

function vmm_copy_loop :: "u32 \<Rightarrow> u32 \<Rightarrow> u32 \<Rightarrow> 'a pt_state_scheme \<Rightarrow> 'a pt_state_scheme res" where
  "vmm_copy_loop from_id to_id pde_index s =
     (if pde_index < 960
      then (if get_pdir_entry from_id pde_index s AND PTE_P = 0
            then vmm_copy_loop from_id to_id (pde_index + 1) s
            else rbind (container_alloc to_id s) (\<lambda>(page_index, s1).
                 if page_index = 0 then Inr s1
                 else rbind (for_u32 0 1024 (\<lambda>pte_index t. Inr (vmm_copy_pte from_id to_id pde_index pte_index t))
                               (set_pdir_entry to_id pde_index page_index s1))
                        (vmm_copy_loop from_id to_id (pde_index + 1))))
      else Inr s)"
  by pat_completeness auto
termination
  by (relation "measure (\<lambda>(f, t, j, s). unat (960 - j))") (auto dest: word_count_down)

declare vmm_copy_loop.simps [simp del]

definition vmm_copy :: "u32 \<Rightarrow> u32 \<Rightarrow> 'a pt_state_scheme \<Rightarrow> 'a pt_state_scheme res" where
  "vmm_copy from_id to_id s = vmm_copy_loop from_id to_id 256 s"

text \<open>The byte copy at the end of \<^verbatim>\<open>copy_on_write\<close>.\<close>

definition copy_frames :: "u32 \<Rightarrow> u32 \<Rightarrow> u32 \<Rightarrow> 'a pt_state_scheme \<Rightarrow> 'a pt_state_scheme res" where
  "copy_frames from_ptbl_entry to_ptbl_entry n s =
     for_u32 0 n (\<lambda>i t. Inr (t\<lparr>mem := (mem t)((to_ptbl_entry AND 0xFFFFF000) + i :=
        mem t ((from_ptbl_entry AND 0xFFFFF000) + i))\<rparr>)) s"

definition copy_on_write :: "u32 \<Rightarrow> u32 \<Rightarrow> 'a pt_state_scheme \<Rightarrow> 'a pt_state_scheme res" where
  "copy_on_write pid vaddr s =
     (let len = 1024; from_ptbl_entry = get_ptbl_entry_by_va pid vaddr s
      in if from_ptbl_entry AND P_SUPER \<noteq> 0
         then (case super_scan pid vaddr from_ptbl_entry s vaddr of
                 None \<Rightarrow> Inl Diverges
               | Some vaddr_now \<Rightarrow>
                   rbind (alloc_super_page pid vaddr_now (PTE_P OR PTE_W OR PTE_U) s) (\<lambda>(page_index, s1).
                   if page_index = 0 then Inr s1
                   else rbind (unmap_page pid vaddr_now s1) (\<lambda>(_, s2).
                        rbind (map_consecutive_page pid vaddr_now page_index
                                 (PTE_P OR PTE_W OR PTE_U OR P_SUPER) len s2) (\<lambda>(_, s3).
                        copy_frames from_ptbl_entry (get_ptbl_entry_by_va pid vaddr_now s3) (4096 * 1024) s3))))
         else rbind (container_alloc pid s) (\<lambda>(page_index, s1).
              if page_index = 0 then Inr s1
              else (let s2 = set_ptbl_entry_by_va pid vaddr page_index (PTE_P OR PTE_W OR PTE_U)
                               (rmv_ptbl_entry_by_va pid vaddr s1)
                    in copy_frames from_ptbl_entry (get_ptbl_entry_by_va pid vaddr s2) 4096 s2)))"

section \<open>Copying a page\<close>

text \<open>The bytes of a page.\<close>

definition page_byte :: "'a machine_scheme \<Rightarrow> u32 \<Rightarrow> u32 \<Rightarrow> u8" where
  "page_byte s p i = mem s (p * PAGESIZE + i)"

lemma page_addr_eq_iff:
  assumes "p < 0x100000" "q < 0x100000" "i < 0x1000" "j < 0x1000"
  shows "p * PAGESIZE + i = q * PAGESIZE + j \<longleftrightarrow> p = q \<and> i = j"
  by (metis assms entry_page entry_perm)

lemma copy_frames_page:
  fixes s :: "'a pt_state_scheme"
  assumes "p < 0x100000" "q < 0x100000" "p \<noteq> q"
    "e AND 0xFFFFF000 = q * PAGESIZE" "f AND 0xFFFFF000 = p * PAGESIZE"
  shows "\<exists>m. copy_frames e f 4096 s = Inr (s\<lparr>mem := m\<rparr>)
    \<and> (\<forall>i<0x1000. m (p * PAGESIZE + i) = mem s (q * PAGESIZE + i))
    \<and> (\<forall>r<0x100000. \<forall>i<0x1000. r \<noteq> p \<longrightarrow> m (r * PAGESIZE + i) = mem s (r * PAGESIZE + i))"
proof -
  let ?body = "\<lambda>i (t :: 'a pt_state_scheme). Inr (t\<lparr>mem := (mem t)((f AND 0xFFFFF000) + i := mem t ((e AND 0xFFFFF000) + i))\<rparr>)"
  define I where "I n t \<longleftrightarrow> (\<exists>m. t = s\<lparr>mem := m\<rparr> \<and> (\<forall>i<n. m (p * PAGESIZE + i) = mem s (q * PAGESIZE + i))
    \<and> (\<forall>r<0x100000. \<forall>i<0x1000. r \<noteq> p \<longrightarrow> m (r * PAGESIZE + i) = mem s (r * PAGESIZE + i)))" for n t
  have "\<exists>t. for_u32 0 4096 ?body s = Inr t \<and> I 4096 t"
  proof (rule for_u32_rule)
    fix i t assume i: "i < 4096" and I: "I i t"
    then obtain m where m: "t = s\<lparr>mem := m\<rparr>" "\<And>j. j < i \<Longrightarrow> m (p * PAGESIZE + j) = mem s (q * PAGESIZE + j)"
      "\<And>r j. r < 0x100000 \<Longrightarrow> j < 0x1000 \<Longrightarrow> r \<noteq> p \<Longrightarrow> m (r * PAGESIZE + j) = mem s (r * PAGESIZE + j)"
      by (auto simp: I_def)
    let ?m = "m(p * PAGESIZE + i := m (q * PAGESIZE + i))"
    have b: "?body i t = Inr (s\<lparr>mem := ?m\<rparr>)" by (simp add: m(1) assms(4,5))
    have "?m (p * PAGESIZE + j) = mem s (q * PAGESIZE + j)" if "j < i + 1" for j
    proof -
      have "j < i \<or> j = i" using that word_less_Suc[OF i] by simp
      then have "j < 0x1000" using i order_less_trans by auto
      then show ?thesis using \<open>j < i \<or> j = i\<close> m(2) m(3)[of q i] i assms page_addr_eq_iff[of p p j i] by auto
    qed
    moreover have "?m (r * PAGESIZE + j) = mem s (r * PAGESIZE + j)" if "r < 0x100000" "j < 0x1000" "r \<noteq> p" for r j
      using that i assms page_addr_eq_iff[of r p j i] m(3) by simp
    ultimately show "\<exists>t'. ?body i t = Inr t' \<and> I (i + 1) t'" unfolding b I_def by blast
  qed (auto simp: I_def intro!: exI[of _ "mem s"])
  then show ?thesis unfolding copy_frames_def I_def by (auto simp: assms(4,5))
qed

text \<open>Page table entries as bytes of their page.\<close>

lemma entry_offset:
  assumes "i < 1024" "unat k < 4"
  shows "pte_addr e i + k = drop_bit 12 e * PAGESIZE + (i * 4 + k)" "i * 4 + k < 0x1000"
proof -
  show "pte_addr e i + k = drop_bit 12 e * PAGESIZE + (i * 4 + k)"
    by (simp add: pte_addr_def mask_page push_bit_eq_mult PAGESIZE_def algebra_simps)
  have i: "unat i < 1024" using assms(1) by (simp add: word_less_nat_alt)
  have "unat (i * 4) = 4 * unat i" using i by (simp add: unat_word_ariths)
  then have "unat (i * 4 + k) = 4 * unat i + unat k"
    using i assms(2) by (simp only: unat_word_ariths(1)) simp
  then show "i * 4 + k < 0x1000" using i assms(2) by (simp add: word_less_nat_alt)
qed

lemma poke_page:
  assumes "r < 0x100000" "r \<noteq> drop_bit 12 e" "i < 1024" "j < 0x1000"
  shows "store32 m (pte_addr e i) v (r * PAGESIZE + j) = m (r * PAGESIZE + j)"
proof (rule store32_outside)
  have "r * PAGESIZE + j \<noteq> pte_addr e i + k" if "unat k < 4" for k
    using page_addr_eq_iff[OF assms(1) page_number_lt assms(4) entry_offset(2)[OF assms(3) that], of e]
      entry_offset(1)[OF assms(3) that, of e] assms(2) by metis
  from this[of 0] this[of 1] this[of 2] this[of 3]
  show "r * PAGESIZE + j \<notin> {pte_addr e i, pte_addr e i + 1, pte_addr e i + 2, pte_addr e i + 3}" by simp
qed

lemma load_page_cong:
  assumes "i < 1024" "\<And>j. j < 0x1000 \<Longrightarrow> m (drop_bit 12 e * PAGESIZE + j) = m' (drop_bit 12 e * PAGESIZE + j)"
  shows "load32 m (pte_addr e i) = load32 m' (pte_addr e i)"
proof -
  have "m (pte_addr e i + k) = m' (pte_addr e i + k)" if "unat k < 4" for k
    unfolding entry_offset(1)[OF assms(1) that] by (rule assms(2)[OF entry_offset(2)[OF assms(1) that]])
  from this[of 0] this[of 1] this[of 2] this[of 3] show ?thesis by (simp add: load32_def)
qed

lemma store32_twice: "store32 (store32 m a x) a v = store32 m a v"
  by (auto simp: store32_def fun_eq_iff)

lemma poke_twice: "poke a v (poke a x s) = poke a v s"
  by (simp add: poke_def store32_twice)

lemma pt_inv_kern:
  "pt_inv s \<Longrightarrow> q < NUM_IDS \<Longrightarrow> j < 1024 \<Longrightarrow> q = 0 \<or> kern_pde j \<Longrightarrow> PDirPool s q j = id_pde s j"
  by (auto simp: pt_inv_def)

lemma pt_inv_user:
  "pt_inv s \<Longrightarrow> user_pde s q j \<Longrightarrow> user_page (drop_bit 12 (PDirPool s q j))
     \<and> page_used s (drop_bit 12 (PDirPool s q j))"
  by (simp add: pt_inv_def)

text \<open>Writing to a page that is no page table leaves every translation as it is.\<close>

text \<open>Memory on a page that holds no page table does not matter for translation.\<close>

lemma entry_off_page:
  assumes inv: "pt_inv s" and p: "\<And>j. j < 1024 \<Longrightarrow> drop_bit 12 (id_pde s j) \<noteq> p"
    "\<And>r j. user_pde s r j \<Longrightarrow> drop_bit 12 (PDirPool s r j) \<noteq> p"
    and m: "\<And>r j. r < 0x100000 \<Longrightarrow> j < 0x1000 \<Longrightarrow> r \<noteq> p \<Longrightarrow> m (r * PAGESIZE + j) = mem s (r * PAGESIZE + j)"
    and q: "q < NUM_IDS" and pres: "bit (PDirPool s q (pde_of vb)) 0"
  shows "load32 m (pte_addr (PDirPool s q (pde_of vb)) (pte_of vb)) = load32 (mem s) (pte_addr (PDirPool s q (pde_of vb)) (pte_of vb))"
proof -
  let ?e = "PDirPool s q (pde_of vb)"
  have "drop_bit 12 ?e \<noteq> p"
  proof (cases "q = 0 \<or> kern_pde (pde_of vb)")
    case True
    then have "?e = id_pde s (pde_of vb)" by (intro pt_inv_kern[OF inv q]) simp_all
    then show ?thesis using p(1)[of "pde_of vb"] by simp
  next
    case False
    then show ?thesis using p(2)[of q "pde_of vb"] pres q by (simp add: user_pde_def)
  qed
  then show ?thesis by (intro load_page_cong) (simp_all add: m page_number_lt)
qed

lemma translate_off_page:
  assumes inv: "pt_inv s" and p: "\<And>j. j < 1024 \<Longrightarrow> drop_bit 12 (id_pde s j) \<noteq> p"
    "\<And>r j. user_pde s r j \<Longrightarrow> drop_bit 12 (PDirPool s r j) \<noteq> p"
    and m: "\<And>r j. r < 0x100000 \<Longrightarrow> j < 0x1000 \<Longrightarrow> r \<noteq> p \<Longrightarrow> m (r * PAGESIZE + j) = mem s (r * PAGESIZE + j)"
    and q: "q < NUM_IDS"
  shows "translate q vb (s\<lparr>mem := m\<rparr>) = translate q vb s"
    "get_ptbl_entry_by_va q vb (s\<lparr>mem := m\<rparr>) = get_ptbl_entry_by_va q vb s"
proof -
  note e = entry_off_page[OF assms, of vb]
  show "translate q vb (s\<lparr>mem := m\<rparr>) = translate q vb s"
    by (cases "bit (PDirPool s q (pde_of vb)) 0") (simp_all add: translate_eq e)
  show "get_ptbl_entry_by_va q vb (s\<lparr>mem := m\<rparr>) = get_ptbl_entry_by_va q vb s"
    using e by (auto simp: get_ptbl_entry_by_va_def get_pdir_entry_def get_ptbl_entry_def Let_def and_one_bit)
qed

lemma translate_data_page:
  assumes inv: "pt_inv s" and p: "user_page p" "\<And>r j. user_pde s r j \<Longrightarrow> drop_bit 12 (PDirPool s r j) \<noteq> p"
    and m: "\<And>r j. r < 0x100000 \<Longrightarrow> j < 0x1000 \<Longrightarrow> r \<noteq> p \<Longrightarrow> m (r * PAGESIZE + j) = mem s (r * PAGESIZE + j)"
    and q: "q < NUM_IDS"
  shows "translate q vb (s\<lparr>mem := m\<rparr>) = translate q vb s"
proof (rule translate_off_page(1)[OF inv _ p(2) m q])
  show "j < 1024 \<Longrightarrow> drop_bit 12 (id_pde s j) \<noteq> p" for j
    using id_pde_page_low[of s j] inv p(1) by (auto simp: pt_inv_def)
qed

lemma pt_inv_mem: "pt_inv (s\<lparr>mem := m\<rparr>) = pt_inv s"
proof -
  have "user_pde (s\<lparr>mem := m\<rparr>) = user_pde s" "id_pde (s\<lparr>mem := m\<rparr>) = id_pde s"
    "page_used (s\<lparr>mem := m\<rparr>) = page_used s"
    by (simp_all add: fun_eq_iff user_pde_def id_pde_def page_used_def)
  then show ?thesis by (simp add: pt_inv_def idptbl_placed_def)
qed

lemma by_va_present:
  assumes "pid < NUM_IDS" "bit (PDirPool s pid (pde_of va)) 0"
    "bit (load32 (mem s) (pte_addr (PDirPool s pid (pde_of va)) (pte_of va))) 0"
  shows "get_ptbl_entry_by_va pid va s = load32 (mem s) (pte_addr (PDirPool s pid (pde_of va)) (pte_of va))"
  using assms
  by (simp add: get_ptbl_entry_by_va_def get_pdir_entry_def get_ptbl_entry_def and_one_bit Let_def)

lemma by_va_nonzero:
  assumes "get_ptbl_entry_by_va pid va s \<noteq> 0"
  shows "bit (PDirPool s pid (pde_of va)) 0" "pid < NUM_IDS"
  using assms
  by (auto simp: get_ptbl_entry_by_va_def get_pdir_entry_def and_one_bit Let_def split: if_splits)

section \<open>Properties\<close>

text \<open>The second half of \<^verbatim>\<open>copy_on_write\<close>: the entry is set to a free page, and the page behind the old entry is copied to it.\<close>

lemma page_replaced:
  fixes s s1 :: "'a pt_state_scheme" and e p pid va :: u32
  defines "E \<equiv> PDirPool s pid (pde_of va)" and "v \<equiv> p * PAGESIZE + (PTE_P OR PTE_W OR PTE_U)"
  defines "s2 \<equiv> poke (pte_addr E (pte_of va)) v s1"
  assumes inv: "pt_inv s" and u: "user_pde s pid (pde_of va)" and p: "p \<in> avail_pages s" "vm_same s s1"
    and data: "page_used s (drop_bit 12 e)" "drop_bit 12 e \<noteq> drop_bit 12 E"
  shows "\<exists>t. copy_frames e v 4096 s2 = Inr t \<and> pt_inv t \<and> get_ptbl_entry_by_va pid va s2 = v \<and> get_ptbl_entry_by_va pid va t = v
    \<and> (\<forall>vb. drop_bit 12 vb = drop_bit 12 va \<longrightarrow> translate pid vb t = Some (p * PAGESIZE + take_bit 12 vb))
    \<and> (\<forall>i<0x1000. page_byte t p i = page_byte s (drop_bit 12 e) i)
    \<and> (\<forall>i<0x1000. page_byte t (drop_bit 12 e) i = page_byte s (drop_bit 12 e) i)
    \<and> (\<forall>q<NUM_IDS. \<forall>vb. q \<noteq> pid \<or> drop_bit 12 vb \<noteq> drop_bit 12 va \<longrightarrow> translate q vb t = translate q vb s)"
proof -
  let ?perm = "PTE_P OR PTE_W OR PTE_U" and ?A = "pte_addr E (pte_of va)"
  have pid: "pid < NUM_IDS" and pres: "bit E 0" using u by (simp_all add: user_pde_def E_def)
  have perm: "?perm < 0x1000" "bit ?perm 0" by (simp_all add: pte_flags)
  have up: "user_page p" "p < 0x100000" "\<not> page_used s p"
    using p(1) user_page_in_table by (auto simp: avail_pages_def AT_SIZE_def page_free_def)
  have same: "mem s1 = mem s" "PDirPool s1 = PDirPool s" using p(2) by (simp_all add: vm_same_def)
  have inv1: "pt_inv s1" by (rule vm_same_inv[OF p(2) inv])
  have inv2: "pt_inv s2" using inv1 by (simp add: s2_def)
  have bv: "bit v 0" unfolding v_def entry_present[OF up(2) perm(1)] by (rule perm(2))
  have pe: "p \<noteq> drop_bit 12 e" using up(3) data(1) by auto
  have fr: "e AND 0xFFFFF000 = drop_bit 12 e * PAGESIZE" by (simp add: mask_page push_bit_eq_mult PAGESIZE_def)
  obtain m where m: "copy_frames e v 4096 s2 = Inr (s2\<lparr>mem := m\<rparr>)"
    "\<And>i. i < 0x1000 \<Longrightarrow> m (p * PAGESIZE + i) = mem s2 (drop_bit 12 e * PAGESIZE + i)"
    "\<And>r i. r < 0x100000 \<Longrightarrow> i < 0x1000 \<Longrightarrow> r \<noteq> p \<Longrightarrow> m (r * PAGESIZE + i) = mem s2 (r * PAGESIZE + i)"
    using copy_frames_page[OF up(2) page_number_lt pe fr entry_frame[OF up(2) perm(1)], of s2] unfolding v_def by blast
  let ?t = "s2\<lparr>mem := m\<rparr>"
  have old: "mem s2 (drop_bit 12 e * PAGESIZE + i) = mem s (drop_bit 12 e * PAGESIZE + i)" if "i < 0x1000" for i
    using poke_page[OF page_number_lt data(2) pte_of_lt that] same by (simp add: s2_def)
  have tables: "drop_bit 12 (PDirPool s2 r j) \<noteq> p" if "user_pde s2 r j" for r j
  proof -
    have "user_pde s r j" using that same by (simp add: user_pde_def s2_def)
    then show ?thesis using pt_inv_user[OF inv] up(3) same by (auto simp: s2_def)
  qed
  have tr: "translate q vb ?t = translate q vb s2" if "q < NUM_IDS" for q vb
    by (rule translate_data_page[OF inv2 up(1) tables m(3) that])
  have "user_pde s1 pid (pde_of va)" using u same by (simp add: user_pde_def)
  from table_isolated[OF inv1 this, of _ _ v] vm_same_translate[OF p(2)] same(2)
  have far: "translate q vb s2 = translate q vb s" if "q < NUM_IDS" "q \<noteq> pid \<or> drop_bit 12 vb \<noteq> drop_bit 12 va" for q vb
    using that unfolding s2_def E_def by (metis (no_types, lifting))
  have near: "translate pid vb s2 = Some (p * PAGESIZE + take_bit 12 vb)" if "drop_bit 12 vb = drop_bit 12 va" for vb
    using translate_poke_same[OF _ that up(2) perm, of s1 pid] pres same(2) by (simp add: s2_def E_def v_def)
  have "drop_bit 12 E \<noteq> p" using pt_inv_user[OF inv u] up(3) by (auto simp: E_def)
  from load_page_cong[of "pte_of va" m E "mem s2", OF pte_of_lt m(3)[OF page_number_lt _ this]]
  have "load32 m ?A = load32 (mem s2) ?A" by simp
  then have et: "get_ptbl_entry_by_va pid va ?t = v" "get_ptbl_entry_by_va pid va s2 = v"
    using by_va_present[OF pid, of ?t va] by_va_present[OF pid, of s2 va] pres bv same(2) by (simp_all add: s2_def E_def)
  have "page_byte ?t p i = page_byte s (drop_bit 12 e) i" "page_byte ?t (drop_bit 12 e) i = page_byte s (drop_bit 12 e) i"
    if "i < 0x1000" for i
    using m(2)[OF that] m(3)[OF page_number_lt that, of e] pe old[OF that] by (simp_all add: page_byte_def)
  with m(1) inv2 et near far tr pid show ?thesis by (intro exI[of _ ?t]) (simp add: pt_inv_mem)
qed

lemma copy_on_write_ok:
  assumes inv: "pt_inv s" and pid: "pid < NUM_IDS" "pid \<noteq> 0"
    and va: "VM_USERLO \<le> va" "va < VM_USERHI"
    and e: "e = get_ptbl_entry_by_va pid va s" "e \<noteq> 0" "e AND P_SUPER = 0"
    and data: "page_used s (drop_bit 12 e)" "drop_bit 12 e \<noteq> drop_bit 12 (get_pdir_entry_by_va pid va s)"
  shows "\<exists>s'. copy_on_write pid va s = Inr s' \<and> pt_inv s' \<and>
     (mem s' = mem s \<and> PDirPool s' = PDirPool s \<or>
      (\<exists>p \<in> avail_pages s. get_ptbl_entry_by_va pid va s' = p * PAGESIZE + (PTE_P OR PTE_W OR PTE_U)
        \<and> (\<forall>vb. drop_bit 12 vb = drop_bit 12 va \<longrightarrow> translate pid vb s' = Some (p * PAGESIZE + take_bit 12 vb))
        \<and> (\<forall>i<0x1000. page_byte s' p i = page_byte s (drop_bit 12 e) i)
        \<and> (\<forall>i<0x1000. page_byte s' (drop_bit 12 e) i = page_byte s (drop_bit 12 e) i)
        \<and> (\<forall>q<NUM_IDS. \<forall>vb. q \<noteq> pid \<or> drop_bit 12 vb \<noteq> drop_bit 12 va \<longrightarrow> translate q vb s' = translate q vb s)))"
proof -
  let ?E = "PDirPool s pid (pde_of va)" and ?perm = "PTE_P OR PTE_W OR PTE_U"
  have pres: "bit ?E 0" using by_va_nonzero(1)[of pid va s] e by simp
  have u: "user_pde s pid (pde_of va)" using pres pid user_va_pde[OF va] by (simp add: user_pde_def)
  have ne: "drop_bit 12 e \<noteq> drop_bit 12 ?E"
    using data(2) pres pid by (simp add: get_pdir_entry_by_va_def get_pdir_entry_def and_one_bit Let_def)
  from pid(1) show ?thesis
  proof (cases rule: container_alloc_outcome[where s = s])
    case (fail s')
    with e vm_same_inv[OF fail(2) inv] show ?thesis by (simp add: copy_on_write_def Let_def vm_same_def)
  next
    case (page p s1)
    let ?v = "p * PAGESIZE + ?perm"
    let ?s2 = "poke (pte_addr ?E (pte_of va)) ?v s1"
    have same: "PDirPool s1 = PDirPool s" using page(4) by (simp add: vm_same_def)
    obtain t where t: "copy_frames e ?v 4096 ?s2 = Inr t" "pt_inv t" "get_ptbl_entry_by_va pid va ?s2 = ?v" "get_ptbl_entry_by_va pid va t = ?v"
      "\<forall>vb. drop_bit 12 vb = drop_bit 12 va \<longrightarrow> translate pid vb t = Some (p * PAGESIZE + take_bit 12 vb)"
      "\<forall>i<0x1000. page_byte t p i = page_byte s (drop_bit 12 e) i"
      "\<forall>i<0x1000. page_byte t (drop_bit 12 e) i = page_byte s (drop_bit 12 e) i"
      "\<forall>q<NUM_IDS. \<forall>vb. q \<noteq> pid \<or> drop_bit 12 vb \<noteq> drop_bit 12 va \<longrightarrow> translate q vb t = translate q vb s"
      using page_replaced[OF inv u page(2,4) data(1) ne] by blast
    have "copy_on_write pid va s = copy_frames e ?v 4096 ?s2"
      using e page pid(1) t(3) same by (simp add: copy_on_write_def Let_def set_ptbl_by_va_eq rmv_ptbl_by_va_eq poke_twice)
    with t page(2) show ?thesis by (intro exI[of _ t]) (simp, blast)
  qed
qed

text \<open>
  Copy-on-write of a single page. Let a user address be mapped to an allocated page that is not
  its own page table. \<^verbatim>\<open>copy_on_write\<close> returns. Without a free page within the quota no translation
  and no byte changes. Otherwise the address gets a writable mapping to a page from the free pool
  that holds exactly the bytes of the old page, the old page keeps its bytes, and no other page of
  any process translates differently.
\<close>

theorem copy_on_write_correct:
  assumes inv: "pt_inv s" and pid: "pid < NUM_IDS" "pid \<noteq> 0"
    and va: "VM_USERLO \<le> va" "va < VM_USERHI"
    and e: "e = get_ptbl_entry_by_va pid va s" "e \<noteq> 0" "e AND P_SUPER = 0"
    and data: "page_used s (drop_bit 12 e)" "drop_bit 12 e \<noteq> drop_bit 12 (get_pdir_entry_by_va pid va s)"
  shows "\<exists>s'. copy_on_write pid va s = Inr s' \<and> pt_inv s' \<and>
     (mem s' = mem s \<and> PDirPool s' = PDirPool s \<or>
      (\<exists>p \<in> avail_pages s. get_ptbl_entry_by_va pid va s' = p * PAGESIZE + (PTE_P OR PTE_W OR PTE_U)
        \<and> (\<forall>vb. drop_bit 12 vb = drop_bit 12 va \<longrightarrow> translate pid vb s' = Some (p * PAGESIZE + take_bit 12 vb))
        \<and> (\<forall>i<0x1000. page_byte s' p i = page_byte s (drop_bit 12 e) i)
        \<and> (\<forall>i<0x1000. page_byte s' (drop_bit 12 e) i = page_byte s (drop_bit 12 e) i)
        \<and> (\<forall>q<NUM_IDS. \<forall>vb. q \<noteq> pid \<or> drop_bit 12 vb \<noteq> drop_bit 12 va \<longrightarrow> translate q vb s' = translate q vb s)))"
  using assms by (rule copy_on_write_ok)

definition cow_example :: pt_state where
  "cow_example = pt_example1\<lparr>mem := (\<lambda>a. if a = 0x40000000 then 5 else if a = 0x40000001 then 0x18
     else if a = 0x40000003 then 0x40 else 0)\<rparr>"

theorem copy_on_write_correct_witness:
  "\<exists>s'. copy_on_write 1 0x40000000 cow_example = Inr s' \<and> pt_inv s'"
proof -
  have ix: "pte_of 0x40000000 = 0" by (simp add: pte_of_def)
  have pde: "PDirPool cow_example 1 256 = 0x40000007" using pt_example1_pde by (simp add: cow_example_def)
  have e: "get_ptbl_entry_by_va 1 0x40000000 cow_example = 0x40001805"
    by (simp add: get_ptbl_entry_by_va_def get_pdir_entry_def get_ptbl_entry_def pde pt_example1_pde(1) ix
        NUM_IDS_def pte_addr_def Let_def) (simp add: cow_example_def load32_def)
  have d: "get_pdir_entry_by_va 1 0x40000000 cow_example = 0x40000007"
    by (simp add: get_pdir_entry_by_va_def get_pdir_entry_def pde pt_example1_pde(1) NUM_IDS_def Let_def)
  have inv: "pt_inv cow_example" using pt_example1_inv by (simp add: cow_example_def pt_inv_mem)
  have "page_used cow_example 0x40001"
    by (simp add: cow_example_def page_used_def pt_example1_def) (simp add: at_example_def)
  with copy_on_write_correct[OF inv _ _ _ _ e[symmetric]] d show ?thesis
    by (auto simp: NUM_IDS_def VM_USERLO_def VM_USERHI_def P_SUPER_def)
qed

end
