(* ===== verification/PMap.thy ===== *)
theory PMap
  imports MPTFork KString
begin

text \<open>
  Copying between kernel memory and the address space of a process, \<^verbatim>\<open>kern/lib/pmap.c\<close>. The
  kernel walks the page table itself and copies page by page through physical addresses; a page
  that is not mapped is allocated on the way.
\<close>

section \<open>Operations\<close>

text \<open>
  The part the three loops share: the physical address of \<open>uva\<close>, after allocating a page for it
  when it has none. The result of \<^verbatim>\<open>alloc_page\<close> is not looked at.
\<close>

definition user_pa :: "u32 \<Rightarrow> u32 \<Rightarrow> 'a pt_state_scheme \<Rightarrow> (u32 \<times> 'a pt_state_scheme) res" where
  "user_pa pmap_id uva s =
     (let uva_pa = get_ptbl_entry_by_va pmap_id uva s
      in rbind (if uva_pa AND PTE_P = 0
                then rbind (alloc_page pmap_id uva (PTE_P OR PTE_U OR PTE_W) s)
                       (\<lambda>(r, s1). Inr (get_ptbl_entry_by_va pmap_id uva s1, s1))
                else Inr (uva_pa, s))
           (\<lambda>(uva_pa, s). Inr ((uva_pa AND 0xFFFFF000) + uva mod PAGESIZE, s)))"

text \<open>The number of bytes up to the end of the page, at most \<open>len\<close>.\<close>

definition chunk :: "u32 \<Rightarrow> u32 \<Rightarrow> u32" where
  "chunk len pa = (if len < PAGESIZE - pa mod PAGESIZE then len else PAGESIZE - pa mod PAGESIZE)"

lemma page_rest: "unat (PAGESIZE - pa mod PAGESIZE) = 4096 - unat pa mod 4096"
proof -
  have "pa mod PAGESIZE \<le> PAGESIZE" by (simp add: PAGESIZE_def word_le_nat_alt unat_mod)
  then show ?thesis by (simp add: unat_sub PAGESIZE_def unat_mod)
qed

lemma chunk_bounds: "chunk len pa \<le> len" "len \<noteq> 0 \<Longrightarrow> chunk len pa \<noteq> 0" "unat (chunk len pa) \<le> 4096 - unat pa mod 4096"
proof -
  show "chunk len pa \<le> len" by (simp add: chunk_def not_less)
  have "unat (PAGESIZE - pa mod PAGESIZE) \<noteq> 0" unfolding page_rest by (simp add: not_le)
  then show "chunk len pa \<noteq> 0" if "len \<noteq> 0" using that by (auto simp: chunk_def)
  show "unat (chunk len pa) \<le> 4096 - unat pa mod 4096"
    unfolding page_rest[symmetric] chunk_def by (simp add: word_less_nat_alt)
qed

text \<open>
  The loop of the three routines, with the transfer of one chunk as parameter \<open>mv pa kva size\<close>. It
  ends because each round transfers at least one byte.
\<close>

function user_loop :: "(u32 \<Rightarrow> u32 \<Rightarrow> u32 \<Rightarrow> memory \<Rightarrow> memory) \<Rightarrow> u32 \<Rightarrow> u32 \<Rightarrow> u32 \<Rightarrow> u32 \<Rightarrow> u32
    \<Rightarrow> 'a pt_state_scheme \<Rightarrow> (u32 \<times> 'a pt_state_scheme) res" where
  "user_loop mv pmap_id uva kva len copied s =
     (if len \<noteq> 0
      then rbind (user_pa pmap_id uva s) (\<lambda>(uva_pa, s).
           let sz = chunk len uva_pa
           in user_loop mv pmap_id (uva + sz) (kva + sz) (len - sz) (copied + sz) (s\<lparr>mem := mv uva_pa kva sz (mem s)\<rparr>))
      else Inr (copied, s))"
  by pat_completeness auto
termination
proof (relation "measure (\<lambda>(mv, pmap_id, uva, kva, len, copied, s). unat len)", goal_cases)
  case (2 mv pmap_id uva kva len copied s r pa t sz)
  have "sz \<le> len" "sz \<noteq> 0" using chunk_bounds(1,2) 2 by auto
  then have "unat (len - sz) < unat len" by unat_arith
  then show ?case by simp
qed simp

declare user_loop.simps [simp del]

definition pt_copyin :: "u32 \<Rightarrow> u32 \<Rightarrow> u32 \<Rightarrow> u32 \<Rightarrow> 'a pt_state_scheme \<Rightarrow> (u32 \<times> 'a pt_state_scheme) res" where
  "pt_copyin pmap_id uva kva len s =
     (if \<not> (VM_USERLO \<le> uva \<and> uva + len \<le> VM_USERHI) then Inr (0, s)
      else if kva + len > VM_USERHI then Inr (0, s)
      else user_loop (\<lambda>uva_pa kva sz. memcpy kva uva_pa sz) pmap_id uva kva len 0 s)"

definition pt_copyout :: "u32 \<Rightarrow> u32 \<Rightarrow> u32 \<Rightarrow> u32 \<Rightarrow> 'a pt_state_scheme \<Rightarrow> (u32 \<times> 'a pt_state_scheme) res" where
  "pt_copyout kva pmap_id uva len s =
     (if \<not> (VM_USERLO \<le> uva \<and> uva + len \<le> VM_USERHI) then Inr (0, s)
      else if kva + len > VM_USERHI then Inr (0, s)
      else user_loop (\<lambda>uva_pa kva sz. memcpy uva_pa kva sz) pmap_id uva kva len 0 s)"

definition pt_memset :: "u32 \<Rightarrow> u32 \<Rightarrow> u8 \<Rightarrow> u32 \<Rightarrow> 'a pt_state_scheme \<Rightarrow> (u32 \<times> 'a pt_state_scheme) res" where
  "pt_memset pmap_id va c len s =
     user_loop (\<lambda>pa kva sz. memset pa (scast c) sz) pmap_id va 0 len 0 s"

section \<open>Physical addresses of user bytes\<close>

definition upa :: "u32 \<Rightarrow> u32 \<Rightarrow> 'a pt_state_scheme \<Rightarrow> u32" where
  "upa pid va s = (get_ptbl_entry_by_va pid va s AND 0xFFFFF000) + va mod PAGESIZE"

text \<open>The byte a process sees at a virtual address.\<close>

definition user_byte :: "u32 \<Rightarrow> u32 \<Rightarrow> 'a pt_state_scheme \<Rightarrow> u8" where
  "user_byte pid va s = mem s (upa pid va s)"

lemma PAGESIZE_take_bit: "va mod PAGESIZE = take_bit 12 va"
  by (simp add: PAGESIZE_def take_bit_eq_mod)

lemma upa_translate: "pid < NUM_IDS \<Longrightarrow> get_ptbl_entry_by_va pid va s \<noteq> 0 \<Longrightarrow> translate pid va s = Some (upa pid va s)"
  by (simp add: translate_by_va upa_def Let_def PAGESIZE_take_bit)

lemma user_entry_present: "get_ptbl_entry_by_va pid va s AND PTE_P = 0 \<longleftrightarrow> get_ptbl_entry_by_va pid va s = 0"
  by (auto simp: get_ptbl_entry_by_va_def PTE_P_def Let_def)

lemma user_pa_mapped: "get_ptbl_entry_by_va pid va s \<noteq> 0 \<Longrightarrow> user_pa pid va s = Inr (upa pid va s, s)"
  by (simp add: user_pa_def user_entry_present Let_def upa_def)

lemma unat_upa: "unat (upa pid va s) = 4096 * (unat (get_ptbl_entry_by_va pid va s) div 4096) + unat va mod 4096"
  using page_number_bound[of "get_ptbl_entry_by_va pid va s"]
  by (simp add: upa_def unat_word_ariths(1) unat_mask_page unat_mod PAGESIZE_def)

lemma in_page:
  fixes va i :: u32
  assumes "unat va mod 4096 + unat i < 4096"
  shows "unat (va + i) = unat va + unat i" "drop_bit 12 (va + i) = drop_bit 12 va"
proof -
  have "unat va = 4096 * (unat va div 4096) + unat va mod 4096" by simp
  then have "unat va + unat i < 4294967296" using assms page_number_bound[of va] by linarith
  then show eq: "unat (va + i) = unat va + unat i" by (simp add: unat_word_ariths)
  have "(unat va + unat i) div 4096 = unat va div 4096"
    using assms mult_div_mod_eq[of 4096 "unat va"] by (intro div_nat_eqI) (linarith | simp only: mult_Suc_right)+
  then have "unat (drop_bit 12 (va + i)) = unat (drop_bit 12 va)" by (simp only: unat_drop_bit eq) simp
  then show "drop_bit 12 (va + i) = drop_bit 12 va" by (simp only: unsigned_word_eqI)
qed

lemma entry_in_page:
  assumes "unat va mod 4096 + unat i < 4096"
  shows "get_ptbl_entry_by_va pid (va + i) s = get_ptbl_entry_by_va pid va s" "upa pid (va + i) s = upa pid va s + i"
proof -
  have "pde_of (va + i) = pde_of va" "pte_of (va + i) = pte_of va"
    using same_page_iff[of "va + i" va] in_page(2)[OF assms] by simp_all
  then show e: "get_ptbl_entry_by_va pid (va + i) s = get_ptbl_entry_by_va pid va s"
    by (simp add: get_ptbl_entry_by_va_def)
  have "(unat va + unat i) mod 4096 = unat va mod 4096 + unat i" using assms by (metis mod_add_left_eq mod_less)
  then have "unat ((va + i) mod PAGESIZE) = unat (va mod PAGESIZE) + unat i"
    by (simp add: unat_mod PAGESIZE_def in_page(1)[OF assms])
  then have "(va + i) mod PAGESIZE = va mod PAGESIZE + i"
    using assms by (intro unsigned_word_eqI[where ?'a = nat])
      (simp add: unat_word_ariths(1) unat_mod PAGESIZE_def)
  then show "upa pid (va + i) s = upa pid va s + i" by (simp add: upa_def e add.assoc)
qed

lemma upa_chunk:
  assumes "i < chunk len (upa pid va s)"
  shows "get_ptbl_entry_by_va pid (va + i) s = get_ptbl_entry_by_va pid va s" "upa pid (va + i) s = upa pid va s + i"
proof -
  have "unat (upa pid va s) mod 4096 = unat va mod 4096" unfolding unat_upa by simp
  then have "unat va mod 4096 + unat i < 4096"
    using assms chunk_bounds(3)[of len "upa pid va s"] by (simp add: word_less_nat_alt)
  then show "get_ptbl_entry_by_va pid (va + i) s = get_ptbl_entry_by_va pid va s"
    "upa pid (va + i) s = upa pid va s + i" by (rule entry_in_page)+
qed

lemma in_space_chunk: "in_space (upa pid va s) (chunk len (upa pid va s))"
proof -
  have "unat (upa pid va s) + (4096 - unat (upa pid va s) mod 4096) \<le> 4294967296"
    using page_number_bound[of "upa pid va s"] by (simp add: mod_less_divisor flip: minus_div_mult_eq_mod)
  then show ?thesis using chunk_bounds(3)[of len "upa pid va s"] by (simp add: in_space_def)
qed

section \<open>Writing at scattered addresses\<close>

text \<open>The first \<open>n\<close> of the addresses \<open>D\<close> get the values \<open>v\<close>, and no other byte changes.\<close>

definition written :: "(u32 \<Rightarrow> u32) \<Rightarrow> (u32 \<Rightarrow> u8) \<Rightarrow> u32 \<Rightarrow> memory \<Rightarrow> memory \<Rightarrow> bool" where
  "written D v n m m' \<longleftrightarrow> (\<forall>i<n. m' (D i) = v i) \<and> (\<forall>a. a \<notin> D ` {..<n} \<longrightarrow> m' a = m a)"

lemma written_0: "written D v 0 m m"
  by (simp add: written_def)

lemma written_step:
  assumes "written D v k m m1" "written (\<lambda>i. D (k + i)) (\<lambda>i. v (k + i)) n m1 m2"
    "k \<le> k + n" "inj_on D {..<k + n}"
  shows "written D v (k + n) m m2"
proof -
  have split: "i < k \<or> (\<exists>j<n. i = k + j)" if "i < k + n" for i
    using that assms(3) by (cases "i < k") (auto intro!: exI[of _ "i - k"], unat_arith)
  have up: "j < n \<Longrightarrow> k + j < k + n \<and> k \<le> k + j" for j using assms(3) by unat_arith
  have "m2 (D i) = v i" if i: "i < k + n" for i
  proof (cases "i < k")
    case True
    have "D i \<noteq> D (k + j)" if "j < n" for j
      using inj_onD[OF assms(4), of i "k + j"] up[OF that] True i by (auto simp: not_less)
    then have "m2 (D i) = m1 (D i)" using assms(2) by (auto simp: written_def)
    then show ?thesis using assms(1) True by (simp add: written_def)
  next
    case False
    then obtain j where "j < n" "i = k + j" using split[OF i] by blast
    then show ?thesis using assms(2) by (simp add: written_def)
  qed
  moreover have "m2 a = m a" if "a \<notin> D ` {..<k + n}" for a
  proof -
    have "a \<notin> D ` {..<k}" "a \<notin> (\<lambda>i. D (k + i)) ` {..<n}" using that up assms(3) by (auto intro: order_less_le_trans)
    then show ?thesis using assms(1,2) by (simp add: written_def)
  qed
  ultimately show ?thesis by (simp add: written_def)
qed

text \<open>
  The loop over a range that is wholly mapped: it transfers all bytes, allocates nothing and returns
  the length. The transfer of a chunk writes the chunk's share of the addresses \<open>D\<close>, and these
  writes do not change the translation of the range.
\<close>

lemma user_loop_written:
  fixes s :: "'a pt_state_scheme"
  assumes mapped: "\<And>i. i < len \<Longrightarrow> get_ptbl_entry_by_va pid (uva + i) s \<noteq> 0"
    and step: "\<And>off sz m. off < len \<Longrightarrow> sz = chunk (len - off) (upa pid (uva + off) s) \<Longrightarrow>
      (\<forall>a. a \<notin> D ` {..<len} \<longrightarrow> m a = mem s a) \<Longrightarrow>
      written (\<lambda>i. D (off + i)) (\<lambda>i. v (off + i)) sz m (mv (upa pid (uva + off) s) (kva + off) sz m)"
    and inj: "inj_on D {..<len}"
    and stable: "\<And>m i. i < len \<Longrightarrow> (\<forall>a. a \<notin> D ` {..<len} \<longrightarrow> m a = mem s a) \<Longrightarrow>
      get_ptbl_entry_by_va pid (uva + i) (s\<lparr>mem := m\<rparr>) = get_ptbl_entry_by_va pid (uva + i) s"
  shows "\<exists>m. user_loop mv pid uva kva len 0 s = Inr (len, s\<lparr>mem := m\<rparr>) \<and> written D v len (mem s) m"
proof -
  have "\<exists>m'. user_loop mv pid (uva + off) (kva + off) (len - off) off (s\<lparr>mem := m\<rparr>) = Inr (len, s\<lparr>mem := m'\<rparr>)
      \<and> written D v len (mem s) m'"
    if "off \<le> len" "written D v off (mem s) m" for off m
    using that
  proof (induction "unat (len - off)" arbitrary: off m rule: less_induct)
    case less
    show ?case
    proof (cases "off < len")
      case True
      let ?pa = "upa pid (uva + off) s"
      let ?sz = "chunk (len - off) ?pa"
      have sz: "?sz \<le> len - off" "?sz \<noteq> 0" using chunk_bounds(1,2)[of "len - off" ?pa] True by auto
      then have le: "off \<le> off + ?sz" "off + ?sz \<le> len" "unat (len - (off + ?sz)) < unat (len - off)"
        using True by unat_arith+
      have out: "\<forall>a. a \<notin> D ` {..<len} \<longrightarrow> m a = mem s a"
        using less.prems image_mono[of "{..<off}" "{..<len}" D] unfolding written_def by fastforce
      have "get_ptbl_entry_by_va pid (uva + off) (s\<lparr>mem := m\<rparr>) = get_ptbl_entry_by_va pid (uva + off) s"
        by (rule stable[OF True out])
      then have pa: "user_pa pid (uva + off) (s\<lparr>mem := m\<rparr>) = Inr (?pa, s\<lparr>mem := m\<rparr>)"
        using mapped[OF True] by (simp add: user_pa_mapped upa_def)
      have "inj_on D {..<off + ?sz}" using inj le(2) by (auto intro: inj_on_subset order_less_le_trans)
      from written_step[OF less.prems(2) step[OF True refl out] le(1) this]
      have w: "written D v (off + ?sz) (mem s) (mv ?pa (kva + off) ?sz m)" .
      have "user_loop mv pid (uva + off) (kva + off) (len - off) off (s\<lparr>mem := m\<rparr>)
          = user_loop mv pid (uva + (off + ?sz)) (kva + (off + ?sz)) (len - (off + ?sz)) (off + ?sz)
              (s\<lparr>mem := mv ?pa (kva + off) ?sz m\<rparr>)"
        using True pa by (subst user_loop.simps) (auto simp: Let_def add.assoc diff_diff_eq)
      then show ?thesis using less.hyps[OF le(3,2) w] by simp
    next
      case False
      then have "off = len" using less.prems(1) by simp
      then show ?thesis using less.prems(2) by (auto simp: user_loop.simps)
    qed
  qed
  from this[of 0 "mem s"] show ?thesis by (simp add: written_0)
qed

lemma image_offset: "a - dst < n \<Longrightarrow> a \<in> (\<lambda>i. dst + i) ` {..<n}" for a :: u32
  by (rule image_eqI[of _ _ "a - dst"]) auto

lemma memcpy_written:
  assumes "in_space dst n" "in_space src n" "\<And>i. i < n \<Longrightarrow> m (src + i) = v i"
  shows "written (\<lambda>i. dst + i) v n m (memcpy dst src n m)"
  using assms(3) image_offset[of _ dst n] unfolding memcpy_def memmove_eq[OF assms(1,2)] written_def by auto

lemma memset_written: "written (\<lambda>i. pa + i) (\<lambda>i. ucast c) n m (memset pa c n m)"
  using image_offset[of _ pa n] unfolding memset_eq written_def by auto

section \<open>Buffers\<close>

text \<open>
  A user buffer that is wholly mapped: within the user half, every byte translated, no two bytes on
  the same physical byte, and none on a page table entry that the translation of the buffer uses.
\<close>

definition pte_cell :: "u32 \<Rightarrow> u32 \<Rightarrow> 'a pt_state_scheme \<Rightarrow> u32" where
  "pte_cell pid va s = pte_addr (PDirPool s pid (pde_of va)) (pte_of va)"

definition off_tables :: "u32 \<Rightarrow> u32 \<Rightarrow> u32 \<Rightarrow> u32 \<Rightarrow> 'a pt_state_scheme \<Rightarrow> bool" where
  "off_tables a pid uva len s \<longleftrightarrow> (\<forall>j<len. a \<notin> {pte_cell pid (uva + j) s, pte_cell pid (uva + j) s + 1,
     pte_cell pid (uva + j) s + 2, pte_cell pid (uva + j) s + 3})"

definition user_buffer :: "u32 \<Rightarrow> u32 \<Rightarrow> u32 \<Rightarrow> 'a pt_state_scheme \<Rightarrow> bool" where
  "user_buffer pid uva len s \<longleftrightarrow> VM_USERLO \<le> uva \<and> unat uva + unat len \<le> unat VM_USERHI
     \<and> (\<forall>i<len. get_ptbl_entry_by_va pid (uva + i) s \<noteq> 0)
     \<and> inj_on (\<lambda>i. upa pid (uva + i) s) {..<len}
     \<and> (\<forall>i<len. off_tables (upa pid (uva + i) s) pid uva len s)"

text \<open>A kernel buffer apart from the user buffer and from the page tables of its translation.\<close>

definition kernel_buffer :: "u32 \<Rightarrow> u32 \<Rightarrow> u32 \<Rightarrow> u32 \<Rightarrow> 'a pt_state_scheme \<Rightarrow> bool" where
  "kernel_buffer kva pid uva len s \<longleftrightarrow> unat kva + unat len \<le> unat VM_USERHI
     \<and> (\<forall>i<len. off_tables (kva + i) pid uva len s)
     \<and> (\<forall>i<len. \<forall>j<len. kva + i \<noteq> upa pid (uva + j) s)"

lemma entry_stable:
  assumes "i < len" "\<forall>a. a \<notin> D ` {..<len} \<longrightarrow> m a = mem s a" "\<And>j. j < len \<Longrightarrow> off_tables (D j) pid uva len s"
  shows "get_ptbl_entry_by_va pid (uva + i) (s\<lparr>mem := m\<rparr>) = get_ptbl_entry_by_va pid (uva + i) s"
proof -
  let ?c = "pte_cell pid (uva + i) s"
  have "a \<notin> D ` {..<len}" if "a \<in> {?c, ?c + 1, ?c + 2, ?c + 3}" for a
    using assms(1,3) that by (auto simp: off_tables_def)
  then have "m ?c = mem s ?c" "m (?c + 1) = mem s (?c + 1)" "m (?c + 2) = mem s (?c + 2)" "m (?c + 3) = mem s (?c + 3)"
    using assms(2) by simp_all
  then have "load32 m ?c = load32 (mem s) ?c" by (simp only: load32_def)
  then show ?thesis by (simp add: get_ptbl_entry_by_va_def get_pdir_entry_def get_ptbl_entry_def pte_cell_def)
qed

lemma range_checks:
  assumes "user_buffer pid uva len s"
  shows "VM_USERLO \<le> uva \<and> uva + len \<le> VM_USERHI"
  using assms by (auto simp: user_buffer_def word_le_nat_alt VM_USERHI_def unat_word_ariths)

lemma kernel_check: "unat kva + unat len \<le> unat VM_USERHI \<Longrightarrow> \<not> kva + len > VM_USERHI"
  by (auto simp: word_less_nat_alt VM_USERHI_def unat_word_ariths)

lemma in_space_sub:
  assumes "unat kva + unat len \<le> unat VM_USERHI" "off < len" "sz \<le> len - off"
  shows "in_space (kva + off) sz"
proof -
  have "unat off + unat sz \<le> unat len" using assms(2,3) by (simp add: word_le_nat_alt word_less_nat_alt unat_sub)
  moreover have "unat (kva + off) = unat kva + unat off"
    using assms(1,2) by (simp add: VM_USERHI_def unat_word_ariths word_less_nat_alt)
  ultimately show ?thesis using assms(1) by (simp add: in_space_def VM_USERHI_def)
qed

lemma chunk_index:
  assumes "off < len" "i < chunk (len - off) pa"
  shows "off + i < len"
proof -
  have "i < len - off" using assms(2) chunk_bounds(1) by (rule order_less_le_trans)
  then show ?thesis using assms(1) by unat_arith
qed

lemma inj_offset: "inj_on (\<lambda>i. kva + i) A" for kva :: u32
  by (simp add: inj_on_def)

section \<open>Copying is correct\<close>

lemma copyout_ok:
  fixes s :: "'a pt_state_scheme"
  assumes ub: "user_buffer pid uva len s" and kb: "kernel_buffer kva pid uva len s"
  shows "\<exists>m. pt_copyout kva pid uva len s = Inr (len, s\<lparr>mem := m\<rparr>)
    \<and> written (\<lambda>i. upa pid (uva + i) s) (\<lambda>i. mem s (kva + i)) len (mem s) m"
proof -
  let ?D = "\<lambda>i. upa pid (uva + i) s" and ?v = "\<lambda>i. mem s (kva + i)"
  from kb have k: "unat kva + unat len \<le> unat VM_USERHI" "\<And>i j. i < len \<Longrightarrow> j < len \<Longrightarrow> kva + i \<noteq> ?D j"
    by (auto simp: kernel_buffer_def)
  have "\<exists>m. user_loop (\<lambda>uva_pa kva sz. memcpy uva_pa kva sz) pid uva kva len 0 s = Inr (len, s\<lparr>mem := m\<rparr>)
    \<and> written ?D ?v len (mem s) m"
  proof (rule user_loop_written)
    show "inj_on ?D {..<len}" "\<And>i. i < len \<Longrightarrow> get_ptbl_entry_by_va pid (uva + i) s \<noteq> 0"
      using ub by (simp_all add: user_buffer_def)
    show "get_ptbl_entry_by_va pid (uva + i) (s\<lparr>mem := m\<rparr>) = get_ptbl_entry_by_va pid (uva + i) s"
      if "i < len" "\<forall>a. a \<notin> ?D ` {..<len} \<longrightarrow> m a = mem s a" for m i
      using ub by (intro entry_stable[OF that]) (simp add: user_buffer_def)
    fix off sz m
    assume off: "off < len" and sz: "sz = chunk (len - off) (upa pid (uva + off) s)"
      and m: "\<forall>a. a \<notin> ?D ` {..<len} \<longrightarrow> m a = mem s a"
    have le: "sz \<le> len - off" using chunk_bounds(1) sz by blast
    have "m (kva + off + i) = mem s (kva + off + i)" if "i < sz" for i
      using m k(2)[OF chunk_index[OF off, of i]] that sz by (auto simp: add.assoc)
    then have "written (\<lambda>i. ?D off + i) (\<lambda>i. ?v (off + i)) sz m (memcpy (?D off) (kva + off) sz m)"
      using in_space_chunk[of pid "uva + off" s "len - off"] in_space_sub[OF k(1) off le] sz
      by (intro memcpy_written) (simp_all add: add.assoc)
    then show "written (\<lambda>i. ?D (off + i)) (\<lambda>i. ?v (off + i)) sz m (memcpy (?D off) (kva + off) sz m)"
      using upa_chunk(2)[of _ "len - off" pid "uva + off" s] sz by (simp add: written_def image_def add.assoc)
  qed
  then show ?thesis using range_checks[OF ub] kernel_check[OF k(1)] by (simp add: pt_copyout_def)
qed

lemma copyin_ok:
  fixes s :: "'a pt_state_scheme"
  assumes ub: "user_buffer pid uva len s" and kb: "kernel_buffer kva pid uva len s"
  shows "\<exists>m. pt_copyin pid uva kva len s = Inr (len, s\<lparr>mem := m\<rparr>)
    \<and> written (\<lambda>i. kva + i) (\<lambda>i. user_byte pid (uva + i) s) len (mem s) m"
proof -
  let ?D = "\<lambda>i. kva + i" and ?v = "\<lambda>i. user_byte pid (uva + i) s"
  from kb have k: "unat kva + unat len \<le> unat VM_USERHI" "\<And>i j. i < len \<Longrightarrow> j < len \<Longrightarrow> kva + i \<noteq> upa pid (uva + j) s"
    by (auto simp: kernel_buffer_def)
  have "\<exists>m. user_loop (\<lambda>uva_pa kva sz. memcpy kva uva_pa sz) pid uva kva len 0 s = Inr (len, s\<lparr>mem := m\<rparr>)
    \<and> written ?D ?v len (mem s) m"
  proof (rule user_loop_written)
    show "inj_on ?D {..<len}" by (rule inj_offset)
    show "\<And>i. i < len \<Longrightarrow> get_ptbl_entry_by_va pid (uva + i) s \<noteq> 0" using ub by (simp add: user_buffer_def)
    show "get_ptbl_entry_by_va pid (uva + i) (s\<lparr>mem := m\<rparr>) = get_ptbl_entry_by_va pid (uva + i) s"
      if "i < len" "\<forall>a. a \<notin> ?D ` {..<len} \<longrightarrow> m a = mem s a" for m i
      using kb by (intro entry_stable[OF that]) (simp add: kernel_buffer_def)
    fix off sz m
    assume off: "off < len" and sz: "sz = chunk (len - off) (upa pid (uva + off) s)"
      and m: "\<forall>a. a \<notin> ?D ` {..<len} \<longrightarrow> m a = mem s a"
    have le: "sz \<le> len - off" using chunk_bounds(1) sz by blast
    have "m (upa pid (uva + off) s + i) = user_byte pid (uva + (off + i)) s" if "i < sz" for i
    proof -
      have e: "upa pid (uva + off) s + i = upa pid (uva + (off + i)) s"
        using upa_chunk(2)[of i "len - off" pid "uva + off" s] that sz by (simp add: add.assoc)
      have "off + i < len" using chunk_index[OF off] that sz by blast
      from k(2)[OF _ this] have "upa pid (uva + (off + i)) s \<notin> ?D ` {..<len}" by (metis imageE lessThan_iff)
      then show ?thesis using m e by (simp add: user_byte_def)
    qed
    then have "written (\<lambda>i. kva + off + i) (\<lambda>i. ?v (off + i)) sz m (memcpy (kva + off) (upa pid (uva + off) s) sz m)"
      using in_space_chunk[of pid "uva + off" s "len - off"] in_space_sub[OF k(1) off le] sz
      by (intro memcpy_written) (simp_all add: add.assoc)
    then show "written (\<lambda>i. ?D (off + i)) (\<lambda>i. ?v (off + i)) sz m (memcpy (kva + off) (upa pid (uva + off) s) sz m)"
      by (simp add: add.assoc)
  qed
  then show ?thesis using range_checks[OF ub] kernel_check[OF k(1)] by (simp add: pt_copyin_def)
qed

lemma memset_ok:
  fixes s :: "'a pt_state_scheme"
  assumes ub: "user_buffer pid va len s"
  shows "\<exists>m. pt_memset pid va c len s = Inr (len, s\<lparr>mem := m\<rparr>)
    \<and> written (\<lambda>i. upa pid (va + i) s) (\<lambda>i. c) len (mem s) m"
  unfolding pt_memset_def
proof (rule user_loop_written)
  let ?D = "\<lambda>i. upa pid (va + i) s"
  show "inj_on ?D {..<len}" "\<And>i. i < len \<Longrightarrow> get_ptbl_entry_by_va pid (va + i) s \<noteq> 0"
    using ub by (simp_all add: user_buffer_def)
  show "get_ptbl_entry_by_va pid (va + i) (s\<lparr>mem := m\<rparr>) = get_ptbl_entry_by_va pid (va + i) s"
    if "i < len" "\<forall>a. a \<notin> ?D ` {..<len} \<longrightarrow> m a = mem s a" for m i
    using ub by (intro entry_stable[OF that]) (simp add: user_buffer_def)
  fix off sz m
  assume sz: "sz = chunk (len - off) (upa pid (va + off) s)"
  have "ucast (scast c :: u32) = c" by (rule bit_word_eqI) (auto simp: bit_simps)
  then have "written (\<lambda>i. ?D off + i) (\<lambda>i. c) sz m (memset (?D off) (scast c) sz m)"
    using memset_written[of "?D off" "scast c" sz m] by simp
  then show "written (\<lambda>i. ?D (off + i)) (\<lambda>i. c) sz m (memset (?D off) (scast c) sz m)"
    using upa_chunk(2)[of _ "len - off" pid "va + off" s] sz by (simp add: written_def image_def add.assoc)
qed

section \<open>Properties\<close>

lemma upa_stable:
  assumes "written D v len (mem s) m" "\<And>j. j < len \<Longrightarrow> off_tables (D j) pid uva len s" "i < len"
  shows "get_ptbl_entry_by_va pid (uva + i) (s\<lparr>mem := m\<rparr>) = get_ptbl_entry_by_va pid (uva + i) s"
    "upa pid (uva + i) (s\<lparr>mem := m\<rparr>) = upa pid (uva + i) s"
proof -
  show "get_ptbl_entry_by_va pid (uva + i) (s\<lparr>mem := m\<rparr>) = get_ptbl_entry_by_va pid (uva + i) s"
    using assms unfolding written_def by (intro entry_stable[where D = D]) blast+
  then show "upa pid (uva + i) (s\<lparr>mem := m\<rparr>) = upa pid (uva + i) s" by (simp add: upa_def)
qed

lemma buffers_stable:
  assumes w: "written D v len (mem s) m" and D: "\<And>j. j < len \<Longrightarrow> off_tables (D j) pid uva len s"
    and ub: "user_buffer pid uva len s" and kb: "kernel_buffer kva pid uva len s"
  shows "user_buffer pid uva len (s\<lparr>mem := m\<rparr>)" "kernel_buffer kva pid uva len (s\<lparr>mem := m\<rparr>)"
proof -
  note u = upa_stable[OF w D]
  have o: "off_tables a pid uva len (s\<lparr>mem := m\<rparr>) = off_tables a pid uva len s" for a
    by (simp add: off_tables_def pte_cell_def)
  have "inj_on (\<lambda>i. upa pid (uva + i) (s\<lparr>mem := m\<rparr>)) {..<len} = inj_on (\<lambda>i. upa pid (uva + i) s) {..<len}"
    using u(2) by (intro inj_on_cong) simp
  with ub u o show "user_buffer pid uva len (s\<lparr>mem := m\<rparr>)" by (simp add: user_buffer_def)
  from kb u o show "kernel_buffer kva pid uva len (s\<lparr>mem := m\<rparr>)" by (simp add: kernel_buffer_def)
qed

text \<open>
  C21: \<^verbatim>\<open>pt_copyout\<close> and \<^verbatim>\<open>pt_copyin\<close> carry data across page boundaries faithfully. For a user buffer that
  is mapped, on physical bytes of its own, \<^verbatim>\<open>pt_copyout\<close> from a kernel buffer returns the whole length,
  the process then sees the kernel's bytes in its buffer, and no other byte of memory changes;
  copying the buffer back in to a second kernel buffer delivers the original bytes there.
\<close>

theorem pt_copy_roundtrip:
  fixes s :: "'a pt_state_scheme"
  assumes ub: "user_buffer pid uva len s" and kb: "kernel_buffer kva pid uva len s"
    and kb2: "kernel_buffer kva2 pid uva len s"
  shows "\<exists>s1 s2. pt_copyout kva pid uva len s = Inr (len, s1)
    \<and> (\<forall>i<len. user_byte pid (uva + i) s1 = mem s (kva + i))
    \<and> (\<forall>a. (\<forall>i<len. a \<noteq> upa pid (uva + i) s) \<longrightarrow> mem s1 a = mem s a)
    \<and> pt_copyin pid uva kva2 len s1 = Inr (len, s2)
    \<and> (\<forall>i<len. mem s2 (kva2 + i) = mem s (kva + i))"
proof -
  obtain m where m: "pt_copyout kva pid uva len s = Inr (len, s\<lparr>mem := m\<rparr>)"
    and w: "written (\<lambda>i. upa pid (uva + i) s) (\<lambda>i. mem s (kva + i)) len (mem s) m"
    using copyout_ok[OF ub kb] by blast
  let ?s1 = "s\<lparr>mem := m\<rparr>"
  have D: "off_tables (upa pid (uva + j) s) pid uva len s" if "j < len" for j
    using ub that by (simp add: user_buffer_def)
  note st = buffers_stable[OF w D ub kb2]
  have seen: "user_byte pid (uva + i) ?s1 = mem s (kva + i)" if "i < len" for i
    using upa_stable[OF w D that] w that by (simp add: user_byte_def written_def)
  obtain m2 where m2: "pt_copyin pid uva kva2 len ?s1 = Inr (len, ?s1\<lparr>mem := m2\<rparr>)"
    "written (\<lambda>i. kva2 + i) (\<lambda>i. user_byte pid (uva + i) ?s1) len (mem ?s1) m2"
    using copyin_ok[OF st] by blast
  have "m a = mem s a" if "\<forall>i<len. a \<noteq> upa pid (uva + i) s" for a
    using w that by (auto simp: written_def image_iff)
  moreover have "m2 (kva2 + i) = mem s (kva + i)" if "i < len" for i
    using m2(2) seen[OF that] that by (simp add: written_def)
  ultimately show ?thesis using m m2(1) seen by (intro exI[of _ ?s1] exI[of _ "?s1\<lparr>mem := m2\<rparr>"]) simp
qed

text \<open>
  The range checks of \<^verbatim>\<open>pt_copyin\<close> do not reject every range that leaves the user half: their sums
  wrap around. The range from \<open>uva\<close> to the very end of the address space passes, and the loop runs.
\<close>

lemma pt_copy_check_wraps:
  assumes "VM_USERLO \<le> uva" "uva \<le> VM_USERHI" "kva - uva \<le> VM_USERHI"
  shows "pt_copyin pid uva kva (0 - uva) s
      = user_loop (\<lambda>uva_pa kva sz. memcpy kva uva_pa sz) pid uva kva (0 - uva) 0 s"
    "VM_USERHI - uva < 0 - uva"
proof -
  show "pt_copyin pid uva kva (0 - uva) s
      = user_loop (\<lambda>uva_pa kva sz. memcpy kva uva_pa sz) pid uva kva (0 - uva) 0 s"
    using assms by (auto simp: pt_copyin_def not_less)
  have "uva \<noteq> 0" using assms(1) by (auto simp: VM_USERLO_def)
  then have "unat (0 - uva) = 4294967296 - unat uva"
    using unat_sub_if'[of 0 uva] by (simp only: word_size) (simp add: unat_eq_zero)
  then show "VM_USERHI - uva < 0 - uva"
    using assms(2) by (simp add: word_less_nat_alt unat_sub VM_USERHI_def word_le_nat_alt)
qed

section \<open>Witness\<close>

text \<open>The process of \<^const>\<open>cow_example\<close> has one page, on physical page \<^verbatim>\<open>0x40001\<close>.\<close>

lemma cow_example_entry:
  assumes "drop_bit 12 va = drop_bit 12 (0x40000000 :: u32)"
  shows "get_ptbl_entry_by_va 1 va cow_example = 0x40001805" "pte_cell 1 va cow_example = 0x40000000"
proof -
  have ix: "pte_of va = 0" "pde_of va = 256"
    using same_page_iff[of va "0x40000000"] assms pt_example1_pde(1) by (auto simp: pte_of_def)
  have pde: "PDirPool cow_example 1 256 = 0x40000007" using pt_example1_pde by (simp add: cow_example_def)
  show "get_ptbl_entry_by_va 1 va cow_example = 0x40001805"
    by (simp add: get_ptbl_entry_by_va_def get_pdir_entry_def get_ptbl_entry_def pde ix
        NUM_IDS_def pte_addr_def Let_def) (simp add: cow_example_def load32_def)
  show "pte_cell 1 va cow_example = 0x40000000" by (simp add: pte_cell_def ix pde pte_addr_def)
qed


lemma cow_example_buffers:
  "user_buffer 1 0x40000010 4 cow_example"
  "k < 0x1000000 \<Longrightarrow> kernel_buffer k 1 0x40000010 4 cow_example"
  "i < 4 \<Longrightarrow> upa 1 (0x40000010 + i) cow_example = 0x40001010 + i"
proof -
  have i4: "i = 0 \<or> i = 1 \<or> i = 2 \<or> i = 3" if "i < 4" for i :: u32
    using that by (simp add: word_less_nat_alt unat_less_4)
  have pg: "drop_bit 12 (0x40000010 + i :: u32) = drop_bit 12 (0x40000000 :: u32)" if "i < 4" for i
    using i4[OF that] by auto
  have en: "get_ptbl_entry_by_va 1 (0x40000010 + i) cow_example = 0x40001805"
    "pte_cell 1 (0x40000010 + i) cow_example = 0x40000000" if "i < 4" for i
    using cow_example_entry[OF pg[OF that]] by simp_all
  have ua: "upa 1 (0x40000010 + i) cow_example = 0x40001010 + i" if "i < 4" for i
    using en(1)[OF that] i4[OF that] by (auto simp: upa_def PAGESIZE_def)
  then show "i < 4 \<Longrightarrow> upa 1 (0x40000010 + i) cow_example = 0x40001010 + i" .
  have "inj_on (\<lambda>i. upa 1 (0x40000010 + i) cow_example) {..<4} = inj_on (\<lambda>i. 0x40001010 + i) {..<4 :: u32}"
    using ua by (intro inj_on_cong) simp
  then have "inj_on (\<lambda>i. upa 1 (0x40000010 + i) cow_example) {..<4}" using inj_offset by blast
  moreover have "off_tables (upa 1 (0x40000010 + i) cow_example) 1 0x40000010 4 cow_example" if "i < 4" for i
    using i4[OF that] ua[OF that] en(2) by (auto simp: off_tables_def)
  ultimately show "user_buffer 1 0x40000010 4 cow_example"
    using en(1) by (simp add: user_buffer_def VM_USERLO_def VM_USERHI_def)
  assume k: "k < 0x1000000"
  have far: "unat (k + i) < 0x1000004" if "i < 4" for i
    using k that by (simp add: word_less_nat_alt unat_word_ariths)
  have "off_tables (k + i) 1 0x40000010 4 cow_example" "k + i \<noteq> upa 1 (0x40000010 + j) cow_example" if "i < 4" "j < 4" for i j
    using far[OF that(1)] en(2) ua[OF that(2)] i4[OF that(2)] by (auto simp: off_tables_def)
  then show "kernel_buffer k 1 0x40000010 4 cow_example"
    using k by (auto simp: kernel_buffer_def VM_USERHI_def word_less_nat_alt)
qed

theorem pt_copy_roundtrip_witness:
  "\<exists>s1 s2. pt_copyout 0x100000 1 0x40000010 4 cow_example = Inr (4, s1)
     \<and> pt_copyin 1 0x40000010 0x200000 4 s1 = Inr (4, s2)
     \<and> mem s2 0x200003 = mem cow_example 0x100003"
  using pt_copy_roundtrip[OF cow_example_buffers(1) cow_example_buffers(2) cow_example_buffers(2), of "0x100000" "0x200000"]
  by (force dest: spec[of _ 3])

end
