(* ===== verification/Elf.thy ===== *)
theory Elf
  imports PMap
begin

text \<open>
  Loading an executable into the address space of a new process, \<^verbatim>\<open>kern/lib/elf.c\<close>. The file is
  linked into the kernel image, so its headers are read straight from memory. Assertions are those
  of the debug build, in which a failing one panics.
\<close>

section \<open>Headers\<close>

definition ELF_MAGIC :: u32 where "ELF_MAGIC = 0x464C457F"
definition ELF_PROG_LOAD :: u32 where "ELF_PROG_LOAD = 1"
definition ELF_PROG_FLAG_WRITE :: u32 where "ELF_PROG_FLAG_WRITE = 2"
definition ELF_SHT_STRTAB :: u32 where "ELF_SHT_STRTAB = 3"
definition ELF_SHN_UNDEF :: u32 where "ELF_SHN_UNDEF = 0"

text \<open>The fields of \<^verbatim>\<open>elfhdr\<close> the loader reads, by their offsets.\<close>

definition e_magic :: "memory \<Rightarrow> u32 \<Rightarrow> u32" where "e_magic m eh = load32 m eh"
definition e_entry :: "memory \<Rightarrow> u32 \<Rightarrow> u32" where "e_entry m eh = load32 m (eh + 24)"
definition e_phoff :: "memory \<Rightarrow> u32 \<Rightarrow> u32" where "e_phoff m eh = load32 m (eh + 28)"
definition e_shoff :: "memory \<Rightarrow> u32 \<Rightarrow> u32" where "e_shoff m eh = load32 m (eh + 32)"
definition e_phnum :: "memory \<Rightarrow> u32 \<Rightarrow> u32" where "e_phnum m eh = load16 m (eh + 44)"
definition e_shstrndx :: "memory \<Rightarrow> u32 \<Rightarrow> u32" where "e_shstrndx m eh = load16 m (eh + 50)"

text \<open>A program header of 32 bytes, and the type of a section header of 40 bytes.\<close>

record proghdr =
  p_type :: u32
  p_offset :: u32
  p_va :: u32
  p_filesz :: u32
  p_memsz :: u32
  p_flags :: u32

definition proghdr_at :: "memory \<Rightarrow> u32 \<Rightarrow> proghdr" where
  "proghdr_at m ph = \<lparr>p_type = load32 m ph, p_offset = load32 m (ph + 4), p_va = load32 m (ph + 8),
     p_filesz = load32 m (ph + 16), p_memsz = load32 m (ph + 20), p_flags = load32 m (ph + 24)\<rparr>"

definition sh_type :: "memory \<Rightarrow> u32 \<Rightarrow> u32" where "sh_type m sh = load32 m (sh + 4)"

section \<open>Loading\<close>

text \<open>
  One page of a segment: a complete page of the file, the last part of it after zeroes, or zeroes.
  \<open>zva\<close> is the end of the part the file holds; \<^verbatim>\<open>ph->p_filesz\<close> is read again from memory.
\<close>

definition elf_page :: "u32 \<Rightarrow> u32 \<Rightarrow> u32 \<Rightarrow> u32 \<Rightarrow> u32 \<Rightarrow> u32 \<Rightarrow> 'a pt_state_scheme \<Rightarrow> 'a pt_state_scheme res" where
  "elf_page pid ph perm zva va fa s =
     rbind (alloc_page pid va perm s) (\<lambda>(_, s1).
     if va < rounddown zva PAGESIZE
     then rbind (pt_copyout fa pid va PAGESIZE s1) (\<lambda>(_, s2). Inr s2)
     else if va < zva \<and> p_filesz (proghdr_at (mem s1) ph) \<noteq> 0
     then rbind (pt_memset pid va 0 PAGESIZE s1) (\<lambda>(_, s2).
          rbind (pt_copyout fa pid va (zva - va) s2) (\<lambda>(_, s3). Inr s3))
     else rbind (pt_memset pid va 0 PAGESIZE s1) (\<lambda>(_, s2). Inr s2))"

text \<open>The two loops; a pointer that never meets its end would make them run for ever.\<close>

partial_function (option) elf_pages ::
  "u32 \<Rightarrow> u32 \<Rightarrow> u32 \<Rightarrow> u32 \<Rightarrow> u32 \<Rightarrow> u32 \<Rightarrow> u32 \<Rightarrow> 'a pt_state_scheme \<Rightarrow> 'a pt_state_scheme res option" where
  "elf_pages pid ph perm zva eva va fa s =
     (if va < eva
      then (case elf_page pid ph perm zva va fa s of
              Inl e \<Rightarrow> Some (Inl e)
            | Inr s1 \<Rightarrow> elf_pages pid ph perm zva eva (va + PAGESIZE) (fa + PAGESIZE) s1)
      else Some (Inr s))"

definition elf_segment :: "u32 \<Rightarrow> u32 \<Rightarrow> u32 \<Rightarrow> 'a pt_state_scheme \<Rightarrow> 'a pt_state_scheme res option" where
  "elf_segment exe pid ph s =
     (let h = proghdr_at (mem s) ph
      in if p_type h \<noteq> ELF_PROG_LOAD then Some (Inr s)
         else (let fa = exe + rounddown (p_offset h) PAGESIZE;
                   va = rounddown (p_va h) PAGESIZE;
                   zva = p_va h + p_filesz h;
                   eva = roundup (p_va h + p_memsz h) PAGESIZE;
                   perm = PTE_U OR PTE_P;
                   perm = (if p_flags h AND ELF_PROG_FLAG_WRITE \<noteq> 0 then perm OR PTE_W else perm)
               in elf_pages pid ph perm zva eva va fa s))"

partial_function (option) elf_segments ::
  "u32 \<Rightarrow> u32 \<Rightarrow> u32 \<Rightarrow> u32 \<Rightarrow> 'a pt_state_scheme \<Rightarrow> 'a pt_state_scheme res option" where
  "elf_segments exe pid eph ph s =
     (if ph < eph
      then (case elf_segment exe pid ph s of
              None \<Rightarrow> None
            | Some (Inl e) \<Rightarrow> Some (Inl e)
            | Some (Inr s1) \<Rightarrow> elf_segments exe pid eph (ph + 32) s1)
      else Some (Inr s))"

definition elf_load :: "u32 \<Rightarrow> u32 \<Rightarrow> 'a pt_state_scheme \<Rightarrow> 'a pt_state_scheme res" where
  "elf_load exe pid s =
     (let eh = exe
      in if e_magic (mem s) eh \<noteq> ELF_MAGIC then Inl Panic
         else if e_shstrndx (mem s) eh = ELF_SHN_UNDEF then Inl Panic
         else (let sh = eh + e_shoff (mem s) eh
               in if sh_type (mem s) (sh + e_shstrndx (mem s) eh * 40) \<noteq> ELF_SHT_STRTAB then Inl Panic
                  else (let ph = eh + e_phoff (mem s) eh;
                            eph = ph + e_phnum (mem s) eh * 32
                        in case elf_segments exe pid eph ph s of None \<Rightarrow> Inl Diverges | Some r \<Rightarrow> r)))"

definition elf_entry :: "u32 \<Rightarrow> 'a machine_scheme \<Rightarrow> u32 res" where
  "elf_entry exe s = (if e_magic (mem s) exe = ELF_MAGIC then Inr (e_entry (mem s) exe) else Inl Panic)"

section \<open>The loader returns\<close>

lemma container_alloc_total: "pid < NUM_IDS \<Longrightarrow> \<exists>p s'. container_alloc pid s = Inr (p, s')"
  for s :: "'a pt_state_scheme"
  by (rule container_alloc_outcome) auto

lemma alloc_page_total:
  assumes "pid < NUM_IDS"
  shows "\<exists>r s'. alloc_page pid va perm s = Inr (r, s')"
proof -
  obtain p s1 where p: "container_alloc pid s = Inr (p, s1)" using container_alloc_total[OF assms] by blast
  obtain t s2 where t: "container_alloc pid s1 = Inr (t, s2)" using container_alloc_total[OF assms] by blast
  have "\<exists>r s'. map_page pid va p perm s1 = Inr (r, s')" using t by (auto simp: map_page_def alloc_ptbl_def Let_def)
  then show ?thesis using p by (auto simp: alloc_page_def)
qed

lemma user_pa_total:
  assumes "pid < NUM_IDS"
  shows "\<exists>r s'. user_pa pid va s = Inr (r, s')"
proof -
  obtain r s' where "alloc_page pid va (PTE_P OR PTE_U OR PTE_W) s = Inr (r, s')"
    using alloc_page_total[OF assms] by blast
  then show ?thesis by (simp add: user_pa_def Let_def)
qed

lemma user_loop_total: "pid < NUM_IDS \<Longrightarrow> \<exists>r s'. user_loop mv pid uva kva len copied s = Inr (r, s')"
proof (induction mv pid uva kva len copied s rule: user_loop.induct)
  case (1 mv pid uva kva len copied s)
  obtain pa s1 where pa: "user_pa pid uva s = Inr (pa, s1)" using user_pa_total[OF 1(2)] by blast
  show ?case
  proof (cases "len = 0")
    case False
    from 1(1)[OF False pa refl refl 1(2)] show ?thesis using False pa
      by (subst user_loop.simps) (simp add: Let_def)
  qed (simp add: user_loop.simps)
qed

lemma copy_total:
  assumes "pid < NUM_IDS"
  shows "\<exists>r s'. pt_copyout kva pid uva len s = Inr (r, s')" "\<exists>r s'. pt_memset pid uva c len s = Inr (r, s')"
  unfolding pt_copyout_def pt_memset_def by (auto simp: user_loop_total[OF assms])

lemma elf_page_total:
  assumes "pid < NUM_IDS"
  shows "\<exists>s'. elf_page pid ph perm zva va fa s = Inr s'"
proof -
  obtain r s1 where a: "alloc_page pid va perm s = Inr (r, s1)" using alloc_page_total[OF assms] by blast
  obtain r2 s2 where b: "pt_memset pid va 0 PAGESIZE s1 = Inr (r2, s2)" using copy_total(2)[OF assms] by blast
  obtain r3 s3 where c: "pt_copyout fa pid va (zva - va) s2 = Inr (r3, s3)" using copy_total(1)[OF assms] by blast
  obtain r4 s4 where d: "pt_copyout fa pid va PAGESIZE s1 = Inr (r4, s4)" using copy_total(1)[OF assms] by blast
  show ?thesis using a b c d by (simp add: elf_page_def)
qed

text \<open>A pointer that advances by \<open>k\<close> meets an end that is a multiple of \<open>k\<close> away.\<close>

lemma advance:
  assumes "va < eva" "k dvd unat eva - unat va" "unat k' = k" "0 < k"
  shows "unat (va + k') = unat va + k" "va + k' \<le> eva" "k dvd unat eva - unat (va + k')"
    "unat (eva - (va + k')) < unat (eva - (va :: u32))"
proof -
  have lt: "unat va < unat eva" using assms(1) by (simp add: word_less_nat_alt)
  then have "k \<le> unat eva - unat va" using assms(2) by (intro dvd_imp_le) simp_all
  then have le: "unat va + k \<le> unat eva" using lt by simp
  then show u: "unat (va + k') = unat va + k" using unat_u32_less[of eva] assms(3) by (simp add: unat_word_ariths)
  then show l: "va + k' \<le> eva" using le by (simp add: word_le_nat_alt)
  show "k dvd unat eva - unat (va + k')" using assms(2) unfolding u by (metis diff_diff_left dvd_diff_nat dvd_refl)
  show "unat (eva - (va + k')) < unat (eva - va)" using l u le lt assms(1,4) by (simp add: unat_sub order_less_imp_le)
qed

lemma elf_pages_total:
  assumes "pid < NUM_IDS" "va < eva \<Longrightarrow> 4096 dvd unat eva - unat va"
  shows "\<exists>s'. elf_pages pid ph perm zva eva va fa s = Some (Inr s')"
  using assms
proof (induction "unat (eva - va)" arbitrary: va fa s rule: less_induct)
  case less
  show ?case
  proof (cases "va < eva")
    case True
    obtain s1 where s1: "elf_page pid ph perm zva va fa s = Inr s1" using elf_page_total[OF less.prems(1)] by blast
    have P: "unat PAGESIZE = 4096" by (simp add: PAGESIZE_def)
    note adv = advance[OF True less.prems(2)[OF True] P]
    from less.hyps[of "va + PAGESIZE" "fa + PAGESIZE" s1, OF _ less.prems(1)] adv s1 True show ?thesis
      by (subst elf_pages.simps) simp
  qed (simp add: elf_pages.simps)
qed

lemma rounddown_page: "4096 dvd unat (rounddown a PAGESIZE)"
proof -
  have "a mod PAGESIZE \<le> a" by (simp add: word_le_nat_alt unat_mod)
  then have "unat (rounddown a PAGESIZE) = unat a - unat a mod 4096"
    by (simp add: rounddown_def unat_sub unat_mod PAGESIZE_def)
  then show ?thesis by (simp add: dvd_minus_mod)
qed

lemma elf_segment_total: "pid < NUM_IDS \<Longrightarrow> \<exists>s'. elf_segment exe pid ph s = Some (Inr s')"
  unfolding elf_segment_def roundup_def Let_def
  by (auto intro!: elf_pages_total dvd_diff_nat rounddown_page)

lemma elf_segments_total:
  assumes "pid < NUM_IDS" "ph < eph \<Longrightarrow> 32 dvd unat eph - unat ph"
  shows "\<exists>s'. elf_segments exe pid eph ph s = Some (Inr s')"
  using assms
proof (induction "unat (eph - ph)" arbitrary: ph s rule: less_induct)
  case less
  show ?case
  proof (cases "ph < eph")
    case True
    obtain s1 where s1: "elf_segment exe pid ph s = Some (Inr s1)" using elf_segment_total[OF less.prems(1)] by blast
    have P: "unat (32 :: u32) = 32" by simp
    note adv = advance[OF True less.prems(2)[OF True] P]
    from less.hyps[of "ph + 32" s1, OF _ less.prems(1)] adv s1 True show ?thesis
      by (subst elf_segments.simps) simp
  qed (simp add: elf_segments.simps)
qed

lemma load16_bound: "unat (load16 m a) < 65536"
proof -
  have "take_bit 16 (load16 m a) = load16 m a"
    by (rule bit_word_eqI) (auto simp: load16_def bit_simps dest: bit_imp_le_length)
  then have "unat (load16 m a) = unat (load16 m a) mod 65536" using unat_take_bit[of 16 "load16 m a"] by simp
  then show ?thesis by (metis mod_less_divisor zero_less_numeral)
qed

lemma header_distance:
  assumes "unat n < 65536" "ph < ph + n * 32"
  shows "32 dvd unat (ph + n * 32) - unat (ph :: u32)"
proof -
  have n: "unat (n * 32) = 32 * unat n" using assms(1) by (simp add: unat_word_ariths)
  then have "unat (ph + n * 32) = unat ph + 32 * unat n"
    using assms unat_u32_less[of ph] by (auto simp: word_less_nat_alt unat_word_ariths(1) mod_if split: if_splits)
  then show ?thesis by simp
qed

definition elf_ok :: "memory \<Rightarrow> u32 \<Rightarrow> bool" where
  "elf_ok m exe \<longleftrightarrow> e_magic m exe = ELF_MAGIC \<and> e_shstrndx m exe \<noteq> ELF_SHN_UNDEF
     \<and> sh_type m (exe + e_shoff m exe + e_shstrndx m exe * 40) = ELF_SHT_STRTAB"

lemma elf_load_ends:
  fixes s :: "'a pt_state_scheme"
  assumes "pid < NUM_IDS"
  shows "if elf_ok (mem s) exe then \<exists>s'. elf_load exe pid s = Inr s' else elf_load exe pid s = Inl Panic"
proof -
  let ?ph = "exe + e_phoff (mem s) exe" and ?n = "e_phnum (mem s) exe"
  have "unat ?n < 65536" unfolding e_phnum_def by (rule load16_bound)
  from header_distance[OF this, of ?ph] elf_segments_total[OF assms, of ?ph "?ph + ?n * 32" exe s]
  obtain s' where "elf_segments exe pid (?ph + ?n * 32) ?ph s = Some (Inr s')" by blast
  then show ?thesis by (auto simp: elf_load_def elf_ok_def Let_def add.assoc)
qed

text \<open>
  C25: \<^verbatim>\<open>elf_load\<close> always ends, whatever the file holds: for a valid process it panics exactly when the
  magic number, the section string table index or the type of that section is wrong, and
  otherwise both of its pointer loops reach their ends and it returns.
\<close>

theorem elf_load_returns:
  fixes s :: "'a pt_state_scheme"
  assumes "pid < NUM_IDS"
  shows "if elf_ok (mem s) exe then \<exists>s'. elf_load exe pid s = Inr s' else elf_load exe pid s = Inl Panic"
  by (rule elf_load_ends[OF assms])

theorem elf_load_returns_witness: "elf_load 0 1 cow_example = Inl Panic"
proof -
  have "\<not> elf_ok (mem cow_example) 0"
    by (simp add: elf_ok_def e_magic_def cow_example_def ELF_MAGIC_def load32_def)
  then show ?thesis using elf_load_returns[of 1 cow_example 0] by (simp add: NUM_IDS_def)
qed

end
