(* ===== verification/PKCtx.thy ===== *)
theory PKCtx
  imports MPTFork
begin

text \<open>
  The running thread's identifier and kernel thread contexts: \<^verbatim>\<open>kern/thread/PCurID\<close>,
  \<^verbatim>\<open>kern/thread/PKCtxIntro\<close> with the assembly routine \<^verbatim>\<open>cswitch\<close>, and
  \<^verbatim>\<open>kern/thread/PKCtxNew\<close>.
\<close>

section \<open>State\<close>

record kctx =
  kc_esp :: u32
  kc_edi :: u32
  kc_esi :: u32
  kc_ebx :: u32
  kc_ebp :: u32
  kc_eip :: u32

record kctx_state = pt_state +
  CURID :: u32
  cpu :: kctx \<comment> \<open>the processor's own stack pointer, callee-saved registers and program counter\<close>
  kctx_pool :: "u32 \<Rightarrow> kctx"

section \<open>Operations\<close>

definition get_curid :: "'a kctx_state_scheme \<Rightarrow> u32" where
  "get_curid s = CURID s"

definition set_curid :: "u32 \<Rightarrow> 'a kctx_state_scheme \<Rightarrow> 'a kctx_state_scheme" where
  "set_curid curid s = s\<lparr>CURID := curid\<rparr>"

definition upd_kctx :: "u32 \<Rightarrow> (kctx \<Rightarrow> kctx) \<Rightarrow> 'a kctx_state_scheme \<Rightarrow> 'a kctx_state_scheme res" where
  "upd_kctx pid f s =
     (if pid < NUM_IDS then Inr (s\<lparr>kctx_pool := (kctx_pool s)(pid := f (kctx_pool s pid))\<rparr>)
      else Inl OutOfBounds)"

definition kctx_set_esp :: "u32 \<Rightarrow> u32 \<Rightarrow> 'a kctx_state_scheme \<Rightarrow> 'a kctx_state_scheme res" where
  "kctx_set_esp pid esp = upd_kctx pid (\<lambda>k. k\<lparr>kc_esp := esp\<rparr>)"

definition kctx_set_eip :: "u32 \<Rightarrow> u32 \<Rightarrow> 'a kctx_state_scheme \<Rightarrow> 'a kctx_state_scheme res" where
  "kctx_set_eip pid eip = upd_kctx pid (\<lambda>k. k\<lparr>kc_eip := eip\<rparr>)"

text \<open>
  \<^verbatim>\<open>cswitch\<close>, entered with the return address on top of the stack: the registers and the return
  address go to the old context, then the stack pointer and the registers come from the new one, its
  program counter is written to the top of its stack, and \<^verbatim>\<open>ret\<close> pops it.
\<close>

definition cswitch :: "u32 \<Rightarrow> u32 \<Rightarrow> 'a kctx_state_scheme \<Rightarrow> 'a kctx_state_scheme" where
  "cswitch from to s =
     (let ret_addr = load32 (mem s) (kc_esp (cpu s));
          s1 = s\<lparr>kctx_pool := (kctx_pool s)(from := (cpu s)\<lparr>kc_eip := ret_addr\<rparr>)\<rparr>;
          k = kctx_pool s1 to;
          s2 = s1\<lparr>mem := store32 (mem s1) (kc_esp k) (kc_eip k)\<rparr>
      in s2\<lparr>cpu := k\<lparr>kc_eip := load32 (mem s2) (kc_esp k), kc_esp := kc_esp k + 4\<rparr>\<rparr>)"

definition kctx_switch :: "u32 \<Rightarrow> u32 \<Rightarrow> 'a kctx_state_scheme \<Rightarrow> 'a kctx_state_scheme res" where
  "kctx_switch from_pid to_pid s =
     (if from_pid < NUM_IDS \<and> to_pid < NUM_IDS then Inr (cswitch from_pid to_pid s) else Inl OutOfBounds)"

definition kctx_new :: "u32 \<Rightarrow> u32 \<Rightarrow> u32 \<Rightarrow> 'a kctx_state_scheme \<Rightarrow> (u32 \<times> 'a kctx_state_scheme) res" where
  "kctx_new entry pid quota s =
     (if container_can_consume pid quota s = 0 then Inr (NUM_IDS, s)
      else rbind (alloc_mem_quota pid quota s) (\<lambda>(child_id, s1).
           rbind (kctx_set_eip child_id entry s1) (\<lambda>s2.
           rbind (kctx_set_esp child_id (loc_STACK_LOC s2 + child_id * PAGESIZE + (PAGESIZE - 4)) s2) (\<lambda>s3.
           Inr (child_id, s3)))))"

section \<open>Properties\<close>

lemma can_consume_cases: "container_can_consume pid n s = 0 \<or> container_can_consume pid n s = 1"
  by (simp add: container_can_consume_def)

text \<open>
  A context switch is invisible to the thread that is switched out. When thread \<open>a\<close> switches to
  another thread, and later, whatever happened in between, someone switches back to it while its saved
  context is still the one that was stored, the processor resumes right behind \<open>a\<close>'s call: at the
  return address that was on its stack, with that address popped and all callee-saved registers as
  they were.
\<close>

theorem kctx_switch_resumes:
  assumes "a < NUM_IDS" "b < NUM_IDS" "c < NUM_IDS" "c \<noteq> a"
    "kctx_switch a b s = Inr s1" "kctx_pool s2 a = kctx_pool s1 a"
    "a \<noteq> b"
  shows "\<exists>s3. kctx_switch c a s2 = Inr s3 \<and> cpu s3 = (cpu s)\<lparr>
     kc_eip := load32 (mem s) (kc_esp (cpu s)), kc_esp := kc_esp (cpu s) + 4\<rparr>"
proof -
  have "kctx_pool s1 a = (cpu s)\<lparr>kc_eip := load32 (mem s) (kc_esp (cpu s))\<rparr>"
    using assms by (auto simp: kctx_switch_def cswitch_def Let_def)
  then show ?thesis using assms by (simp add: kctx_switch_def cswitch_def Let_def)
qed

text \<open>
  The new thread's context: its program counter is the entry point and its stack is its own page of
  \<^verbatim>\<open>STACK_LOC\<close>.
\<close>

lemma kctx_new_ok:
  assumes "container_inv s" "books_balance s" "container_can_consume pid quota s = 1"
    "container_split pid quota s = Inr (child, s1)" "child \<noteq> NUM_IDS"
  shows "kctx_new entry pid quota s = Inr (child, s1\<lparr>kctx_pool := (kctx_pool s1)(child :=
     (kctx_pool s1 child)\<lparr>kc_eip := entry, kc_esp := loc_STACK_LOC s1 + child * PAGESIZE + (PAGESIZE - 4)\<rparr>)\<rparr>)"
  using container_split_ok[OF assms(1,3,4)] assms
  by (auto simp: kctx_new_def alloc_mem_quota_def kctx_set_eip_def kctx_set_esp_def upd_kctx_def)

text \<open>
  Creating a thread writes outside the context array. When the quota suffices but the container
  has its three children already, \<^verbatim>\<open>container_split\<close> answers \<^verbatim>\<open>NUM_IDS\<close>, and \<^verbatim>\<open>kctx_new\<close>
  goes on to write the context with that index.
\<close>

theorem kctx_new_out_of_bounds:
  assumes "container_can_consume pid quota s = 1" "c_nchildren (CONTAINER s pid) = MAX_CHILDREN"
  shows "kctx_new entry pid quota s = Inl OutOfBounds"
proof -
  have "pid < NUM_IDS" using assms(1) by (auto simp: container_can_consume_def split: if_splits)
  then show ?thesis using assms
    by (simp add: kctx_new_def alloc_mem_quota_def container_split_def kctx_set_eip_def upd_kctx_def)
qed

text \<open>A machine with all contexts empty.\<close>

definition kctx_zero :: kctx where
  "kctx_zero = \<lparr>kc_esp = 0x1000, kc_edi = 0, kc_esi = 0, kc_ebx = 0, kc_ebp = 0, kc_eip = 0\<rparr>"

definition kctx_example :: "(u32 \<Rightarrow> SContainer) \<Rightarrow> kctx_state" where
  "kctx_example C = pt_state.extend (pt_example {0x40000, 0x40001} {} C (\<lambda>_ _. 0))
     \<lparr>CURID = 0, cpu = kctx_zero, kctx_pool = (\<lambda>_. kctx_zero)\<rparr>"

lemma kctx_example_sel [simp]:
  "CONTAINER (kctx_example C) = C" "CURID (kctx_example C) = 0" "cpu (kctx_example C) = kctx_zero"
  "kctx_pool (kctx_example C) = (\<lambda>_. kctx_zero)" "mem (kctx_example C) = (\<lambda>_. 0)"
  by (simp_all add: kctx_example_def pt_state.defs pt_example_def container_state.defs
      container_example_def at_state.defs at_example_def)

theorem kctx_switch_resumes_witness:
  "\<exists>s1 s3. kctx_switch 1 2 (kctx_example two_containers) = Inr s1 \<and> kctx_switch 2 1 s1 = Inr s3
     \<and> kc_esp (cpu s3) = 0x1004"
proof -
  obtain s1 where s1: "kctx_switch 1 2 (kctx_example two_containers) = Inr s1"
    by (simp add: kctx_switch_def NUM_IDS_def)
  from kctx_switch_resumes[of 1 2 2 "kctx_example two_containers" s1 s1] s1 show ?thesis
    by (auto simp: NUM_IDS_def kctx_zero_def)
qed

theorem kctx_new_out_of_bounds_witness:
  "kctx_new 0x100000 0 1 (kctx_example (two_containers(0 := \<lparr>c_quota = 2, c_usage = 0, c_parent = 0,
     c_nchildren = 3, c_used = 1\<rparr>))) = Inl OutOfBounds"
  by (rule kctx_new_out_of_bounds)
     (simp_all add: container_can_consume_def MAX_CHILDREN_def NUM_IDS_def)

end
