(* ===== verification/PTQueue.thy ===== *)
theory PTQueue
  imports PKCtx
begin

text \<open>
  Thread control blocks and thread queues: \<^verbatim>\<open>kern/thread/PTCBIntro\<close>, \<^verbatim>\<open>PTCBInit\<close>,
  \<^verbatim>\<open>PTQueueIntro\<close> and \<^verbatim>\<open>PTQueueInit\<close>. The queues are doubly linked lists threaded through
  the control blocks by index; \<^verbatim>\<open>NUM_IDS\<close> is the null index, and also the number of the ready
  queue. The lists of thread identifiers they stand for are the specification.
\<close>

section \<open>State and operations\<close>

definition TSTATE_READY :: u32 where "TSTATE_READY = 0"
definition TSTATE_RUN :: u32 where "TSTATE_RUN = 1"
definition TSTATE_SLEEP :: u32 where "TSTATE_SLEEP = 2"
definition TSTATE_DEAD :: u32 where "TSTATE_DEAD = 3"

record TCB =
  tcb_state :: u32
  tcb_prev :: u32
  tcb_next :: u32

record TQueue =
  tq_head :: u32
  tq_tail :: u32

record thread_state = kctx_state +
  TCBPool :: "u32 \<Rightarrow> TCB"
  TQueuePool :: "u32 \<Rightarrow> TQueue"

definition tcb_read :: "(TCB \<Rightarrow> u32) \<Rightarrow> u32 \<Rightarrow> 'a thread_state_scheme \<Rightarrow> u32 res" where
  "tcb_read f pid s = (if pid < NUM_IDS then Inr (f (TCBPool s pid)) else Inl OutOfBounds)"

definition tcb_write :: "(TCB \<Rightarrow> TCB) \<Rightarrow> u32 \<Rightarrow> 'a thread_state_scheme \<Rightarrow> 'a thread_state_scheme res" where
  "tcb_write f pid s =
     (if pid < NUM_IDS then Inr (s\<lparr>TCBPool := (TCBPool s)(pid := f (TCBPool s pid))\<rparr>) else Inl OutOfBounds)"

definition tcb_get_state :: "u32 \<Rightarrow> 'a thread_state_scheme \<Rightarrow> u32 res" where
  "tcb_get_state = tcb_read tcb_state"

definition tcb_set_state :: "u32 \<Rightarrow> u32 \<Rightarrow> 'a thread_state_scheme \<Rightarrow> 'a thread_state_scheme res" where
  "tcb_set_state pid state = tcb_write (\<lambda>t. t\<lparr>tcb_state := state\<rparr>) pid"

definition tcb_get_prev :: "u32 \<Rightarrow> 'a thread_state_scheme \<Rightarrow> u32 res" where
  "tcb_get_prev = tcb_read tcb_prev"

definition tcb_set_prev :: "u32 \<Rightarrow> u32 \<Rightarrow> 'a thread_state_scheme \<Rightarrow> 'a thread_state_scheme res" where
  "tcb_set_prev pid prev_pid = tcb_write (\<lambda>t. t\<lparr>tcb_prev := prev_pid\<rparr>) pid"

definition tcb_get_next :: "u32 \<Rightarrow> 'a thread_state_scheme \<Rightarrow> u32 res" where
  "tcb_get_next = tcb_read tcb_next"

definition tcb_set_next :: "u32 \<Rightarrow> u32 \<Rightarrow> 'a thread_state_scheme \<Rightarrow> 'a thread_state_scheme res" where
  "tcb_set_next pid next_pid = tcb_write (\<lambda>t. t\<lparr>tcb_next := next_pid\<rparr>) pid"

definition tcb_init_at_id :: "u32 \<Rightarrow> 'a thread_state_scheme \<Rightarrow> 'a thread_state_scheme res" where
  "tcb_init_at_id pid =
     tcb_write (\<lambda>t. t\<lparr>tcb_state := TSTATE_DEAD, tcb_prev := NUM_IDS, tcb_next := NUM_IDS\<rparr>) pid"

definition tcb_init :: "u32 \<Rightarrow> 'a thread_state_scheme \<Rightarrow> 'a thread_state_scheme res" where
  "tcb_init mbi_addr s = rbind (paging_init mbi_addr s) (for_u32 0 NUM_IDS tcb_init_at_id)"

definition tq_read :: "(TQueue \<Rightarrow> u32) \<Rightarrow> u32 \<Rightarrow> 'a thread_state_scheme \<Rightarrow> u32 res" where
  "tq_read f chid s = (if chid < NUM_IDS + 1 then Inr (f (TQueuePool s chid)) else Inl OutOfBounds)"

definition tq_write :: "(TQueue \<Rightarrow> TQueue) \<Rightarrow> u32 \<Rightarrow> 'a thread_state_scheme \<Rightarrow> 'a thread_state_scheme res" where
  "tq_write f chid s =
     (if chid < NUM_IDS + 1 then Inr (s\<lparr>TQueuePool := (TQueuePool s)(chid := f (TQueuePool s chid))\<rparr>)
      else Inl OutOfBounds)"

definition tqueue_get_head :: "u32 \<Rightarrow> 'a thread_state_scheme \<Rightarrow> u32 res" where
  "tqueue_get_head = tq_read tq_head"

definition tqueue_set_head :: "u32 \<Rightarrow> u32 \<Rightarrow> 'a thread_state_scheme \<Rightarrow> 'a thread_state_scheme res" where
  "tqueue_set_head chid head = tq_write (\<lambda>q. q\<lparr>tq_head := head\<rparr>) chid"

definition tqueue_get_tail :: "u32 \<Rightarrow> 'a thread_state_scheme \<Rightarrow> u32 res" where
  "tqueue_get_tail = tq_read tq_tail"

definition tqueue_set_tail :: "u32 \<Rightarrow> u32 \<Rightarrow> 'a thread_state_scheme \<Rightarrow> 'a thread_state_scheme res" where
  "tqueue_set_tail chid tail = tq_write (\<lambda>q. q\<lparr>tq_tail := tail\<rparr>) chid"

definition tqueue_init_at_id :: "u32 \<Rightarrow> 'a thread_state_scheme \<Rightarrow> 'a thread_state_scheme res" where
  "tqueue_init_at_id chid = tq_write (\<lambda>q. q\<lparr>tq_head := NUM_IDS, tq_tail := NUM_IDS\<rparr>) chid"

definition tqueue_init :: "u32 \<Rightarrow> 'a thread_state_scheme \<Rightarrow> 'a thread_state_scheme res" where
  "tqueue_init mbi_addr s = rbind (tcb_init mbi_addr s) (for_u32 0 (NUM_IDS + 1) tqueue_init_at_id)"

definition tqueue_enqueue :: "u32 \<Rightarrow> u32 \<Rightarrow> 'a thread_state_scheme \<Rightarrow> 'a thread_state_scheme res" where
  "tqueue_enqueue chid pid s =
     rbind (tqueue_get_tail chid s) (\<lambda>t.
     if t = NUM_IDS
     then rbind (tqueue_set_head chid pid s) (\<lambda>s1.
          rbind (tqueue_set_tail chid pid s1) (\<lambda>s2.
          rbind (tcb_set_prev pid NUM_IDS s2) (\<lambda>s3.
          tcb_set_next pid NUM_IDS s3)))
     else rbind (tqueue_get_tail chid s) (\<lambda>target.
          rbind (tcb_set_next target pid s) (\<lambda>s1.
          rbind (tcb_set_prev pid target s1) (\<lambda>s2.
          rbind (tcb_set_next pid NUM_IDS s2) (\<lambda>s3.
          tqueue_set_tail chid pid s3)))))"

definition tqueue_dequeue :: "u32 \<Rightarrow> 'a thread_state_scheme \<Rightarrow> (u32 \<times> 'a thread_state_scheme) res" where
  "tqueue_dequeue chid s =
     rbind (tqueue_get_head chid s) (\<lambda>h.
     if h = NUM_IDS then Inr (NUM_IDS, s)
     else rbind (tqueue_get_head chid s) (\<lambda>r.
          rbind (tqueue_get_tail chid s) (\<lambda>t.
          if r = t
          then rbind (tcb_set_prev r NUM_IDS s) (\<lambda>s1.
               rbind (tcb_set_next r NUM_IDS s1) (\<lambda>s2.
               rbind (tqueue_set_head chid NUM_IDS s2) (\<lambda>s3.
               rbind (tqueue_set_tail chid NUM_IDS s3) (\<lambda>s4. Inr (r, s4)))))
          else rbind (tcb_get_next r s) (\<lambda>next_head.
               rbind (tqueue_set_head chid next_head s) (\<lambda>s1.
               rbind (tcb_set_prev next_head NUM_IDS s1) (\<lambda>s2.
               rbind (tcb_set_prev r NUM_IDS s2) (\<lambda>s3.
               rbind (tcb_set_next r NUM_IDS s3) (\<lambda>s4. Inr (r, s4)))))))))"

text \<open>
  The search loop of \<^verbatim>\<open>tqueue_remove\<close> over the \<^verbatim>\<open>next\<close> links; a cyclic list makes it run for
  ever. Its result is the value of \<^verbatim>\<open>target\<close>.
\<close>

partial_function (option) tq_find :: "u32 \<Rightarrow> 'a thread_state_scheme \<Rightarrow> u32 \<Rightarrow> u32 res option" where
  "tq_find pid s nxt =
     (if nxt = NUM_IDS then Some (Inr NUM_IDS)
      else if nxt = pid then Some (Inr pid)
      else (case tcb_get_next nxt s of Inl e \<Rightarrow> Some (Inl e) | Inr n \<Rightarrow> tq_find pid s n))"

definition tq_unlink :: "u32 \<Rightarrow> u32 \<Rightarrow> 'a thread_state_scheme \<Rightarrow> 'a thread_state_scheme res" where
  "tq_unlink chid target s =
     rbind (tcb_get_next target s) (\<lambda>nx.
     rbind (tcb_get_prev target s) (\<lambda>prev.
     rbind (tqueue_get_head chid s) (\<lambda>h.
     rbind (if h = target then tqueue_set_head chid nx s else Inr s) (\<lambda>s1.
     rbind (tqueue_get_tail chid s1) (\<lambda>t.
     rbind (if t = target then tqueue_set_tail chid prev s1 else Inr s1) (\<lambda>s2.
     rbind (if nx \<noteq> NUM_IDS
            then rbind (tcb_set_prev nx prev s2) (\<lambda>s. tcb_set_next target NUM_IDS s)
            else Inr s2) (\<lambda>s3.
     if prev \<noteq> NUM_IDS
     then rbind (tcb_set_next prev nx s3) (\<lambda>s. tcb_set_prev target NUM_IDS s)
     else Inr s3)))))))"

definition tqueue_remove :: "u32 \<Rightarrow> u32 \<Rightarrow> 'a thread_state_scheme \<Rightarrow> 'a thread_state_scheme res" where
  "tqueue_remove chid pid s =
     rbind (tqueue_get_head chid s) (\<lambda>h.
     case tq_find pid s h of
       None \<Rightarrow> Inl Diverges
     | Some r \<Rightarrow> rbind r (\<lambda>target. if target = NUM_IDS then Inr s else tq_unlink chid target s))"

lemmas tq_ops = tcb_get_state_def tcb_set_state_def tcb_get_prev_def tcb_set_prev_def tcb_get_next_def
  tcb_set_next_def tcb_read_def tcb_write_def tqueue_get_head_def tqueue_set_head_def
  tqueue_get_tail_def tqueue_set_tail_def tq_read_def tq_write_def

section \<open>Linked lists as lists\<close>

definition hd_or :: "u32 \<Rightarrow> u32 list \<Rightarrow> u32" where
  "hd_or n xs = (if xs = [] then n else hd xs)"

definition last_or :: "u32 \<Rightarrow> u32 list \<Rightarrow> u32" where
  "last_or p xs = (if xs = [] then p else last xs)"

text \<open>
  \<open>seg T p xs n\<close>: the control blocks \<open>xs\<close> are linked in this order, the first points back to \<open>p\<close> and
  the last points on to \<open>n\<close>.
\<close>

fun seg :: "(u32 \<Rightarrow> TCB) \<Rightarrow> u32 \<Rightarrow> u32 list \<Rightarrow> u32 \<Rightarrow> bool" where
  "seg T p [] n \<longleftrightarrow> True"
| "seg T p (x # xs) n \<longleftrightarrow> x < NUM_IDS \<and> tcb_prev (T x) = p \<and> tcb_next (T x) = hd_or n xs \<and> seg T x xs n"

lemma hd_or_simps [simp]: "hd_or n [] = n" "hd_or n (x # xs) = x" "hd_or n (xs @ ys) = hd_or (hd_or n ys) xs"
  by (simp_all add: hd_or_def)

lemma last_or_simps [simp]: "last_or p [] = p" "last_or p (xs @ [x]) = x" "last_or p (x # xs) = last_or x xs"
  by (simp_all add: last_or_def)

lemma last_or_append: "last_or p (xs @ ys) = last_or (last_or p xs) ys"
  by (induction xs arbitrary: p) auto

lemma seg_append: "seg T p (xs @ ys) n \<longleftrightarrow> seg T p xs (hd_or n ys) \<and> seg T (last_or p xs) ys n"
  by (induction xs arbitrary: p) auto

lemma seg_cong:
  assumes "\<And>x. x \<in> set xs \<Longrightarrow> tcb_prev (T' x) = tcb_prev (T x) \<and> tcb_next (T' x) = tcb_next (T x)"
  shows "seg T' p xs n = seg T p xs n"
  using assms by (induction xs arbitrary: p) auto

lemma seg_bound: "seg T p xs n \<Longrightarrow> x \<in> set xs \<Longrightarrow> x < NUM_IDS"
  by (induction xs arbitrary: p) auto

text \<open>Redirecting the two ends of a segment.\<close>

lemma seg_set_next:
  assumes "seg T p xs n" "distinct xs" "xs \<noteq> []"
    "\<And>x. x \<in> set xs \<Longrightarrow> tcb_prev (T' x) = tcb_prev (T x)"
    "\<And>x. x \<in> set xs \<Longrightarrow> x \<noteq> last xs \<Longrightarrow> tcb_next (T' x) = tcb_next (T x)"
    "tcb_next (T' (last xs)) = n'"
  shows "seg T' p xs n'"
proof -
  obtain ys l where xs: "xs = ys @ [l]" using assms(3) by (metis append_butlast_last_id)
  have "seg T' p ys l = seg T p ys l" using assms(2,4,5) xs by (intro seg_cong) auto
  then show ?thesis using assms(1,4,6) xs by (auto simp: seg_append)
qed

lemma seg_set_prev:
  assumes "seg T p (x # xs) n" "distinct (x # xs)" "tcb_prev (T' x) = p'" "tcb_next (T' x) = tcb_next (T x)"
    "\<And>y. y \<in> set xs \<Longrightarrow> tcb_prev (T' y) = tcb_prev (T y) \<and> tcb_next (T' y) = tcb_next (T y)"
  shows "seg T' p' (x # xs) n"
  using assms seg_cong[of xs T' T] by auto

section \<open>The queues and their lists\<close>

definition tq_rep :: "'a thread_state_scheme \<Rightarrow> u32 \<Rightarrow> u32 list \<Rightarrow> bool" where
  "tq_rep s c xs \<longleftrightarrow> tq_head (TQueuePool s c) = hd_or NUM_IDS xs \<and> tq_tail (TQueuePool s c) = last_or NUM_IDS xs
     \<and> distinct xs \<and> seg (TCBPool s) NUM_IDS xs NUM_IDS"

definition queues_rep :: "'a thread_state_scheme \<Rightarrow> (u32 \<Rightarrow> u32 list) \<Rightarrow> bool" where
  "queues_rep s Q \<longleftrightarrow> (\<forall>c<NUM_IDS + 1. tq_rep s c (Q c))
     \<and> (\<forall>c<NUM_IDS + 1. \<forall>d<NUM_IDS + 1. c \<noteq> d \<longrightarrow> set (Q c) \<inter> set (Q d) = {})"

text \<open>What a queue operation leaves alone.\<close>

definition tq_frame :: "'a thread_state_scheme \<Rightarrow> 'a thread_state_scheme \<Rightarrow> bool" where
  "tq_frame s s' \<longleftrightarrow> s' = s\<lparr>TCBPool := TCBPool s', TQueuePool := TQueuePool s'\<rparr>
     \<and> (\<forall>x. tcb_state (TCBPool s' x) = tcb_state (TCBPool s x))"

lemma tq_rep_other:
  assumes "tq_rep s d xs" "TQueuePool s' d = TQueuePool s d"
    "\<And>x. x \<in> set xs \<Longrightarrow> tcb_prev (TCBPool s' x) = tcb_prev (TCBPool s x)
       \<and> tcb_next (TCBPool s' x) = tcb_next (TCBPool s x)"
  shows "tq_rep s' d xs"
  using assms seg_cong[of xs "TCBPool s'" "TCBPool s"] by (simp add: tq_rep_def)

text \<open>Only queue \<open>c\<close> changes, and only control blocks of its list and of one more thread.\<close>

lemma queues_rep_upd:
  assumes "queues_rep s Q" "c < NUM_IDS + 1" "tq_rep s' c xs"
    "\<And>d. d \<noteq> c \<Longrightarrow> TQueuePool s' d = TQueuePool s d"
    "\<And>x. x \<notin> set (Q c) \<Longrightarrow> x \<notin> set xs \<Longrightarrow> TCBPool s' x = TCBPool s x"
    "\<And>d. d < NUM_IDS + 1 \<Longrightarrow> d \<noteq> c \<Longrightarrow> set xs \<inter> set (Q d) = {}"
  shows "queues_rep s' (Q(c := xs))"
proof -
  have "tq_rep s' d (Q d)" if "d < NUM_IDS + 1" "d \<noteq> c" for d
  proof (rule tq_rep_other)
    show "tq_rep s d (Q d)" using assms(1) that by (simp add: queues_rep_def)
    show "TQueuePool s' d = TQueuePool s d" using assms(4) that by simp
    have "set (Q c) \<inter> set (Q d) = {}" using assms(1,2) that by (auto simp: queues_rep_def)
    with assms(6)[OF that] have "x \<notin> set (Q c)" "x \<notin> set xs" if "x \<in> set (Q d)" for x
      using that by blast+
    then show "tcb_prev (TCBPool s' x) = tcb_prev (TCBPool s x) \<and> tcb_next (TCBPool s' x) = tcb_next (TCBPool s x)"
      if "x \<in> set (Q d)" for x using assms(5) that by simp
  qed
  with assms show ?thesis by (auto simp: queues_rep_def)
qed

lemma NUM_IDS_lt_Suc [simp]: "NUM_IDS < NUM_IDS + 1" "NUM_IDS + 1 \<noteq> 0" "\<not> NUM_IDS < NUM_IDS"
  by (simp_all add: NUM_IDS_def)

lemma queues_rep_ends:
  assumes "queues_rep s Q" "c < NUM_IDS + 1"
  shows "tq_head (TQueuePool s c) = hd_or NUM_IDS (Q c)" "tq_tail (TQueuePool s c) = last_or NUM_IDS (Q c)"
    "distinct (Q c)" "seg (TCBPool s) NUM_IDS (Q c) NUM_IDS"
  using assms by (auto simp: queues_rep_def tq_rep_def)

lemma in_queue_bound: "queues_rep s Q \<Longrightarrow> c < NUM_IDS + 1 \<Longrightarrow> x \<in> set (Q c) \<Longrightarrow> x < NUM_IDS"
  using queues_rep_ends(4) seg_bound by blast

lemma last_or_lt: "queues_rep s Q \<Longrightarrow> c < NUM_IDS + 1 \<Longrightarrow> Q c \<noteq> [] \<Longrightarrow> last (Q c) < NUM_IDS"
  using in_queue_bound[of s Q c "last (Q c)"] by simp

lemma queues_disjoint:
  "queues_rep s Q \<Longrightarrow> c < NUM_IDS + 1 \<Longrightarrow> d < NUM_IDS + 1 \<Longrightarrow> d \<noteq> c \<Longrightarrow> x \<in> set (Q c) \<Longrightarrow> x \<notin> set (Q d)"
  by (auto simp: queues_rep_def)

lemma enqueue_ok:
  assumes rep: "queues_rep s Q" and c: "c < NUM_IDS + 1" and p: "p < NUM_IDS"
    and new: "\<And>d. d < NUM_IDS + 1 \<Longrightarrow> p \<notin> set (Q d)"
  shows "\<exists>s'. tqueue_enqueue c p s = Inr s' \<and> queues_rep s' (Q(c := Q c @ [p])) \<and> tq_frame s s'"
proof (cases "Q c = []")
  case True
  let ?s = "s\<lparr>TQueuePool := (TQueuePool s)(c := (TQueuePool s c)\<lparr>tq_head := p, tq_tail := p\<rparr>),
    TCBPool := (TCBPool s)(p := (TCBPool s p)\<lparr>tcb_prev := NUM_IDS, tcb_next := NUM_IDS\<rparr>)\<rparr>"
  have "tqueue_enqueue c p s = Inr ?s"
    using queues_rep_ends[OF rep c] True c p by (simp add: tqueue_enqueue_def tq_ops)
  moreover have "tq_rep ?s c [p]" using p by (simp add: tq_rep_def)
  then have "queues_rep ?s (Q(c := [p]))"
    by (rule queues_rep_upd[OF rep c]) (use True new in auto)
  moreover have "tq_frame s ?s" by (simp add: tq_frame_def)
  ultimately show ?thesis using True by auto
next
  case False
  define l where "l = last (Q c)"
  have l: "l \<in> set (Q c)" "l < NUM_IDS" "l \<noteq> NUM_IDS" "l \<noteq> p"
    using False last_or_lt[OF rep c False] new[OF c] by (auto simp: l_def)
  let ?T = "(TCBPool s)(l := (TCBPool s l)\<lparr>tcb_next := p\<rparr>, p := (TCBPool s p)\<lparr>tcb_prev := l, tcb_next := NUM_IDS\<rparr>)"
  let ?s = "s\<lparr>TCBPool := ?T, TQueuePool := (TQueuePool s)(c := (TQueuePool s c)\<lparr>tq_tail := p\<rparr>)\<rparr>"
  note ends = queues_rep_ends[OF rep c]
  have tl: "tq_tail (TQueuePool s c) = l" using ends(2) False by (simp add: last_or_def l_def)
  have "tqueue_enqueue c p s = Inr ?s"
    using tl l c p by (simp add: tqueue_enqueue_def tq_ops)
  moreover have "tq_rep ?s c (Q c @ [p])"
  proof -
    have "seg ?T NUM_IDS (Q c) p"
      by (rule seg_set_next[OF ends(4,3) False]) (use new[OF c] l in \<open>auto simp: l_def\<close>)
    then show ?thesis using ends False new[OF c] p l
      by (auto simp: tq_rep_def seg_append last_or_def hd_or_def l_def)
  qed
  then have "queues_rep ?s (Q(c := Q c @ [p]))"
    by (rule queues_rep_upd[OF rep c])
       (use l new queues_disjoint[OF rep c] in auto)
  moreover have "tq_frame s ?s" by (simp add: tq_frame_def)
  ultimately show ?thesis by auto
qed

lemma dequeue_ok:
  assumes rep: "queues_rep s Q" and c: "c < NUM_IDS + 1"
  shows "\<exists>s'. tqueue_dequeue c s = Inr (hd_or NUM_IDS (Q c), s') \<and> queues_rep s' (Q(c := tl (Q c))) \<and> tq_frame s s'"
proof (cases "Q c")
  case Nil
  then have "Q(c := tl (Q c)) = Q" by auto
  with Nil queues_rep_ends[OF rep c] rep c show ?thesis
    by (simp add: tqueue_dequeue_def tq_ops tq_frame_def)
next
  case (Cons r xs)
  note ends = queues_rep_ends[OF rep c, unfolded Cons]
  have r: "r < NUM_IDS" "r \<noteq> NUM_IDS" "r \<notin> set xs" using ends by auto
  show ?thesis
  proof (cases xs)
    case Nil
    let ?s = "s\<lparr>TCBPool := (TCBPool s)(r := (TCBPool s r)\<lparr>tcb_prev := NUM_IDS, tcb_next := NUM_IDS\<rparr>),
      TQueuePool := (TQueuePool s)(c := (TQueuePool s c)\<lparr>tq_head := NUM_IDS, tq_tail := NUM_IDS\<rparr>)\<rparr>"
    have "tqueue_dequeue c s = Inr (r, ?s)"
      using ends r c Nil by (simp add: tqueue_dequeue_def tq_ops)
    moreover have "queues_rep ?s (Q(c := []))"
      by (rule queues_rep_upd[OF rep c]) (use Cons in \<open>auto simp: tq_rep_def\<close>)
    ultimately show ?thesis using Cons Nil by (auto simp: tq_frame_def)
  next
    case (Cons y ys)
    let ?T = "(TCBPool s)(y := (TCBPool s y)\<lparr>tcb_prev := NUM_IDS\<rparr>,
      r := (TCBPool s r)\<lparr>tcb_prev := NUM_IDS, tcb_next := NUM_IDS\<rparr>)"
    let ?s = "s\<lparr>TCBPool := ?T, TQueuePool := (TQueuePool s)(c := (TQueuePool s c)\<lparr>tq_head := y\<rparr>)\<rparr>"
    have y: "y < NUM_IDS" "y \<noteq> r" "r \<noteq> last_or y ys"
      using ends r Cons by (auto simp: last_or_def)
    have nx: "tcb_next (TCBPool s r) = y" using ends Cons by simp
    have "tqueue_dequeue c s = Inr (r, ?s)"
      using ends r c y nx Cons by (simp add: tqueue_dequeue_def tq_ops)
    moreover have "seg ?T NUM_IDS (y # ys) NUM_IDS"
      by (rule seg_set_prev[of "TCBPool s" r]) (use ends r y Cons in auto)
    then have "tq_rep ?s c xs" using ends Cons r by (simp add: tq_rep_def)
    then have "queues_rep ?s (Q(c := xs))"
      by (rule queues_rep_upd[OF rep c])
         (use \<open>Q c = r # xs\<close> Cons queues_disjoint[OF rep c] in auto)
    ultimately show ?thesis using \<open>Q c = r # xs\<close> by (auto simp: tq_frame_def)
  qed
qed

text \<open>The search loop ends on a well-formed list and finds the thread exactly when it is queued.\<close>

lemma tq_find_seg:
  assumes "seg (TCBPool s) p xs NUM_IDS"
  shows "tq_find pid s (hd_or NUM_IDS xs) = Some (Inr (if pid \<in> set xs then pid else NUM_IDS))"
  using assms
proof (induction xs arbitrary: p)
  case Nil
  show ?case by (subst tq_find.simps) simp
next
  case (Cons x xs)
  then have "tq_find pid s (hd_or NUM_IDS xs) = Some (Inr (if pid \<in> set xs then pid else NUM_IDS))"
    and "x < NUM_IDS" "tcb_next (TCBPool s x) = hd_or NUM_IDS xs" by auto
  then show ?case by (subst tq_find.simps) (auto simp: tq_ops)
qed

lemma unlink_effect:
  assumes "c < NUM_IDS + 1" "t < NUM_IDS"
    "nx = tcb_next (TCBPool s t)" "pv = tcb_prev (TCBPool s t)"
    "nx = NUM_IDS \<or> nx < NUM_IDS" "pv = NUM_IDS \<or> pv < NUM_IDS" "nx \<noteq> t" "pv \<noteq> t"
  shows "\<exists>s'. tq_unlink c t s = Inr s' \<and> tq_frame s s' \<and> (\<forall>d. d \<noteq> c \<longrightarrow> TQueuePool s' d = TQueuePool s d)
    \<and> tq_head (TQueuePool s' c) = (if tq_head (TQueuePool s c) = t then nx else tq_head (TQueuePool s c))
    \<and> tq_tail (TQueuePool s' c) = (if tq_tail (TQueuePool s c) = t then pv else tq_tail (TQueuePool s c))
    \<and> (\<forall>x. x \<noteq> t \<longrightarrow> x \<noteq> nx \<longrightarrow> x \<noteq> pv \<longrightarrow> TCBPool s' x = TCBPool s x)
    \<and> TCBPool s' NUM_IDS = TCBPool s NUM_IDS
    \<and> (nx \<noteq> NUM_IDS \<longrightarrow> tcb_prev (TCBPool s' nx) = pv \<and> (nx \<noteq> pv \<longrightarrow> tcb_next (TCBPool s' nx) = tcb_next (TCBPool s nx)))
    \<and> (pv \<noteq> NUM_IDS \<longrightarrow> tcb_next (TCBPool s' pv) = nx \<and> (nx \<noteq> pv \<longrightarrow> tcb_prev (TCBPool s' pv) = tcb_prev (TCBPool s pv)))"
  using assms
  by (cases "nx = NUM_IDS"; cases "pv = NUM_IDS";
      cases "tq_head (TQueuePool s c) = t"; cases "tq_tail (TQueuePool s c) = t")
     (auto simp: tq_unlink_def tq_ops tq_frame_def)

lemma unlink_rep:
  assumes rep: "queues_rep s Q" and c: "c < NUM_IDS + 1" and Q: "Q c = as @ t # bs"
  shows "\<exists>s'. tq_unlink c t s = Inr s' \<and> queues_rep s' (Q(c := as @ bs)) \<and> tq_frame s s'"
proof -
  note ends = queues_rep_ends[OF rep c, unfolded Q]
  let ?T = "TCBPool s"
  define nx pv where "nx = hd_or NUM_IDS bs" and "pv = last_or NUM_IDS as"
  have sg: "seg ?T NUM_IDS as t" "t < NUM_IDS" "tcb_prev (?T t) = pv" "tcb_next (?T t) = nx" "seg ?T t bs NUM_IDS"
    using ends(4) by (auto simp: seg_append nx_def pv_def)
  have dist: "t \<notin> set as" "t \<notin> set bs" "distinct as" "distinct bs" "set as \<inter> set bs = {}"
    using ends(3) by auto
  have ba: "\<forall>x \<in> set as. x < NUM_IDS" "\<forall>x \<in> set bs. x < NUM_IDS"
    using seg_bound[OF sg(1)] seg_bound[OF sg(5)] by auto
  have pvc: "as = [] \<and> pv = NUM_IDS \<or> as \<noteq> [] \<and> pv \<in> set as \<and> pv = last as"
    by (auto simp: pv_def last_or_def)
  have nxc: "bs = [] \<and> nx = NUM_IDS \<or> bs \<noteq> [] \<and> nx \<in> set bs \<and> nx = hd bs"
    by (auto simp: nx_def hd_or_def)
  have bounds: "nx = NUM_IDS \<or> nx < NUM_IDS" "pv = NUM_IDS \<or> pv < NUM_IDS" "nx \<noteq> t" "pv \<noteq> t"
    "nx \<noteq> pv \<or> nx = NUM_IDS"
    using pvc nxc ba dist sg(2) by auto
  obtain s' where s': "tq_unlink c t s = Inr s'" "tq_frame s s'"
    "\<And>d. d \<noteq> c \<Longrightarrow> TQueuePool s' d = TQueuePool s d"
    "tq_head (TQueuePool s' c) = (if tq_head (TQueuePool s c) = t then nx else tq_head (TQueuePool s c))"
    "tq_tail (TQueuePool s' c) = (if tq_tail (TQueuePool s c) = t then pv else tq_tail (TQueuePool s c))"
    "\<And>x. x \<noteq> t \<Longrightarrow> x \<noteq> nx \<Longrightarrow> x \<noteq> pv \<Longrightarrow> TCBPool s' x = TCBPool s x"
    "nx \<noteq> NUM_IDS \<Longrightarrow> nx \<noteq> pv \<Longrightarrow> tcb_prev (TCBPool s' nx) = pv \<and> tcb_next (TCBPool s' nx) = tcb_next (TCBPool s nx)"
    "pv \<noteq> NUM_IDS \<Longrightarrow> nx \<noteq> pv \<Longrightarrow> tcb_next (TCBPool s' pv) = nx \<and> tcb_prev (TCBPool s' pv) = tcb_prev (TCBPool s pv)"
    "TCBPool s' NUM_IDS = TCBPool s NUM_IDS"
    using unlink_effect[OF c sg(2) sg(4)[symmetric] sg(3)[symmetric] bounds(1-4)] by blast
  have "seg (TCBPool s') NUM_IDS as nx"
  proof (cases "as = []")
    case False
    show ?thesis
      by (rule seg_set_next[OF sg(1) dist(3) False])
         (use False pvc nxc bounds dist s'(6,8) sg(2) ba in \<open>metis disjoint_iff order_less_irrefl\<close>)+
  qed simp
  moreover have "seg (TCBPool s') pv bs NUM_IDS"
  proof (cases bs)
    case (Cons y ys)
    then have y: "nx = y" "nx \<noteq> NUM_IDS" "nx \<noteq> pv" using nxc ba bounds by auto
    have "x \<noteq> t \<and> x \<noteq> nx \<and> x \<noteq> pv" if "x \<in> set ys" for x
      using that Cons pvc dist ba y(1) by (auto simp: disjoint_iff)
    then have "TCBPool s' x = TCBPool s x" if "x \<in> set ys" for x using s'(6) that by blast
    then show ?thesis unfolding Cons
      by (intro seg_set_prev[OF sg(5)[unfolded Cons]]) (use Cons dist s'(7)[OF y(2,3)] y(1) in auto)
  qed simp
  moreover have "tq_head (TQueuePool s' c) = hd_or NUM_IDS (as @ bs)"
    using s'(4) ends(1) dist(1) by (cases as) (auto simp: nx_def)
  moreover have "tq_tail (TQueuePool s' c) = last_or NUM_IDS (as @ bs)"
    using s'(5) ends(2) dist(2) by (cases bs rule: rev_cases) (auto simp: pv_def last_or_append last_or_def)
  ultimately have "tq_rep s' c (as @ bs)"
    using dist by (auto simp: tq_rep_def seg_append nx_def pv_def)
  then have "queues_rep s' (Q(c := as @ bs))"
  proof (rule queues_rep_upd[OF rep c])
    show "TCBPool s' x = TCBPool s x" if "x \<notin> set (Q c)" "x \<notin> set (as @ bs)" for x
    proof (cases "x = nx \<or> x = pv")
      case True
      then show ?thesis using that Q pvc nxc s'(9) by auto
    next
      case False
      then show ?thesis using that Q s'(6) by auto
    qed
  qed (use s'(3) Q queues_disjoint[OF rep c] in auto)
  with s' show ?thesis by blast
qed

lemma remove_ok:
  assumes rep: "queues_rep s Q" and c: "c < NUM_IDS + 1"
  shows "\<exists>s'. tqueue_remove c p s = Inr s' \<and> queues_rep s' (Q(c := remove1 p (Q c))) \<and> tq_frame s s'"
proof -
  note ends = queues_rep_ends[OF rep c]
  have run: "tqueue_remove c p s = (if p \<in> set (Q c) then tq_unlink c p s else Inr s)"
    using tq_find_seg[OF ends(4), of p] in_queue_bound[OF rep c, of p] ends(1) c
    by (auto simp: tqueue_remove_def tq_ops)
  show ?thesis
  proof (cases "p \<in> set (Q c)")
    case True
    then obtain as bs where Q: "Q c = as @ p # bs" "p \<notin> set as" by (metis split_list_first)
    then have "remove1 p (Q c) = as @ bs" by (simp add: remove1_append)
    with unlink_rep[OF rep c Q(1)] True run show ?thesis by simp
  next
    case False
    then have "Q(c := remove1 p (Q c)) = Q" by (simp add: remove1_idem fun_upd_idem)
    with False run rep show ?thesis by (simp add: tq_frame_def)
  qed
qed

section \<open>The interface of the queues\<close>

fun enq_all :: "('s \<Rightarrow> 's res) list \<Rightarrow> 's \<Rightarrow> 's res" where
  "enq_all [] s = Inr s"
| "enq_all (f # fs) s = rbind (f s) (enq_all fs)"

fun deq_all :: "('s \<Rightarrow> (u32 \<times> 's) res) \<Rightarrow> nat \<Rightarrow> 's \<Rightarrow> (u32 list \<times> 's) res" where
  "deq_all f 0 s = Inr ([], s)"
| "deq_all f (Suc n) s = rbind (f s) (\<lambda>(x, s1). rbind (deq_all f n s1) (\<lambda>(xs, s2). Inr (x # xs, s2)))"

text \<open>
  What the scheduler relies on: a family of first-in first-out queues, where a thread is in at most
  one queue.
\<close>

locale thread_queues =
  fixes rep :: "'s \<Rightarrow> (u32 \<Rightarrow> u32 list) \<Rightarrow> bool"
    and enq :: "u32 \<Rightarrow> u32 \<Rightarrow> 's \<Rightarrow> 's res"
    and deq :: "u32 \<Rightarrow> 's \<Rightarrow> (u32 \<times> 's) res"
    and queue :: "u32 \<Rightarrow> bool" and thread :: "u32 \<Rightarrow> bool" and nil :: u32
  assumes enq_law: "rep s Q \<Longrightarrow> queue c \<Longrightarrow> thread p \<Longrightarrow> (\<And>d. queue d \<Longrightarrow> p \<notin> set (Q d)) \<Longrightarrow>
      \<exists>s'. enq c p s = Inr s' \<and> rep s' (Q(c := Q c @ [p]))"
    and deq_law: "rep s Q \<Longrightarrow> queue c \<Longrightarrow>
      \<exists>s'. deq c s = Inr (if Q c = [] then nil else hd (Q c), s') \<and> rep s' (Q(c := tl (Q c)))"
    and member_law: "rep s Q \<Longrightarrow> queue c \<Longrightarrow> x \<in> set (Q c) \<Longrightarrow> thread x \<and> x \<noteq> nil"
begin

lemma enq_list:
  assumes "rep s Q" "queue c" "\<And>p. p \<in> set ps \<Longrightarrow> thread p" "distinct ps"
    "\<And>p d. p \<in> set ps \<Longrightarrow> queue d \<Longrightarrow> p \<notin> set (Q d)"
  shows "\<exists>s'. enq_all (map (enq c) ps) s = Inr s' \<and> rep s' (Q(c := Q c @ ps))"
  using assms
proof (induction ps arbitrary: s Q)
  case Nil
  then show ?case by simp
next
  case (Cons p ps)
  obtain s1 where s1: "enq c p s = Inr s1" "rep s1 (Q(c := Q c @ [p]))"
    using enq_law[of s Q c p] Cons.prems by auto
  have "\<exists>s'. enq_all (map (enq c) ps) s1 = Inr s' \<and> rep s' ((Q(c := Q c @ [p]))(c := (Q(c := Q c @ [p])) c @ ps))"
    by (rule Cons.IH[OF s1(2) Cons.prems(2)]) (use Cons.prems in \<open>auto split: if_splits\<close>)
  then have "\<exists>s'. enq_all (map (enq c) ps) s1 = Inr s' \<and> rep s' (Q(c := Q c @ p # ps))" by simp
  with s1(1) show ?case by (simp add: fun_upd_def)
qed

lemma drain:
  assumes "rep s Q" "queue c"
  shows "\<exists>s'. deq_all (deq c) (length (Q c)) s = Inr (Q c, s') \<and> rep s' (Q(c := []))"
  using assms
proof (induction "Q c" arbitrary: s Q)
  case Nil
  then show ?case by (simp add: fun_upd_idem)
next
  case (Cons x xs)
  obtain s1 where s1: "deq c s = Inr (x, s1)" "rep s1 (Q(c := xs))"
    using deq_law[OF Cons.prems] Cons.hyps(2)[symmetric] by auto
  from Cons.hyps(1)[of "Q(c := xs)" s1] s1 Cons.prems(2) obtain s2 where
    "deq_all (deq c) (length xs) s1 = Inr (xs, s2)" "rep s2 (Q(c := []))" by auto
  with s1 show ?case by (simp flip: Cons.hyps(2))
qed

lemma fifo:
  assumes "rep s Q" "queue c" "\<And>p. p \<in> set ps \<Longrightarrow> thread p" "distinct ps"
    "\<And>p d. p \<in> set ps \<Longrightarrow> queue d \<Longrightarrow> p \<notin> set (Q d)"
  shows "\<exists>s1 s2. enq_all (map (enq c) ps) s = Inr s1
    \<and> deq_all (deq c) (length (Q c @ ps)) s1 = Inr (Q c @ ps, s2) \<and> rep s2 (Q(c := []))"
proof -
  obtain s1 where s1: "enq_all (map (enq c) ps) s = Inr s1" "rep s1 (Q(c := Q c @ ps))"
    using enq_list[OF assms] by blast
  with drain[OF s1(2) assms(2)] show ?thesis by auto
qed

lemma deq_nonempty:
  assumes "rep s Q" "queue c" "deq c s = Inr (x, s')"
  shows "x = nil \<longleftrightarrow> Q c = []"
  using deq_law[OF assms(1,2)] assms(3) member_law[OF assms(1,2), of "hd (Q c)"] by (cases "Q c") auto

end

interpretation tq: thread_queues queues_rep tqueue_enqueue tqueue_dequeue
  "\<lambda>c. c < NUM_IDS + 1" "\<lambda>p. p < NUM_IDS" NUM_IDS
proof unfold_locales
  show "\<exists>s'. tqueue_enqueue c p s = Inr s' \<and> queues_rep s' (Q(c := Q c @ [p]))"
    if "queues_rep s Q" "c < NUM_IDS + 1" "p < NUM_IDS" "\<And>d. d < NUM_IDS + 1 \<Longrightarrow> p \<notin> set (Q d)"
    for s :: "'a thread_state_scheme" and Q c p using enqueue_ok[OF that] by blast
  show "\<exists>s'. tqueue_dequeue c s = Inr (if Q c = [] then NUM_IDS else hd (Q c), s') \<and> queues_rep s' (Q(c := tl (Q c)))"
    if "queues_rep s Q" "c < NUM_IDS + 1" for s :: "'a thread_state_scheme" and Q c
    using dequeue_ok[OF that] by (auto simp: hd_or_def)
  show "x < NUM_IDS \<and> x \<noteq> NUM_IDS" if "queues_rep s Q" "c < NUM_IDS + 1" "x \<in> set (Q c)"
    for s :: "'a thread_state_scheme" and Q c x using in_queue_bound[OF that] by auto
qed

section \<open>Initialisation\<close>

lemma tcb_init_loop:
  "for_u32 0 NUM_IDS tcb_init_at_id s = Inr (s\<lparr>TCBPool := (\<lambda>x. if x < NUM_IDS
     then (TCBPool s x)\<lparr>tcb_state := TSTATE_DEAD, tcb_prev := NUM_IDS, tcb_next := NUM_IDS\<rparr> else TCBPool s x)\<rparr>)"
proof -
  let ?T = "\<lambda>n x. if x < n then (TCBPool s x)\<lparr>tcb_state := TSTATE_DEAD, tcb_prev := NUM_IDS, tcb_next := NUM_IDS\<rparr>
    else TCBPool s x"
  have "\<exists>t. for_u32 0 NUM_IDS tcb_init_at_id s = Inr t \<and> t = s\<lparr>TCBPool := ?T NUM_IDS\<rparr>"
  proof (rule for_u32_rule[where I = "\<lambda>n t. t = s\<lparr>TCBPool := ?T n\<rparr>"])
    fix i t assume i: "i < NUM_IDS" "t = s\<lparr>TCBPool := ?T i\<rparr>"
    have "(?T i)(i := (TCBPool s i)\<lparr>tcb_state := TSTATE_DEAD, tcb_prev := NUM_IDS, tcb_next := NUM_IDS\<rparr>) = ?T (i + 1)"
      using i(1) by (auto simp: fun_eq_iff word_less_Suc)
    then show "\<exists>t'. tcb_init_at_id i t = Inr t' \<and> t' = s\<lparr>TCBPool := ?T (i + 1)\<rparr>"
      using i by (simp add: tcb_init_at_id_def tcb_write_def)
  qed simp_all
  then show ?thesis by simp
qed

lemma tqueue_init_loop:
  "for_u32 0 (NUM_IDS + 1) tqueue_init_at_id s = Inr (s\<lparr>TQueuePool := (\<lambda>x. if x < NUM_IDS + 1
     then (TQueuePool s x)\<lparr>tq_head := NUM_IDS, tq_tail := NUM_IDS\<rparr> else TQueuePool s x)\<rparr>)"
proof -
  let ?T = "\<lambda>n x. if x < n then (TQueuePool s x)\<lparr>tq_head := NUM_IDS, tq_tail := NUM_IDS\<rparr> else TQueuePool s x"
  have "\<exists>t. for_u32 0 (NUM_IDS + 1) tqueue_init_at_id s = Inr t \<and> t = s\<lparr>TQueuePool := ?T (NUM_IDS + 1)\<rparr>"
  proof (rule for_u32_rule[where I = "\<lambda>n t. t = s\<lparr>TQueuePool := ?T n\<rparr>"])
    fix i t assume i: "i < NUM_IDS + 1" "t = s\<lparr>TQueuePool := ?T i\<rparr>"
    have T: "(?T i)(i := (TQueuePool s i)\<lparr>tq_head := NUM_IDS, tq_tail := NUM_IDS\<rparr>) = ?T (i + 1)"
      by (auto simp: fun_eq_iff word_less_Suc[OF i(1)])
    have "tqueue_init_at_id i t
        = Inr (s\<lparr>TQueuePool := (?T i)(i := (TQueuePool s i)\<lparr>tq_head := NUM_IDS, tq_tail := NUM_IDS\<rparr>)\<rparr>)"
      using i(1) by (simp add: tqueue_init_at_id_def tq_write_def i(2))
    then show "\<exists>t'. tqueue_init_at_id i t = Inr t' \<and> t' = s\<lparr>TQueuePool := ?T (i + 1)\<rparr>"
      by (simp only: T) blast
  qed simp_all
  then show ?thesis by simp
qed

lemma tqueue_init_eq:
  assumes "paging_init mbi_addr s = Inr s1"
  shows "\<exists>s'. tqueue_init mbi_addr s = Inr s' \<and> queues_rep s' (\<lambda>_. [])
    \<and> (\<forall>x<NUM_IDS. tcb_state (TCBPool s' x) = TSTATE_DEAD)
    \<and> s' = s1\<lparr>TCBPool := TCBPool s', TQueuePool := TQueuePool s'\<rparr>"
  using assms
  by (auto simp: tqueue_init_def tcb_init_def tcb_init_loop tqueue_init_loop queues_rep_def tq_rep_def)

section \<open>Properties\<close>

text \<open>
  C3: the queue operations implement lists. With all queues well formed, \<^verbatim>\<open>tqueue_enqueue\<close> of a
  thread that is in no queue appends it, \<^verbatim>\<open>tqueue_dequeue\<close> answers the first thread and removes
  it (or answers \<^verbatim>\<open>NUM_IDS\<close> for an empty queue), \<^verbatim>\<open>tqueue_remove\<close> deletes the thread from the
  queue if it is there, and its search always ends. All three always return, keep every other queue
  and every thread's state, and change nothing but links and queue ends.
\<close>

theorem tqueue_refines_lists:
  assumes "queues_rep s Q" "c < NUM_IDS + 1" "p < NUM_IDS"
  shows "((\<forall>d<NUM_IDS + 1. p \<notin> set (Q d)) \<longrightarrow>
      (\<exists>s'. tqueue_enqueue c p s = Inr s' \<and> queues_rep s' (Q(c := Q c @ [p])) \<and> tq_frame s s'))
    \<and> (\<exists>s'. tqueue_dequeue c s = Inr (hd_or NUM_IDS (Q c), s') \<and> queues_rep s' (Q(c := tl (Q c))) \<and> tq_frame s s')
    \<and> (\<exists>s'. tqueue_remove c p s = Inr s' \<and> queues_rep s' (Q(c := remove1 p (Q c))) \<and> tq_frame s s')"
  using enqueue_ok[OF assms] dequeue_ok[OF assms(1,2)] remove_ok[OF assms(1,2)] by auto

text \<open>A machine with all queues empty.\<close>

definition thread_example :: "(u32 \<Rightarrow> SContainer) \<Rightarrow> thread_state" where
  "thread_example C = kctx_state.extend (kctx_example C)
     \<lparr>TCBPool = (\<lambda>_. \<lparr>tcb_state = TSTATE_DEAD, tcb_prev = NUM_IDS, tcb_next = NUM_IDS\<rparr>),
      TQueuePool = (\<lambda>_. \<lparr>tq_head = NUM_IDS, tq_tail = NUM_IDS\<rparr>)\<rparr>"

lemma thread_example_rep: "queues_rep (thread_example C) (\<lambda>_. [])"
  by (simp add: thread_example_def kctx_state.defs queues_rep_def tq_rep_def)

theorem tqueue_refines_lists_witness:
  "\<exists>s'. tqueue_enqueue 64 5 (thread_example two_containers) = Inr s' \<and> queues_rep s' ((\<lambda>_. [])(64 := [5]))"
  using tqueue_refines_lists[OF thread_example_rep, of 64 5] by (auto simp: NUM_IDS_def)

text \<open>
  The queues are first-in first-out: the threads put into a queue one after the other come out
  after those that were there, in the order in which they were put in, and leave the queue empty.
\<close>

theorem tqueue_fifo:
  assumes "queues_rep s Q" "c < NUM_IDS + 1" "\<And>p. p \<in> set ps \<Longrightarrow> p < NUM_IDS" "distinct ps"
    "\<And>p d. p \<in> set ps \<Longrightarrow> d < NUM_IDS + 1 \<Longrightarrow> p \<notin> set (Q d)"
  shows "\<exists>s1 s2. enq_all (map (tqueue_enqueue c) ps) s = Inr s1
    \<and> deq_all (tqueue_dequeue c) (length (Q c @ ps)) s1 = Inr (Q c @ ps, s2) \<and> queues_rep s2 (Q(c := []))"
  using assms by (rule tq.fifo)

theorem tqueue_fifo_witness:
  "\<exists>s1 s2. enq_all (map (tqueue_enqueue 64) [3, 1, 2]) (thread_example two_containers) = Inr s1
    \<and> deq_all (tqueue_dequeue 64) 3 s1 = Inr ([3, 1, 2], s2)"
proof -
  have p: "\<And>p. p \<in> set [3, 1, 2 :: u32] \<Longrightarrow> p < NUM_IDS" "distinct [3, 1, 2 :: u32]" "(64 :: u32) < NUM_IDS + 1"
    by (auto simp: NUM_IDS_def)
  have "length (([] :: u32 list) @ [3, 1, 2]) = 3" "[] @ [3, 1, 2] = [3, 1, 2 :: u32]" by simp_all
  with tqueue_fifo[OF thread_example_rep[of two_containers] p(3) p(1,2)] show ?thesis
    by (simp only:) auto
qed

text \<open>
  \<^verbatim>\<open>tqueue_init\<close> leaves all 65 queues empty and all 64 threads dead.
\<close>

theorem tqueue_init_empty:
  assumes "paging_init mbi_addr s = Inr s1"
  shows "\<exists>s'. tqueue_init mbi_addr s = Inr s' \<and> queues_rep s' (\<lambda>_. [])
    \<and> (\<forall>x<NUM_IDS. tcb_get_state x s' = Inr TSTATE_DEAD)"
  using tqueue_init_eq[OF assms] by (auto simp: tq_ops)

definition thread_boot :: thread_state where
  "thread_boot = kctx_state.extend (pt_state.extend pt_boot
     \<lparr>CURID = 0, cpu = kctx_zero, kctx_pool = (\<lambda>_. kctx_zero)\<rparr>)
     \<lparr>TCBPool = (\<lambda>_. \<lparr>tcb_state = 0, tcb_prev = 0, tcb_next = 0\<rparr>),
      TQueuePool = (\<lambda>_. \<lparr>tq_head = 0, tq_tail = 0\<rparr>)\<rparr>"

lemma thread_boot_paging: "\<exists>s1. paging_init 0 thread_boot = Inr s1"
proof -
  have "\<exists>s0. devinit 0 thread_boot = Inr s0 \<and> pmmap_nentries s0 = 1 \<and>
      pmmap_list s0 = [\<lparr>pm_start = 0x50000000, pm_end = 0x50002000, pm_type = 1\<rparr>]"
    by (rule devinit_example)
       (simp_all add: thread_boot_def kctx_state.defs pt_state.defs pt_boot_def container_boot_def
         boot_example_def at_example_def at_state.defs container_state.defs)
  then obtain s0 where s0: "devinit 0 thread_boot = Inr s0" by blast
  have "loc_IDPTbl thread_boot = 0x400000"
    by (simp add: thread_boot_def kctx_state.defs pt_state.defs pt_boot_def container_boot_def
         boot_example_def at_example_def at_state.defs container_state.defs)
  then have "idptbl_placed thread_boot" by (simp add: idptbl_placed_def)
  from paging_init_eq[OF container_init_eq[OF pmem_init_eq[OF s0]] this] show ?thesis by blast
qed

theorem tqueue_init_empty_witness:
  "\<exists>s'. tqueue_init 0 thread_boot = Inr s' \<and> queues_rep s' (\<lambda>_. [])"
  using thread_boot_paging tqueue_init_empty by blast

end
