(* ===== verification/PThread.thy ===== *)
theory PThread
  imports PTQueue
begin

text \<open>
  The round-robin scheduler, \<^verbatim>\<open>kern/thread/PThread/PThread.c\<close>: spawning a thread and yielding
  the processor to the next ready one.
\<close>

section \<open>Operations\<close>

definition thread_init :: "u32 \<Rightarrow> 'a thread_state_scheme \<Rightarrow> 'a thread_state_scheme res" where
  "thread_init mbi_addr s =
     rbind (tqueue_init mbi_addr s) (\<lambda>s1. tcb_set_state 0 TSTATE_RUN (set_curid 0 s1))"

definition thread_spawn :: "u32 \<Rightarrow> u32 \<Rightarrow> u32 \<Rightarrow> 'a thread_state_scheme \<Rightarrow> (u32 \<times> 'a thread_state_scheme) res" where
  "thread_spawn entry pid quota s =
     rbind (kctx_new entry pid quota s) (\<lambda>(child_id, s1).
     if child_id = NUM_IDS then Inr (NUM_IDS, s1)
     else rbind (tcb_set_state child_id TSTATE_READY s1) (\<lambda>s2.
          rbind (tqueue_enqueue NUM_IDS child_id s2) (\<lambda>s3. Inr (child_id, s3))))"

definition thread_yield :: "'a thread_state_scheme \<Rightarrow> 'a thread_state_scheme res" where
  "thread_yield s =
     rbind (tqueue_dequeue NUM_IDS s) (\<lambda>(next_id, s1).
     if next_id = NUM_IDS then Inr s1
     else (let now_id = get_curid s1
           in rbind (tcb_set_state now_id TSTATE_READY s1) (\<lambda>s2.
              rbind (tqueue_enqueue NUM_IDS now_id s2) (\<lambda>s3.
              rbind (tcb_set_state next_id TSTATE_RUN s3) (\<lambda>s4.
              kctx_switch now_id next_id (set_curid next_id s4))))))"

section \<open>The scheduler invariant\<close>

text \<open>
  The current thread is marked as running and is in no queue, and the threads of the ready queue are
  ready. Besides the current thread only thread 0 may be marked as running: the monitor leaves its
  mark when it starts the first process.
\<close>

definition sched_inv :: "'a thread_state_scheme \<Rightarrow> (u32 \<Rightarrow> u32 list) \<Rightarrow> bool" where
  "sched_inv s Q \<longleftrightarrow> queues_rep s Q \<and> CURID s < NUM_IDS \<and> (\<forall>d<NUM_IDS + 1. CURID s \<notin> set (Q d))
     \<and> tcb_state (TCBPool s (CURID s)) = TSTATE_RUN
     \<and> (\<forall>x<NUM_IDS. tcb_state (TCBPool s x) = TSTATE_RUN \<longrightarrow> x = CURID s \<or> x = 0)
     \<and> (\<forall>x \<in> set (Q NUM_IDS). tcb_state (TCBPool s x) = TSTATE_READY)"

definition one_running :: "'a thread_state_scheme \<Rightarrow> bool" where
  "one_running s \<longleftrightarrow> (\<forall>x<NUM_IDS. tcb_state (TCBPool s x) = TSTATE_RUN \<longrightarrow> x = CURID s)"

text \<open>Threads and containers: a thread is only scheduled when its container is in use.\<close>

definition thread_inv :: "'a thread_state_scheme \<Rightarrow> (u32 \<Rightarrow> u32 list) \<Rightarrow> bool" where
  "thread_inv s Q \<longleftrightarrow> sched_inv s Q \<and> container_inv s \<and> books_balance s
     \<and> (\<forall>x<NUM_IDS. c_used (CONTAINER s x) = 0 \<longrightarrow> x \<noteq> CURID s \<and> (\<forall>d<NUM_IDS + 1. x \<notin> set (Q d)))"

lemma queues_rep_cong:
  assumes "TQueuePool s' = TQueuePool s"
    "\<And>x. tcb_prev (TCBPool s' x) = tcb_prev (TCBPool s x)" "\<And>x. tcb_next (TCBPool s' x) = tcb_next (TCBPool s x)"
  shows "queues_rep s' Q = queues_rep s Q"
proof -
  have "seg (TCBPool s') p xs n = seg (TCBPool s) p xs n" for p xs n using assms by (intro seg_cong) simp
  then show ?thesis using assms by (simp add: queues_rep_def tq_rep_def)
qed

text \<open>The memory part of the state is untouched by the queues, and the accounting depends on nothing else.\<close>

lemma container_inv_cong: "CONTAINER s' = CONTAINER s \<Longrightarrow> container_inv s' = container_inv s"
  by (simp add: container_inv_def quota_ok_def tree_ok_def)

lemma books_balance_cong:
  "CONTAINER s' = CONTAINER s \<Longrightarrow> AT s' = AT s \<Longrightarrow> books_balance s' = books_balance s"
  by (simp add: books_balance_def charged_def avail_pages_def page_free_def page_norm_def page_used_def)

lemma tq_frameD:
  assumes "tq_frame s s'"
  shows "CONTAINER s' = CONTAINER s" "AT s' = AT s" "CURID s' = CURID s" "kctx_pool s' = kctx_pool s"
    "cpu s' = cpu s" "mem s' = mem s" "PDirPool s' = PDirPool s"
    "tcb_state (TCBPool s' x) = tcb_state (TCBPool s x)"
proof -
  have eq: "s' = s\<lparr>TCBPool := TCBPool s', TQueuePool := TQueuePool s'\<rparr>"
    using assms by (simp add: tq_frame_def)
  show "CONTAINER s' = CONTAINER s" "AT s' = AT s" "CURID s' = CURID s" "kctx_pool s' = kctx_pool s"
    "cpu s' = cpu s" "mem s' = mem s" "PDirPool s' = PDirPool s"
    by (subst eq, simp)+
  show "tcb_state (TCBPool s' x) = tcb_state (TCBPool s x)" using assms by (simp add: tq_frame_def)
qed

lemma set_state_eq:
  "x < NUM_IDS \<Longrightarrow> tcb_set_state x v s = Inr (s\<lparr>TCBPool := (TCBPool s)(x := (TCBPool s x)\<lparr>tcb_state := v\<rparr>)\<rparr>)"
  by (simp add: tq_ops)

lemma set_state_rep:
  "queues_rep (s\<lparr>TCBPool := (TCBPool s)(x := (TCBPool s x)\<lparr>tcb_state := v\<rparr>)\<rparr>) Q = queues_rep s Q"
  by (rule queues_rep_cong) simp_all

lemma cswitch_sel [simp]:
  "CONTAINER (cswitch a b s) = CONTAINER s" "AT (cswitch a b s) = AT s" "CURID (cswitch a b s) = CURID s"
  "TCBPool (cswitch a b s) = TCBPool s" "TQueuePool (cswitch a b s) = TQueuePool s"
  "PDirPool (cswitch a b s) = PDirPool s"
  by (simp_all add: cswitch_def Let_def)

section \<open>What the operations do\<close>

lemma yield_empty:
  assumes "sched_inv s Q" "Q NUM_IDS = []"
  shows "thread_yield s = Inr s"
proof -
  have "tq_head (TQueuePool s NUM_IDS) = NUM_IDS"
    using assms queues_rep_ends(1)[of s Q NUM_IDS] by (simp add: sched_inv_def)
  then show ?thesis by (simp add: thread_yield_def tqueue_dequeue_def tq_ops)
qed

lemma yield_next:
  assumes inv: "sched_inv s Q" and Q: "Q NUM_IDS = x # xs"
  shows "\<exists>s'. thread_yield s = Inr s' \<and> sched_inv s' (Q(NUM_IDS := xs @ [CURID s])) \<and> CURID s' = x
    \<and> CONTAINER s' = CONTAINER s \<and> AT s' = AT s
    \<and> kctx_pool s' = (kctx_pool s)(CURID s := (cpu s)\<lparr>kc_eip := load32 (mem s) (kc_esp (cpu s))\<rparr>)
    \<and> kc_eip (cpu s') = kc_eip (kctx_pool s x) \<and> (one_running s \<longrightarrow> one_running s')"
proof -
  let ?R = NUM_IDS and ?cur = "CURID s"
  have rep: "queues_rep s Q" "?cur < NUM_IDS" "\<And>d. d < NUM_IDS + 1 \<Longrightarrow> ?cur \<notin> set (Q d)"
    "\<And>y. y < NUM_IDS \<Longrightarrow> tcb_state (TCBPool s y) = TSTATE_RUN \<Longrightarrow> y = ?cur \<or> y = 0"
    "\<And>y. y \<in> set (Q ?R) \<Longrightarrow> tcb_state (TCBPool s y) = TSTATE_READY"
    using inv by (auto simp: sched_inv_def)
  have x: "x < NUM_IDS" "x \<noteq> NUM_IDS" "x \<noteq> ?cur" "x \<notin> set xs"
    using in_queue_bound[OF rep(1), of ?R x] rep(3)[of ?R] queues_rep_ends(3)[OF rep(1), of ?R] Q by auto
  obtain s1 where s1: "tqueue_dequeue ?R s = Inr (x, s1)" "queues_rep s1 (Q(?R := xs))" "tq_frame s s1"
    using dequeue_ok[OF rep(1), of ?R] Q by auto
  note f1 = tq_frameD[OF s1(3)]
  let ?s2 = "s1\<lparr>TCBPool := (TCBPool s1)(?cur := (TCBPool s1 ?cur)\<lparr>tcb_state := TSTATE_READY\<rparr>)\<rparr>"
  have r2: "queues_rep ?s2 (Q(?R := xs))" using s1(2) by (simp only: set_state_rep)
  have "?cur \<notin> set ((Q(?R := xs)) d)" if "d < NUM_IDS + 1" for d
    using rep(3)[OF that] rep(3)[of ?R] Q by auto
  from enqueue_ok[of ?s2 "Q(?R := xs)" ?R ?cur, OF r2 NUM_IDS_lt_Suc(1) rep(2) this] obtain s3 where
    s3: "tqueue_enqueue ?R ?cur ?s2 = Inr s3" "queues_rep s3 (Q(?R := xs @ [?cur]))" "tq_frame ?s2 s3"
    by auto
  note f3 = tq_frameD[OF s3(3)]
  let ?s4 = "s3\<lparr>TCBPool := (TCBPool s3)(x := (TCBPool s3 x)\<lparr>tcb_state := TSTATE_RUN\<rparr>)\<rparr>"
  let ?s' = "cswitch ?cur x (set_curid x ?s4)"
  have run: "thread_yield s = Inr ?s'"
    using s1(1) s3(1) x rep(2) f1(3)
    by (simp add: thread_yield_def get_curid_def set_state_eq kctx_switch_def Let_def)
  have st: "tcb_state (TCBPool ?s' y) = (if y = x then TSTATE_RUN else if y = ?cur then TSTATE_READY
      else tcb_state (TCBPool s y))" for y
    using f3(8)[of y] f1(8)[of y] x(3) by (simp add: set_curid_def)
  have "queues_rep ?s' (Q(?R := xs @ [?cur]))"
    using s3(2) queues_rep_cong[of ?s' s3] by (simp add: set_curid_def)
  moreover have "x \<notin> set ((Q(?R := xs @ [?cur])) d)" if "d < NUM_IDS + 1" for d
    using queues_disjoint[OF rep(1), of ?R d x] x Q that by auto
  moreover have cur: "CURID ?s' = x" by (simp add: set_curid_def)
  ultimately have "sched_inv ?s' (Q(?R := xs @ [?cur]))"
    using rep(2,4,5) x Q unfolding sched_inv_def st cur by (auto simp: TSTATE_READY_def TSTATE_RUN_def)
  moreover have "kctx_pool ?s' = (kctx_pool s)(?cur := (cpu s)\<lparr>kc_eip := load32 (mem s) (kc_esp (cpu s))\<rparr>)"
    "kc_eip (cpu ?s') = kc_eip (kctx_pool s x)"
    using f1 f3 x(3) by (simp_all add: cswitch_def set_curid_def Let_def)
  moreover have "one_running s \<longrightarrow> one_running ?s'" unfolding one_running_def st cur by (auto simp: TSTATE_READY_def TSTATE_RUN_def)
  moreover have "CONTAINER ?s' = CONTAINER s" "AT ?s' = AT s" using f1 f3 by (simp_all add: set_curid_def)
  ultimately show ?thesis using run cur by blast
qed

text \<open>Spawning: the new thread is ready and last in the ready queue.\<close>

lemma split_scheduler [simp]:
  "TCBPool (upd_container i f s) = TCBPool s" "TQueuePool (upd_container i f s) = TQueuePool s"
  "CURID (upd_container i f s) = CURID s" "AT (upd_container i f s) = AT s"
  by (simp_all add: upd_container_def)

lemma split_frame:
  assumes "container_split pid quota s = Inr (child, s')"
  shows "TCBPool s' = TCBPool s" "TQueuePool s' = TQueuePool s" "CURID s' = CURID s" "AT s' = AT s"
  using assms by (auto simp: container_split_def Let_def split: if_splits)

lemma split_used:
  assumes "container_split pid quota s = Inr (child, s')" "x < NUM_IDS" "c_used (CONTAINER s' x) = 0"
  shows "c_used (CONTAINER s x) = 0"
  using assms by (auto simp: container_split_def Let_def split: if_splits)

lemma spawn_ok:
  assumes inv: "thread_inv s Q" and can: "container_can_consume pid quota s = 1"
    and split: "container_split pid quota s = Inr (child, s1)" "child \<noteq> NUM_IDS"
  shows "\<exists>s'. thread_spawn entry pid quota s = Inr (child, s') \<and> thread_inv s' (Q(NUM_IDS := Q NUM_IDS @ [child]))
    \<and> CURID s' = CURID s \<and> kc_eip (kctx_pool s' child) = entry \<and> container_get_quota child s' = quota
    \<and> (one_running s \<longrightarrow> one_running s')"
proof -
  from inv have sch: "sched_inv s Q" and con: "container_inv s" "books_balance s"
    and unused: "\<And>x d. x < NUM_IDS \<Longrightarrow> c_used (CONTAINER s x) = 0 \<Longrightarrow> d < NUM_IDS + 1 \<Longrightarrow> x \<noteq> CURID s \<and> x \<notin> set (Q d)"
    by (auto simp: thread_inv_def)
  note sp = container_split_ok[OF con(1) can split(1)] and fr = split_frame[OF split(1)]
  from sp split(2) have ch: "child < NUM_IDS" "c_used (CONTAINER s child) = 0"
    "CONTAINER s1 child = \<lparr>c_quota = quota, c_usage = 0, c_parent = pid, c_nchildren = 0, c_used = 1\<rparr>" by auto
  let ?k = "s1\<lparr>kctx_pool := (kctx_pool s1)(child := (kctx_pool s1 child)\<lparr>kc_eip := entry,
      kc_esp := loc_STACK_LOC s1 + child * PAGESIZE + (PAGESIZE - 4)\<rparr>)\<rparr>"
  let ?s2 = "?k\<lparr>TCBPool := (TCBPool ?k)(child := (TCBPool ?k child)\<lparr>tcb_state := TSTATE_READY\<rparr>)\<rparr>"
  have "queues_rep s Q" using sch by (simp add: sched_inv_def)
  then have r2: "queues_rep ?s2 Q" using queues_rep_cong[of ?s2 s] fr by simp
  have "child \<notin> set (Q d)" if "d < NUM_IDS + 1" for d using unused[OF ch(1,2) that] by simp
  from enqueue_ok[OF r2 NUM_IDS_lt_Suc(1) ch(1) this] obtain s3 where
    s3: "tqueue_enqueue NUM_IDS child ?s2 = Inr s3" "queues_rep s3 (Q(NUM_IDS := Q NUM_IDS @ [child]))" "tq_frame ?s2 s3"
    by blast
  note f3 = tq_frameD[OF s3(3)]
  have run: "thread_spawn entry pid quota s = Inr (child, s3)"
    using kctx_new_ok[OF con can split, of entry] split(2) ch(1) s3(1) by (simp add: thread_spawn_def set_state_eq)
  have st: "tcb_state (TCBPool s3 x) = (if x = child then TSTATE_READY else tcb_state (TCBPool s x))" for x
    using f3(8)[of x] fr by simp
  have cur: "CURID s3 = CURID s" using f3 fr by simp
  have ne: "child \<noteq> CURID s" using unused[OF ch(1,2), of NUM_IDS] by simp
  have "sched_inv s3 (Q(NUM_IDS := Q NUM_IDS @ [child]))"
    using sch s3(2) ch(1) ne unfolding sched_inv_def st cur
    by (auto simp: TSTATE_READY_def TSTATE_RUN_def)
  moreover have "container_inv s3" "books_balance s3"
    using sp con f3 fr container_inv_cong[of s3 s1] books_balance_cong[of s3 s1]
    by (auto simp: books_balance_def)
  moreover have "x \<noteq> CURID s3 \<and> (\<forall>d<NUM_IDS + 1. x \<notin> set ((Q(NUM_IDS := Q NUM_IDS @ [child])) d))"
    if "x < NUM_IDS" "c_used (CONTAINER s3 x) = 0" for x
  proof -
    have "c_used (CONTAINER s1 x) = 0" using that f3 by simp
    then have "c_used (CONTAINER s x) = 0" "x \<noteq> child" using split_used[OF split(1)] that(1) ch(3) by auto
    then show ?thesis using unused[OF that(1)] unused[OF that(1), of NUM_IDS] cur by auto
  qed
  ultimately have "thread_inv s3 (Q(NUM_IDS := Q NUM_IDS @ [child]))" by (simp add: thread_inv_def)
  moreover have "one_running s \<longrightarrow> one_running s3" unfolding one_running_def st cur by (auto simp: TSTATE_READY_def TSTATE_RUN_def)
  ultimately show ?thesis using run cur f3(1,4) ch by (simp add: container_get_quota_def)
qed

lemma yield_thread_inv:
  assumes "thread_inv s Q"
  shows "\<exists>s' Q'. thread_yield s = Inr s' \<and> thread_inv s' Q'
    \<and> CURID s' # Q' NUM_IDS = rotate1 (CURID s # Q NUM_IDS) \<and> (one_running s \<longrightarrow> one_running s')"
proof (cases "Q NUM_IDS")
  case Nil
  then show ?thesis using assms yield_empty[of s Q] by (auto simp: thread_inv_def)
next
  case (Cons x xs)
  from assms have sch: "sched_inv s Q" by (simp add: thread_inv_def)
  obtain s' where s': "thread_yield s = Inr s'" "sched_inv s' (Q(NUM_IDS := xs @ [CURID s]))" "CURID s' = x"
    "CONTAINER s' = CONTAINER s" "AT s' = AT s" "one_running s \<longrightarrow> one_running s'"
    using yield_next[OF sch Cons] by blast
  have unused: "y \<noteq> CURID s \<and> y \<notin> set (Q d)" if "y < NUM_IDS" "c_used (CONTAINER s y) = 0" "d < NUM_IDS + 1" for y d
    using assms that by (auto simp: thread_inv_def)
  have "y \<noteq> CURID s' \<and> (\<forall>d<NUM_IDS + 1. y \<notin> set ((Q(NUM_IDS := xs @ [CURID s])) d))"
    if "y < NUM_IDS" "c_used (CONTAINER s' y) = 0" for y
    using unused[of y] unused[of y NUM_IDS] that s'(3,4) Cons by auto
  then have "thread_inv s' (Q(NUM_IDS := xs @ [CURID s]))"
    using assms s' container_inv_cong[of s' s] books_balance_cong[of s' s] by (simp add: thread_inv_def)
  with s' Cons show ?thesis by (intro exI[of _ s'] exI[of _ "Q(NUM_IDS := xs @ [CURID s])"]) simp
qed

section \<open>Histories\<close>

lemma enable_paging_pmm [simp]:
  "CONTAINER (enable_paging s) = CONTAINER s" "AT (enable_paging s) = AT s"
  by (simp_all add: enable_paging_def Let_def)

lemma set_pdir_base_pmm [simp]:
  "CONTAINER (set_pdir_base i s) = CONTAINER s" "AT (set_pdir_base i s) = AT s"
  by (simp_all add: set_pdir_base_def set_cr3_def lcr3_def)

text \<open>Building the page tables leaves allocation table and containers as \<^verbatim>\<open>container_init\<close> made them.\<close>

lemma paging_init_pmm:
  fixes s :: "'a pt_state_scheme"
  assumes "container_init mbi_addr s = Inr s1" "idptbl_placed s" "paging_init mbi_addr s = Inr t"
  shows "CONTAINER t = CONTAINER s1 \<and> AT t = AT s1"
proof -
  have "idptbl_placed s1" using assms(2) container_init_loc[OF assms(1)] idptbl_placed_cong by metis
  then obtain t0 where t0: "idptbl_init mbi_addr s = Inr t0" "CONTAINER t0 = CONTAINER s1" "AT t0 = AT s1"
    using idptbl_init_eq[OF assms(1)] by (auto simp: id_filled_def)
  let ?s = "t0\<lparr>PDirPool := (\<lambda>i j. if i < NUM_IDS \<and> j < 1024 then boot_pdir t0 j else PDirPool t0 i j)\<rparr>"
  have body: "Inr (set_pdir_entry_identity 0 j u) = Inr (upd_pdir 0 j (id_pde ?s j) u)"
    if "j < 960" "loc_IDPTbl u = loc_IDPTbl ?s" for j :: u32 and u :: "'a pt_state_scheme"
    using that order_less_trans[of j 960 1024] by (simp add: set_pdir_entry_identity_def id_pde_def)
  have "256 \<le> (960 :: u32)" by simp
  from pdir_row[of 960 ?s, OF body this] pdir_init_eq[OF t0(1)] assms(3) t0(2,3) show ?thesis
    by (auto simp: paging_init_def pdir_init_kern_def Let_def)
qed

lemma thread_init_ok:
  assumes "pmem_init mbi_addr s = Inr s1" "\<And>c. CONTAINER s c = CONTAINER_zero" "idptbl_placed s"
  shows "\<exists>s'. thread_init mbi_addr s = Inr s' \<and> thread_inv s' (\<lambda>_. []) \<and> CURID s' = 0
    \<and> c_nchildren (CONTAINER s' 0) = 0 \<and> one_running s'"
proof -
  have "CONTAINER s1 c = CONTAINER_zero" for c using pmem_init_CONTAINER[OF assms(1)] assms(2) by simp
  from container_init_ok[OF assms(1) this] obtain s2 where
    s2: "container_init mbi_addr s = Inr s2" "container_inv s2" "books_balance s2" by blast
  from paging_init_eq[OF s2(1) assms(3)] obtain t where t: "paging_init mbi_addr s = Inr t" by blast
  note pmm = paging_init_pmm[OF s2(1) assms(3) t]
  from tqueue_init_eq[OF t] obtain u where u: "tqueue_init mbi_addr s = Inr u" "queues_rep u (\<lambda>_. [])"
    "\<forall>x<NUM_IDS. tcb_state (TCBPool u x) = TSTATE_DEAD" "u = t\<lparr>TCBPool := TCBPool u, TQueuePool := TQueuePool u\<rparr>"
    by blast
  have uc: "CONTAINER u = CONTAINER s2" "AT u = AT s2" using pmm by (subst u(4), simp)+
  let ?s' = "(set_curid 0 u)\<lparr>TCBPool := (TCBPool u)(0 := (TCBPool u 0)\<lparr>tcb_state := TSTATE_RUN\<rparr>)\<rparr>"
  have run: "thread_init mbi_addr s = Inr ?s'"
    using u(1) by (simp add: thread_init_def set_state_eq) (simp add: set_curid_def)
  have "queues_rep ?s' (\<lambda>_. [])" using u(2) queues_rep_cong[of ?s' u] by (simp add: set_curid_def)
  then have "sched_inv ?s' (\<lambda>_. [])" using u(3)
    by (auto simp: sched_inv_def set_curid_def TSTATE_RUN_def TSTATE_DEAD_def)
  moreover have "container_inv ?s'" "books_balance ?s'"
    using s2 uc container_inv_cong[of ?s' s2] books_balance_cong[of ?s' s2] by (simp_all add: set_curid_def)
  moreover have "c_used (CONTAINER ?s' 0) \<noteq> 0"
    using s2(2) uc by (simp add: container_inv_def tree_ok_def set_curid_def)
  ultimately have "thread_inv ?s' (\<lambda>_. [])" by (auto simp: thread_inv_def set_curid_def)
  moreover have "c_nchildren (CONTAINER ?s' 0) = 0"
    using container_init_eq[OF assms(1)] s2(1) uc(1) by (auto simp: set_curid_def)
  moreover have "one_running ?s'" using u(3) by (auto simp: one_running_def set_curid_def TSTATE_RUN_def TSTATE_DEAD_def)
  ultimately show ?thesis using run by (auto simp: set_curid_def)
qed

text \<open>
  The states the scheduler reaches from boot by spawning with a quota the parent can spare, while
  the parent has room for a child, and by yielding.
\<close>

inductive thread_reach :: "u32 \<Rightarrow> 'a thread_state_scheme \<Rightarrow> 'a thread_state_scheme \<Rightarrow> bool"
  for mbi_addr and s0 where
  init: "thread_init mbi_addr s0 = Inr s \<Longrightarrow> thread_reach mbi_addr s0 s"
| spawn: "thread_reach mbi_addr s0 s \<Longrightarrow> container_can_consume pid quota s = 1 \<Longrightarrow>
    thread_spawn entry pid quota s = Inr (child, s') \<Longrightarrow> thread_reach mbi_addr s0 s'"
| yield: "thread_reach mbi_addr s0 s \<Longrightarrow> thread_yield s = Inr s' \<Longrightarrow> thread_reach mbi_addr s0 s'"

inductive_cases thread_reachE: "thread_reach mbi_addr s0 s"

lemma spawn_split:
  assumes "thread_spawn entry pid quota s = Inr (child, s')" "container_can_consume pid quota s = 1"
  shows "\<exists>s1. container_split pid quota s = Inr (child, s1) \<and> child \<noteq> NUM_IDS"
proof -
  from assms obtain c s1 where c: "container_split pid quota s = Inr (c, s1)" "c < NUM_IDS"
    by (auto simp: thread_spawn_def kctx_new_def alloc_mem_quota_def kctx_set_eip_def upd_kctx_def rbind_eq_Inr
        split: if_splits prod.splits)
  with assms show ?thesis
    by (auto simp: thread_spawn_def kctx_new_def alloc_mem_quota_def kctx_set_eip_def kctx_set_esp_def
        upd_kctx_def rbind_eq_Inr split: if_splits prod.splits)
qed

lemma thread_reach_inv:
  assumes "thread_reach mbi_addr s0 s" "pmem_init mbi_addr s0 = Inr s1"
    "\<And>c. CONTAINER s0 c = CONTAINER_zero" "idptbl_placed s0"
  shows "one_running s \<and> (\<exists>Q. thread_inv s Q)"
  using assms(1)
proof induction
  case (init s)
  with thread_init_ok[OF assms(2,3,4)] show ?case by auto
next
  case (spawn s pid quota entry child s')
  then obtain Q where Q: "thread_inv s Q" "one_running s" by blast
  obtain s1 where "container_split pid quota s = Inr (child, s1)" "child \<noteq> NUM_IDS"
    using spawn_split[OF spawn.hyps(3,2)] by blast
  from spawn_ok[OF Q(1) spawn.hyps(2) this, of entry] spawn.hyps(3) Q(2) show ?case by auto
next
  case (yield s s')
  then obtain Q where "thread_inv s Q" "one_running s" by blast
  with yield_thread_inv[of s Q] yield.hyps(2) show ?case by auto
qed

section \<open>Properties\<close>

fun yields :: "nat \<Rightarrow> 'a thread_state_scheme \<Rightarrow> 'a thread_state_scheme res" where
  "yields 0 s = Inr s"
| "yields (Suc k) s = rbind (thread_yield s) (yields k)"

lemma yields_rotate:
  assumes "thread_inv s Q"
  shows "\<exists>s' Q'. yields k s = Inr s' \<and> thread_inv s' Q' \<and> CURID s' # Q' NUM_IDS = rotate k (CURID s # Q NUM_IDS)"
  using assms
proof (induction k arbitrary: s Q)
  case 0
  then show ?case by (auto simp: rotate_def)
next
  case (Suc k)
  from yield_thread_inv[OF Suc.prems] obtain s1 Q1 where
    s1: "thread_yield s = Inr s1" "thread_inv s1 Q1" "CURID s1 # Q1 NUM_IDS = rotate1 (CURID s # Q NUM_IDS)" by blast
  from Suc.IH[OF s1(2)] s1(1) show ?case by (simp only: s1(3) yields.simps rbind_simps rotate1_rotate_swap rotate_Suc)
qed

text \<open>
  \<^verbatim>\<open>thread_yield\<close> is round robin. With the scheduler in order it always returns, and after any
  number of yields the running thread followed by the ready queue is the original such list, rotated
  by that number: every thread gets its turn in order.
\<close>

theorem thread_yield_round_robin:
  assumes "thread_inv s Q"
  shows "\<exists>s' Q'. yields k s = Inr s' \<and> thread_inv s' Q'
    \<and> get_curid s' # Q' NUM_IDS = rotate k (get_curid s # Q NUM_IDS)"
  using yields_rotate[OF assms] by (simp add: get_curid_def)

text \<open>
  No ready thread starves: a thread at position \<open>i\<close> of the ready queue is running after \<open>i + 1\<close>
  yields.
\<close>

theorem thread_yield_no_starvation:
  assumes "thread_inv s Q" "i < length (Q NUM_IDS)"
  shows "\<exists>s'. yields (Suc i) s = Inr s' \<and> get_curid s' = Q NUM_IDS ! i"
proof -
  obtain s' Q' where s': "yields (Suc i) s = Inr s'"
    "CURID s' # Q' NUM_IDS = rotate (Suc i) (CURID s # Q NUM_IDS)" using yields_rotate[OF assms(1)] by blast
  have "CURID s' = hd (rotate (Suc i) (CURID s # Q NUM_IDS))"
    using arg_cong[OF s'(2), of hd] by (simp only: list.sel)
  also have "\<dots> = (CURID s # Q NUM_IDS) ! (Suc i mod length (CURID s # Q NUM_IDS))"
    by (rule hd_rotate_conv_nth) simp
  finally show ?thesis using s'(1) assms(2) by (simp add: get_curid_def)
qed

text \<open>
  \<^verbatim>\<open>thread_spawn\<close> within the parent's quota and with room for a child creates the thread whose
  container was unused, with the given entry point and quota; the thread is last in the ready queue,
  the running thread stays the same, and scheduler and containers stay in order.
\<close>

theorem thread_spawn_correct:
  assumes "thread_inv s Q" "container_can_consume pid quota s = 1"
    "container_split pid quota s = Inr (child, s1)" "child \<noteq> NUM_IDS"
  shows "\<exists>s'. thread_spawn entry pid quota s = Inr (child, s') \<and> thread_inv s' (Q(NUM_IDS := Q NUM_IDS @ [child]))
    \<and> get_curid s' = get_curid s \<and> kc_eip (kctx_pool s' child) = entry \<and> container_get_quota child s' = quota"
  using spawn_ok[OF assms, of entry] by (auto simp: get_curid_def)


section \<open>Witnesses\<close>

text \<open>The machine after boot, and the first child of the root.\<close>

lemma thread_boot_facts:
  "\<exists>s1. pmem_init 0 thread_boot = Inr s1" "CONTAINER thread_boot c = CONTAINER_zero" "idptbl_placed thread_boot"
proof -
  have "loc_IDPTbl thread_boot = 0x400000" "CONTAINER thread_boot c = CONTAINER_zero"
    by (simp_all add: thread_boot_def kctx_state.defs pt_state.defs pt_boot_def container_boot_def
         boot_example_def at_example_def at_state.defs container_state.defs)
  then show "CONTAINER thread_boot c = CONTAINER_zero" "idptbl_placed thread_boot"
    by (simp_all add: idptbl_placed_def)
  obtain t where "paging_init 0 thread_boot = Inr t" using thread_boot_paging by blast
  then show "\<exists>s1. pmem_init 0 thread_boot = Inr s1"
    by (auto simp: paging_init_def pdir_init_kern_def pdir_init_def idptbl_init_def container_init_def
        rbind_eq_Inr Let_def)
qed

lemma thread_boot_inv:
  "\<exists>s. thread_init 0 thread_boot = Inr s \<and> thread_inv s (\<lambda>_. []) \<and> CURID s = 0 \<and> c_nchildren (CONTAINER s 0) = 0"
  using thread_boot_facts(1) thread_init_ok[OF _ thread_boot_facts(2,3)] by blast

theorem thread_yield_round_robin_witness:
  "\<exists>s s'. thread_init 0 thread_boot = Inr s \<and> yields 3 s = Inr s' \<and> get_curid s' = 0"
proof -
  obtain s where s: "thread_init 0 thread_boot = Inr s" "thread_inv s (\<lambda>_. [])" "CURID s = 0"
    using thread_boot_inv by blast
  from thread_yield_round_robin[OF s(2), of 3] s show ?thesis by (auto simp: get_curid_def)
qed

lemma thread_boot_split:
  assumes "thread_inv s (\<lambda>_. [])" "c_nchildren (CONTAINER s 0) = 0"
  shows "container_can_consume 0 0 s = 1" "\<exists>s1. container_split 0 0 s = Inr (1, s1)"
proof -
  show "container_can_consume 0 0 s = 1"
    using assms(1) by (simp add: thread_inv_def container_inv_def tree_ok_def container_can_consume_def)
  show "\<exists>s1. container_split 0 0 s = Inr (1, s1)"
    using assms(2) by (simp add: container_split_def NUM_IDS_def MAX_CHILDREN_def word_le_nat_alt)
qed

theorem thread_spawn_correct_witness:
  "\<exists>s s'. thread_init 0 thread_boot = Inr s \<and> thread_spawn 0x100000 0 0 s = Inr (1, s')
     \<and> get_curid s' = 0 \<and> kc_eip (kctx_pool s' 1) = 0x100000"
proof -
  obtain s where s: "thread_init 0 thread_boot = Inr s" "thread_inv s (\<lambda>_. [])" "CURID s = 0" "c_nchildren (CONTAINER s 0) = 0"
    using thread_boot_inv by blast
  obtain s1 where s1: "container_split 0 0 s = Inr (1, s1)" using thread_boot_split(2)[OF s(2,4)] by blast
  have "(1 :: u32) \<noteq> NUM_IDS" by (simp add: NUM_IDS_def)
  from thread_spawn_correct[OF s(2) thread_boot_split(1)[OF s(2,4)] s1 this, of "0x100000"] s
  show ?thesis by (auto simp: get_curid_def)
qed

theorem thread_yield_no_starvation_witness:
  "\<exists>s s1 s'. thread_init 0 thread_boot = Inr s \<and> thread_spawn 0x100000 0 0 s = Inr (1, s1)
     \<and> yields 1 s1 = Inr s' \<and> get_curid s' = 1"
proof -
  obtain s where s: "thread_init 0 thread_boot = Inr s" "thread_inv s (\<lambda>_. [])" "CURID s = 0" "c_nchildren (CONTAINER s 0) = 0"
    using thread_boot_inv by blast
  obtain s1 where s1: "container_split 0 0 s = Inr (1, s1)" using thread_boot_split(2)[OF s(2,4)] by blast
  have "(1 :: u32) \<noteq> NUM_IDS" by (simp add: NUM_IDS_def)
  from spawn_ok[OF s(2) thread_boot_split(1)[OF s(2,4)] s1 this, of "0x100000"] obtain s2 where
    s2: "thread_spawn 0x100000 0 0 s = Inr (1, s2)" "thread_inv s2 ((\<lambda>_. [])(NUM_IDS := [1]))" by auto
  from thread_yield_no_starvation[OF s2(2), of 0] s(1) s2(1) show ?thesis by (auto simp: One_nat_def)
qed


end
