(* ===== verification/PTFrame.thy ===== *)
theory PTFrame
  imports Elf PThread
begin

text \<open>
  What the operations on memory leave alone. A relation between states that holds across every
  update of memory, of the allocation table, of the containers and of the page directories holds
  across every operation of the memory layers, up to loading a program and copying an address space.
  The instance used above them: nothing outside those four parts changes.
\<close>

section \<open>The contract\<close>

locale memory_frame =
  fixes R :: "'a pt_state_scheme \<Rightarrow> 'a pt_state_scheme \<Rightarrow> bool"
  assumes keep_refl: "R s s"
    and keep_trans: "R s t \<Longrightarrow> R t u \<Longrightarrow> R s u"
    and mem_step: "R s (s\<lparr>mem := m\<rparr>)"
    and AT_step: "R s (s\<lparr>AT := a\<rparr>)"
    and CONTAINER_step: "R s (s\<lparr>CONTAINER := c\<rparr>)"
    and PDirPool_step: "R s (s\<lparr>PDirPool := d\<rparr>)"
begin

lemma for_kept:
  assumes "for_u32 a b body s = Inr s'" "\<And>i s s'. body i s = Inr s' \<Longrightarrow> R s s'"
  shows "R s s'"
  using assms
proof (induction a b body s rule: for_u32.induct)
  case (1 i b body s)
  show ?case
  proof (cases "i < b")
    case True
    then obtain t where t: "body i s = Inr t" "for_u32 (i + 1) b body t = Inr s'"
      using 1(2) by (auto simp: for_u32_step rbind_eq_Inr)
    then have "R t s'" by (rule 1(1)[OF True]) (rule 1(3))
    then show ?thesis using 1(3)[OF t(1)] keep_trans by blast
  qed (use 1(2) keep_refl in \<open>auto simp: for_u32_done\<close>)
qed

lemma mark_kept: "R s (at_mark P v s)" "R s (upd_container i f s)" "R s (upd_pdir i j w s)" "R s (poke x w s)"
  by (simp_all add: at_mark_def AT_step upd_container_def CONTAINER_step upd_pdir_def PDirPool_step
      poke_def mem_step)

lemma alloc_kept: "container_alloc pid s = Inr (p, s') \<Longrightarrow> R s s'"
  by (cases rule: palloc_cases[of s])
     (auto simp: container_alloc_def keep_refl mark_kept split: if_splits intro: keep_trans[OF mark_kept(1) mark_kept(2)])

lemma set_kept:
  "R s (set_ptbl_entry i j k p perm s)" "R s (rmv_ptbl_entry i j k s)" "R s (set_pdir_entry i j p s)"
  "R s (set_ptbl_entry_by_va i va p perm s)" "R s (rmv_ptbl_entry_by_va i va s)" "R s (set_pdir_entry_by_va i va p s)"
  by (simp_all add: set_ptbl_entry_def rmv_ptbl_entry_def set_pdir_entry_def set_ptbl_entry_by_va_def
      rmv_ptbl_entry_by_va_def set_pdir_entry_by_va_def mark_kept keep_refl)

lemma alloc_ptbl_kept: "alloc_ptbl pid va s = Inr (p, s') \<Longrightarrow> R s s'"
  by (auto simp: alloc_ptbl_def rbind_eq_Inr split: if_splits dest!: alloc_kept intro: keep_trans set_kept)

lemma map_page_kept: "map_page pid va p perm s = Inr (r, s') \<Longrightarrow> R s s'"
  by (auto simp: map_page_def Let_def rbind_eq_Inr split: if_splits dest!: alloc_ptbl_kept intro: keep_trans set_kept)

lemma alloc_page_kept: "alloc_page pid va perm s = Inr (r, s') \<Longrightarrow> R s s'"
  by (auto simp: alloc_page_def rbind_eq_Inr split: if_splits dest!: alloc_kept map_page_kept intro: keep_trans)

lemma consecutive_palloc_kept: "consecutive_palloc n s = Inr (p, s') \<Longrightarrow> R s s'"
proof -
  have mark: "at_set_allocated i 1 t = Inr t' \<Longrightarrow> R t t'" for i t t'
    by (auto simp: at_set_allocated_def AT_step split: if_splits)
  have "cpalloc_outer n i cnt s = Inr (p, s') \<Longrightarrow> R s s'" for i cnt
  proof (induction n i cnt s rule: cpalloc_outer.induct)
    case (1 n i cnt s)
    from "1.prems" show ?case
      by (subst (asm) cpalloc_outer.simps)
        (auto simp: rbind_eq_Inr keep_refl split: if_splits intro: for_kept[OF _ mark] dest: "1.IH"[rotated -1])
  qed
  then show "consecutive_palloc n s = Inr (p, s') \<Longrightarrow> R s s'" by (simp add: consecutive_palloc_def)
qed

lemma consecutive_alloc_kept: "container_consecutive_alloc pid len s = Inr (p, s') \<Longrightarrow> R s s'"
  by (auto simp: container_consecutive_alloc_def rbind_eq_Inr keep_refl split: if_splits
      dest!: consecutive_palloc_kept intro: keep_trans mark_kept)

lemma map_run_kept: "map_run pid perm len i va pg s = Inr (b, s') \<Longrightarrow> R s s'"
proof (induction pid perm len i va pg s rule: map_run.induct)
  case (1 pid perm len i va pg s)
  show ?case
  proof (cases "i < len")
    case True
    with "1.prems" obtain r s1 where r: "(if get_pdir_entry_by_va pid va s = 0 then alloc_ptbl pid va s else Inr (1, s)) = Inr (r, s1)"
      and rest: "(if r = 0 then Inr (True, s1) else map_run pid perm len (i + 1) (va + 0x1000) (pg + 1)
         (set_ptbl_entry_by_va pid va pg perm s1)) = Inr (b, s')"
      by (subst (asm) map_run.simps) (auto simp: Let_def rbind_eq_Inr)
    have "R s s1" using r keep_refl by (auto split: if_splits dest: alloc_ptbl_kept)
    moreover have "R s1 s'"
    proof (cases "r = 0")
      case False
      from "1.IH"[OF True HOL.refl r HOL.refl False] rest False show ?thesis using set_kept(4) keep_trans by fastforce
    qed (use rest keep_refl in auto)
    ultimately show ?thesis using keep_trans by blast
  next
    case False
    with "1.prems" show ?thesis by (subst (asm) map_run.simps) (simp add: keep_refl)
  qed
qed

lemma map_consecutive_kept: "map_consecutive_page pid va p perm len s = Inr (r, s') \<Longrightarrow> R s s'"
  by (auto simp: map_consecutive_page_def rbind_eq_Inr split: if_splits dest!: map_run_kept)

lemma alloc_consecutive_kept:
  "alloc_consecutive_page pid va perm len s = Inr (r, s') \<Longrightarrow> R s s'"
  "alloc_super_page pid va perm s = Inr (r, s') \<Longrightarrow> R s s'"
  by (auto simp: alloc_consecutive_page_def alloc_super_page_def Let_def rbind_eq_Inr split: if_splits
      dest!: consecutive_alloc_kept map_consecutive_kept intro: keep_trans)

lemma user_pa_kept: "user_pa pid va s = Inr (p, s') \<Longrightarrow> R s s'"
  by (auto simp: user_pa_def Let_def rbind_eq_Inr keep_refl split: if_splits dest: alloc_page_kept)

lemma user_loop_kept: "user_loop mv pid uva kva len copied s = Inr (r, s') \<Longrightarrow> R s s'"
proof (induction mv pid uva kva len copied s rule: user_loop.induct)
  case (1 mv pid uva kva len copied s)
  show ?case
  proof (cases "len = 0")
    case True
    with "1.prems" show ?thesis by (subst (asm) user_loop.simps) (simp add: keep_refl)
  next
    case False
    with "1.prems" obtain pa s1 where pa: "user_pa pid uva s = Inr (pa, s1)"
      and rest: "user_loop mv pid (uva + chunk len pa) (kva + chunk len pa) (len - chunk len pa) (copied + chunk len pa)
        (s1\<lparr>mem := mv pa kva (chunk len pa) (mem s1)\<rparr>) = Inr (r, s')"
      by (subst (asm) user_loop.simps) (auto simp: Let_def rbind_eq_Inr)
    from "1.IH"[OF False pa HOL.refl HOL.refl rest] user_pa_kept[OF pa] mem_step show ?thesis
      using keep_trans by blast
  qed
qed

lemma copy_kept:
  "pt_copyin pid uva kva len s = Inr (r, s') \<Longrightarrow> R s s'" "pt_copyout kva pid uva len s = Inr (r, s') \<Longrightarrow> R s s'"
  "pt_memset pid va c len s = Inr (r, s') \<Longrightarrow> R s s'"
  by (auto simp: pt_copyin_def pt_copyout_def pt_memset_def keep_refl split: if_splits dest: user_loop_kept)

lemma elf_page_kept: "elf_page pid ph perm zva va fa s = Inr s' \<Longrightarrow> R s s'"
  by (auto simp: elf_page_def rbind_eq_Inr split: if_splits dest!: alloc_page_kept copy_kept intro: keep_trans)

lemma elf_pages_kept:
  assumes "elf_pages pid ph perm zva eva va fa s = Some (Inr s')"
  shows "R s s'"
  by (rule elf_pages.raw_induct[OF _ assms, where P = "\<lambda>pid ph perm zva eva va fa s r. \<forall>s'. r = Inr s' \<longrightarrow> R s s'",
        rule_format, OF _ HOL.refl])
     (fastforce simp: keep_refl split: if_splits sum.splits dest: elf_page_kept intro: keep_trans)

lemma elf_segment_kept: "elf_segment exe pid ph s = Some (Inr s') \<Longrightarrow> R s s'"
  by (auto simp: elf_segment_def Let_def keep_refl split: if_splits dest: elf_pages_kept)

lemma elf_segments_kept:
  assumes "elf_segments exe pid eph ph s = Some (Inr s')"
  shows "R s s'"
  by (rule elf_segments.raw_induct[OF _ assms, where P = "\<lambda>exe pid eph ph s r. \<forall>s'. r = Inr s' \<longrightarrow> R s s'",
        rule_format, OF _ HOL.refl])
     (fastforce simp: keep_refl split: if_splits sum.splits option.splits dest: elf_segment_kept intro: keep_trans)

lemma elf_load_kept: "elf_load exe pid s = Inr s' \<Longrightarrow> R s s'"
  by (auto simp: elf_load_def Let_def split: if_splits option.splits dest: elf_segments_kept)

lemma unmap_run_kept: "R s (snd (unmap_run pid len i va s))"
proof (induction pid len i va s rule: unmap_run.induct)
  case (1 pid len i va s)
  then show ?case
    by (subst unmap_run.simps) (auto simp: keep_refl intro: keep_trans[OF set_kept(5)])
qed

lemma unmap_page_kept: "unmap_page pid va s = Inr (r, s') \<Longrightarrow> R s s'"
  by (auto simp: unmap_page_def Let_def unmap_consecutive_page_def keep_refl unmap_run_kept set_kept
      split: if_splits option.splits)

lemma copy_frames_kept: "copy_frames a b n s = Inr s' \<Longrightarrow> R s s'"
  unfolding copy_frames_def by (erule for_kept) (auto intro: mem_step)

lemma copy_on_write_kept: "copy_on_write pid va s = Inr s' \<Longrightarrow> R s s'"
  by (auto simp: copy_on_write_def Let_def rbind_eq_Inr split: if_splits option.splits
      dest!: alloc_kept alloc_consecutive_kept unmap_page_kept map_consecutive_kept copy_frames_kept
      intro: keep_trans keep_trans[OF _ keep_trans[OF set_kept(5) keep_trans[OF set_kept(4)]]])

lemma vmm_copy_kept: "vmm_copy a b s = Inr s' \<Longrightarrow> R s s'"
proof -
  have pte: "R t (vmm_copy_pte a b j k t)" for a b j k t
    by (auto simp: vmm_copy_pte_def Let_def keep_refl intro: keep_trans set_kept)
  have "vmm_copy_loop a b j s = Inr s' \<Longrightarrow> R s s'" for j
  proof (induction a b j s rule: vmm_copy_loop.induct)
    case (1 a b j s)
    note IH = "1.IH"
    show ?case
    proof (cases "j < 960")
      case True
      show ?thesis
      proof (cases "get_pdir_entry a j s AND PTE_P = 0")
        case absent: True
        with "1.prems" True IH(1) show ?thesis by (subst (asm) vmm_copy_loop.simps) simp
      next
        case present: False
        with "1.prems" True obtain p s1 where p: "container_alloc b s = Inr (p, s1)"
          and rest: "(if p = 0 then Inr s1 else rbind (for_u32 0 1024 (\<lambda>k t. Inr (vmm_copy_pte a b j k t))
             (set_pdir_entry b j p s1)) (vmm_copy_loop a b (j + 1))) = Inr s'"
          by (subst (asm) vmm_copy_loop.simps) (auto simp: rbind_eq_Inr)
        have "R s1 s'"
        proof (cases "p = 0")
          case False
          with rest obtain t where t: "for_u32 0 1024 (\<lambda>k t. Inr (vmm_copy_pte a b j k t)) (set_pdir_entry b j p s1) = Inr t"
            "vmm_copy_loop a b (j + 1) t = Inr s'" by (auto simp: rbind_eq_Inr)
          have "R (set_pdir_entry b j p s1) t" by (rule for_kept[OF t(1)]) (use pte in auto)
          moreover have "R t s'" by (rule IH(2)[OF True present p HOL.refl False t])
          ultimately show ?thesis using set_kept(3) keep_trans by blast
        qed (use rest keep_refl in auto)
        then show ?thesis using alloc_kept[OF p] keep_trans by blast
      qed
    next
      case False
      with "1.prems" show ?thesis by (subst (asm) vmm_copy_loop.simps) (simp add: keep_refl)
    qed
  qed
  then show "vmm_copy a b s = Inr s' \<Longrightarrow> R s s'" by (simp add: vmm_copy_def)
qed

end

section \<open>The instance\<close>

definition pt_only :: "'a pt_state_scheme \<Rightarrow> 'a pt_state_scheme \<Rightarrow> bool" where
  "pt_only s s' \<longleftrightarrow> s' = s\<lparr>mem := mem s', AT := AT s', CONTAINER := CONTAINER s', PDirPool := PDirPool s'\<rparr>"

interpretation pt: memory_frame pt_only
proof
  show "pt_only s t \<Longrightarrow> pt_only t u \<Longrightarrow> pt_only s u" for s t u :: "'a pt_state_scheme"
    by (cases s, cases t, cases u) (simp add: pt_only_def)
qed (simp_all add: pt_only_def)

text \<open>What this means for the parts of the state of the upper layers.\<close>

lemma pt_only_machine:
  assumes "pt_only s s'"
  shows "devs s' = devs s" "segs s' = segs s" "layout s' = layout s" "cr2 s' = cr2 s" "cr3 s' = cr3 s"
    "loc_PDirPool s' = loc_PDirPool s" "loc_IDPTbl s' = loc_IDPTbl s" "loc_STACK_LOC s' = loc_STACK_LOC s"
  by (subst assms[unfolded pt_only_def], simp)+

lemma pt_only_sched:
  fixes s :: "'a thread_state_scheme"
  assumes "pt_only s s'"
  shows "CURID s' = CURID s" "kctx_pool s' = kctx_pool s" "cpu s' = cpu s" "TCBPool s' = TCBPool s"
    "TQueuePool s' = TQueuePool s"
  by (subst assms[unfolded pt_only_def], simp add: kctx_state.defs thread_state.defs)+

lemma pt_only_sched_inv:
  assumes "pt_only s s'"
  shows "sched_inv s' Q = sched_inv s Q"
  using queues_rep_cong[of s' s Q] pt_only_sched[OF assms] by (simp add: sched_inv_def)

end
