(* ===== verification/PProc.thy ===== *)
theory PProc
  imports PTFrame
begin

text \<open>
  User processes, \<^verbatim>\<open>kern/proc/PProc/PProc.c\<close> and \<^verbatim>\<open>kern/proc/PUCtxIntro\<close>: the saved user contexts,
  creating a process from a program image, forking, and the return to user code.
\<close>

section \<open>State\<close>

text \<open>Trap frames (\<^verbatim>\<open>kern/lib/trap.h\<close>); the padding between half words is left out.\<close>

record pushregs =
  r_edi :: u32
  r_esi :: u32
  r_ebp :: u32
  r_oesp :: u32
  r_ebx :: u32
  r_edx :: u32
  r_ecx :: u32
  r_eax :: u32

record tf_t =
  tf_regs :: pushregs
  tf_es :: u16
  tf_ds :: u16
  tf_trapno :: u32
  tf_err :: u32
  tf_eip :: u32
  tf_cs :: u16
  tf_eflags :: u32
  tf_esp :: u32
  tf_ss :: u16

record proc_state = thread_state +
  uctx_pool :: "u32 \<Rightarrow> tf_t"

definition FL_IF :: u32 where "FL_IF = 0x00000200"

definition upd_uctx :: "u32 \<Rightarrow> (tf_t \<Rightarrow> tf_t) \<Rightarrow> 'a proc_state_scheme \<Rightarrow> 'a proc_state_scheme res" where
  "upd_uctx pid f s =
     (if pid < NUM_IDS then Inr (s\<lparr>uctx_pool := (uctx_pool s)(pid := f (uctx_pool s pid))\<rparr>)
      else Inl OutOfBounds)"

section \<open>Operations\<close>

text \<open>
  \<^verbatim>\<open>proc_start_user\<close> does not return: the result is the frame that \<^verbatim>\<open>trap_return\<close> loads into the
  processor, and the kernel state it leaves behind.
\<close>

definition proc_start_user :: "'a proc_state_scheme \<Rightarrow> (tf_t \<times> 'a proc_state_scheme) res" where
  "proc_start_user s =
     (let cur_pid = get_curid s;
          s = set_pdir_base cur_pid (tss_switch cur_pid s)
      in if cur_pid < NUM_IDS then Inr (uctx_pool s cur_pid, s) else Inl OutOfBounds)"

definition proc_create :: "u32 \<Rightarrow> u32 \<Rightarrow> 'a proc_state_scheme \<Rightarrow> (u32 \<times> 'a proc_state_scheme) res" where
  "proc_create elf_addr quota s =
     (let cur = get_curid s
      in rbind (thread_spawn (loc_proc_start_user (layout s)) cur quota s) (\<lambda>(pid, s).
         if pid \<noteq> NUM_IDS
         then rbind (elf_load elf_addr pid s) (\<lambda>s.
              rbind (upd_uctx pid (\<lambda>u. u\<lparr>tf_es := CPU_GDT_UDATA OR 3, tf_ds := CPU_GDT_UDATA OR 3,
                  tf_cs := CPU_GDT_UCODE OR 3, tf_ss := CPU_GDT_UDATA OR 3, tf_esp := VM_USERHI,
                  tf_eflags := FL_IF\<rparr>) s) (\<lambda>s.
              rbind (elf_entry elf_addr s) (\<lambda>entry.
              rbind (upd_uctx pid (\<lambda>u. u\<lparr>tf_eip := entry\<rparr>) s) (\<lambda>s. Inr (pid, s)))))
         else Inr (pid, s)))"

definition proc_fork :: "'a proc_state_scheme \<Rightarrow> (u32 \<times> 'a proc_state_scheme) res" where
  "proc_fork s =
     (let cur = get_curid s;
          quota = container_get_quota cur s;
          usage = container_get_usage cur s;
          assign = (quota - usage) div 2
      in rbind (thread_spawn (loc_proc_start_user (layout s)) cur assign s) (\<lambda>(pid, s).
         if pid \<noteq> NUM_IDS
         then (if cur < NUM_IDS
               then rbind (upd_uctx pid (\<lambda>_. uctx_pool s cur) s) (\<lambda>s.
                    rbind (vmm_copy cur pid s) (\<lambda>s. Inr (pid, s)))
               else Inl OutOfBounds)
         else Inr (NUM_IDS, s)))"

section \<open>What scheduling leaves alone\<close>

definition sched_only :: "'a thread_state_scheme \<Rightarrow> 'a thread_state_scheme \<Rightarrow> bool" where
  "sched_only s s' \<longleftrightarrow> s' = s\<lparr>CONTAINER := CONTAINER s', CURID := CURID s', cpu := cpu s',
     kctx_pool := kctx_pool s', TCBPool := TCBPool s', TQueuePool := TQueuePool s'\<rparr>"

lemma sched_only_refl [simp]: "sched_only s s"
  by (simp add: sched_only_def)

lemma sched_only_trans: "sched_only s t \<Longrightarrow> sched_only t u \<Longrightarrow> sched_only s u"
  by (cases s, cases t, cases u) (simp add: sched_only_def)

lemma sched_only_tq:
  "tqueue_enqueue q x s = Inr s' \<Longrightarrow> sched_only s s'"
  "tqueue_dequeue q s = Inr (x, s') \<Longrightarrow> sched_only s s'"
  "tcb_set_state x v s = Inr s' \<Longrightarrow> sched_only s s'"
  by (auto simp: tqueue_enqueue_def tqueue_dequeue_def tq_ops rbind_eq_Inr Let_def sched_only_def split: if_splits)

lemma sched_only_spawn: "thread_spawn entry pid quota s = Inr (child, s') \<Longrightarrow> sched_only s s'"
proof -
  assume "thread_spawn entry pid quota s = Inr (child, s')"
  then obtain c s1 where c: "kctx_new entry pid quota s = Inr (c, s1)"
    and r: "(if c = NUM_IDS then Inr (NUM_IDS, s1) else rbind (tcb_set_state c TSTATE_READY s1) (\<lambda>s2.
       rbind (tqueue_enqueue NUM_IDS c s2) (\<lambda>s3. Inr (c, s3)))) = Inr (child, s')"
    by (auto simp: thread_spawn_def rbind_eq_Inr)
  have "sched_only s s1" using c
    by (auto simp: kctx_new_def alloc_mem_quota_def container_split_def kctx_set_eip_def kctx_set_esp_def
        upd_kctx_def upd_container_def rbind_eq_Inr Let_def sched_only_def split: if_splits)
  moreover have "sched_only s1 s'" using r
    by (auto simp: rbind_eq_Inr split: if_splits dest!: sched_only_tq intro: sched_only_trans)
  ultimately show ?thesis by (rule sched_only_trans)
qed

lemma sched_only_mem: "sched_only s t \<Longrightarrow> sched_only (s\<lparr>mem := m\<rparr>) (t\<lparr>mem := m\<rparr>)"
  by (cases s, cases t) (simp add: sched_only_def)

text \<open>A yield changes memory as well: the switch writes to a kernel stack.\<close>

lemma sched_only_yield: "thread_yield s = Inr s' \<Longrightarrow> sched_only (s\<lparr>mem := mem s'\<rparr>) s'"
proof -
  have sw: "kctx_switch a b (set_curid b t) = Inr u \<Longrightarrow> sched_only (t\<lparr>mem := mem u\<rparr>) u"
    for a b and t u :: "'a thread_state_scheme"
    by (auto simp: kctx_switch_def cswitch_def set_curid_def Let_def sched_only_def split: if_splits)
  have "sched_only (s\<lparr>mem := mem s'\<rparr>) s' \<or> (\<exists>t. sched_only s t \<and> sched_only (t\<lparr>mem := mem s'\<rparr>) s')"
    if "thread_yield s = Inr s'"
  proof -
    from that[unfolded thread_yield_def Let_def] obtain n t where n: "tqueue_dequeue NUM_IDS s = Inr (n, t)" and
      r: "(if n = NUM_IDS then Inr t else rbind (tcb_set_state (get_curid t) TSTATE_READY t) (\<lambda>s2.
        rbind (tqueue_enqueue NUM_IDS (get_curid t) s2) (\<lambda>s3. rbind (tcb_set_state n TSTATE_RUN s3) (\<lambda>s4.
        kctx_switch (get_curid t) n (set_curid n s4))))) = Inr s'"
      by (auto simp: rbind_eq_Inr)
    have t: "sched_only s t" by (rule sched_only_tq(2)[OF n])
    show ?thesis
    proof (cases "n = NUM_IDS")
      case True
      with r t sched_only_mem[OF t, of "mem s'"] show ?thesis by simp
    next
      case False
      with r obtain s2 s3 s4 where "tcb_set_state (get_curid t) TSTATE_READY t = Inr s2"
        "tqueue_enqueue NUM_IDS (get_curid t) s2 = Inr s3" "tcb_set_state n TSTATE_RUN s3 = Inr s4"
        and k: "kctx_switch (get_curid t) n (set_curid n s4) = Inr s'" by (auto simp: rbind_eq_Inr)
      then have "sched_only s s4" using t sched_only_tq sched_only_trans by metis
      with sw[OF k] show ?thesis by blast
    qed
  qed
  then show "thread_yield s = Inr s' \<Longrightarrow> sched_only (s\<lparr>mem := mem s'\<rparr>) s'"
    using sched_only_mem sched_only_trans by blast
qed

lemma sched_only_sel:
  assumes "sched_only s s'"
  shows "devs s' = devs s" "segs s' = segs s" "layout s' = layout s" "cr2 s' = cr2 s" "cr3 s' = cr3 s"
    "PDirPool s' = PDirPool s" "AT s' = AT s" "loc_PDirPool s' = loc_PDirPool s" "mem s' = mem s"
  by (subst assms[unfolded sched_only_def], simp)+

text \<open>Neither scheduling nor the memory layers touch a saved user context.\<close>

lemma uctx_same:
  fixes s :: "'a proc_state_scheme"
  shows "sched_only s s' \<Longrightarrow> uctx_pool s' = uctx_pool s" "pt_only s t \<Longrightarrow> uctx_pool t = uctx_pool s"
  unfolding sched_only_def pt_only_def
  by (drule arg_cong[of _ _ uctx_pool], simp add: proc_state.defs)+

lemma sched_inv_uctx [simp]: "sched_inv (s\<lparr>uctx_pool := u\<rparr>) Q = sched_inv s Q"
  using queues_rep_cong[of "s\<lparr>uctx_pool := u\<rparr>" s Q] by (simp add: sched_inv_def)

section \<open>Copying an address space returns\<close>

lemma vmm_copy_returns:
  assumes "to_id < NUM_IDS"
  shows "\<exists>s'. vmm_copy from_id to_id s = Inr s'"
proof -
  have "\<exists>s'. vmm_copy_loop from_id to_id j s = Inr s'" for j s
  proof (induction "unat (960 - j)" arbitrary: j s rule: less_induct)
    case less
    show ?case
    proof (cases "j < 960")
      case True
      note IH = less.hyps[OF word_count_down[OF True]]
      obtain p s1 where p: "container_alloc to_id s = Inr (p, s1)" using container_alloc_total[OF assms] by blast
      obtain t where "for_u32 0 1024 (\<lambda>k t. Inr (vmm_copy_pte from_id to_id j k t)) (set_pdir_entry to_id j p s1) = Inr t"
        using for_u32_pure[of 0 1024 "\<lambda>k t. Inr (vmm_copy_pte from_id to_id j k t)" "vmm_copy_pte from_id to_id j"] by blast
      with IH p True show ?thesis by (subst vmm_copy_loop.simps) simp
    qed (simp add: vmm_copy_loop.simps)
  qed
  then show ?thesis by (simp add: vmm_copy_def)
qed

section \<open>Properties\<close>

lemma container_split_same:
  assumes "container_split pid q s = Inr (c, s0)" "CONTAINER t = CONTAINER s"
  shows "\<exists>t0. container_split pid q t = Inr (c, t0)"
  using assms by (auto simp: container_split_def Let_def container_get_nchildren_def split: if_splits)

lemma proc_create_ok:
  assumes inv: "thread_inv s Q" and can: "container_can_consume (get_curid s) quota s = 1"
    and split: "container_split (get_curid s) quota s = Inr (child, s1)" "child \<noteq> NUM_IDS"
    and elf: "elf_ok (mem s) elf_addr"
  shows "(\<exists>s'. proc_create elf_addr quota s = Inr (child, s') \<and> sched_inv s' (Q(NUM_IDS := Q NUM_IDS @ [child]))
      \<and> get_curid s' = get_curid s \<and> kc_eip (kctx_pool s' child) = loc_proc_start_user (layout s) \<and> (\<forall>q. q \<noteq> child \<longrightarrow> uctx_pool s' q = uctx_pool s q)
      \<and> (let u = uctx_pool s' child in tf_eip u = e_entry (mem s') elf_addr \<and> tf_esp u = VM_USERHI
          \<and> tf_cs u = CPU_GDT_UCODE OR 3 \<and> tf_ss u = CPU_GDT_UDATA OR 3 \<and> tf_ds u = CPU_GDT_UDATA OR 3
          \<and> tf_es u = CPU_GDT_UDATA OR 3 \<and> tf_eflags u = FL_IF)
      \<and> devs s' = devs s \<and> layout s' = layout s)
    \<or> proc_create elf_addr quota s = Inl Panic \<and> (\<exists>sp sl. thread_spawn (loc_proc_start_user (layout s)) (get_curid s) quota s
        = Inr (child, sp) \<and> elf_load elf_addr child sp = Inr sl \<and> e_magic (mem sl) elf_addr \<noteq> ELF_MAGIC)"
proof -
  let ?entry = "loc_proc_start_user (layout s)"
  obtain sp where sp: "thread_spawn ?entry (get_curid s) quota s = Inr (child, sp)"
    "thread_inv sp (Q(NUM_IDS := Q NUM_IDS @ [child]))" "CURID sp = CURID s" "kc_eip (kctx_pool sp child) = ?entry"
    using spawn_ok[OF inv can split, of ?entry] by blast
  have "container_inv s" using inv by (simp add: thread_inv_def)
  from container_split_ok[OF this can split(1)] split(2) have ch: "child < NUM_IDS" by auto
  obtain sl where sl: "elf_load elf_addr child sp = Inr sl"
    using elf_load_ends[OF ch, of sp elf_addr] elf sched_only_sel(9)[OF sched_only_spawn[OF sp(1)]] by auto
  note fr = pt.elf_load_kept[OF sl]
  have sch: "sched_inv sl (Q(NUM_IDS := Q NUM_IDS @ [child]))"
    using sp(2) pt_only_sched_inv[OF fr] by (simp add: thread_inv_def)
  have k: "kc_eip (kctx_pool sl child) = ?entry" "devs sl = devs s" "layout sl = layout s"
    using pt_only_sched(2)[OF fr] pt_only_machine(1,3)[OF fr] sched_only_sel(1,3)[OF sched_only_spawn[OF sp(1)]] sp(4) by simp_all
  have u: "uctx_pool sl = uctx_pool s" "CURID sl = CURID s"
    using uctx_same(2)[OF fr] uctx_same(1)[OF sched_only_spawn[OF sp(1)]] pt_only_sched(1)[OF fr] sp(3) by simp_all
  show ?thesis
  proof (cases "e_magic (mem sl) elf_addr = ELF_MAGIC")
    case True
    then show ?thesis using sp sl split(2) ch sch u k
      by (simp add: proc_create_def upd_uctx_def elf_entry_def get_curid_def Let_def)
  next
    case False
    then show ?thesis using sp sl split(2) ch
      by (simp add: proc_create_def upd_uctx_def elf_entry_def Let_def)
  qed
qed

text \<open>
  Creating a process. If the parent can spare the quota and has room for a child, and the image is
  a program, \<^verbatim>\<open>proc_create\<close> either loads it and returns the child, or panics because loading overwrote
  the image's own header. On success the child's saved context starts the program: at its entry
  point, with the stack at the top of user memory, in the user segments at privilege level 3, with
  interrupts enabled; its kernel context enters \<^verbatim>\<open>proc_start_user\<close>; the child is last in the ready
  queue, the contexts of the others and the running thread stay.
\<close>

theorem proc_create_correct:
  assumes inv: "thread_inv s Q" and can: "container_can_consume (get_curid s) quota s = 1"
    and split: "container_split (get_curid s) quota s = Inr (child, s1)" "child \<noteq> NUM_IDS"
    and elf: "elf_ok (mem s) elf_addr"
  shows "(\<exists>s'. proc_create elf_addr quota s = Inr (child, s') \<and> sched_inv s' (Q(NUM_IDS := Q NUM_IDS @ [child]))
      \<and> get_curid s' = get_curid s \<and> kc_eip (kctx_pool s' child) = loc_proc_start_user (layout s) \<and> (\<forall>q. q \<noteq> child \<longrightarrow> uctx_pool s' q = uctx_pool s q)
      \<and> (let u = uctx_pool s' child in tf_eip u = e_entry (mem s') elf_addr \<and> tf_esp u = VM_USERHI
          \<and> tf_cs u = CPU_GDT_UCODE OR 3 \<and> tf_ss u = CPU_GDT_UDATA OR 3 \<and> tf_ds u = CPU_GDT_UDATA OR 3
          \<and> tf_es u = CPU_GDT_UDATA OR 3 \<and> tf_eflags u = FL_IF))
    \<or> proc_create elf_addr quota s = Inl Panic \<and> (\<exists>sp sl. thread_spawn (loc_proc_start_user (layout s)) (get_curid s) quota s
        = Inr (child, sp) \<and> elf_load elf_addr child sp = Inr sl \<and> e_magic (mem sl) elf_addr \<noteq> ELF_MAGIC)"
  using proc_create_ok[OF assms] by (auto simp: Let_def)

lemma half_fits: "(q - u) div 2 \<le> (q - u :: u32)"
  by (simp add: word_le_nat_alt unat_div)

lemma fork_quota:
  assumes "thread_inv s Q"
  shows "container_can_consume (get_curid s) ((container_get_quota (get_curid s) s - container_get_usage (get_curid s) s) div 2) s = 1"
proof -
  have "CURID s < NUM_IDS" "c_used (CONTAINER s (CURID s)) \<noteq> 0"
    using assms by (auto simp: thread_inv_def sched_inv_def)
  then show ?thesis
    by (simp add: container_can_consume_def container_get_quota_def container_get_usage_def get_curid_def half_fits)
qed

lemma proc_fork_ok:
  assumes inv: "thread_inv s Q"
    and split: "container_split (get_curid s) ((container_get_quota (get_curid s) s - container_get_usage (get_curid s) s) div 2) s
       = Inr (child, s1)" "child \<noteq> NUM_IDS"
  shows "\<exists>s'. proc_fork s = Inr (child, s') \<and> sched_inv s' (Q(NUM_IDS := Q NUM_IDS @ [child]))
    \<and> get_curid s' = get_curid s \<and> uctx_pool s' = (uctx_pool s)(child := uctx_pool s (get_curid s))
    \<and> kc_eip (kctx_pool s' child) = loc_proc_start_user (layout s) \<and> layout s' = layout s"
proof -
  let ?entry = "loc_proc_start_user (layout s)" and ?q = "(container_get_quota (get_curid s) s - container_get_usage (get_curid s) s) div 2"
  note can = fork_quota[OF inv]
  obtain sp where sp: "thread_spawn ?entry (get_curid s) ?q s = Inr (child, sp)"
    "thread_inv sp (Q(NUM_IDS := Q NUM_IDS @ [child]))" "CURID sp = CURID s" "kc_eip (kctx_pool sp child) = ?entry"
    using spawn_ok[OF inv can split, of ?entry] by blast
  have "container_inv s" "CURID s < NUM_IDS" using inv by (auto simp: thread_inv_def sched_inv_def)
  from container_split_ok[OF this(1) can split(1)] split(2) this(2) have ch: "child < NUM_IDS" "get_curid s < NUM_IDS"
    by (auto simp: get_curid_def)
  let ?t = "sp\<lparr>uctx_pool := (uctx_pool sp)(child := uctx_pool sp (get_curid s))\<rparr>"
  obtain s' where s': "vmm_copy (get_curid s) child ?t = Inr s'" using vmm_copy_returns[OF ch(1)] by blast
  note fr = pt.vmm_copy_kept[OF s']
  have "sched_inv s' (Q(NUM_IDS := Q NUM_IDS @ [child]))"
    using sp(2) pt_only_sched_inv[OF fr] by (simp add: thread_inv_def)
  moreover have "uctx_pool s' = (uctx_pool s)(child := uctx_pool s (get_curid s))" "CURID s' = CURID s"
    using uctx_same(2)[OF fr] uctx_same(1)[OF sched_only_spawn[OF sp(1)]] pt_only_sched(1)[OF fr] sp(3) by simp_all
  moreover have "kc_eip (kctx_pool s' child) = ?entry" "layout s' = layout s"
    using pt_only_sched(2)[OF fr] pt_only_machine(3)[OF fr] sched_only_sel(3)[OF sched_only_spawn[OF sp(1)]] sp(4) by simp_all
  ultimately show ?thesis using sp s' ch split(2)
    by (simp add: proc_fork_def upd_uctx_def Let_def) (simp add: get_curid_def)
qed

text \<open>
  Forking. \<^verbatim>\<open>proc_fork\<close> gives the child half of what is left of the parent's quota, which the
  parent can always spare. If the parent has room for a child, the fork returns it: a ready thread
  at the end of the queue whose saved user context is the parent's, all other contexts unchanged. In
  particular the child resumes with the parent's \<^verbatim>\<open>eax\<close> and \<^verbatim>\<open>ebx\<close>, the number of the system call and
  its argument, and not with a result that tells it apart from the parent.
\<close>

theorem proc_fork_correct:
  assumes inv: "thread_inv s Q"
    and split: "container_split (get_curid s) ((container_get_quota (get_curid s) s - container_get_usage (get_curid s) s) div 2) s
       = Inr (child, s1)" "child \<noteq> NUM_IDS"
  shows "\<exists>s'. proc_fork s = Inr (child, s') \<and> sched_inv s' (Q(NUM_IDS := Q NUM_IDS @ [child]))
    \<and> get_curid s' = get_curid s \<and> uctx_pool s' = (uctx_pool s)(child := uctx_pool s (get_curid s))"
  using proc_fork_ok[OF assms] by blast

section \<open>Witnesses\<close>

text \<open>A machine that has booted, with no user context set up yet.\<close>

definition tf_zero :: tf_t where
  "tf_zero = \<lparr>tf_regs = \<lparr>r_edi = 0, r_esi = 0, r_ebp = 0, r_oesp = 0, r_ebx = 0, r_edx = 0, r_ecx = 0, r_eax = 0\<rparr>,
     tf_es = 0, tf_ds = 0, tf_trapno = 0, tf_err = 0, tf_eip = 0, tf_cs = 0, tf_eflags = 0, tf_esp = 0, tf_ss = 0\<rparr>"

definition proc_boot :: proc_state where
  "proc_boot = thread_state.extend thread_boot \<lparr>uctx_pool = (\<lambda>_. tf_zero)\<rparr>"

lemma proc_boot_inv:
  "\<exists>s. thread_init 0 proc_boot = Inr s \<and> thread_inv s (\<lambda>_. []) \<and> CURID s = 0 \<and> c_nchildren (CONTAINER s 0) = 0"
proof -
  note defs = proc_boot_def thread_boot_def kctx_state.defs pt_state.defs pt_boot_def container_boot_def
    boot_example_def at_example_def at_state.defs container_state.defs thread_state.defs
  have "\<exists>s0. devinit 0 proc_boot = Inr s0 \<and> pmmap_nentries s0 = 1 \<and>
      pmmap_list s0 = [\<lparr>pm_start = 0x50000000, pm_end = 0x50002000, pm_type = 1\<rparr>]"
    by (rule devinit_example) (simp_all add: defs)
  then obtain s0 where "devinit 0 proc_boot = Inr s0" by blast
  from pmem_init_eq[OF this] obtain s1 where s1: "pmem_init 0 proc_boot = Inr s1" by blast
  have "CONTAINER proc_boot c = CONTAINER_zero" "idptbl_placed proc_boot" for c
    by (simp_all add: defs idptbl_placed_def)
  from thread_init_ok[OF s1 this] show ?thesis by blast
qed

lemma first_split:
  assumes "c_nchildren (CONTAINER s 0) = 0"
  shows "\<exists>s1. container_split 0 q s = Inr (1, s1)"
  using assms by (simp add: container_split_def NUM_IDS_def MAX_CHILDREN_def word_le_nat_alt)

theorem proc_fork_correct_witness:
  "\<exists>s s'. thread_init 0 proc_boot = Inr s \<and> proc_fork s = Inr (1, s') \<and> uctx_pool s' 1 = uctx_pool s 0"
proof -
  obtain s where s: "thread_init 0 proc_boot = Inr s" "thread_inv s (\<lambda>_. [])" "CURID s = 0"
    "c_nchildren (CONTAINER s 0) = 0" using proc_boot_inv by blast
  have c: "get_curid s = 0" using s(3) by (simp add: get_curid_def)
  obtain s1 where "container_split (get_curid s) ((container_get_quota (get_curid s) s - container_get_usage (get_curid s) s) div 2) s
      = Inr (1, s1)" using first_split[OF s(4)] c by metis
  from proc_fork_correct[OF s(2) this] s(1) c show ?thesis by (auto simp: NUM_IDS_def)
qed

text \<open>A program without segments at address 0: the magic number and a string table section.\<close>

definition elf_example :: memory where
  "elf_example = (\<lambda>_. 0)(0 := 0x7F, 1 := 0x45, 2 := 0x4C, 3 := 0x46, 32 := 64, 50 := 1, 108 := 3)"

lemma elf_example_ok: "elf_ok elf_example 0" "e_phnum elf_example 0 = 0" "e_magic elf_example 0 = ELF_MAGIC"
  by (simp_all add: elf_ok_def elf_example_def e_magic_def e_shstrndx_def e_shoff_def e_phnum_def sh_type_def
      load32_def load16_def ELF_MAGIC_def ELF_SHN_UNDEF_def ELF_SHT_STRTAB_def)

theorem proc_create_correct_witness:
  "\<exists>(s :: proc_state) s'. proc_create 0 0 (s\<lparr>mem := elf_example\<rparr>) = Inr (1, s') \<and> tf_esp (uctx_pool s' 1) = VM_USERHI"
proof -
  obtain t where t: "thread_inv t (\<lambda>_. [])" "CURID t = 0" "c_nchildren (CONTAINER t 0) = 0" and
    "thread_init 0 proc_boot = Inr t" using proc_boot_inv by blast
  let ?s = "t\<lparr>mem := elf_example\<rparr>"
  have inv: "thread_inv ?s (\<lambda>_. [])"
    using t(1) queues_rep_cong[of ?s t] container_inv_cong[of ?s t] books_balance_cong[of ?s t]
    by (simp add: thread_inv_def sched_inv_def)
  have c: "get_curid ?s = 0" using t(2) by (simp add: get_curid_def)
  have can: "container_can_consume (get_curid ?s) 0 ?s = 1"
    using inv c by (simp add: thread_inv_def container_inv_def tree_ok_def container_can_consume_def NUM_IDS_def)
  obtain s1 where s1: "container_split (get_curid ?s) 0 ?s = Inr (1, s1)" using first_split[of ?s 0] t(3) c by auto
  have "e_magic (mem sl) 0 = ELF_MAGIC" if "thread_spawn (loc_proc_start_user (layout ?s)) (get_curid ?s) 0 ?s = Inr (1, sp)"
    "elf_load 0 1 sp = Inr sl" for sp sl
  proof -
    have m: "mem sp = elf_example" using sched_only_sel(9)[OF sched_only_spawn[OF that(1)]] by simp
    then have "sl = sp" using that(2) elf_example_ok
      by (simp add: elf_load_def elf_ok_def Let_def elf_segments.simps split: if_splits)
    then show ?thesis using m elf_example_ok by simp
  qed
  then show ?thesis using proc_create_correct[OF inv can s1, of 0] elf_example_ok(1)
    by - (rule exI[of _ t], auto simp: NUM_IDS_def Let_def)
qed

end
