(* ===== verification/TSyscallArg.thy ===== *)
theory TSyscallArg
  imports PProc
begin

text \<open>
  Arguments and results of system calls, \<^verbatim>\<open>kern/trap/TSyscallArg/TSyscallArg.c\<close>, in the registers of
  the current process's saved context. The numbers are those of \<^verbatim>\<open>kern/lib/syscall.h\<close>.
\<close>

section \<open>Numbers\<close>

definition SYS_puts :: u32 where "SYS_puts = 0"
definition SYS_spawn :: u32 where "SYS_spawn = 1"
definition SYS_mmap :: u32 where "SYS_mmap = 2"
definition SYS_write :: u32 where "SYS_write = 3"
definition SYS_read :: u32 where "SYS_read = 4"
definition SYS_ADV :: u32 where "SYS_ADV = 5"
definition SYS_yield :: u32 where "SYS_yield = 6"
definition SYS_fork :: u32 where "SYS_fork = 7"

lemmas syscall_nrs = SYS_puts_def SYS_spawn_def SYS_mmap_def SYS_write_def SYS_read_def SYS_ADV_def
  SYS_yield_def SYS_fork_def

definition E_SUCC :: u32 where "E_SUCC = 0"
definition E_MEM :: u32 where "E_MEM = 1"
definition E_INVAL_CALLNR :: u32 where "E_INVAL_CALLNR = 3"
definition E_INVAL_ADDR :: u32 where "E_INVAL_ADDR = 4"
definition E_INVAL_PID :: u32 where "E_INVAL_PID = 5"

lemmas error_nrs = E_SUCC_def E_MEM_def E_INVAL_CALLNR_def E_INVAL_ADDR_def E_INVAL_PID_def

section \<open>Operations\<close>

definition syscall_get_arg1 :: "'a proc_state_scheme \<Rightarrow> u32" where
  "syscall_get_arg1 s =
     (let cur_id = get_curid s in if cur_id \<ge> NUM_IDS then 0 else r_eax (tf_regs (uctx_pool s cur_id)))"

definition syscall_get_arg2 :: "'a proc_state_scheme \<Rightarrow> u32" where
  "syscall_get_arg2 s =
     (let cur_id = get_curid s in if cur_id \<ge> NUM_IDS then 0 else r_ebx (tf_regs (uctx_pool s cur_id)))"

definition syscall_get_arg3 :: "'a proc_state_scheme \<Rightarrow> u32" where
  "syscall_get_arg3 s =
     (let cur_id = get_curid s in if cur_id \<ge> NUM_IDS then 0 else r_ecx (tf_regs (uctx_pool s cur_id)))"

definition syscall_get_arg4 :: "'a proc_state_scheme \<Rightarrow> u32" where
  "syscall_get_arg4 s =
     (let cur_id = get_curid s in if cur_id \<ge> NUM_IDS then 0 else r_edx (tf_regs (uctx_pool s cur_id)))"

definition syscall_get_arg5 :: "'a proc_state_scheme \<Rightarrow> u32" where
  "syscall_get_arg5 s =
     (let cur_id = get_curid s in if cur_id \<ge> NUM_IDS then 0 else r_esi (tf_regs (uctx_pool s cur_id)))"

definition syscall_get_arg6 :: "'a proc_state_scheme \<Rightarrow> u32" where
  "syscall_get_arg6 s =
     (let cur_id = get_curid s in if cur_id \<ge> NUM_IDS then 0 else r_edi (tf_regs (uctx_pool s cur_id)))"

text \<open>Writing a register of the current process's saved context.\<close>

definition set_reg :: "(pushregs \<Rightarrow> pushregs) \<Rightarrow> 'a proc_state_scheme \<Rightarrow> 'a proc_state_scheme" where
  "set_reg f s =
     (let cur_id = get_curid s
      in if cur_id \<ge> NUM_IDS then s
         else s\<lparr>uctx_pool := (uctx_pool s)(cur_id :=
                (uctx_pool s cur_id)\<lparr>tf_regs := f (tf_regs (uctx_pool s cur_id))\<rparr>)\<rparr>)"

definition syscall_set_errno :: "u32 \<Rightarrow> 'a proc_state_scheme \<Rightarrow> 'a proc_state_scheme" where
  "syscall_set_errno errno = set_reg (r_eax_update (\<lambda>_. errno))"

definition syscall_set_retval1 :: "u32 \<Rightarrow> 'a proc_state_scheme \<Rightarrow> 'a proc_state_scheme" where
  "syscall_set_retval1 retval = set_reg (r_ebx_update (\<lambda>_. retval))"

definition syscall_set_retval2 :: "u32 \<Rightarrow> 'a proc_state_scheme \<Rightarrow> 'a proc_state_scheme" where
  "syscall_set_retval2 retval = set_reg (r_ecx_update (\<lambda>_. retval))"

definition syscall_set_retval3 :: "u32 \<Rightarrow> 'a proc_state_scheme \<Rightarrow> 'a proc_state_scheme" where
  "syscall_set_retval3 retval = set_reg (r_edx_update (\<lambda>_. retval))"

definition syscall_set_retval4 :: "u32 \<Rightarrow> 'a proc_state_scheme \<Rightarrow> 'a proc_state_scheme" where
  "syscall_set_retval4 retval = set_reg (r_esi_update (\<lambda>_. retval))"

definition syscall_set_retval5 :: "u32 \<Rightarrow> 'a proc_state_scheme \<Rightarrow> 'a proc_state_scheme" where
  "syscall_set_retval5 retval = set_reg (r_edi_update (\<lambda>_. retval))"

lemmas syscall_args = syscall_get_arg1_def syscall_get_arg2_def syscall_get_arg3_def syscall_get_arg4_def
  syscall_get_arg5_def syscall_get_arg6_def

lemmas syscall_results = syscall_set_errno_def syscall_set_retval1_def syscall_set_retval2_def
  syscall_set_retval3_def syscall_set_retval4_def syscall_set_retval5_def

section \<open>What a result changes\<close>

text \<open>Only registers of the current process: the rest of the kernel state and every other context stay.\<close>

lemma set_reg_frame: "set_reg f s = s\<lparr>uctx_pool := uctx_pool (set_reg f s)\<rparr>"
  by (simp add: set_reg_def Let_def)

lemma set_reg_other: "q \<noteq> get_curid s \<Longrightarrow> uctx_pool (set_reg f s) q = uctx_pool s q"
  by (simp add: set_reg_def Let_def)

lemma set_reg_cur:
  "get_curid s < NUM_IDS \<Longrightarrow> uctx_pool (set_reg f s) (get_curid s)
     = (uctx_pool s (get_curid s))\<lparr>tf_regs := f (tf_regs (uctx_pool s (get_curid s)))\<rparr>"
  by (simp add: set_reg_def Let_def)

lemma set_reg_sel [simp]:
  "get_curid (set_reg f s) = get_curid s" "mem (set_reg f s) = mem s" "PDirPool (set_reg f s) = PDirPool s"
  "AT (set_reg f s) = AT s" "CONTAINER (set_reg f s) = CONTAINER s" "devs (set_reg f s) = devs s"
  "CURID (set_reg f s) = CURID s" "layout (set_reg f s) = layout s" "segs (set_reg f s) = segs s"
  by (simp_all add: set_reg_def Let_def get_curid_def)

lemma sched_inv_set_reg [simp]: "sched_inv (set_reg f s) Q = sched_inv s Q"
  by (subst set_reg_frame) simp

lemma translate_set_reg [simp]: "translate pid va (set_reg f s) = translate pid va s"
  by (simp add: translate_def Let_def cong: if_cong)

end
