(* ===== verification/KPrintf.thy ===== *)
theory KPrintf
  imports DevVideo
begin

text \<open>
  Formatted output of the kernel: \<^verbatim>\<open>kern/lib/printfmt.c\<close>, the buffering of \<^verbatim>\<open>kern/lib/dprintf.c\<close>
  and \<^verbatim>\<open>debug_info\<close> of \<^verbatim>\<open>kern/lib/debug.c\<close>. A format is the list of its characters before the
  terminating 0; a \<^verbatim>\<open>va_list\<close> is the list of stack words it still holds, a \<^verbatim>\<open>long long\<close> being two of
  them. Formatting yields the characters in the order in which \<^verbatim>\<open>putch\<close> is called. Widths and
  precisions are unbounded integers: formats are constants, and overflow of an \<^verbatim>\<open>int\<close> is undefined in C.
\<close>

section \<open>Numbers\<close>

definition digit_char :: "nat \<Rightarrow> u8" where
  "digit_char d = (if d < 10 then 48 + word_of_nat d else 87 + word_of_nat d)"

text \<open>\<^verbatim>\<open>"0123456789abcdef"[num % base]\<close>, and the recursion of \<^verbatim>\<open>printnum\<close>.\<close>

function printnum :: "u64 \<Rightarrow> u64 \<Rightarrow> int \<Rightarrow> u8 \<Rightarrow> u8 list" where
  "printnum num bs width padc =
     (if num \<ge> bs \<and> bs > 1 then printnum (num div bs) bs (width - 1) padc
      else replicate (nat (width - 1)) padc) @ [digit_char (unat (num mod bs))]"
  by pat_completeness auto
termination
proof (relation "measure (\<lambda>(num, bs, width, padc). unat num)", goal_cases)
  case (2 num bs width padc)
  then have "1 < unat bs" "unat bs \<le> unat num" by (simp_all add: word_less_nat_alt word_le_nat_alt)
  then have "unat num div unat bs < unat num" by (intro div_less_dividend) auto
  then show ?case by (simp add: unat_div)
qed simp

declare printnum.simps [simp del]

section \<open>Arguments\<close>

definition va_long :: "u32 list \<Rightarrow> (u64 \<times> u32 list) res" where
  "va_long ap = (case ap of lo # hi # rest \<Rightarrow> Inr (ucast lo OR push_bit 32 (ucast hi), rest) | _ \<Rightarrow> Inl OutOfBounds)"

definition va_word :: "u32 list \<Rightarrow> (u32 \<times> u32 list) res" where
  "va_word ap = (case ap of w # rest \<Rightarrow> Inr (w, rest) | [] \<Rightarrow> Inl OutOfBounds)"

definition getuint :: "u32 list \<Rightarrow> nat \<Rightarrow> (u64 \<times> u32 list) res" where
  "getuint ap lflag =
     (if lflag \<ge> 2 then va_long ap
      else rbind (va_word ap) (\<lambda>(w, rest). Inr (ucast w, rest)))"

definition getint :: "u32 list \<Rightarrow> nat \<Rightarrow> (u64 \<times> u32 list) res" where
  "getint ap lflag =
     (if lflag \<ge> 2 then va_long ap
      else rbind (va_word ap) (\<lambda>(w, rest). Inr (scast w, rest)))"

text \<open>The characters of the string at an address up to its terminating 0, at most \<open>precision\<close> if that is not negative.\<close>

partial_function (option) cstring :: "memory \<Rightarrow> u32 \<Rightarrow> u8 list option" where
  "cstring m p = (if m p = 0 then Some [] else Option.bind (cstring m (p + 1)) (\<lambda>cs. Some (m p # cs)))"

definition string_arg :: "memory \<Rightarrow> u32 \<Rightarrow> int \<Rightarrow> u8 list res" where
  "string_arg m p precision =
     (if p = 0 then Inr (let cs = [40, 110, 117, 108, 108, 41] in if precision < 0 then cs else take (nat precision) cs)
      else if precision < 0 then (case cstring m p of None \<Rightarrow> Inl Diverges | Some cs \<Rightarrow> Inr cs)
      else Inr (takeWhile (\<lambda>c. c \<noteq> 0) (map (\<lambda>i. m (p + word_of_nat i)) [0..<nat precision])))"

section \<open>Escape sequences\<close>

record flags =
  padc :: u8
  width :: int
  precision :: int
  lflag :: nat
  altflag :: bool

definition flags0 :: flags where
  "flags0 = \<lparr>padc = 32, width = -1, precision = -1, lflag = 0, altflag = False\<rparr>"

definition process_precision :: "flags \<Rightarrow> flags" where
  "process_precision f = (if width f < 0 then f\<lparr>width := precision f, precision := -1\<rparr> else f)"

fun digits :: "int \<Rightarrow> u8 list \<Rightarrow> int \<times> u8 list" where
  "digits n [] = (n, [])"
| "digits n (c # cs) = (if 48 \<le> c \<and> c \<le> 57 then digits (n * 10 + (int (unat c) - 48)) cs else (n, c # cs))"

lemma digits_length: "digits n cs = (k, ds) \<Longrightarrow> length ds \<le> length cs"
  by (induction n cs rule: digits.induct) (fastforce split: if_splits)+

text \<open>The \<^verbatim>\<open>switch\<close> up to a conversion character; 0 stands for the end of the format.\<close>

function reswitch :: "u8 list \<Rightarrow> flags \<Rightarrow> u32 list \<Rightarrow> (u8 \<times> u8 list \<times> flags \<times> u32 list) res" where
  "reswitch fmt f ap =
     (case fmt of
        [] \<Rightarrow> Inr (0, [], f, ap)
      | ch # rest \<Rightarrow>
          if ch = 45 then reswitch rest (f\<lparr>padc := 45\<rparr>) ap
          else if ch = 48 then reswitch rest (f\<lparr>padc := 48\<rparr>) ap
          else if 49 \<le> ch \<and> ch \<le> 57
          then (let (n, rest') = digits (int (unat ch) - 48) rest
                in reswitch rest' (process_precision (f\<lparr>precision := n\<rparr>)) ap)
          else if ch = 42
          then rbind (va_word ap) (\<lambda>(w, ap'). reswitch rest (process_precision (f\<lparr>precision := sint w\<rparr>)) ap')
          else if ch = 46 then reswitch rest (if width f < 0 then f\<lparr>width := 0\<rparr> else f) ap
          else if ch = 35 then reswitch rest (f\<lparr>altflag := True\<rparr>) ap
          else if ch = 108 then reswitch rest (f\<lparr>lflag := lflag f + 1\<rparr>) ap
          else Inr (ch, rest, f, ap))"
  by pat_completeness auto
termination
  by (relation "measure (\<lambda>(fmt, f, ap). length fmt)") (auto simp: less_Suc_eq_le intro: digits_length[OF sym])

declare reswitch.simps [simp del]

lemma reswitch_length: "reswitch fmt f ap = Inr (ch, rest, f', ap') \<Longrightarrow> length rest \<le> length fmt"
proof (induction "length fmt" arbitrary: fmt f ap rule: less_induct)
  case less
  show ?case
  proof (cases fmt)
    case Nil
    with less.prems show ?thesis by (subst (asm) reswitch.simps) simp
  next
    case (Cons c cs)
    have IH: "reswitch xs g a = Inr (ch, rest, f', ap') \<Longrightarrow> length xs \<le> length cs \<Longrightarrow> length rest \<le> Suc (length cs)" for xs g a
      using less.hyps[of xs g a] Cons by simp
    from less.prems Cons show ?thesis
      by (subst (asm) reswitch.simps)
        (auto simp: Let_def rbind_eq_Inr split: if_splits prod.splits intro: IH dest: digits_length)
  qed
qed

section \<open>Conversions\<close>

text \<open>One character of a string; with \<^verbatim>\<open>#\<close> those that do not print become question marks.\<close>

definition string_char :: "bool \<Rightarrow> u8 \<Rightarrow> u8" where
  "string_char alt c = (if alt \<and> (sint c < 32 \<or> sint c > 126) then 63 else c)"

definition convert_string :: "flags \<Rightarrow> u8 list \<Rightarrow> u8 list" where
  "convert_string f cs =
     (let n = int (length cs);
          left = (if width f > 0 \<and> padc f \<noteq> 45 then replicate (nat (width f - n)) (padc f) else []);
          w = (if width f > 0 \<and> padc f \<noteq> 45 then min (width f - n) 0 else width f)
      in left @ map (string_char (altflag f)) cs @ replicate (nat (w - n)) 32)"

text \<open>The cases of the conversion characters; \<^const>\<open>None\<close> is the default case.\<close>

definition convert :: "memory \<Rightarrow> u8 \<Rightarrow> flags \<Rightarrow> u32 list \<Rightarrow> (u8 list \<times> u32 list) option res" where
  "convert m ch f ap =
     (if ch = 99 then rbind (va_word ap) (\<lambda>(w, ap'). Inr (Some ([ucast w], ap')))
      else if ch = 115
      then rbind (va_word ap) (\<lambda>(p, ap').
           rbind (string_arg m p (precision f)) (\<lambda>cs. Inr (Some (convert_string f cs, ap'))))
      else if ch = 100
      then rbind (getint ap (lflag f)) (\<lambda>(num, ap').
           Inr (Some (if sint num < 0 then 45 # printnum (- num) 10 (width f) (padc f)
                      else printnum num 10 (width f) (padc f), ap')))
      else if ch = 117
      then rbind (getuint ap (lflag f)) (\<lambda>(num, ap'). Inr (Some (printnum num 10 (width f) (padc f), ap')))
      else if ch = 111
      then rbind (getuint ap (lflag f)) (\<lambda>(num, ap'). Inr (Some (printnum num 8 (width f) (padc f), ap')))
      else if ch = 112
      then rbind (va_word ap) (\<lambda>(p, ap'). Inr (Some ([48, 120] @ printnum (ucast p) 16 (width f) (padc f), ap')))
      else if ch = 120
      then rbind (getuint ap (lflag f)) (\<lambda>(num, ap'). Inr (Some (printnum num 16 (width f) (padc f), ap')))
      else if ch = 37 then Inr (Some ([37], ap))
      else Inr None)"

text \<open>
  The main loop. The default case prints the percent sign and resumes right behind it, so that the
  unknown sequence appears as it is.
\<close>

function vprintfmt :: "memory \<Rightarrow> u8 list \<Rightarrow> u32 list \<Rightarrow> u8 list res" where
  "vprintfmt m fmt ap =
     (case fmt of
        [] \<Rightarrow> Inr []
      | c # rest \<Rightarrow>
          if c = 0 then Inr []
          else if c \<noteq> 37 then rbind (vprintfmt m rest ap) (\<lambda>out. Inr (c # out))
          else rbind (reswitch rest flags0 ap) (\<lambda>(ch, rest', f, ap1).
               rbind (convert m ch f ap1) (\<lambda>r. case r of
                 None \<Rightarrow> rbind (vprintfmt m rest ap1) (\<lambda>out. Inr (37 # out))
               | Some (cs, ap2) \<Rightarrow> rbind (vprintfmt m rest' ap2) (\<lambda>out. Inr (cs @ out)))))"
  by pat_completeness auto
termination
  by (relation "measure (\<lambda>(m, fmt, ap). length fmt)") (auto simp: less_Suc_eq_le intro: reswitch_length)

declare vprintfmt.simps [simp del]

section \<open>Buffered output (\<^verbatim>\<open>kern/lib/dprintf.c\<close>)\<close>

text \<open>\<^verbatim>\<open>cputs\<close> of a buffer and the 0 stored behind its contents: it stops at the first 0 of the two.\<close>

definition cputs :: "u8 list \<Rightarrow> 'a machine_scheme \<Rightarrow> 'a machine_scheme" where
  "cputs str s = fold cons_putc (takeWhile (\<lambda>c. c \<noteq> 0) str) s"

text \<open>The buffer of \<^verbatim>\<open>struct dprintbuf\<close> up to \<^verbatim>\<open>idx\<close>, the count of characters, and the machine.\<close>

definition putch :: "u8 \<Rightarrow> u8 list \<times> nat \<times> 'a machine_scheme \<Rightarrow> u8 list \<times> nat \<times> 'a machine_scheme" where
  "putch ch = (\<lambda>(buf, cnt, s).
     let buf = buf @ [ch]
     in if length buf = 512 - 1 then ([], cnt + 1, cputs buf s) else (buf, cnt + 1, s))"

text \<open>
  The strings that are printed do not lie in the memory of the display, so that formatting them
  first makes no difference.
\<close>

definition vdprintf :: "u8 list \<Rightarrow> u32 list \<Rightarrow> 'a machine_scheme \<Rightarrow> (nat \<times> 'a machine_scheme) res" where
  "vdprintf fmt ap s =
     rbind (vprintfmt (mem s) fmt ap) (\<lambda>out.
     let (buf, cnt, s) = fold putch out ([], 0, s) in Inr (cnt, cputs buf s))"

definition dprintf :: "u8 list \<Rightarrow> u32 list \<Rightarrow> 'a machine_scheme \<Rightarrow> (nat \<times> 'a machine_scheme) res" where
  "dprintf fmt ap s = vdprintf fmt ap s"

definition debug_info :: "u8 list \<Rightarrow> u32 list \<Rightarrow> 'a machine_scheme \<Rightarrow> 'a machine_scheme res" where
  "debug_info fmt ap s = rbind (vdprintf fmt ap s) (\<lambda>(cnt, s). Inr s)"

section \<open>Correctness\<close>

lemma cputs_clean: "0 \<notin> set cs \<Longrightarrow> cputs cs s = fold cons_putc cs s"
  unfolding cputs_def by (subst takeWhile_eq_all_conv[THEN iffD2]) auto

lemma putch_fold:
  assumes "0 \<notin> set out" "0 \<notin> set buf"
  shows "\<exists>buf' t. fold putch out (buf, cnt, s) = (buf', cnt + length out, t)
    \<and> fold cons_putc buf' t = fold cons_putc (buf @ out) s \<and> 0 \<notin> set buf'"
  using assms
proof (induction out arbitrary: buf cnt s)
  case (Cons c cs)
  show ?case
  proof (cases "length (buf @ [c]) = 511")
    case True
    with Cons.prems Cons.IH[of "[]" "cnt + 1" "cputs (buf @ [c]) s"] show ?thesis
      by (simp add: putch_def cputs_clean)
  next
    case False
    with Cons.prems Cons.IH[of "buf @ [c]" "cnt + 1" s] show ?thesis by (simp add: putch_def)
  qed
qed simp

text \<open>The text a number is printed as, read back.\<close>

definition digit_value :: "u8 \<Rightarrow> nat" where
  "digit_value c = (if c < 58 then unat c - 48 else unat c - 87)"

definition read_number :: "nat \<Rightarrow> u8 list \<Rightarrow> nat" where
  "read_number bs cs = foldl (\<lambda>n c. n * bs + digit_value c) 0 cs"

lemma unat_u8: "n < 256 \<Longrightarrow> unat (word_of_nat n :: u8) = n"
  by (simp add: unsigned_of_nat take_bit_nat_eq_self)

lemma digit_value_char: "d < 16 \<Longrightarrow> digit_value (digit_char d) = d"
  by (auto simp: digit_value_def digit_char_def word_less_nat_alt unat_word_ariths unat_u8)

lemma digit_char_zero: "d < 16 \<Longrightarrow> digit_char d = 48 \<longleftrightarrow> d = 0"
proof
  assume "d < 16" "digit_char d = 48"
  then show "d = 0" using digit_value_char[of d] by (simp add: digit_value_def)
qed (simp add: digit_char_def)

lemma replicate_2: "replicate 2 x = [x, x]"
  by (simp add: numeral_2_eq_2)

lemma printnum_text:
  assumes "2 \<le> bs" "bs \<le> 16"
  shows "\<exists>ds. printnum num bs w pc = replicate (nat (w - int (length ds))) pc @ ds \<and> ds \<noteq> []
    \<and> read_number (unat bs) ds = unat num \<and> (num \<noteq> 0 \<longrightarrow> hd ds \<noteq> 48)"
  using assms
proof (induction num bs w pc rule: printnum.induct)
  case (1 num bs w pc)
  have b: "2 \<le> unat bs" "unat bs \<le> 16" "bs > 1"
    using "1.prems" by (simp_all add: word_le_nat_alt word_less_nat_alt)
  have d: "unat (num mod bs) < 16" using b by (simp add: unat_mod) (metis mod_less_divisor order_less_le_trans not_numeral_le_zero not_gr_zero)
  show ?case
  proof (cases "num \<ge> bs")
    case True
    from "1.IH"[OF conjI[OF True b(3)] "1.prems"] obtain ds where
      ds: "printnum (num div bs) bs (w - 1) pc = replicate (nat (w - 1 - int (length ds))) pc @ ds" "ds \<noteq> []"
      "read_number (unat bs) ds = unat (num div bs)" "num div bs \<noteq> 0 \<longrightarrow> hd ds \<noteq> 48" by blast
    have "unat num div unat bs \<noteq> 0" using True b by (simp add: word_le_nat_alt div_eq_0_iff)
    then have "num div bs \<noteq> 0" by (metis unat_div unsigned_0)
    moreover have "read_number (unat bs) (ds @ [digit_char (unat (num mod bs))]) = unat num"
      using ds(3) d by (simp add: read_number_def digit_value_char unat_div unat_mod)
    ultimately show ?thesis using True b ds
      by (intro exI[of _ "ds @ [digit_char (unat (num mod bs))]"])
        (subst printnum.simps, simp add: algebra_simps)
  next
    case False
    then have "unat num < unat bs" by (simp add: word_le_nat_alt)
    then have "unat (num mod bs) = unat num" by (simp add: unat_mod)
    then show ?thesis using False d
      by (intro exI[of _ "[digit_char (unat (num mod bs))]"])
        (subst printnum.simps, simp add: read_number_def digit_value_char digit_char_zero unat_gt_0)
  qed
qed

text \<open>
  Numbers are printed so that they can be read back. For every base from 2 to 16 the printed text
  is the digits of the number, without a leading zero unless the number is 0, padded on the left with
  the padding character to at least the given width; reading the digits gives the number.
\<close>

theorem printnum_roundtrip:
  assumes "2 \<le> bs" "bs \<le> 16"
  shows "\<exists>ds. printnum num bs w pc = replicate (nat (w - int (length ds))) pc @ ds \<and> ds \<noteq> []
    \<and> read_number (unat bs) ds = unat num \<and> (num \<noteq> 0 \<longrightarrow> hd ds \<noteq> 48)"
  by (rule printnum_text[OF assms])

theorem printnum_roundtrip_witness:
  "printnum 255 16 4 48 = [48, 48, 102, 102] \<and> (\<exists>ds. [48, 48, 102, 102] = replicate (nat (4 - int (length ds))) 48 @ ds
     \<and> read_number 16 ds = 255)"
proof -
  have "printnum 255 16 4 48 = [48, 48, 102, 102]"
    by (simp add: printnum.simps digit_char_def replicate_2)
  with printnum_roundtrip[of 16 255 4 48] show ?thesis by auto
qed

lemma vdprintf_direct:
  assumes "vprintfmt (mem s) fmt ap = Inr out" "0 \<notin> set out"
  shows "vdprintf fmt ap s = Inr (length out, fold cons_putc out s)"
proof -
  obtain buf t where "fold putch out ([], 0, s) = (buf, 0 + length out, t)"
    "fold cons_putc buf t = fold cons_putc ([] @ out) s" "0 \<notin> set buf"
    using putch_fold[OF assms(2), of "[]" 0 s] by auto
  with assms(1) show ?thesis by (simp add: vdprintf_def cputs_clean)
qed

text \<open>
  Buffering is invisible. Whenever formatting succeeds and yields no character 0, \<^verbatim>\<open>vdprintf\<close> has
  exactly the effect of sending the formatted characters to the console one by one, however many
  times the buffer of 512 bytes fills up, and returns their number.
\<close>

theorem vdprintf_unbuffered:
  assumes "vprintfmt (mem s) fmt ap = Inr out" "0 \<notin> set out"
  shows "vdprintf fmt ap s = Inr (length out, fold cons_putc out s)"
  using assms by (rule vdprintf_direct)

theorem vdprintf_unbuffered_witness:
  "vdprintf [37, 52, 120, 33] [255] machine_example
     = Inr (5, fold cons_putc [32, 32, 102, 102, 33] machine_example)"
proof -
  have "vprintfmt (mem machine_example) [37, 52, 120, 33] [255] = Inr [32, 32, 102, 102, 33]"
    by (simp add: vprintfmt.simps reswitch.simps flags0_def process_precision_def convert_def getuint_def
        va_word_def printnum.simps digit_char_def replicate_2)
  from vdprintf_unbuffered[OF this] show ?thesis by simp
qed

section \<open>Messages\<close>

text \<open>The characters of a literal.\<close>

definition chars :: "string \<Rightarrow> u8 list" where
  "chars = map of_char"

text \<open>A format that prints text without a character 0 whatever memory holds.\<close>

definition message :: "u8 list \<Rightarrow> u32 list \<Rightarrow> bool" where
  "message fmt ap \<longleftrightarrow> (\<forall>m. \<exists>out. vprintfmt m fmt ap = Inr out \<and> 0 \<notin> set out)"

lemma unat_digit_char: "d < 16 \<Longrightarrow> unat (digit_char d) = (if d < 10 then 48 + d else 87 + d)"
  by (auto simp: digit_char_def unat_word_ariths unat_u8)

lemma digit_char_nonzero: "d < 16 \<Longrightarrow> digit_char d \<noteq> 0"
  using unat_digit_char[of d] by (auto split: if_splits)

lemma printnum_nonzero:
  assumes "2 \<le> bs" "bs \<le> 16" "pc \<noteq> 0"
  shows "0 \<notin> set (printnum num bs w pc)"
  using assms
proof (induction num bs w pc rule: printnum.induct)
  case (1 num bs w pc)
  have "0 < unat bs" "unat bs \<le> 16" using "1.prems" by (simp_all add: word_le_nat_alt)
  then have "unat (num mod bs) < 16" by (simp add: unat_mod) (metis mod_less_divisor order_less_le_trans)
  then have "digit_char (unat (num mod bs)) \<noteq> 0" by (rule digit_char_nonzero)
  with "1" show ?case by (subst printnum.simps) auto
qed

lemma vprintfmt_escape:
  "vprintfmt m (37 # 100 # fmt) (w # ap) = rbind (vprintfmt m fmt ap) (\<lambda>out.
     Inr ((if sint (scast w :: u64) < 0 then 45 # printnum (- scast w) 10 (-1) 32 else printnum (scast w) 10 (-1) 32) @ out))"
  "vprintfmt m (37 # 120 # fmt) (w # ap) = rbind (vprintfmt m fmt ap) (\<lambda>out. Inr (printnum (ucast w) 16 (-1) 32 @ out))"
  by (subst vprintfmt.simps, simp add: reswitch.simps flags0_def convert_def getint_def getuint_def va_word_def)+

lemma message_rules [simp]:
  "message [] ap"
  "c \<noteq> 0 \<Longrightarrow> c \<noteq> 37 \<Longrightarrow> message fmt ap \<Longrightarrow> message (c # fmt) ap"
  "message fmt ap \<Longrightarrow> message (37 # 100 # fmt) (w # ap)"
  "message fmt ap \<Longrightarrow> message (37 # 120 # fmt) (w # ap)"
proof -
  show "message [] ap" by (simp add: message_def vprintfmt.simps)
  show "c \<noteq> 0 \<Longrightarrow> c \<noteq> 37 \<Longrightarrow> message fmt ap \<Longrightarrow> message (c # fmt) ap"
    unfolding message_def by (subst vprintfmt.simps) (fastforce simp: rbind_eq_Inr)
  show "message fmt ap \<Longrightarrow> message (37 # 100 # fmt) (w # ap)"
    unfolding message_def by (fastforce simp: vprintfmt_escape rbind_eq_Inr printnum_nonzero)
  show "message fmt ap \<Longrightarrow> message (37 # 120 # fmt) (w # ap)"
    unfolding message_def by (fastforce simp: vprintfmt_escape rbind_eq_Inr printnum_nonzero)
qed

lemma message_plain: "list_all (\<lambda>c. c \<noteq> 0 \<and> c \<noteq> 37) fmt \<Longrightarrow> message fmt ap"
  by (induction fmt) simp_all

lemma message_printed:
  assumes "message fmt ap" "on_screen s"
  shows "\<exists>t n. debug_info fmt ap s = Inr t \<and> dprintf fmt ap s = Inr (n, t) \<and> display_frame s t \<and> on_screen t"
proof -
  obtain out where "vprintfmt (mem s) fmt ap = Inr out" "0 \<notin> set out" using assms(1) by (auto simp: message_def)
  with vdprintf_direct[OF this] prints_ok[OF assms(2), of out] show ?thesis
    by (simp add: debug_info_def dprintf_def)
qed

section \<open>Strings\<close>

lemma cstring_ends:
  assumes "m (p + word_of_nat n) = 0"
  shows "cstring m p = Some (takeWhile (\<lambda>c. c \<noteq> 0) (map (\<lambda>i. m (p + word_of_nat i)) [0..<n]))"
  using assms
proof (induction n arbitrary: p)
  case 0
  then show ?case by (simp add: cstring.simps)
next
  case (Suc n)
  have "m (p + 1 + word_of_nat n) = 0" using Suc.prems by (simp add: algebra_simps)
  note IH = Suc.IH[OF this]
  have "map (\<lambda>i. m (p + word_of_nat i)) [0..<Suc n] = m p # map (\<lambda>i. m (p + 1 + word_of_nat i)) [0..<n]"
    by (simp add: map_upt_Suc algebra_simps del: upt_Suc)
  then show ?case using IH by (subst cstring.simps) simp
qed

lemma cstring_str_at: "cstring m p = Some cs \<longleftrightarrow> str_at m p cs"
proof
  show "cstring m p = Some cs \<Longrightarrow> str_at m p cs"
    by (erule cstring.raw_induct[where P = "\<lambda>m p cs. str_at m p cs", rotated])
      (auto simp: bind_eq_Some_conv split: if_splits)
  show "str_at m p cs \<Longrightarrow> cstring m p = Some cs"
    by (induction cs arbitrary: p) (subst cstring.simps, simp)+
qed

lemma vprintfmt_string:
  assumes "p \<noteq> 0" "cstring m p = Some cs"
  shows "vprintfmt m (chars ''%s'') [p] = Inr cs"
proof -
  have "map (string_char False) cs = cs" by (simp add: string_char_def map_idI)
  moreover have "vprintfmt m [] ap = Inr []" for ap by (subst vprintfmt.simps) simp
  ultimately show ?thesis using assms
    by (subst vprintfmt.simps) (simp add: chars_def reswitch.simps flags0_def convert_def va_word_def string_arg_def
        convert_string_def)
qed

end
