(* ===== verification/TSyscall.thy ===== *)
theory TSyscall
  imports TSyscallArg KPrintf
begin

text \<open>
  The system calls, \<^verbatim>\<open>kern/trap/TSyscall/TSyscall.c\<close>, and their dispatch,
  \<^verbatim>\<open>kern/trap/TDispatch/TDispatch.c\<close>, with the messages they print.
\<close>

section \<open>System calls\<close>

text \<open>The loop of \<^verbatim>\<open>sys_puts\<close>; \<^verbatim>\<open>sys_buf[cur_pid]\<close> is a page of kernel memory.\<close>

definition sys_buf :: "u32 \<Rightarrow> 'a machine_scheme \<Rightarrow> u32" where
  "sys_buf pid s = loc_sys_buf (layout s) + pid * PAGESIZE"

function sys_puts_loop :: "u32 \<Rightarrow> u32 \<Rightarrow> u32 \<Rightarrow> 'a proc_state_scheme \<Rightarrow> 'a proc_state_scheme res" where
  "sys_puts_loop cur_pid remain cur_pos s =
     (if remain \<noteq> 0
      then (let nbytes = (if remain < PAGESIZE - 1 then remain else PAGESIZE - 1)
            in rbind (pt_copyin cur_pid cur_pos (sys_buf cur_pid s) nbytes s) (\<lambda>(n, s).
               if n \<noteq> nbytes then Inr (syscall_set_errno E_MEM s)
               else rbind (debug_info (chars ''%s'') [sys_buf cur_pid s]
                             (s\<lparr>mem := (mem s)(sys_buf cur_pid s + nbytes := 0)\<rparr>))
                      (sys_puts_loop cur_pid (remain - nbytes) (cur_pos + nbytes))))
      else Inr (syscall_set_errno E_SUCC s))"
  by pat_completeness auto
termination
proof (relation "measure (\<lambda>(cur_pid, remain, cur_pos, s). unat remain)", goal_cases)
  case (2 cur_pid remain cur_pos s nbytes x n t u)
  then have "nbytes \<noteq> 0" "nbytes \<le> remain" by (auto simp: PAGESIZE_def not_less split: if_splits)
  then have "unat (remain - nbytes) < unat remain" by unat_arith
  then show ?case by simp
qed simp

declare sys_puts_loop.simps [simp del]

definition sys_puts :: "'a proc_state_scheme \<Rightarrow> 'a proc_state_scheme res" where
  "sys_puts s =
     (let cur_pid = get_curid s; str_uva = syscall_get_arg2 s; str_len = syscall_get_arg3 s
      in if \<not> (VM_USERLO \<le> str_uva \<and> str_uva + str_len \<le> VM_USERHI)
         then Inr (syscall_set_errno E_INVAL_ADDR s)
         else sys_puts_loop cur_pid str_len str_uva s)"

definition sys_spawn :: "'a proc_state_scheme \<Rightarrow> 'a proc_state_scheme res" where
  "sys_spawn s =
     (let elf_id = syscall_get_arg2 s; quota = syscall_get_arg3 s
      in if elf_id \<in> {1, 2, 3, 4}
         then rbind (proc_create (loc_elf (layout s) elf_id) quota s) (\<lambda>(pid, s).
              if pid = NUM_IDS then Inr (syscall_set_retval1 NUM_IDS (syscall_set_errno E_INVAL_PID s))
              else Inr (syscall_set_retval1 pid (syscall_set_errno E_SUCC s)))
         else Inr (syscall_set_retval1 NUM_IDS (syscall_set_errno E_INVAL_PID s)))"

text \<open>
  \<^verbatim>\<open>thread_yield\<close> comes back in the thread that was switched to. A thread that had yielded before
  resumes behind its own call and sets the error number of its process; a thread that has never run
  starts in \<^verbatim>\<open>proc_start_user\<close>, where every trap ends anyway.
\<close>

definition sys_yield :: "'a proc_state_scheme \<Rightarrow> 'a proc_state_scheme res" where
  "sys_yield s =
     rbind (thread_yield s) (\<lambda>s'.
     if get_curid s' \<noteq> get_curid s \<and> kc_eip (cpu s') = loc_proc_start_user (layout s')
     then Inr s' else Inr (syscall_set_errno E_SUCC s'))"

definition sys_fork :: "'a proc_state_scheme \<Rightarrow> 'a proc_state_scheme res" where
  "sys_fork s =
     rbind (proc_fork s) (\<lambda>(pid, s).
     if pid = NUM_IDS then Inr (syscall_set_retval1 NUM_IDS (syscall_set_errno E_INVAL_PID s))
     else Inr (syscall_set_retval1 pid (syscall_set_errno E_SUCC s)))"

definition SUPER :: u32 where "SUPER = 200"
definition CONSECUTIVE :: u32 where "CONSECUTIVE = 300"

definition sys_mmap :: "'a proc_state_scheme \<Rightarrow> 'a proc_state_scheme res" where
  "sys_mmap s =
     (let curid = get_curid s; sz = syscall_get_arg2 s; perm = syscall_get_arg3 s;
          flag = syscall_get_arg4 s; vaddr = syscall_get_arg5 s
      in rbind (debug_info (chars ''In process %d, size: %d, perm: %d, flag: %d'' @ [10]) [curid, sz, perm, flag] s) (\<lambda>s.
         rbind (if flag = SUPER then alloc_super_page curid vaddr perm s
                else if flag = CONSECUTIVE then alloc_consecutive_page curid vaddr perm sz s
                else alloc_page curid vaddr perm s) (\<lambda>(reg_page, s).
         if reg_page = MagicNumber then Inr (syscall_set_retval1 MagicNumber (syscall_set_errno E_MEM s))
         else Inr (syscall_set_retval1 reg_page (syscall_set_errno E_SUCC s)))))"

text \<open>\<^verbatim>\<open>sys_write\<close> and \<^verbatim>\<open>sys_read\<close>: what is left of them outside comments; neither is dispatched.\<close>

definition sys_write :: "'a proc_state_scheme \<Rightarrow> 'a proc_state_scheme" where
  "sys_write s = syscall_set_errno E_SUCC s"

definition sys_read :: "'a proc_state_scheme \<Rightarrow> 'a proc_state_scheme" where
  "sys_read s = syscall_set_retval1 0 (syscall_set_errno E_SUCC s)"

definition sys_get_ptbl_entry :: "'a proc_state_scheme \<Rightarrow> 'a proc_state_scheme res" where
  "sys_get_ptbl_entry s =
     (let curid = get_curid s; vaddr = syscall_get_arg2 s;
          ptbl_entry = get_ptbl_entry_by_va curid vaddr s
      in rbind (debug_info (chars ''get_ptble_entry In process %d, vaddr: %x'' @ [10]) [curid, vaddr] s) (\<lambda>s.
         Inr (syscall_set_retval1 ptbl_entry (syscall_set_errno E_SUCC s))))"

section \<open>Dispatch\<close>

definition syscall_dispatch :: "'a proc_state_scheme \<Rightarrow> 'a proc_state_scheme res" where
  "syscall_dispatch s =
     (let nr = syscall_get_arg1 s
      in if nr = SYS_puts then sys_puts s
         else if nr = SYS_spawn then sys_spawn s
         else if nr = SYS_yield then sys_yield s
         else if nr = SYS_fork then sys_fork s
         else if nr = SYS_mmap then sys_mmap s
         else if nr = SYS_ADV then sys_get_ptbl_entry s
         else Inr (syscall_set_errno E_INVAL_CALLNR s))"

section \<open>Printing for a process\<close>


section \<open>Witness\<close>

text \<open>Process 1 running on given page tables, with the display set up and a fault at an address.\<close>

definition proc_of :: "u32 \<Rightarrow> pt_state \<Rightarrow> proc_state" where
  "proc_of va p = thread_state.extend (kctx_state.extend
     (pt_state.extend (p\<lparr>cr2 := va, devs := (devs p)\<lparr>crt_buf := CGA_BUF, crt_pos := 0\<rparr>\<rparr>)
       \<lparr>CURID = 1, cpu = kctx_zero, kctx_pool = (\<lambda>_. kctx_zero)\<rparr>)
     \<lparr>TCBPool = (\<lambda>_. \<lparr>tcb_state = 0, tcb_prev = 0, tcb_next = 0\<rparr>), TQueuePool = (\<lambda>_. \<lparr>tq_head = 0, tq_tail = 0\<rparr>)\<rparr>)
     \<lparr>uctx_pool = (\<lambda>_. tf_zero)\<rparr>"

lemma proc_of_sel [simp]:
  "get_curid (proc_of va p) = 1" "cr2 (proc_of va p) = va" "PDirPool (proc_of va p) = PDirPool p"
  "mem (proc_of va p) = mem p" "AT (proc_of va p) = AT p" "CONTAINER (proc_of va p) = CONTAINER p"
  "loc_IDPTbl (proc_of va p) = loc_IDPTbl p" "crt_buf (devs (proc_of va p)) = CGA_BUF" "crt_pos (devs (proc_of va p)) = 0"
  by (simp_all add: proc_of_def pt_state.defs kctx_state.defs thread_state.defs get_curid_def)

text \<open>The process of \<^const>\<open>cow_example\<close> prints from a field of four bytes that holds two characters.\<close>

definition puts_example :: proc_state where
  "puts_example = (proc_of 0 (cow_example\<lparr>mem := (mem cow_example)(0x40001010 := 72, 0x40001011 := 105)\<rparr>))
     \<lparr>uctx_pool := (\<lambda>_. tf_zero\<lparr>tf_regs := (tf_regs tf_zero)\<lparr>r_ebx := 0x40000010, r_ecx := 4\<rparr>\<rparr>)\<rparr>"

lemma puts_example_buffers:
  "user_buffer 1 0x40000010 4 puts_example" "kernel_buffer (sys_buf 1 puts_example) 1 0x40000010 4 puts_example"
  "sys_buf 1 puts_example = 0x851000" "i < 4 \<Longrightarrow> upa 1 (0x40000010 + i) puts_example = 0x40001010 + i"
proof -
  let ?m = "(mem cow_example)(0x40001010 := 72, 0x40001011 := 105)"
  note cb = cow_example_buffers
  have off: "off_tables (0x40001010 + j) 1 0x40000010 4 cow_example" if "j < 4" for j
    using cb(1) cb(3)[OF that] that by (auto simp: user_buffer_def)
  have st: "\<forall>a. a \<notin> (\<lambda>i. 0x40001010 + i) ` {..<4} \<longrightarrow> ?m a = mem cow_example a"
  proof (intro allI impI)
    fix a :: u32 assume "a \<notin> (\<lambda>i. 0x40001010 + i) ` {..<4}"
    then have "a \<noteq> 0x40001010 + i" if "i < 4" for i using that by blast
    from this[of 0] this[of 1] have "a \<noteq> 0x40001010" "a \<noteq> 0x40001011" by simp_all
    then show "?m a = mem cow_example a" by simp
  qed
  have "get_ptbl_entry_by_va q va puts_example = get_ptbl_entry_by_va q va (cow_example\<lparr>mem := ?m\<rparr>)" for q va
    by (simp add: puts_example_def get_ptbl_entry_by_va_def get_pdir_entry_def get_ptbl_entry_def Let_def cong: if_cong)
  then have e: "get_ptbl_entry_by_va 1 (0x40000010 + i) puts_example = get_ptbl_entry_by_va 1 (0x40000010 + i) cow_example" if "i < 4" for i
    using entry_stable[where m = ?m, OF that st off] by (simp only: fun_upd_def)
  have "PDirPool puts_example = PDirPool cow_example" by (simp add: puts_example_def)
  then have c: "off_tables a q va n puts_example = off_tables a q va n cow_example" for q va a n
    by (simp add: off_tables_def pte_cell_def)
  have u: "upa 1 (0x40000010 + i) puts_example = upa 1 (0x40000010 + i) cow_example" if "i < 4" for i
    using e[OF that] by (simp add: upa_def)
  then show "i < 4 \<Longrightarrow> upa 1 (0x40000010 + i) puts_example = 0x40001010 + i" using cb(3) by simp
  have "inj_on (\<lambda>i. upa 1 (0x40000010 + i) puts_example) {..<4} = inj_on (\<lambda>i. upa 1 (0x40000010 + i) cow_example) {..<4}"
    using u by (intro inj_on_cong) simp
  then show "user_buffer 1 0x40000010 4 puts_example" using cb(1) e u by (simp add: user_buffer_def c)
  show b: "sys_buf 1 puts_example = 0x851000"
    by (simp add: sys_buf_def puts_example_def proc_of_def pt_state.defs kctx_state.defs thread_state.defs cow_example_def
        pt_example1_def pt_example_def container_state.defs container_example_def at_state.defs at_example_def
        machine.defs machine_example_def layout_example_def PAGESIZE_def)
  show "kernel_buffer (sys_buf 1 puts_example) 1 0x40000010 4 puts_example"
    using cb(2)[of "0x851000"] u by (simp add: b kernel_buffer_def c)
qed


end
