(* ===== verification/TTrap.thy ===== *)
theory TTrap
  imports TSyscall
begin

text \<open>
  Traps, \<^verbatim>\<open>kern/trap/TTrapHandler/TTrapHandler.c\<close>: exceptions, interrupts and system calls of user code,
  from the trap frame the entry code pushes to the frame the processor resumes. A handler that ends
  in \<^verbatim>\<open>KERN_PANIC\<close> never returns, so the registers that \<^verbatim>\<open>trap_dump\<close> prints before it are not modelled.
\<close>

section \<open>Numbers\<close>

definition T_DIVIDE :: u32 where "T_DIVIDE = 0"
definition T_PGFLT :: u32 where "T_PGFLT = 14"
definition T_SECEV :: u32 where "T_SECEV = 30"
definition IRQ_TIMER :: u32 where "IRQ_TIMER = 0"
definition IRQ_SPURIOUS :: u32 where "IRQ_SPURIOUS = 7"
definition IRQ_IDE2 :: u32 where "IRQ_IDE2 = 15"
definition PFE_PR :: u32 where "PFE_PR = 0x1"

lemmas trap_nrs = T_DIVIDE_def T_PGFLT_def T_SECEV_def IRQ_TIMER_def IRQ_SPURIOUS_def IRQ_IDE2_def
  T_IRQ0_def T_SYSCALL_def

section \<open>Handlers\<close>

definition default_exception_handler :: "'a proc_state_scheme \<Rightarrow> 'a proc_state_scheme res" where
  "default_exception_handler s = Inl Panic"

definition pgflt_handler :: "'a proc_state_scheme \<Rightarrow> 'a proc_state_scheme res" where
  "pgflt_handler s =
     rbind (dprintf (chars ''enter pgflt_handler'' @ [10]) [] s) (\<lambda>(_, s).
     let cur_pid = get_curid s; errno = tf_err (uctx_pool s cur_pid); fault_va = rcr2 s
     in if errno AND 0x3 = 0x3
        then (if get_ptbl_entry_by_va cur_pid fault_va s AND PTE_COW \<noteq> 0
              then copy_on_write cur_pid fault_va s else Inl Panic)
        else if errno AND PFE_PR \<noteq> 0 then Inl Panic
        else rbind (alloc_page cur_pid fault_va (PTE_W OR PTE_U OR PTE_P) s) (\<lambda>(r, s).
             if r = MagicNumber then Inl Panic else Inr s))"

definition exception_handler :: "'a proc_state_scheme \<Rightarrow> 'a proc_state_scheme res" where
  "exception_handler s =
     (let cur_pid = get_curid s
      in if tf_trapno (uctx_pool s cur_pid) = T_PGFLT then pgflt_handler s else default_exception_handler s)"

definition spurious_intr_handler :: "'a machine_scheme \<Rightarrow> 'a machine_scheme" where
  "spurious_intr_handler s = s"

definition timer_intr_handler :: "'a machine_scheme \<Rightarrow> 'a machine_scheme" where
  "timer_intr_handler s = upd_devs intr_eoi s"

definition default_intr_handler :: "'a machine_scheme \<Rightarrow> 'a machine_scheme" where
  "default_intr_handler s = upd_devs intr_eoi s"

definition interrupt_handler :: "'a proc_state_scheme \<Rightarrow> 'a proc_state_scheme" where
  "interrupt_handler s =
     (let cur_pid = get_curid s; trapno = tf_trapno (uctx_pool s cur_pid)
      in if trapno = T_IRQ0 + IRQ_TIMER then timer_intr_handler s
         else if trapno = T_IRQ0 + IRQ_SPURIOUS then spurious_intr_handler s
         else default_intr_handler s)"

definition trap :: "tf_t \<Rightarrow> 'a proc_state_scheme \<Rightarrow> (tf_t \<times> 'a proc_state_scheme) res" where
  "trap tf s =
     (let cur_pid = get_curid s
      in rbind (upd_uctx cur_pid (\<lambda>_. tf) s) (\<lambda>s.
         let s = set_pdir_base 0 s
         in rbind (if T_DIVIDE \<le> tf_trapno tf \<and> tf_trapno tf \<le> T_SECEV then exception_handler s
                   else if T_IRQ0 + IRQ_TIMER \<le> tf_trapno tf \<and> tf_trapno tf \<le> T_IRQ0 + IRQ_IDE2
                   then Inr (interrupt_handler s)
                   else if tf_trapno tf = T_SYSCALL then syscall_dispatch s
                   else Inr s)
              proc_start_user))"

section \<open>What a trap does\<close>

text \<open>The state a handler starts from, and the state that is left for user code.\<close>

definition entered :: "tf_t \<Rightarrow> 'a proc_state_scheme \<Rightarrow> 'a proc_state_scheme" where
  "entered tf s = set_pdir_base 0 (s\<lparr>uctx_pool := (uctx_pool s)(get_curid s := tf)\<rparr>)"

definition user_space :: "'a proc_state_scheme \<Rightarrow> 'a proc_state_scheme" where
  "user_space s = set_pdir_base (get_curid s) (tss_switch (get_curid s) s)"

text \<open>The address of the task state segment the processor uses.\<close>

definition task_state :: "'a machine_scheme \<Rightarrow> u32" where
  "task_state s = seg_base (gdt_LOC (segs s) (ucast (drop_bit 3 (tr (segs s)))))"

lemma task_state_switch: "task_state (tss_switch pid s) = loc_tss_LOC (layout s) + pid * sizeof_tss"
  by (simp add: task_state_def tss_switch_def gdt_set_def ltr_def seg_consts flat_segment)

lemma entered_sel [simp]:
  "get_curid (entered tf s) = get_curid s" "CURID (entered tf s) = CURID s" "mem (entered tf s) = mem s"
  "devs (entered tf s) = devs s" "layout (entered tf s) = layout s" "segs (entered tf s) = segs s"
  "cr2 (entered tf s) = cr2 s" "PDirPool (entered tf s) = PDirPool s" "AT (entered tf s) = AT s"
  "loc_IDPTbl (entered tf s) = loc_IDPTbl s" "loc_PDirPool (entered tf s) = loc_PDirPool s"
  "CONTAINER (entered tf s) = CONTAINER s"
  "uctx_pool (entered tf s) = (uctx_pool s)(get_curid s := tf)"
  by (simp_all add: entered_def set_pdir_base_def set_cr3_def lcr3_def get_curid_def)

lemma user_space_sel [simp]:
  "get_curid (user_space s) = get_curid s" "CURID (user_space s) = CURID s" "mem (user_space s) = mem s"
  "devs (user_space s) = devs s" "PDirPool (user_space s) = PDirPool s" "AT (user_space s) = AT s"
  "loc_IDPTbl (user_space s) = loc_IDPTbl s" "CONTAINER (user_space s) = CONTAINER s"
  "uctx_pool (user_space s) = uctx_pool s" "layout (user_space s) = layout s"
  "cr3 (user_space s) = loc_PDirPool s + get_curid s * 4096"
  "segs (user_space s) = segs (tss_switch (get_curid s) s)"
  by (simp_all add: user_space_def set_pdir_base_def set_cr3_def lcr3_def get_curid_def tss_switch_def)

lemma start_user_eq:
  "get_curid s < NUM_IDS \<Longrightarrow> proc_start_user s = Inr (uctx_pool s (get_curid s), user_space s)"
  by (simp add: proc_start_user_def user_space_def Let_def)
    (simp add: set_pdir_base_def set_cr3_def lcr3_def tss_switch_def)

lemma trap_eq:
  assumes "get_curid s < NUM_IDS"
  shows "trap tf s = rbind
     (if tf_trapno tf \<le> 30 then (if tf_trapno tf = T_PGFLT then pgflt_handler (entered tf s) else Inl Panic)
      else if 32 \<le> tf_trapno tf \<and> tf_trapno tf \<le> 47
      then Inr (if tf_trapno tf = 39 then entered tf s else upd_devs intr_eoi (entered tf s))
      else if tf_trapno tf = 48 then syscall_dispatch (entered tf s)
      else Inr (entered tf s)) proc_start_user"
  using assms
  by (simp add: trap_def upd_uctx_def Let_def exception_handler_def default_exception_handler_def
      interrupt_handler_def timer_intr_handler_def spurious_intr_handler_def default_intr_handler_def trap_nrs
      flip: entered_def)

text \<open>
  C26: interrupts are invisible to user code. A hardware interrupt resumes exactly the frame that was
  interrupted, on the page directory and the task state of the process that was running; all but a
  spurious interrupt are acknowledged to both interrupt controllers, and nothing else of the kernel
  state changes but the copy of the frame.
\<close>

theorem interrupt_transparent:
  assumes "get_curid s < NUM_IDS" "T_IRQ0 \<le> tf_trapno tf" "tf_trapno tf \<le> T_IRQ0 + IRQ_IDE2"
  shows "\<exists>s'. trap tf s = Inr (tf, s') \<and> cr3 s' = loc_PDirPool s + get_curid s * 4096
    \<and> task_state s' = loc_tss_LOC (layout s) + get_curid s * sizeof_tss
    \<and> devs s' = (if tf_trapno tf = T_IRQ0 + IRQ_SPURIOUS then devs s else intr_eoi (devs s))
    \<and> s' = s\<lparr>cr3 := cr3 s', segs := segs s', devs := devs s', uctx_pool := (uctx_pool s)(get_curid s := tf)\<rparr>"
proof -
  let ?e = "entered tf s"
  let ?t = "if tf_trapno tf = 39 then ?e else upd_devs intr_eoi ?e"
  have t: "\<not> tf_trapno tf \<le> 30" using assms(2) by (auto simp: T_IRQ0_def word_le_nat_alt)
  have c: "get_curid ?t = get_curid s" "uctx_pool ?t = (uctx_pool s)(get_curid s := tf)"
    by (simp_all add: upd_devs_def get_curid_def)
  have run: "trap tf s = Inr (tf, user_space ?t)"
    using assms t c start_user_eq[of ?t] by (simp add: trap_eq trap_nrs)
  have "task_state (user_space ?t) = loc_tss_LOC (layout s) + get_curid s * sizeof_tss"
    using task_state_switch[of "get_curid s" ?t] c by (simp add: task_state_def upd_devs_def)
  moreover have "user_space ?t = s\<lparr>cr3 := cr3 (user_space ?t), segs := segs (user_space ?t), devs := devs (user_space ?t),
      uctx_pool := (uctx_pool s)(get_curid s := tf)\<rparr>"
    by (simp add: upd_devs_def user_space_def entered_def set_pdir_base_def set_cr3_def lcr3_def tss_switch_def get_curid_def)
  ultimately show ?thesis using run c
    by (intro exI[of _ "user_space ?t"]) (simp add: trap_nrs upd_devs_def)
qed

lemma entered_arg1: "get_curid s < NUM_IDS \<Longrightarrow> syscall_get_arg1 (entered tf s) = r_eax (tf_regs tf)"
  by (simp add: syscall_get_arg1_def Let_def not_le[symmetric])

text \<open>A system call that ends in the current process.\<close>

lemma trap_syscall:
  assumes "get_curid s < NUM_IDS" "tf_trapno tf = T_SYSCALL"
  shows "trap tf s = rbind (syscall_dispatch (entered tf s)) proc_start_user"
  using assms by (simp add: trap_eq trap_nrs)

text \<open>
  C27: a number that is no system call is refused. Every such trap, the numbers of \<^verbatim>\<open>sys_write\<close> and
  \<^verbatim>\<open>sys_read\<close> included, resumes the caller with \<^verbatim>\<open>E_INVAL_CALLNR\<close> in \<^verbatim>\<open>eax\<close> and all its other registers as
  they were, and changes nothing else of the kernel state but the processor's tables.
\<close>

theorem unknown_syscall_refused:
  assumes "get_curid s < NUM_IDS" "tf_trapno tf = T_SYSCALL"
    and "r_eax (tf_regs tf) \<notin> {SYS_puts, SYS_spawn, SYS_yield, SYS_fork, SYS_mmap, SYS_ADV}"
  shows "\<exists>s' tf'. trap tf s = Inr (tf', s') \<and> tf' = tf\<lparr>tf_regs := (tf_regs tf)\<lparr>r_eax := E_INVAL_CALLNR\<rparr>\<rparr>
    \<and> cr3 s' = loc_PDirPool s + get_curid s * 4096
    \<and> s' = s\<lparr>cr3 := cr3 s', segs := segs s', uctx_pool := (uctx_pool s)(get_curid s := tf')\<rparr>"
proof -
  let ?u = "syscall_set_errno E_INVAL_CALLNR (entered tf s)"
  let ?tf = "tf\<lparr>tf_regs := (tf_regs tf)\<lparr>r_eax := E_INVAL_CALLNR\<rparr>\<rparr>"
  have "syscall_dispatch (entered tf s) = Inr ?u"
    using assms(3) entered_arg1[OF assms(1), of tf] by (simp add: syscall_dispatch_def Let_def)
  moreover have c: "get_curid ?u = get_curid s" "uctx_pool ?u = (uctx_pool s)(get_curid s := ?tf)"
    using assms(1) by (simp_all add: syscall_set_errno_def) (simp add: set_reg_def Let_def not_le[symmetric])
  ultimately have run: "trap tf s = Inr (?tf, user_space ?u)"
    using assms trap_syscall[OF assms(1,2)] start_user_eq[of ?u] by simp
  moreover have "user_space ?u = s\<lparr>cr3 := cr3 (user_space ?u), segs := segs (user_space ?u), uctx_pool := uctx_pool ?u\<rparr>"
    by (simp add: user_space_def entered_def set_pdir_base_def set_cr3_def lcr3_def tss_switch_def get_curid_def
        syscall_set_errno_def set_reg_def Let_def)
  moreover have "cr3 (user_space ?u) = loc_PDirPool s + get_curid s * 4096"
    using c by (simp add: syscall_set_errno_def) (simp add: set_reg_def entered_def set_pdir_base_def set_cr3_def lcr3_def Let_def)
  ultimately show ?thesis using c(2) by (intro exI[of _ "user_space ?u"] exI[of _ ?tf]) simp
qed

section \<open>Page faults\<close>

lemma pt_inv_cong:
  fixes s :: "'a pt_state_scheme" and t :: "'b pt_state_scheme"
  assumes "PDirPool t = PDirPool s" "loc_IDPTbl t = loc_IDPTbl s" "AT t = AT s"
  shows "pt_inv t = pt_inv s"
proof -
  have "user_pde t = user_pde s" "id_pde t = id_pde s" "page_used t = page_used s"
    using assms by (simp_all add: fun_eq_iff user_pde_def id_pde_def page_used_def)
  then show ?thesis using assms by (simp add: pt_inv_def idptbl_placed_def)
qed

lemma avail_cong: "AT t = AT s \<Longrightarrow> avail_pages t = avail_pages s"
  by (simp add: avail_pages_def page_free_def page_norm_def page_used_def)

text \<open>The display is the one at \<^verbatim>\<open>CGA_BUF\<close>, and the kernel's tables lie above it.\<close>

definition display_ok :: "'a pt_state_scheme \<Rightarrow> bool" where
  "display_ok s \<longleftrightarrow> on_screen s \<and> crt_buf (devs s) = CGA_BUF \<and> 0x100000 \<le> loc_IDPTbl s"

lemma display_frame_sel:
  fixes s t :: "'a proc_state_scheme"
  assumes "display_frame s t"
  shows "PDirPool t = PDirPool s" "AT t = AT s" "loc_IDPTbl t = loc_IDPTbl s" "get_curid t = get_curid s"
    "uctx_pool t = uctx_pool s" "cr2 t = cr2 s" "loc_PDirPool t = loc_PDirPool s" "CONTAINER t = CONTAINER s"
  using assms[unfolded display_frame_def] by (cases s, cases t, simp add: get_curid_def)+

lemma display_page:
  fixes r j :: u32
  assumes "r < 0x100000" "j < 0x1000" "r \<noteq> 0xB8"
  shows "\<not> r * PAGESIZE + j - CGA_BUF < 4000"
proof
  assume a: "r * PAGESIZE + j - CGA_BUF < 4000"
  let ?x = "r * PAGESIZE + j - CGA_BUF"
  have "r * PAGESIZE + j = 0xB8 * PAGESIZE + ?x" by (simp add: CGA_BUF_def PAGESIZE_def)
  moreover have "?x < 0x1000" using a by (rule order.strict_trans) simp
  ultimately show False using page_addr_eq_iff[of r "0xB8" j ?x] assms by simp
qed

text \<open>Printing changes neither the address spaces nor what is free.\<close>

lemma print_vm:
  fixes s t :: "'a proc_state_scheme"
  assumes "pt_inv s" "display_ok s" "display_frame s t"
  shows "pt_inv t" "avail_pages t = avail_pages s"
    "\<And>q va. q < NUM_IDS \<Longrightarrow> translate q va t = translate q va s"
    "\<And>q va. q < NUM_IDS \<Longrightarrow> get_ptbl_entry_by_va q va t = get_ptbl_entry_by_va q va s"
proof -
  note sel = display_frame_sel[OF assms(3)]
  show "pt_inv t" using assms(1) pt_inv_cong sel(1-3) by metis
  show "avail_pages t = avail_pages s" by (rule avail_cong[OF sel(2)])
  have ids: "drop_bit 12 (id_pde s j) \<noteq> 0xB8" if "j < 1024" for j
  proof -
    have "0x100000 \<le> unat (loc_IDPTbl s)" using assms(2) by (simp add: display_ok_def word_le_nat_alt)
    then have "256 \<le> unat (loc_IDPTbl s) div 4096" by simp
    then have "0xB8 < unat (drop_bit 12 (id_pde s j))" using id_pde_page[OF _ that, of s] assms(1) by (simp add: pt_inv_def)
    then show ?thesis by auto
  qed
  have users: "drop_bit 12 (PDirPool s r j) \<noteq> 0xB8" if "user_pde s r j" for r j
  proof -
    have "user_page (drop_bit 12 (PDirPool s r j))" using that assms(1) by (simp add: pt_inv_def)
    then show ?thesis by (auto simp: user_page_def VM_PI_eq)
  qed
  have off: "mem t (r * PAGESIZE + j) = mem s (r * PAGESIZE + j)" if "r < 0x100000" "j < 0x1000" "r \<noteq> 0xB8" for r j
    using display_page[OF that] assms(2,3) by (simp add: display_frame_def display_ok_def)
  fix q va assume q: "q < NUM_IDS"
  note r = translate_off_page[OF assms(1) ids users off q, of va]
  show "translate q va t = translate q va s" using r(1) translate_cong[of t "s\<lparr>mem := mem t\<rparr>" q va] sel(1) by simp
  show "get_ptbl_entry_by_va q va t = get_ptbl_entry_by_va q va s" using r(2) sel(1)
    by (simp add: get_ptbl_entry_by_va_def get_pdir_entry_def get_ptbl_entry_def Let_def cong: if_cong)
qed

text \<open>What user code finds after the handler.\<close>

lemma user_space_vm [simp]:
  "pt_inv (user_space s) = pt_inv s" "translate q va (user_space s) = translate q va s"
  "pt_inv (entered tf s) = pt_inv s" "translate q va (entered tf s) = translate q va s"
  "avail_pages (entered tf s) = avail_pages s" "display_ok (entered tf s) = display_ok s"
  "get_ptbl_entry_by_va q va (entered tf s) = get_ptbl_entry_by_va q va s"
  "get_ptbl_entry_by_va q va (user_space s) = get_ptbl_entry_by_va q va s"
  "get_pdir_entry_by_va q va (entered tf s) = get_pdir_entry_by_va q va s"
  using pt_inv_cong[of "user_space s" s] translate_cong[of "user_space s" s] pt_inv_cong[of "entered tf s" s]
    translate_cong[of "entered tf s" s] avail_cong[of "entered tf s" s]
  by (simp_all add: display_ok_def on_screen_def get_ptbl_entry_by_va_def get_pdir_entry_by_va_def get_pdir_entry_def
      get_ptbl_entry_def Let_def cong: if_cong)

text \<open>Every page fault first prints a line.\<close>

lemma pgflt_prints:
  assumes "get_curid s < NUM_IDS" "tf_trapno tf = T_PGFLT" "display_ok s"
  obtains t where "display_frame (entered tf s) t"
    "\<not> bit (tf_err tf) 0 \<Longrightarrow> trap tf s = rbind (alloc_page (get_curid s) (cr2 s) (PTE_W OR PTE_U OR PTE_P) t)
       (\<lambda>(r, u). if r = MagicNumber then Inl Panic else proc_start_user u)"
    "tf_err tf AND 3 = 3 \<Longrightarrow> get_ptbl_entry_by_va (get_curid s) (cr2 s) t AND PTE_COW \<noteq> 0 \<Longrightarrow>
       trap tf s = rbind (copy_on_write (get_curid s) (cr2 s) t) proc_start_user"
proof -
  have m: "message (chars ''enter pgflt_handler'' @ [10]) []" by (simp add: chars_def)
  obtain t n where t: "dprintf (chars ''enter pgflt_handler'' @ [10]) [] (entered tf s) = Inr (n, t)"
    "display_frame (entered tf s) t"
    using message_printed[OF m, of "entered tf s"] assms(3) by (auto simp: display_ok_def on_screen_def)
  note sel = display_frame_sel[OF t(2)]
  show ?thesis
  proof (rule that[OF t(2)])
    assume "\<not> bit (tf_err tf) 0"
    then have "tf_err tf AND 3 \<noteq> 3" "tf_err tf AND PFE_PR = 0"
      by (auto simp: PFE_PR_def and_one_bit bit_simps dest: arg_cong[of _ _ "\<lambda>x. bit x 0"])
    then show "trap tf s = rbind (alloc_page (get_curid s) (cr2 s) (PTE_W OR PTE_U OR PTE_P) t)
       (\<lambda>(r, u). if r = MagicNumber then Inl Panic else proc_start_user u)"
      using assms t(1) sel
      by (simp add: trap_eq pgflt_handler_def T_PGFLT_def Let_def rbind_def split: sum.splits prod.splits if_splits)
  qed (use assms t(1) sel in \<open>simp add: trap_eq pgflt_handler_def T_PGFLT_def Let_def\<close>)
qed

text \<open>After a handler that only worked on memory, the faulting instruction is restarted.\<close>

lemma restart:
  assumes "get_curid s < NUM_IDS" "display_frame (entered tf s) t" "pt_only t u"
  shows "proc_start_user u = Inr (tf, user_space u)" "cr3 (user_space u) = loc_PDirPool s + get_curid s * 4096"
proof -
  note sel = display_frame_sel[OF assms(2)]
  have "get_curid u = get_curid s" "uctx_pool u = uctx_pool t" "loc_PDirPool u = loc_PDirPool s"
    using pt_only_sched(1)[OF assms(3)] uctx_same(2)[OF assms(3)] pt_only_machine(6)[OF assms(3)] sel
    by (simp_all add: get_curid_def)
  then show "proc_start_user u = Inr (tf, user_space u)" "cr3 (user_space u) = loc_PDirPool s + get_curid s * 4096"
    using start_user_eq[of u] assms(1) sel(5) by simp_all
qed

text \<open>A process that has a page table for the address, and quota, gets one of the free pages.\<close>

lemma alloc_page_present:
  fixes s :: "'a pt_state_scheme"
  assumes "pt_inv s" "pid < NUM_IDS" "pid \<noteq> 0" "VM_USERLO \<le> va" "va < VM_USERHI"
    and "bit (PDirPool s pid (pde_of va)) 0" "avail_pages s \<noteq> {}"
    and "sint (c_usage (CONTAINER s pid)) < sint (c_quota (CONTAINER s pid))"
  shows "\<exists>r u. alloc_page pid va perm s = Inr (r, u) \<and> r \<noteq> MagicNumber"
  using assms(2)
proof (cases rule: container_alloc_cases[where s = s])
  case (found p)
  let ?s1 = "upd_container pid (\<lambda>c. c\<lparr>c_usage := c_usage c + 1\<rparr>) (at_mark {p} 1 s)"
  have a: "container_alloc pid s = Inr (p, ?s1)" using found assms(8) by simp
  have "PDirPool ?s1 = PDirPool s" by (simp add: upd_container_def at_mark_def)
  then have m: "\<exists>u. map_page pid va p perm ?s1 = Inr (PDirPool s pid (pde_of va), u)"
    using map_page_present[OF assms(2), of ?s1 va] assms(6) by simp
  have "user_pde s pid (pde_of va)"
    using assms(2,3,6) user_va_pde[OF assms(4,5)] by (simp add: user_pde_def)
  then have "PDirPool s pid (pde_of va) AND 0xFFF = 7" using assms(1) by (simp add: pt_inv_def)
  then have "PDirPool s pid (pde_of va) \<noteq> MagicNumber" by (auto simp: MagicNumber_def)
  then show ?thesis using a m found(2) by (auto simp: alloc_page_def)
qed (use assms(7) in simp)

text \<open>
  C1: a page fault on a page that is not present. The kernel gives the process a page, or panics when
  there is none to give; it does not panic as long as a page is free, the quota is not used up and the
  page table for the address is there. After the page is there, user code resumes at the faulting instruction, in its
  own address space, where every address of the page translates to one physical page that was
  free before; the page tables of all processes stay separate, and no translation outside the
  4 MiB region of the fault or in another process changes.
\<close>

theorem page_fault_maps:
  assumes inv: "pt_inv s" and dis: "display_ok s" and cur: "get_curid s < NUM_IDS" "get_curid s \<noteq> 0"
    and tf: "tf_trapno tf = T_PGFLT" "\<not> bit (tf_err tf) 0"
    and va: "VM_USERLO \<le> cr2 s" "cr2 s < VM_USERHI"
  shows "((trap tf s = Inl Panic \<and> (\<exists>t u. display_frame (entered tf s) t
       \<and> alloc_page (get_curid s) (cr2 s) (PTE_W OR PTE_U OR PTE_P) t = Inr (MagicNumber, u)))
    \<or> (\<exists>s'. trap tf s = Inr (tf, s') \<and> pt_inv s' \<and> cr3 s' = loc_PDirPool s + get_curid s * 4096
      \<and> (\<exists>p \<in> avail_pages s. \<forall>vb. drop_bit 12 vb = drop_bit 12 (cr2 s) \<longrightarrow>
            translate (get_curid s) vb s' = Some (p * PAGESIZE + take_bit 12 vb))
      \<and> (\<forall>q<NUM_IDS. \<forall>vb. q \<noteq> get_curid s \<or> pde_of vb \<noteq> pde_of (cr2 s) \<longrightarrow> translate q vb s' = translate q vb s)))
    \<and> (bit (PDirPool s (get_curid s) (pde_of (cr2 s))) 0 \<and> avail_pages s \<noteq> {}
         \<and> sint (c_usage (CONTAINER s (get_curid s))) < sint (c_quota (CONTAINER s (get_curid s))) \<longrightarrow> trap tf s \<noteq> Inl Panic)"
    (is "?outcome \<and> (?spare \<longrightarrow> _)")
proof -
  obtain t where t: "display_frame (entered tf s) t" and run: "trap tf s = rbind (alloc_page (get_curid s) (cr2 s) (PTE_W OR PTE_U OR PTE_P) t)
       (\<lambda>(r, u). if r = MagicNumber then Inl Panic else proc_start_user u)"
    using pgflt_prints[OF cur(1) tf(1) dis] tf(2) by blast
  have perm: "PTE_W OR PTE_U OR PTE_P < 0x1000" "bit (PTE_W OR PTE_U OR PTE_P) 0" by (simp_all add: pte_flags)
  have e: "pt_inv (entered tf s)" "display_ok (entered tf s)" using inv dis by simp_all
  note pv = print_vm[OF e t]
  obtain r u where u: "alloc_page (get_curid s) (cr2 s) (PTE_W OR PTE_U OR PTE_P) t = Inr (r, u)" "pt_inv u"
    and vm: "r \<noteq> MagicNumber \<Longrightarrow> (\<exists>p \<in> avail_pages t. \<forall>vb. drop_bit 12 vb = drop_bit 12 (cr2 s) \<longrightarrow>
            translate (get_curid s) vb u = Some (p * PAGESIZE + take_bit 12 vb))
       \<and> (\<forall>q<NUM_IDS. \<forall>vb. q \<noteq> get_curid s \<or> pde_of vb \<noteq> pde_of (cr2 s) \<longrightarrow> translate q vb u = translate q vb t)"
    using alloc_page_ok[OF pv(1) cur va perm] by (auto split: if_splits)
  note re = restart[OF cur(1) t pt.alloc_page_kept[OF u(1)]]
  have ?outcome
  proof (cases "r = MagicNumber")
    case True
    then show ?outcome using run u(1) t by auto
  next
    case False
    then have "trap tf s = Inr (tf, user_space u)" using run u(1) re(1) by simp
    then show ?outcome using vm[OF False] pv(2,3) u(2) re(2)
      by (intro disjI2 exI[of _ "user_space u"]) simp
  qed
  moreover have "trap tf s \<noteq> Inl Panic" if ?spare
  proof -
    have "r \<noteq> MagicNumber"
      using alloc_page_present[OF pv(1) cur va, of "PTE_W OR PTE_U OR PTE_P"] that display_frame_sel(1,8)[OF t] pv(2) u(1)
      by simp
    then show ?thesis using run u(1) re(1) by simp
  qed
  ultimately show ?thesis by blast
qed


section \<open>Yielding\<close>

lemma sched_inv_entered [simp]: "sched_inv (entered tf s) Q = sched_inv s Q"
proof -
  have "sched_inv (set_pdir_base 0 t) Q = sched_inv t Q" for t :: "'a proc_state_scheme"
    using queues_rep_cong[of "set_pdir_base 0 t" t Q]
    by (simp add: sched_inv_def set_pdir_base_def set_cr3_def lcr3_def)
  then show ?thesis by (simp add: entered_def)
qed

lemma yield_trap:
  assumes inv: "sched_inv s Q" and Q: "Q NUM_IDS = x # xs"
    and tf: "tf_trapno tf = T_SYSCALL" "r_eax (tf_regs tf) = SYS_yield"
  shows "\<exists>s'. trap tf s = Inr (uctx_pool s' x, s') \<and> sched_inv s' (Q(NUM_IDS := xs @ [get_curid s]))
    \<and> get_curid s' = x \<and> cr3 s' = loc_PDirPool s + x * 4096
    \<and> uctx_pool s' = (uctx_pool s)(get_curid s := tf,
        x := if kc_eip (kctx_pool s x) = loc_proc_start_user (layout s) then uctx_pool s x
             else (uctx_pool s x)\<lparr>tf_regs := (tf_regs (uctx_pool s x))\<lparr>r_eax := E_SUCC\<rparr>\<rparr>)"
proof -
  let ?e = "entered tf s"
  have cur: "get_curid s < NUM_IDS" "x \<noteq> get_curid s" "x < NUM_IDS"
    using inv Q in_queue_bound[of s Q NUM_IDS x]
    by (auto simp: sched_inv_def get_curid_def dest: spec[of _ NUM_IDS])
  have e: "sched_inv ?e Q" using inv by simp
  obtain t where t: "thread_yield ?e = Inr t" "sched_inv t (Q(NUM_IDS := xs @ [get_curid s]))" "CURID t = x"
    "kc_eip (cpu t) = kc_eip (kctx_pool ?e x)" using yield_next[OF e Q] by (auto simp: get_curid_def)
  note so = sched_only_yield[OF t(1)]
  have u: "uctx_pool t = (uctx_pool s)(get_curid s := tf)" "layout t = layout s" "loc_PDirPool t = loc_PDirPool s"
    using uctx_same(1)[OF so] sched_only_sel(3,8)[OF so] by simp_all
  have k: "kctx_pool ?e = kctx_pool s" by (simp add: entered_def set_pdir_base_def set_cr3_def lcr3_def)
  let ?r = "if kc_eip (kctx_pool s x) = loc_proc_start_user (layout s) then t else syscall_set_errno E_SUCC t"
  have "syscall_dispatch ?e = sys_yield ?e"
    using tf(2) entered_arg1[OF cur(1), of tf] by (simp add: syscall_dispatch_def syscall_nrs)
  then have d: "syscall_dispatch ?e = Inr ?r"
    using t cur(2) u(2) k by (simp add: sys_yield_def get_curid_def)
  have r: "get_curid ?r = x" "loc_PDirPool ?r = loc_PDirPool s" "sched_inv ?r (Q(NUM_IDS := xs @ [get_curid s]))"
    using t(2,3) u(3) by (simp_all add: syscall_set_errno_def get_curid_def) (simp add: set_reg_def Let_def)
  have p: "uctx_pool ?r = (uctx_pool s)(get_curid s := tf,
        x := if kc_eip (kctx_pool s x) = loc_proc_start_user (layout s) then uctx_pool s x
             else (uctx_pool s x)\<lparr>tf_regs := (tf_regs (uctx_pool s x))\<lparr>r_eax := E_SUCC\<rparr>\<rparr>)"
    using t(3) u(1) cur by (auto simp: syscall_set_errno_def set_reg_def Let_def fun_eq_iff get_curid_def)
  have "trap tf s = Inr (uctx_pool ?r x, user_space ?r)"
    unfolding trap_syscall[OF cur(1) tf(1)] d using start_user_eq[of ?r] r(1) cur(3) by simp
  moreover have "sched_inv (user_space ?r) (Q(NUM_IDS := xs @ [get_curid s]))"
    using r(3) queues_rep_cong[of "user_space ?r" ?r]
    by (simp add: sched_inv_def user_space_def set_pdir_base_def set_cr3_def lcr3_def tss_switch_def)
  ultimately show ?thesis using r p by (intro exI[of _ "user_space ?r"]) simp
qed

text \<open>
  C14: the system call to yield. With a process waiting, the caller's frame is saved, the caller goes to
  the end of the ready queue, and the processor continues with the first process of the queue, in its
  address space: a process that has never run starts with the frame it was created with, and one
  that yielded before sees its own call return \<^verbatim>\<open>E_SUCC\<close>. No other saved frame changes.
\<close>

theorem yield_resumes_next:
  assumes inv: "sched_inv s Q" and Q: "Q NUM_IDS = x # xs"
    and tf: "tf_trapno tf = T_SYSCALL" "r_eax (tf_regs tf) = SYS_yield"
  shows "\<exists>s'. trap tf s = Inr (uctx_pool s' x, s') \<and> sched_inv s' (Q(NUM_IDS := xs @ [get_curid s]))
    \<and> get_curid s' = x \<and> cr3 s' = loc_PDirPool s + x * 4096
    \<and> uctx_pool s' = (uctx_pool s)(get_curid s := tf,
        x := if kc_eip (kctx_pool s x) = loc_proc_start_user (layout s) then uctx_pool s x
             else (uctx_pool s x)\<lparr>tf_regs := (tf_regs (uctx_pool s x))\<lparr>r_eax := E_SUCC\<rparr>\<rparr>)"
  by (rule yield_trap[OF assms])

section \<open>Witnesses\<close>

lemma proc_of_ok:
  "pt_inv (proc_of va p) = pt_inv p" "display_ok (proc_of va p) = (0x100000 \<le> loc_IDPTbl p)"
  "get_ptbl_entry_by_va q vb (proc_of va p) = get_ptbl_entry_by_va q vb p"
  "get_pdir_entry_by_va q vb (proc_of va p) = get_pdir_entry_by_va q vb p"
  by (rule pt_inv_cong)
    (simp_all add: display_ok_def on_screen_def in_space_def video_consts get_ptbl_entry_by_va_def get_pdir_entry_by_va_def
      get_pdir_entry_def get_ptbl_entry_def Let_def cong: if_cong)

definition tf_example :: "u32 \<Rightarrow> u32 \<Rightarrow> u32 \<Rightarrow> tf_t" where
  "tf_example trapno err eax = tf_zero\<lparr>tf_trapno := trapno, tf_err := err, tf_regs := (tf_regs tf_zero)\<lparr>r_eax := eax\<rparr>\<rparr>"

lemma tf_example_sel [simp]:
  "tf_trapno (tf_example n e a) = n" "tf_err (tf_example n e a) = e" "r_eax (tf_regs (tf_example n e a)) = a"
  by (simp_all add: tf_example_def)

theorem interrupt_transparent_witness:
  "\<exists>s'. trap (tf_example 32 0 7) (proc_of 0 pt_example1) = Inr (tf_example 32 0 7, s')
     \<and> devs s' = intr_eoi (devs (proc_of 0 pt_example1))"
  using interrupt_transparent[of "proc_of 0 pt_example1" "tf_example 32 0 7"]
  by (auto simp: trap_nrs NUM_IDS_def)

theorem unknown_syscall_refused_witness:
  "\<exists>s'. trap (tf_example 48 0 3) (proc_of 0 pt_example1) = Inr (tf_example 48 0 E_INVAL_CALLNR, s')"
  using unknown_syscall_refused[of "proc_of 0 pt_example1" "tf_example 48 0 3"]
  by (auto simp: trap_nrs NUM_IDS_def syscall_nrs) (simp add: tf_example_def)

definition fault_example :: pt_state where
  "fault_example = pt_example {0x40000, 0x40001} {0x40000}
     (two_containers(1 := \<lparr>c_quota = 2, c_usage = 1, c_parent = 0, c_nchildren = 0, c_used = 1\<rparr>))
     ((\<lambda>_ _. 0)(1 := (\<lambda>_. 0)(256 := 0x40000 * PAGESIZE + PT_PERM_PTU)))"

theorem page_fault_maps_witness:
  "\<exists>s'. trap (tf_example 14 4 0) (proc_of 0x40000000 fault_example) = Inr (tf_example 14 4 0, s') \<and> pt_inv s'"
proof -
  let ?s = "proc_of 0x40000000 fault_example"
  have inv: "pt_inv fault_example" unfolding fault_example_def
    by (rule pt_example_table_inv) (simp_all add: user_page_def VM_PI_eq NUM_IDS_def kern_pde_def)
  have pde: "bit (PDirPool fault_example 1 256) 0"
    by (simp add: fault_example_def kern_pde_def PAGESIZE_def PT_PERM_PTU_def pte_flags bit_simps)
  have "0x40001 \<in> avail_pages (at_example {0x40000, 0x40001} {0x40000})"
    by (simp add: avail_pages_def page_free_def page_norm_def page_used_def user_page_def VM_PI_eq at_example_def)
  then have av: "avail_pages ?s \<noteq> {}" using avail_cong[of ?s "at_example {0x40000, 0x40001} {0x40000}"]
    by (auto simp: fault_example_def)
  have q: "sint (c_usage (CONTAINER ?s 1)) < sint (c_quota (CONTAINER ?s 1))" by (simp add: fault_example_def)
  note ok = page_fault_maps[of ?s "tf_example 14 4 0"]
  have pre: "pt_inv ?s" "display_ok ?s" "get_curid ?s < NUM_IDS" "get_curid ?s \<noteq> 0"
    "tf_trapno (tf_example 14 4 0) = T_PGFLT" "\<not> bit (tf_err (tf_example 14 4 0)) 0"
    "VM_USERLO \<le> cr2 ?s" "cr2 ?s < VM_USERHI"
    using inv by (simp_all add: proc_of_ok NUM_IDS_def T_PGFLT_def VM_USERLO_def VM_USERHI_def) (simp add: fault_example_def)
  have "trap (tf_example 14 4 0) ?s \<noteq> Inl Panic"
    using ok[OF pre] pde av q pt_example1_pde(1) by simp
  with ok[OF pre] show ?thesis by blast
qed


theorem yield_resumes_next_witness:
  "\<exists>(s :: proc_state) s'. trap (tf_example 48 0 6) s = Inr (uctx_pool s' 1, s') \<and> get_curid s = 0 \<and> get_curid s' = 1"
proof -
  obtain s where s: "thread_inv s (\<lambda>_. [])" "CURID s = 0" "c_nchildren (CONTAINER s 0) = 0" and
    "thread_init 0 proc_boot = Inr s" using proc_boot_inv by blast
  have c: "get_curid s = 0" using s(2) by (simp add: get_curid_def)
  obtain s1 where "container_split (get_curid s) ((container_get_quota (get_curid s) s - container_get_usage (get_curid s) s) div 2) s
      = Inr (1, s1)" using first_split[OF s(3)] c by metis
  from spawn_ok[OF s(1) fork_quota[OF s(1)] this, of 0] obtain t :: proc_state where
    t: "thread_inv t ((\<lambda>_. [])(NUM_IDS := [1]))" "CURID t = CURID s" by (auto simp: NUM_IDS_def)
  then have "sched_inv t ((\<lambda>_. [])(NUM_IDS := [1]))" by (simp add: thread_inv_def)
  from yield_resumes_next[OF this, of 1 "[]" "tf_example 48 0 6"] show ?thesis
    using t(2) s(2) by (auto simp: trap_nrs syscall_nrs get_curid_def)
qed

end
