(* ===== verification/MPTShare.thy ===== *)
theory MPTShare
  imports MPTFork
begin

text \<open>
  What \<^verbatim>\<open>vmm_copy\<close> of \<^verbatim>\<open>kern/vmm/MPTFork/MPTFork.c\<close> makes of two address spaces: the pages of the first
  one are shared with the second one, copy on write. The entries are followed through the loop over
  a page table and the loop over the directory.
\<close>

section \<open>Entries of page tables\<close>

definition pte :: "memory \<Rightarrow> u32 \<Rightarrow> u32 \<Rightarrow> u32" where
  "pte m e k = load32 m (pte_addr e k)"

lemma pte_store:
  assumes "i < 1024" "k < 1024"
  shows "pte (store32 m (pte_addr e i) v) f k = (if drop_bit 12 f = drop_bit 12 e \<and> k = i then v else pte m f k)"
proof (cases "pte_addr f k = pte_addr e i")
  case True
  then show ?thesis using pte_addr_eq_iff[OF assms(2,1), of f e] by (simp add: pte_def)
next
  case False
  then have "\<not> (drop_bit 12 f = drop_bit 12 e \<and> k = i)" using pte_addr_eq_iff[OF assms(2,1), of f e] by simp
  moreover have "pte (store32 m (pte_addr e i) v) f k = pte m f k"
    using False aligned4_pte_addr[OF assms(1), of e] aligned4_pte_addr[OF assms(2), of f] by (simp add: pte_def)
  ultimately show ?thesis by auto
qed

lemma by_va_pte:
  "q < NUM_IDS \<Longrightarrow> get_ptbl_entry_by_va q va s =
     (let e = PDirPool s q (pde_of va); v = pte (mem s) e (pte_of va) in if bit e 0 \<and> bit v 0 then v else 0)"
  by (simp add: get_ptbl_entry_by_va_def get_pdir_entry_def get_ptbl_entry_def and_one_bit Let_def pte_def)

lemma pte_page_cong:
  assumes "k < 1024" "\<And>j. j < 0x1000 \<Longrightarrow> m' (drop_bit 12 e * PAGESIZE + j) = m (drop_bit 12 e * PAGESIZE + j)"
  shows "pte m' e k = pte m e k"
  unfolding pte_def by (rule load_page_cong) (use assms in auto)

text \<open>The entry that both processes get for a page of the first one.\<close>

definition cow_entry :: "u32 \<Rightarrow> u32" where
  "cow_entry v = drop_bit 12 v * PAGESIZE + cow_perm v"

lemma cow_perm_flags: "cow_perm v < 0x1000" "bit (cow_perm v) 0" "\<not> bit (cow_perm v) 1" "bit (cow_perm v) 11"
  by (simp_all add: cow_perm_def pte_flags P_SUPER_def bit_simps)

lemma cow_entry_flags:
  "bit (cow_entry v) 0" "cow_entry v \<noteq> 0" "cow_entry v AND 0xFFFFF000 = v AND 0xFFFFF000"
  "cow_entry v AND 0xFFF = cow_perm v"
proof -
  note c = page_number_lt[of v] cow_perm_flags(1)[of v]
  show b: "bit (cow_entry v) 0" unfolding cow_entry_def entry_present[OF c] by (rule cow_perm_flags)
  show "cow_entry v \<noteq> 0" using b by (metis bit_0_eq bot_apply bot_bool_def)
  show "cow_entry v AND 0xFFFFF000 = v AND 0xFFFFF000"
    unfolding cow_entry_def entry_frame[OF c] by (simp add: mask_page push_bit_eq_mult PAGESIZE_def)
  show "cow_entry v AND 0xFFF = cow_perm v" unfolding cow_entry_def by (rule entry_perm[OF c])
qed

lemma cow_entry_cow: "cow_entry v AND PTE_W = 0" "cow_entry v AND PTE_COW = PTE_COW"
proof -
  have low: "x AND k = (x AND 0xFFF) AND k" if "k AND 0xFFF = k" for x k :: u32
    using that by (metis and.assoc and.commute)
  show "cow_entry v AND PTE_W = 0" "cow_entry v AND PTE_COW = PTE_COW"
    by (subst low, simp add: pte_flags, simp add: cow_entry_flags(4) cow_perm_def pte_flags P_SUPER_def)+
qed

section \<open>One page table\<close>

text \<open>
  The first \<open>n\<close> entries have been shared: present ones stand in both tables, the others and all
  other pages are as before.
\<close>

definition shared_upto :: "u32 \<Rightarrow> u32 \<Rightarrow> memory \<Rightarrow> u32 \<Rightarrow> memory \<Rightarrow> bool" where
  "shared_upto ef et m n m' \<longleftrightarrow>
     (\<forall>k<1024. pte m' ef k = (if k < n \<and> bit (pte m ef k) 0 then cow_entry (pte m ef k) else pte m ef k)) \<and>
     (\<forall>k<1024. pte m' et k = (if k < n \<and> bit (pte m ef k) 0 then cow_entry (pte m ef k) else pte m et k)) \<and>
     (\<forall>r<0x100000. \<forall>i<0x1000. r \<noteq> drop_bit 12 ef \<longrightarrow> r \<noteq> drop_bit 12 et \<longrightarrow> m' (r * PAGESIZE + i) = m (r * PAGESIZE + i))"

lemma shared_start: "shared_upto ef et m 0 m"
  by (simp add: shared_upto_def)

lemma shared_step:
  assumes "shared_upto ef et m n m'" "n < 1024" "drop_bit 12 ef \<noteq> drop_bit 12 et" "v = pte m' ef n"
  shows "shared_upto ef et m (n + 1) (if bit v 0
     then store32 (store32 m' (pte_addr ef n) (cow_entry v)) (pte_addr et n) (cow_entry v) else m')"
proof -
  have v: "v = pte m ef n" using assms by (simp add: shared_upto_def)
  show ?thesis using assms(1-3) v
    by (auto simp: shared_upto_def pte_store poke_page word_less_Suc)
qed

lemma copy_pte_eq:
  assumes "from_id < NUM_IDS" "to_id < NUM_IDS" "j < 1024" "k < 1024"
  shows "vmm_copy_pte from_id to_id j k s =
    (let ef = PDirPool s from_id j; et = PDirPool s to_id j; v = pte (mem s) ef k
     in if bit v 0 then s\<lparr>mem := store32 (store32 (mem s) (pte_addr ef k) (cow_entry v)) (pte_addr et k) (cow_entry v)\<rparr> else s)"
proof -
  have "PTE_P = 1" by (simp add: PTE_P_def)
  then show ?thesis using assms
    by (simp add: vmm_copy_pte_def get_ptbl_entry_def set_ptbl_entry_def and_one_bit Let_def pte_def poke_def cow_entry_def)
qed

lemma copy_table:
  fixes s :: "'a pt_state_scheme" and from_id to_id j :: u32
  defines "ef \<equiv> PDirPool s from_id j" and "et \<equiv> PDirPool s to_id j"
  assumes ids: "from_id < NUM_IDS" "to_id < NUM_IDS" "j < 1024" and ne: "drop_bit 12 ef \<noteq> drop_bit 12 et"
  shows "\<exists>m. for_u32 0 1024 (\<lambda>k t. Inr (vmm_copy_pte from_id to_id j k t)) s = Inr (s\<lparr>mem := m\<rparr>) \<and> shared_upto ef et (mem s) 1024 m"
proof -
  define I where "I n t \<longleftrightarrow> (\<exists>m. t = s\<lparr>mem := m\<rparr> \<and> shared_upto ef et (mem s) n m)" for n t
  have "\<exists>t. for_u32 0 1024 (\<lambda>k t. Inr (vmm_copy_pte from_id to_id j k t)) s = Inr t \<and> I 1024 t"
  proof (rule for_u32_rule)
    show "I 0 s" by (auto simp: I_def shared_start intro!: exI[of _ "mem s"])
  next
    fix k t assume k: "k < 1024" "I k t"
    then obtain m where m: "t = s\<lparr>mem := m\<rparr>" "shared_upto ef et (mem s) k m" by (auto simp: I_def)
    let ?v = "pte m ef k"
    have "vmm_copy_pte from_id to_id j k t = s\<lparr>mem := if bit ?v 0
        then store32 (store32 m (pte_addr ef k) (cow_entry ?v)) (pte_addr et k) (cow_entry ?v) else m\<rparr>"
      using copy_pte_eq[OF ids k(1), of t] m(1) by (simp add: ef_def et_def Let_def)
    with shared_step[OF m(2) k(1) ne refl] show "\<exists>t'. Inr (vmm_copy_pte from_id to_id j k t) = Inr t' \<and> I (k + 1) t'"
      unfolding I_def by blast
  qed simp
  then show ?thesis by (auto simp: I_def)
qed

text \<open>A process gets a page table and the entries of the other process.\<close>

lemma table_distinct:
  assumes inv: "pt_inv s" and q: "q < NUM_IDS" "bit (PDirPool s q i) 0" "i < 1024" and u: "user_pde s from_id j"
    and eq: "drop_bit 12 (PDirPool s q i) = drop_bit 12 (PDirPool s from_id j)"
  shows "q = from_id \<and> i = j"
proof -
  have "\<not> (q = 0 \<or> kern_pde i)"
    using pt_inv_kern[OF inv q(1,3)] pt_inv_user[OF inv u] id_pde_page_low[of s i] inv eq q(3) by (auto simp: pt_inv_def)
  then have "user_pde s q i" using q by (simp add: user_pde_def)
  then show ?thesis using inv u eq unfolding pt_inv_def by metis
qed

lemma table_fresh:
  assumes inv: "pt_inv s" and q: "q < NUM_IDS" "bit (PDirPool s q i) 0" "i < 1024" and p: "p \<in> avail_pages s"
  shows "drop_bit 12 (PDirPool s q i) \<noteq> p"
proof (cases "q = 0 \<or> kern_pde i")
  case True
  then show ?thesis using pt_inv_kern[OF inv q(1,3)] id_pde_page_low[of s i] inv q(3) p by (auto simp: pt_inv_def avail_pages_def)
next
  case False
  then have "user_pde s q i" using q by (simp add: user_pde_def)
  then show ?thesis using pt_inv_user[OF inv] p by (auto simp: avail_pages_def page_free_def)
qed

text \<open>What one round of the outer loop does, entry by entry and page by page.\<close>

definition table_shared :: "u32 \<Rightarrow> u32 \<Rightarrow> u32 \<Rightarrow> 'a pt_state_scheme \<Rightarrow> 'a pt_state_scheme \<Rightarrow> bool" where
  "table_shared from_id to_id j s t \<longleftrightarrow> pt_inv t
     \<and> (\<forall>q k. user_pde s q k \<longrightarrow> PDirPool t q k = PDirPool s q k)
     \<and> (\<forall>k. user_pde t to_id k \<longrightarrow> user_pde s to_id k \<or> k = j)
     \<and> (\<forall>q<NUM_IDS. \<forall>va. q \<noteq> from_id \<and> q \<noteq> to_id \<or> pde_of va \<noteq> j \<longrightarrow>
          get_ptbl_entry_by_va q va t = get_ptbl_entry_by_va q va s)
     \<and> (\<forall>va. pde_of va = j \<longrightarrow> (let v = get_ptbl_entry_by_va from_id va s in
          get_ptbl_entry_by_va from_id va t = (if v = 0 then 0 else cow_entry v)
          \<and> (v \<noteq> 0 \<longrightarrow> get_ptbl_entry_by_va to_id va t = cow_entry v)))
     \<and> (\<forall>r<0x100000. (\<forall>q k. user_pde t q k \<longrightarrow> drop_bit 12 (PDirPool t q k) \<noteq> r) \<longrightarrow>
          (\<forall>i<0x1000. page_byte t r i = page_byte s r i))"

lemma share_table:
  fixes s :: "'a pt_state_scheme" and from_id to_id j p :: u32
  defines "e \<equiv> p * PAGESIZE + PT_PERM_PTU"
  assumes inv: "pt_inv s" and ids: "from_id < NUM_IDS" "to_id < NUM_IDS" "to_id \<noteq> 0" "from_id \<noteq> to_id"
    and u: "user_pde s from_id j" "\<not> user_pde s to_id j"
    and p: "p \<in> avail_pages s" "vm_same s s1" "page_used s1 p"
    and m: "shared_upto (PDirPool s from_id j) e (mem s1) 1024 m"
  shows "table_shared from_id to_id j s ((upd_pdir to_id j e s1)\<lparr>mem := m\<rparr>)"
proof -
  let ?t = "(upd_pdir to_id j e s1)\<lparr>mem := m\<rparr>" and ?ef = "PDirPool s from_id j"
  have j: "j < 1024" "\<not> kern_pde j" and ef: "bit ?ef 0" using u(1) by (simp_all add: user_pde_def)
  have s1: "mem s1 = mem s" "PDirPool s1 = PDirPool s" using p(2) by (simp_all add: vm_same_def)
  have up: "user_page p" using p(1) by (simp add: avail_pages_def)
  have e: "bit e 0" "drop_bit 12 e = p" using new_table_entry[OF up] by (simp_all add: e_def)
  have D: "PDirPool ?t q k = (if q = to_id \<and> k = j then e else PDirPool s q k)" for q k by (simp add: s1(2))
  have inv': "pt_inv ?t" unfolding pt_inv_mem e_def by (rule pt_inv_new_table[OF inv p(2,1,3) ids(2,3) j])
  have nto: "\<not> bit (PDirPool s to_id j) 0" using u(2) ids(2,3) j by (simp add: user_pde_def)
  have frame: "m (r * PAGESIZE + i) = mem s (r * PAGESIZE + i)"
    if "r < 0x100000" "i < 0x1000" "r \<noteq> drop_bit 12 ?ef" "r \<noteq> p" for r i
    using m that e(2) by (simp add: shared_upto_def s1(1))
  have same: "pte m (PDirPool s q i) k = pte (mem s) (PDirPool s q i) k"
    if "q < NUM_IDS" "bit (PDirPool s q i) 0" "i < 1024" "k < 1024" "(q, i) \<noteq> (from_id, j)" for q i k
  proof (rule pte_page_cong[OF that(4)])
    show "x < 0x1000 \<Longrightarrow> m (drop_bit 12 (PDirPool s q i) * PAGESIZE + x) = mem s (drop_bit 12 (PDirPool s q i) * PAGESIZE + x)" for x
      by (rule frame[OF page_number_lt])
         (use table_distinct[OF inv that(1-3) u(1)] table_fresh[OF inv that(1-3) p(1)] that(5) in auto)
  qed
  have other: "get_ptbl_entry_by_va q va ?t = get_ptbl_entry_by_va q va s"
    if "q < NUM_IDS" "q \<noteq> from_id \<and> q \<noteq> to_id \<or> pde_of va \<noteq> j" for q va
    using that same[OF that(1), of "pde_of va" "pte_of va"] D[of q "pde_of va"] by (auto simp: by_va_pte Let_def)
  have copied: "pte m ?ef k = (if bit (pte (mem s) ?ef k) 0 then cow_entry (pte (mem s) ?ef k) else pte (mem s) ?ef k)"
    "bit (pte (mem s) ?ef k) 0 \<Longrightarrow> pte m e k = cow_entry (pte (mem s) ?ef k)" if "k < 1024" for k
    using m that by (auto simp: shared_upto_def s1(1))
  have shared: "get_ptbl_entry_by_va from_id va ?t = (if v = 0 then 0 else cow_entry v)"
      "v \<noteq> 0 \<Longrightarrow> get_ptbl_entry_by_va to_id va ?t = cow_entry v"
    if "pde_of va = j" "v = get_ptbl_entry_by_va from_id va s" for va v
    using that ids(1,2,4) copied[OF pte_of_lt, of va] ef e(1) D[of from_id j] D[of to_id j]
    by (auto simp: by_va_pte Let_def cow_entry_flags split: if_splits)
  have pages: "page_byte ?t r i = page_byte s r i"
    if "r < 0x100000" "\<And>q k. user_pde ?t q k \<Longrightarrow> drop_bit 12 (PDirPool ?t q k) \<noteq> r" "i < 0x1000" for r i
  proof -
    have "user_pde ?t from_id j" "user_pde ?t to_id j"
      using u(1) ids j e(1) D[of from_id j] D[of to_id j] by (simp_all only: user_pde_def) auto
    then have "drop_bit 12 ?ef \<noteq> r" "p \<noteq> r" using that(2)[of from_id j] that(2)[of to_id j] ids(4) e(2) by (simp_all add: s1(2))
    then show ?thesis using frame[OF that(1,3)] by (simp add: page_byte_def)
  qed
  have old: "PDirPool ?t q k = PDirPool s q k" if "user_pde s q k" for q k using that u(2) D by auto
  have new: "user_pde s to_id k \<or> k = j" if "user_pde ?t to_id k" for k using that D[of to_id k] by (auto simp: user_pde_def)
  show ?thesis unfolding table_shared_def Let_def using inv' old new other shared pages by blast
qed

section \<open>All page tables\<close>

text \<open>The process has used up its quota, or there is no free page left.\<close>

definition no_more_pages :: "u32 \<Rightarrow> 'a pt_state_scheme \<Rightarrow> bool" where
  "no_more_pages pid s \<longleftrightarrow> avail_pages s = {} \<or> sint (c_quota (CONTAINER s pid)) \<le> sint (c_usage (CONTAINER s pid))"

lemma container_alloc_reason [consumes 1, case_names fail page]:
  fixes s :: "'a pt_state_scheme"
  assumes "pid < NUM_IDS"
  obtains (fail) s' where "container_alloc pid s = Inr (0, s')" "vm_same s s'" "no_more_pages pid s'"
  | (page) p s' where "container_alloc pid s = Inr (p, s')" "p \<in> avail_pages s" "p \<noteq> 0" "vm_same s s'" "page_used s' p"
  using assms
proof (cases rule: container_alloc_outcome[where s = s])
  case (fail s')
  have "no_more_pages pid s'" using assms
  proof (cases rule: container_alloc_cases[where s = s])
    case (found p)
    then show ?thesis using fail(1) by (auto simp: no_more_pages_def at_mark_def split: if_splits)
  next
    case none
    then show ?thesis using fail(1) by (simp add: no_more_pages_def)
  qed
  then show ?thesis using fail that(1) by blast
qed (rule that(2))

text \<open>The directory entries from \<open>j\<close> up to \<open>n\<close> have been shared.\<close>

definition dirs_shared :: "u32 \<Rightarrow> u32 \<Rightarrow> u32 \<Rightarrow> u32 \<Rightarrow> 'a pt_state_scheme \<Rightarrow> 'a pt_state_scheme \<Rightarrow> bool" where
  "dirs_shared from_id to_id j n s t \<longleftrightarrow> pt_inv t
     \<and> (\<forall>q k. user_pde s q k \<longrightarrow> PDirPool t q k = PDirPool s q k)
     \<and> (\<forall>q<NUM_IDS. \<forall>va. q \<noteq> from_id \<and> q \<noteq> to_id \<or> pde_of va < j \<or> n \<le> pde_of va \<longrightarrow>
          get_ptbl_entry_by_va q va t = get_ptbl_entry_by_va q va s)
     \<and> (\<forall>va. j \<le> pde_of va \<longrightarrow> pde_of va < n \<longrightarrow> (let v = get_ptbl_entry_by_va from_id va s in
          get_ptbl_entry_by_va from_id va t = (if v = 0 then 0 else cow_entry v)
          \<and> (v \<noteq> 0 \<longrightarrow> get_ptbl_entry_by_va to_id va t = cow_entry v)))
     \<and> (\<forall>r<0x100000. (\<forall>q k. user_pde t q k \<longrightarrow> drop_bit 12 (PDirPool t q k) \<noteq> r) \<longrightarrow>
          (\<forall>i<0x1000. page_byte t r i = page_byte s r i))"

lemma dirs_shared_none: "pt_inv s \<Longrightarrow> vm_same s t \<Longrightarrow> dirs_shared from_id to_id j j s t"
  using vm_same_inv[of s t] by (auto simp: dirs_shared_def vm_same_def by_va_pte page_byte_def Let_def)

lemma dirs_shared_skip:
  assumes "dirs_shared from_id to_id (j + 1) n s t" "\<not> bit (PDirPool s from_id j) 0" "from_id < NUM_IDS" "j < 960" "j < n"
  shows "dirs_shared from_id to_id j n s t"
proof -
  have j: "pde_of va < j + 1 \<longleftrightarrow> pde_of va < j \<or> pde_of va = j" "j + 1 \<le> pde_of va \<longleftrightarrow> j \<le> pde_of va \<and> pde_of va \<noteq> j" for va
    using word_less_Suc[OF assms(4), of "pde_of va"] by auto
  have z: "get_ptbl_entry_by_va from_id va s = 0" if "pde_of va = j" for va using that assms(2,3) by (simp add: by_va_pte Let_def)
  have "get_ptbl_entry_by_va from_id va t = 0" if "pde_of va = j" for va
    using assms(1,3) z[OF that] that j by (simp add: dirs_shared_def)
  with z assms(1) show ?thesis unfolding dirs_shared_def Let_def j by auto
qed

lemma dirs_shared_step:
  assumes t: "table_shared from_id to_id j s t" and u: "dirs_shared from_id to_id (j + 1) n t u"
    and ids: "from_id < NUM_IDS" "to_id < NUM_IDS" "j < 960" "j < n"
  shows "dirs_shared from_id to_id j n s u"
proof -
  have j: "pde_of va < j + 1 \<longleftrightarrow> pde_of va < j \<or> pde_of va = j" "j + 1 \<le> pde_of va \<longleftrightarrow> j \<le> pde_of va \<and> pde_of va \<noteq> j" for va
    using word_less_Suc[OF ids(3), of "pde_of va"] by auto
  note T = t[unfolded table_shared_def Let_def] and U = u[unfolded dirs_shared_def Let_def j]
  have old: "user_pde t q k \<Longrightarrow> user_pde u q k \<and> PDirPool u q k = PDirPool t q k" for q k
    using U by (auto simp: user_pde_def)
  have old': "user_pde s q k \<Longrightarrow> user_pde t q k \<and> PDirPool t q k = PDirPool s q k" for q k
    using T by (auto simp: user_pde_def)
  have "get_ptbl_entry_by_va q va u = get_ptbl_entry_by_va q va s"
    if "q < NUM_IDS" "q \<noteq> from_id \<and> q \<noteq> to_id \<or> pde_of va < j \<or> n \<le> pde_of va" for q va
  proof -
    have "q \<noteq> from_id \<and> q \<noteq> to_id \<or> pde_of va \<noteq> j" using that(2) ids(4) by auto
    then have "get_ptbl_entry_by_va q va t = get_ptbl_entry_by_va q va s" using T that(1) by blast
    moreover have "get_ptbl_entry_by_va q va u = get_ptbl_entry_by_va q va t" using U that by blast
    ultimately show ?thesis by simp
  qed
  moreover have "get_ptbl_entry_by_va from_id va u = (if v = 0 then 0 else cow_entry v)
      \<and> (v \<noteq> 0 \<longrightarrow> get_ptbl_entry_by_va to_id va u = cow_entry v)"
    if "j \<le> pde_of va" "pde_of va < n" "v = get_ptbl_entry_by_va from_id va s" for va v
  proof (cases "pde_of va = j")
    case True
    then have "get_ptbl_entry_by_va q va u = get_ptbl_entry_by_va q va t" if "q < NUM_IDS" for q using U that by blast
    then show ?thesis using T True that(3) ids(1,2) by simp
  next
    case False
    then have "v = get_ptbl_entry_by_va from_id va t" using T that(3) ids(1) by simp
    then show ?thesis using U False that(1,2) by simp
  qed
  moreover have "page_byte u r i = page_byte s r i"
    if "r < 0x100000" "\<forall>q k. user_pde u q k \<longrightarrow> drop_bit 12 (PDirPool u q k) \<noteq> r" "i < 0x1000" for r i
  proof -
    have "\<forall>q k. user_pde t q k \<longrightarrow> drop_bit 12 (PDirPool t q k) \<noteq> r" using old that(2) by fastforce
    then show ?thesis using T U that by simp
  qed
  ultimately show ?thesis unfolding dirs_shared_def Let_def using U old old' by auto
qed

text \<open>One round of the loop over the directory, when there is a page for the table.\<close>

lemma share_round:
  assumes inv: "pt_inv s" and ids: "from_id < NUM_IDS" "to_id < NUM_IDS" "to_id \<noteq> 0" "from_id \<noteq> to_id"
    and u: "user_pde s from_id j" "\<not> user_pde s to_id j" and p: "p \<in> avail_pages s" "vm_same s s1" "page_used s1 p"
  shows "\<exists>t. for_u32 0 1024 (\<lambda>k t. Inr (vmm_copy_pte from_id to_id j k t)) (set_pdir_entry to_id j p s1) = Inr t
    \<and> table_shared from_id to_id j s t"
proof -
  let ?e = "p * PAGESIZE + PT_PERM_PTU"
  let ?s2 = "upd_pdir to_id j ?e s1"
  have j: "j < 1024" "bit (PDirPool s from_id j) 0" using u(1) by (simp_all add: user_pde_def)
  have D: "PDirPool s1 = PDirPool s" using p(2) by (simp add: vm_same_def)
  have "user_page p" using p(1) by (simp add: avail_pages_def)
  then have "drop_bit 12 (PDirPool ?s2 from_id j) \<noteq> drop_bit 12 (PDirPool ?s2 to_id j)"
    using table_fresh[OF inv ids(1) j(2,1) p(1)] new_table_entry(2) ids(4) D by simp
  from copy_table[OF ids(1,2) j(1) this] obtain m where
    m: "for_u32 0 1024 (\<lambda>k t. Inr (vmm_copy_pte from_id to_id j k t)) ?s2 = Inr (?s2\<lparr>mem := m\<rparr>)"
    "shared_upto (PDirPool s from_id j) ?e (mem s1) 1024 m"
    using ids(4) D by auto
  from share_table[OF inv ids u p m(2)] m(1) show ?thesis
    using ids(2) j(1) by (auto simp: set_pdir_entry_def)
qed

lemma table_sharedD:
  assumes "table_shared from_id to_id j s t"
  shows "pt_inv t" "user_pde t to_id k \<Longrightarrow> user_pde s to_id k \<or> k = j"
  using assms by (simp_all add: table_shared_def)

lemma vmm_copy_loop_shares:
  assumes "pt_inv s" "from_id < NUM_IDS" "from_id \<noteq> 0" "to_id < NUM_IDS" "to_id \<noteq> 0" "from_id \<noteq> to_id"
    and "256 \<le> j" "j \<le> 960" "\<And>k. j \<le> k \<Longrightarrow> \<not> user_pde s to_id k"
  shows "\<exists>n t. vmm_copy_loop from_id to_id j s = Inr t \<and> j \<le> n \<and> n \<le> 960 \<and> dirs_shared from_id to_id j n s t
    \<and> (n = 960 \<or> no_more_pages to_id t)"
  using assms
proof (induction from_id to_id j s rule: vmm_copy_loop.induct)
  case (1 from_id to_id j s)
  show ?case
  proof (cases "j < 960")
    case False
    then have "j = 960" using "1.prems"(8) by simp
    then show ?thesis using "1.prems"(1) dirs_shared_none[OF _ vm_same_alloc(3)]
      by (intro exI[of _ 960] exI[of _ s]) (simp add: vmm_copy_loop.simps)
  next
    case True
    note ids = "1.prems"(2-6)
    have j: "j < 1024" "\<not> kern_pde j" "256 \<le> j + 1" "j + 1 \<le> 960"
      using True "1.prems"(7) by (auto simp: kern_pde_def word_less_nat_alt word_le_nat_alt unat_word_ariths)
    have le: "k \<noteq> j \<and> j < k" if "j + 1 \<le> k" for k
      using that True by (auto simp: word_less_nat_alt word_le_nat_alt unat_word_ariths)
    have P: "get_pdir_entry from_id j s AND PTE_P = 0 \<longleftrightarrow> \<not> bit (PDirPool s from_id j) 0"
      using ids(1) j(1) and_one_bit by (simp add: get_pdir_entry_def PTE_P_def)
    show ?thesis
    proof (cases "bit (PDirPool s from_id j) 0")
      case False
      then obtain n t where "vmm_copy_loop from_id to_id (j + 1) s = Inr t" "j + 1 \<le> n" "n \<le> 960"
        "dirs_shared from_id to_id (j + 1) n s t" "n = 960 \<or> no_more_pages to_id t"
        using "1.IH"(1) True P "1.prems"(1,9) ids j(3,4) le by fastforce
      then show ?thesis using dirs_shared_skip[OF _ False ids(1) True] True P False le[of n]
        by (intro exI[of _ n] exI[of _ t]) (auto simp: vmm_copy_loop.simps[of _ _ j])
    next
      case bit: True
      then have u: "user_pde s from_id j" "\<not> user_pde s to_id j" using ids j "1.prems"(9)[of j] by (simp_all add: user_pde_def)
      show ?thesis using ids(3)
      proof (cases rule: container_alloc_reason[where s = s])
        case (fail t)
        then show ?thesis using dirs_shared_none[OF "1.prems"(1) fail(2)] True P bit
          by (intro exI[of _ j] exI[of _ t]) (auto simp: vmm_copy_loop.simps[of _ _ j])
      next
        case (page p s1)
        from share_round[OF "1.prems"(1) ids(1,3-5) u page(2,4,5)] obtain t1 where
          t1: "for_u32 0 1024 (\<lambda>k t. Inr (vmm_copy_pte from_id to_id j k t)) (set_pdir_entry to_id j p s1) = Inr t1"
          "table_shared from_id to_id j s t1" by blast
        have "\<not> user_pde t1 to_id k" if "j + 1 \<le> k" for k
          using table_sharedD(2)[OF t1(2), of k] "1.prems"(9)[of k] le[OF that] less_imp_le[of j k] by blast
        with "1.IH"(2)[OF True _ page(1) refl _ t1(1) table_sharedD(1)[OF t1(2)] ids j(3,4)] obtain n t where
          n: "vmm_copy_loop from_id to_id (j + 1) t1 = Inr t" "j + 1 \<le> n" "n \<le> 960"
          "dirs_shared from_id to_id (j + 1) n t1 t" "n = 960 \<or> no_more_pages to_id t"
          using P bit page(3) by blast
        have "vmm_copy_loop from_id to_id j s = Inr t"
          using True P bit page(1,3) t1(1) n(1) by (simp add: vmm_copy_loop.simps[of _ _ j])
        then show ?thesis using dirs_shared_step[OF t1(2) n(4) ids(1,3) True] le[OF n(2)] n(3,5) less_imp_le[of j n] by blast
      qed
    qed
  qed
qed

section \<open>Properties\<close>

lemma vmm_copy_ok:
  assumes inv: "pt_inv s" and from_id: "from_id < NUM_IDS" "from_id \<noteq> 0" and to_id: "to_id < NUM_IDS" "to_id \<noteq> 0" "from_id \<noteq> to_id"
    and empty: "\<And>k. \<not> user_pde s to_id k"
  shows "\<exists>n s'. vmm_copy from_id to_id s = Inr s' \<and> pt_inv s' \<and> n \<le> 960 \<and> (n = 960 \<or> no_more_pages to_id s')
    \<and> (\<forall>q<NUM_IDS. \<forall>va. q \<noteq> to_id \<or> kern_pde (pde_of va) \<longrightarrow> translate q va s' = translate q va s)
    \<and> (\<forall>va pa. 256 \<le> pde_of va \<longrightarrow> pde_of va < n \<longrightarrow> translate from_id va s = Some pa \<longrightarrow>
         (let e = get_ptbl_entry_by_va to_id va s' in translate to_id va s' = Some pa
            \<and> get_ptbl_entry_by_va from_id va s' = e \<and> e AND PTE_W = 0 \<and> e AND PTE_COW = PTE_COW))
    \<and> (\<forall>r<0x100000. (\<forall>q k. user_pde s' q k \<longrightarrow> drop_bit 12 (PDirPool s' q k) \<noteq> r) \<longrightarrow>
         (\<forall>i<0x1000. page_byte s' r i = page_byte s r i))"
proof -
  from vmm_copy_loop_shares[OF inv from_id to_id _ _ empty, of 256] obtain n t where
    t: "vmm_copy from_id to_id s = Inr t" "n \<le> 960" "dirs_shared from_id to_id 256 n s t" "n = 960 \<or> no_more_pages to_id t"
    by (auto simp: vmm_copy_def)
  note S = t(3)[unfolded dirs_shared_def Let_def]
  have frame: "translate q va t = translate q va s" if "q < NUM_IDS" "get_ptbl_entry_by_va q va t = get_ptbl_entry_by_va q va s" for q va
    using that by (simp add: translate_by_va)
  have share: "get_ptbl_entry_by_va from_id va t = (if v = 0 then 0 else cow_entry v)" "v \<noteq> 0 \<Longrightarrow> get_ptbl_entry_by_va to_id va t = cow_entry v"
    if "256 \<le> pde_of va" "pde_of va < n" "v = get_ptbl_entry_by_va from_id va s" for va v using S that by auto
  have "translate q va t = translate q va s" if q: "q < NUM_IDS" "q \<noteq> to_id \<or> kern_pde (pde_of va)" for q va
  proof (cases "q = from_id \<and> 256 \<le> pde_of va \<and> pde_of va < n")
    case True
    then show ?thesis using share(1)[of va] q(1) by (simp add: translate_by_va Let_def cow_entry_flags)
  next
    case False
    have "kern_pde (pde_of va) \<Longrightarrow> pde_of va < 256 \<or> n \<le> pde_of va" using t(2) by (auto simp: kern_pde_def)
    then have "q \<noteq> from_id \<and> q \<noteq> to_id \<or> pde_of va < 256 \<or> n \<le> pde_of va" using q(2) False by (auto simp: not_le not_less)
    then show ?thesis using S q(1) by (intro frame) blast+
  qed
  moreover have "translate to_id va t = Some pa \<and> get_ptbl_entry_by_va from_id va t = get_ptbl_entry_by_va to_id va t
      \<and> get_ptbl_entry_by_va to_id va t AND PTE_W = 0 \<and> get_ptbl_entry_by_va to_id va t AND PTE_COW = PTE_COW"
    if va: "256 \<le> pde_of va" "pde_of va < n" "translate from_id va s = Some pa" for va pa
  proof -
    let ?v = "get_ptbl_entry_by_va from_id va s"
    have v: "?v \<noteq> 0" "pa = (?v AND 0xFFFFF000) + take_bit 12 va"
      using va(3) from_id(1) by (auto simp: translate_by_va Let_def split: if_splits)
    have f: "cow_entry ?v AND PTE_W = 0" "cow_entry ?v AND PTE_COW = PTE_COW" by (rule cow_entry_cow)+
    show ?thesis using share[OF va(1,2) refl] v to_id(1) f by (simp add: translate_by_va Let_def cow_entry_flags)
  qed
  ultimately show ?thesis using t(1,2,4) S unfolding Let_def by (intro exI[of _ n] exI[of _ t]) blast
qed

text \<open>
  Sharing an address space, as a fork does it. From a process to one without user memory, \<^verbatim>\<open>vmm_copy\<close> always
  returns. No address of the first or of a third process
  translates differently, nor does a kernel address of the second one. Every mapped user address
  of the first process translates for the second one to the same physical address, and both entries are
  the same, read-only and marked copy on write; the exceptions are the directory entries behind the point
  at which the second process ran out of pages. No byte changes outside page tables, and the page tables of all
  processes stay separate.
\<close>

theorem vmm_copy_shares:
  assumes inv: "pt_inv s" and from_id: "from_id < NUM_IDS" "from_id \<noteq> 0" and to_id: "to_id < NUM_IDS" "to_id \<noteq> 0" "from_id \<noteq> to_id"
    and empty: "\<And>k. \<not> user_pde s to_id k"
  shows "\<exists>n s'. vmm_copy from_id to_id s = Inr s' \<and> pt_inv s' \<and> n \<le> 960 \<and> (n = 960 \<or> no_more_pages to_id s')
    \<and> (\<forall>q<NUM_IDS. \<forall>va. q \<noteq> to_id \<or> kern_pde (pde_of va) \<longrightarrow> translate q va s' = translate q va s)
    \<and> (\<forall>va pa. 256 \<le> pde_of va \<longrightarrow> pde_of va < n \<longrightarrow> translate from_id va s = Some pa \<longrightarrow>
         (let e = get_ptbl_entry_by_va to_id va s' in translate to_id va s' = Some pa
            \<and> get_ptbl_entry_by_va from_id va s' = e \<and> e AND PTE_W = 0 \<and> e AND PTE_COW = PTE_COW))
    \<and> (\<forall>r<0x100000. (\<forall>q k. user_pde s' q k \<longrightarrow> drop_bit 12 (PDirPool s' q k) \<noteq> r) \<longrightarrow>
         (\<forall>i<0x1000. page_byte s' r i = page_byte s r i))"
  using assms by (rule vmm_copy_ok)

theorem vmm_copy_shares_witness:
  "\<exists>s'. vmm_copy 1 2 cow_example = Inr s' \<and> pt_inv s' \<and> (\<forall>va. translate 1 va s' = translate 1 va cow_example)"
proof -
  have "pt_inv cow_example" using pt_example1_inv by (simp add: cow_example_def pt_inv_mem)
  moreover have "\<not> user_pde cow_example 2 k" for k
    by (auto simp: user_pde_def cow_example_def pt_example1_def)
  ultimately show ?thesis using vmm_copy_shares[of cow_example 1 2] by (auto simp: NUM_IDS_def)
qed

section \<open>Reachable address spaces\<close>

text \<open>
  The states that the memory operations of the kernel reach from the end of \<^verbatim>\<open>paging_init\<close>: pages are allocated and containers
  split, user pages of user processes are mapped, unmapped, copied after a write and shared by a fork.
\<close>

definition user_va :: "u32 \<Rightarrow> u32 \<Rightarrow> bool" where
  "user_va pid va \<longleftrightarrow> pid < NUM_IDS \<and> pid \<noteq> 0 \<and> VM_USERLO \<le> va \<and> va < VM_USERHI"

inductive vm_reach :: "u32 \<Rightarrow> 'a pt_state_scheme \<Rightarrow> 'a pt_state_scheme \<Rightarrow> bool" for mbi_addr and s0 where
  init: "paging_init mbi_addr s0 = Inr s \<Longrightarrow> vm_reach mbi_addr s0 s"
| alloc: "vm_reach mbi_addr s0 s \<Longrightarrow> pid < NUM_IDS \<Longrightarrow> container_alloc pid s = Inr (p, s') \<Longrightarrow> vm_reach mbi_addr s0 s'"
| split: "vm_reach mbi_addr s0 s \<Longrightarrow> pid < NUM_IDS \<Longrightarrow> container_split pid quota s = Inr (c, s') \<Longrightarrow> vm_reach mbi_addr s0 s'"
| map: "vm_reach mbi_addr s0 s \<Longrightarrow> user_va pid va \<Longrightarrow> page < 0x100000 \<Longrightarrow> perm < 0x1000 \<Longrightarrow> bit perm 0 \<Longrightarrow>
    map_page pid va page perm s = Inr (r, s') \<Longrightarrow> vm_reach mbi_addr s0 s'"
| new: "vm_reach mbi_addr s0 s \<Longrightarrow> user_va pid va \<Longrightarrow> perm < 0x1000 \<Longrightarrow> bit perm 0 \<Longrightarrow>
    alloc_page pid va perm s = Inr (r, s') \<Longrightarrow> vm_reach mbi_addr s0 s'"
| unmap: "vm_reach mbi_addr s0 s \<Longrightarrow> user_va pid va \<Longrightarrow> get_ptbl_entry_by_va pid va s AND P_SUPER = 0 \<Longrightarrow>
    unmap_page pid va s = Inr (r, s') \<Longrightarrow> vm_reach mbi_addr s0 s'"
| cow: "vm_reach mbi_addr s0 s \<Longrightarrow> user_va pid va \<Longrightarrow> e = get_ptbl_entry_by_va pid va s \<Longrightarrow> e \<noteq> 0 \<Longrightarrow> e AND P_SUPER = 0 \<Longrightarrow>
    page_used s (drop_bit 12 e) \<Longrightarrow> drop_bit 12 e \<noteq> drop_bit 12 (get_pdir_entry_by_va pid va s) \<Longrightarrow>
    copy_on_write pid va s = Inr s' \<Longrightarrow> vm_reach mbi_addr s0 s'"
| share: "vm_reach mbi_addr s0 s \<Longrightarrow> from_id < NUM_IDS \<Longrightarrow> from_id \<noteq> 0 \<Longrightarrow> to_id < NUM_IDS \<Longrightarrow> to_id \<noteq> 0 \<Longrightarrow> from_id \<noteq> to_id \<Longrightarrow>
    (\<And>k. \<not> user_pde s to_id k) \<Longrightarrow> vmm_copy from_id to_id s = Inr s' \<Longrightarrow> vm_reach mbi_addr s0 s'"

inductive_cases vm_reachE: "vm_reach mbi_addr s0 s"

text \<open>Page tables are separate, and the kernel part of every address space is the identity.\<close>

definition vm_ok :: "'a pt_state_scheme \<Rightarrow> bool" where
  "vm_ok s \<longleftrightarrow> pt_inv s \<and> (\<forall>pid<NUM_IDS. \<forall>va<0xFFFFF000. pid = 0 \<or> kern_pde (pde_of va) \<longrightarrow> translate pid va s = Some va)"

lemma vm_ok_keep:
  assumes "vm_ok s" "pt_inv s'"
    and "\<And>q va. q < NUM_IDS \<Longrightarrow> q = 0 \<or> kern_pde (pde_of va) \<Longrightarrow> translate q va s' = translate q va s"
  shows "vm_ok s'"
  using assms by (simp add: vm_ok_def)

lemma vm_ok_same: "vm_ok s \<Longrightarrow> vm_same s s' \<Longrightarrow> vm_ok s'"
  using vm_same_inv[of s s'] vm_same_translate[of s s'] by (simp add: vm_ok_def)

text \<open>A change within the 4 MiB region of a user address of one process.\<close>

lemma vm_ok_user:
  assumes "vm_ok s" "user_va pid va" "pt_inv s'"
    and "\<And>q vb. q < NUM_IDS \<Longrightarrow> q \<noteq> pid \<or> pde_of vb \<noteq> pde_of va \<Longrightarrow> translate q vb s' = translate q vb s"
  shows "vm_ok s'"
proof (rule vm_ok_keep[OF assms(1,3)])
  have "\<not> kern_pde (pde_of va)" "pid \<noteq> 0" using assms(2) by (simp_all add: user_va_def user_va_pde)
  then show "q < NUM_IDS \<Longrightarrow> q = 0 \<or> kern_pde (pde_of vb) \<Longrightarrow> translate q vb s' = translate q vb s" for q vb
    using assms(4)[of q vb] by (cases "q = pid \<and> pde_of vb = pde_of va") auto
qed

lemma user_vaD: "vm_ok s \<Longrightarrow> user_va pid va \<Longrightarrow> pt_inv s \<and> pid < NUM_IDS \<and> pid \<noteq> 0 \<and> VM_USERLO \<le> va \<and> va < VM_USERHI"
  by (simp add: user_va_def vm_ok_def)

lemma split_vm_same:
  assumes "pid < NUM_IDS" "container_split pid quota s = Inr (c, s')"
  shows "vm_same s s'"
  using assms by (auto simp: container_split_def upd_container_def Let_def vm_same_def page_used_def split: if_splits)

lemma vm_reach_ok:
  assumes boot: "container_init mbi_addr s0 = Inr s1" "idptbl_placed s0" "loc_IDPTbl s0 \<le> VM_USERLO - 0x400000"
    and "vm_reach mbi_addr s0 s"
  shows "vm_ok s"
  using assms(4)
proof (induction rule: vm_reach.induct)
  case (init s)
  then show ?case using paging_init_ok[OF boot] by (auto simp: vm_ok_def kern_pde_iff)
next
  case (alloc s pid p s')
  from alloc(2) alloc(3,4) show ?case by (cases rule: container_alloc_outcome[where s = s]) (auto intro: vm_ok_same)
next
  case (split s pid quota c s')
  then show ?case using vm_ok_same split_vm_same by blast
next
  case (map s pid va page perm r s')
  note u = user_vaD[OF map(7,2)]
  have "pt_inv s'" using map_page_spec[of s pid va page perm] u map(3-6) by auto
  moreover have "translate q vb s' = translate q vb s" if "q < NUM_IDS" "q \<noteq> pid \<or> pde_of vb \<noteq> pde_of va" for q vb
    using map_page_spec[of s pid va page perm] u map(3-6) that same_page_iff[of vb va] by (auto split: if_splits)
  ultimately show ?case by (rule vm_ok_user[OF map(7,2)])
next
  case (new s pid va perm r s')
  note u = user_vaD[OF new(6,2)]
  have "pt_inv s'" using alloc_page_ok[of s pid va perm] u new(3-5) by auto
  moreover have "translate q vb s' = translate q vb s" if "q < NUM_IDS" "q \<noteq> pid \<or> pde_of vb \<noteq> pde_of va" for q vb
    using alloc_page_ok[of s pid va perm] u new(3-5) that by (auto split: if_splits)
  ultimately show ?case by (rule vm_ok_user[OF new(6,2)])
next
  case (unmap s pid va r s')
  note u = user_vaD[OF unmap(5,2)]
  have "pt_inv s'" using unmap_page_ok[of s pid va] u unmap(3,4) by auto
  moreover have "translate q vb s' = translate q vb s" if "q < NUM_IDS" "q \<noteq> pid \<or> pde_of vb \<noteq> pde_of va" for q vb
    using unmap_page_ok[of s pid va] u unmap(3,4) that same_page_iff[of vb va] by auto
  ultimately show ?case by (rule vm_ok_user[OF unmap(5,2)])
next
  case (cow s pid va e s')
  note u = user_vaD[OF cow(9,2)]
  have "pt_inv s'" using copy_on_write_ok[of s pid va e] u cow(3-8) by auto
  moreover have "translate q vb s' = translate q vb s" if "q < NUM_IDS" "q \<noteq> pid \<or> pde_of vb \<noteq> pde_of va" for q vb
    using copy_on_write_ok[of s pid va e] u cow(3-8) that same_page_iff[of vb va] translate_cong[of s' s q vb] by auto
  ultimately show ?case by (rule vm_ok_user[OF cow(9,2)])
next
  case (share s from_id to_id s')
  then have "pt_inv s" by (simp add: vm_ok_def)
  note inv = this
  from vmm_copy_ok[OF inv share(2-7)] share(8) have "pt_inv s'" and
    eq: "\<forall>q<NUM_IDS. \<forall>va. q \<noteq> to_id \<or> kern_pde (pde_of va) \<longrightarrow> translate q va s' = translate q va s" by auto
  show ?case by (rule vm_ok_keep[OF share(9) \<open>pt_inv s'\<close>]) (use eq share(5) in blast)
qed



end
