(* ===== verification/UCall.thy ===== *)
theory UCall
  imports TTrap MPTShare
begin

text \<open>
  The system call stubs of user programs, \<^verbatim>\<open>user/include/syscall.h\<close>, and the library routines over them,
  \<^verbatim>\<open>user/lib/proc.c\<close>. A stub loads registers, executes \<^verbatim>\<open>int T_SYSCALL\<close> and reads its results from the
  registers with which the kernel resumes it. The registers of the running program are a trap frame,
  as the entry code of the kernel pushes them.
\<close>

section \<open>Stubs\<close>

definition int_syscall :: "(pushregs \<Rightarrow> pushregs) \<Rightarrow> tf_t \<Rightarrow> 'a proc_state_scheme \<Rightarrow> (tf_t \<times> 'a proc_state_scheme) res" where
  "int_syscall args tf s = trap (tf\<lparr>tf_trapno := T_SYSCALL, tf_err := 0, tf_regs := args (tf_regs tf)\<rparr>) s"

definition puts_stub :: "u32 \<Rightarrow> u32 \<Rightarrow> tf_t \<Rightarrow> 'a proc_state_scheme \<Rightarrow> (tf_t \<times> 'a proc_state_scheme) res" where
  "puts_stub str len = int_syscall (\<lambda>r. r\<lparr>r_eax := SYS_puts, r_ebx := str, r_ecx := len\<rparr>)"

definition spawn_stub :: "u32 \<Rightarrow> u32 \<Rightarrow> tf_t \<Rightarrow> 'a proc_state_scheme \<Rightarrow> (u32 \<times> tf_t \<times> 'a proc_state_scheme) res" where
  "spawn_stub elf_id quota tf s =
     rbind (int_syscall (\<lambda>r. r\<lparr>r_eax := SYS_spawn, r_ebx := elf_id, r_ecx := quota\<rparr>) tf s) (\<lambda>(tf, s).
     let errno = r_eax (tf_regs tf); pid = r_ebx (tf_regs tf)
     in Inr (if errno \<noteq> 0 then - 1 else pid, tf, s))"

definition yield_stub :: "tf_t \<Rightarrow> 'a proc_state_scheme \<Rightarrow> (tf_t \<times> 'a proc_state_scheme) res" where
  "yield_stub = int_syscall (\<lambda>r. r\<lparr>r_eax := SYS_yield\<rparr>)"

text \<open>\<^verbatim>\<open>sys_fork\<close> does not look at the error number.\<close>

definition fork_stub :: "tf_t \<Rightarrow> 'a proc_state_scheme \<Rightarrow> (u32 \<times> tf_t \<times> 'a proc_state_scheme) res" where
  "fork_stub tf s =
     rbind (int_syscall (\<lambda>r. r\<lparr>r_eax := SYS_fork\<rparr>) tf s) (\<lambda>(tf, s). Inr (r_ebx (tf_regs tf), tf, s))"

definition get_ptbl_entry_stub :: "u32 \<Rightarrow> tf_t \<Rightarrow> 'a proc_state_scheme \<Rightarrow> (u32 \<times> tf_t \<times> 'a proc_state_scheme) res" where
  "get_ptbl_entry_stub vaddr tf s =
     rbind (int_syscall (\<lambda>r. r\<lparr>r_eax := SYS_ADV, r_ebx := vaddr\<rparr>) tf s) (\<lambda>(tf, s).
     let errno = r_eax (tf_regs tf); data = r_ebx (tf_regs tf)
     in Inr (if errno \<noteq> 0 then - 1 else data, tf, s))"

definition mmap_stub ::
  "u32 \<Rightarrow> u32 \<Rightarrow> u32 \<Rightarrow> u32 \<Rightarrow> tf_t \<Rightarrow> 'a proc_state_scheme \<Rightarrow> (u32 \<times> tf_t \<times> 'a proc_state_scheme) res" where
  "mmap_stub sz perm flag vaddr tf s =
     rbind (int_syscall (\<lambda>r. r\<lparr>r_eax := SYS_mmap, r_ebx := sz, r_ecx := perm, r_edx := flag, r_esi := vaddr\<rparr>) tf s) (\<lambda>(tf, s).
     let errno = r_eax (tf_regs tf); ptr = r_ebx (tf_regs tf)
     in Inr (if errno \<noteq> 0 then - 1 else ptr, tf, s))"

section \<open>Library routines\<close>

definition spawn :: "u32 \<Rightarrow> u32 \<Rightarrow> tf_t \<Rightarrow> 'a proc_state_scheme \<Rightarrow> (u32 \<times> tf_t \<times> 'a proc_state_scheme) res" where
  "spawn exec quota = spawn_stub exec quota"

definition user_yield :: "tf_t \<Rightarrow> 'a proc_state_scheme \<Rightarrow> (tf_t \<times> 'a proc_state_scheme) res" where
  "user_yield = yield_stub"

definition mmap ::
  "u32 \<Rightarrow> u32 \<Rightarrow> u32 \<Rightarrow> u32 \<Rightarrow> tf_t \<Rightarrow> 'a proc_state_scheme \<Rightarrow> (u32 \<times> tf_t \<times> 'a proc_state_scheme) res" where
  "mmap sz perm flag vaddr = mmap_stub sz perm flag vaddr"

definition user_get_ptbl_entry :: "u32 \<Rightarrow> tf_t \<Rightarrow> 'a proc_state_scheme \<Rightarrow> (u32 \<times> tf_t \<times> 'a proc_state_scheme) res" where
  "user_get_ptbl_entry vaddr = get_ptbl_entry_stub vaddr"

section \<open>From the call to its return\<close>

text \<open>The frame that the entry code pushes for a call.\<close>

definition call_frame :: "(pushregs \<Rightarrow> pushregs) \<Rightarrow> tf_t \<Rightarrow> tf_t" where
  "call_frame args tf = tf\<lparr>tf_trapno := T_SYSCALL, tf_err := 0, tf_regs := args (tf_regs tf)\<rparr>"

text \<open>The frame that resumes it with an error number and a result.\<close>

definition return_frame :: "u32 \<Rightarrow> u32 \<Rightarrow> tf_t \<Rightarrow> tf_t" where
  "return_frame errno v tf = tf\<lparr>tf_regs := (tf_regs tf)\<lparr>r_eax := errno, r_ebx := v\<rparr>\<rparr>"

lemma set_results:
  assumes "get_curid s < NUM_IDS"
  shows "uctx_pool (syscall_set_retval1 v (syscall_set_errno e s))
     = (uctx_pool s)(get_curid s := return_frame e v (uctx_pool s (get_curid s)))"
  using assms by (auto simp: syscall_results set_reg_def Let_def return_frame_def get_curid_def fun_eq_iff)

lemma int_syscall_eq:
  "get_curid s < NUM_IDS \<Longrightarrow>
     int_syscall args tf s = rbind (syscall_dispatch (entered (call_frame args tf) s)) proc_start_user"
  by (simp add: int_syscall_def call_frame_def trap_syscall)

text \<open>A call whose handler ends by setting both results resumes the caller with them.\<close>

lemma call_returns:
  assumes "get_curid s < NUM_IDS" "syscall_dispatch (entered (call_frame args tf) s) = Inr (syscall_set_retval1 v (syscall_set_errno e t))"
    "get_curid t = get_curid s" "uctx_pool t (get_curid s) = call_frame args tf"
  shows "int_syscall args tf s
     = Inr (return_frame e v (call_frame args tf), user_space (syscall_set_retval1 v (syscall_set_errno e t)))"
proof -
  have "get_curid (syscall_set_retval1 v (syscall_set_errno e t)) = get_curid s" using assms(3) by (simp add: syscall_results)
  then show ?thesis using assms set_results[of t v e] by (simp add: int_syscall_eq start_user_eq)
qed

lemma entered_args:
  assumes "get_curid s < NUM_IDS"
  shows "syscall_get_arg1 (entered tf s) = r_eax (tf_regs tf)" "syscall_get_arg2 (entered tf s) = r_ebx (tf_regs tf)"
    "syscall_get_arg3 (entered tf s) = r_ecx (tf_regs tf)" "syscall_get_arg4 (entered tf s) = r_edx (tf_regs tf)"
    "syscall_get_arg5 (entered tf s) = r_esi (tf_regs tf)"
  using assms by (simp_all add: syscall_args Let_def not_le[symmetric])

lemma thread_inv_entered: "thread_inv s Q \<Longrightarrow> thread_inv (entered tf s) Q"
  using container_inv_cong[of "entered tf s" s] books_balance_cong[of "entered tf s" s] by (simp add: thread_inv_def)

lemma user_space_sched: "sched_inv (user_space (set_reg f (set_reg g t))) Q = sched_inv t Q"
proof -
  have "sched_inv (user_space u) Q = sched_inv u Q" for u :: "'a proc_state_scheme"
    using queues_rep_cong[of "user_space u" u Q]
    by (simp add: sched_inv_def user_space_def set_pdir_base_def set_cr3_def lcr3_def tss_switch_def)
  then show ?thesis by simp
qed

lemma entered_containers:
  "container_can_consume pid n (entered tf s) = container_can_consume pid n s" "container_get_quota pid (entered tf s) = container_get_quota pid s"
  "container_get_usage pid (entered tf s) = container_get_usage pid s"
  by (simp_all add: container_can_consume_def container_get_quota_def container_get_usage_def)

text \<open>A new process is not the one that creates it.\<close>

lemma child_fresh:
  assumes "thread_inv s Q" "container_can_consume (get_curid s) quota s = 1"
    "container_split (get_curid s) quota s = Inr (child, s1)" "child \<noteq> NUM_IDS"
  shows "child \<noteq> get_curid s" "child < NUM_IDS" "get_curid s < NUM_IDS"
proof -
  have "container_inv s" using assms(1) by (simp add: thread_inv_def)
  from container_split_ok[OF this assms(2,3)] assms(4) have c: "child < NUM_IDS" "c_used (CONTAINER s child) = 0" by auto
  then show "child \<noteq> get_curid s" "child < NUM_IDS" "get_curid s < NUM_IDS"
    using assms(1) by (auto simp: thread_inv_def sched_inv_def get_curid_def)
qed

section \<open>Creating a process\<close>

text \<open>Loading the image into the pages of the new process leaves the image's own header as it is.\<close>

definition image_kept :: "u32 \<Rightarrow> u32 \<Rightarrow> 'a proc_state_scheme \<Rightarrow> bool" where
  "image_kept elf_addr quota s \<longleftrightarrow> (\<forall>child sp sl.
     thread_spawn (loc_proc_start_user (layout s)) (get_curid s) quota s = Inr (child, sp) \<longrightarrow>
     elf_load elf_addr child sp = Inr sl \<longrightarrow> e_magic (mem sl) elf_addr = ELF_MAGIC)"

text \<open>
  C13: \<^verbatim>\<open>spawn\<close>, called by a user program that has quota and room for a child, returns the number of a new
  process: a ready thread at the end of the queue that starts at the entry point of the chosen program on
  an empty stack. The caller continues with its own registers, except for those that carry arguments and
  results, and no other process is touched.
\<close>

theorem spawn_creates:
  fixes s :: "'a proc_state_scheme" and elf_id quota :: u32 and tf :: tf_t
  defines "img \<equiv> loc_elf (layout s) elf_id"
    and "call \<equiv> call_frame (\<lambda>r. r\<lparr>r_eax := SYS_spawn, r_ebx := elf_id, r_ecx := quota\<rparr>) tf"
  assumes inv: "thread_inv s Q" and elf: "elf_id \<in> {1, 2, 3, 4}" "elf_ok (mem s) img" "image_kept img quota (entered call s)"
    and can: "container_can_consume (get_curid s) quota s = 1"
    and split: "container_split (get_curid s) quota s = Inr (child, s1)" "child \<noteq> NUM_IDS"
  shows "\<exists>s'. spawn elf_id quota tf s = Inr (child, return_frame E_SUCC child call, s')
    \<and> get_curid s' = get_curid s \<and> sched_inv s' (Q(NUM_IDS := Q NUM_IDS @ [child]))
    \<and> kc_eip (kctx_pool s' child) = loc_proc_start_user (layout s)
    \<and> tf_eip (uctx_pool s' child) = e_entry (mem s') img \<and> tf_esp (uctx_pool s' child) = VM_USERHI
    \<and> (\<forall>q. q \<noteq> child \<longrightarrow> q \<noteq> get_curid s \<longrightarrow> uctx_pool s' q = uctx_pool s q)"
proof -
  let ?e = "entered call s"
  note ch = child_fresh[OF inv can split]
  have inv': "thread_inv ?e Q" by (rule thread_inv_entered[OF inv])
  have can': "container_can_consume (get_curid ?e) quota ?e = 1" using can by (simp add: entered_containers)
  obtain e1 where sp: "container_split (get_curid ?e) quota ?e = Inr (child, e1)"
    using container_split_same[OF split(1), of ?e] by auto
  have "elf_ok (mem ?e) img" using elf(2) by simp
  from proc_create_ok[OF inv' can' sp split(2) this] elf(3) obtain t where t: "proc_create img quota ?e = Inr (child, t)"
    "sched_inv t (Q(NUM_IDS := Q NUM_IDS @ [child]))" "get_curid t = get_curid s"
    "kc_eip (kctx_pool t child) = loc_proc_start_user (layout s)" "\<And>q. q \<noteq> child \<Longrightarrow> uctx_pool t q = uctx_pool ?e q"
    "tf_eip (uctx_pool t child) = e_entry (mem t) img" "tf_esp (uctx_pool t child) = VM_USERHI"
    by (auto simp: Let_def image_kept_def)
  let ?u = "syscall_set_retval1 child (syscall_set_errno E_SUCC t)"
  have "syscall_dispatch ?e = sys_spawn ?e"
    using entered_args(1)[OF ch(3), of call] by (simp add: syscall_dispatch_def call_def call_frame_def syscall_nrs)
  also have "\<dots> = Inr ?u"
    using entered_args(2,3)[OF ch(3), of call] elf(1) t(1) split(2) by (simp add: sys_spawn_def call_def call_frame_def img_def)
  finally have "int_syscall (\<lambda>r. r\<lparr>r_eax := SYS_spawn, r_ebx := elf_id, r_ecx := quota\<rparr>) tf s
      = Inr (return_frame E_SUCC child call, user_space ?u)"
    using call_returns[OF ch(3)] t(3,5) ch(1) unfolding call_def by simp
  then have "spawn elf_id quota tf s = Inr (child, return_frame E_SUCC child call, user_space ?u)"
    by (simp add: spawn_def spawn_stub_def return_frame_def E_SUCC_def)
  moreover have "uctx_pool (user_space ?u) = (uctx_pool t)(get_curid s := return_frame E_SUCC child (uctx_pool t (get_curid s)))"
    using set_results[of t child E_SUCC] t(3) ch(3) by simp
  moreover have "get_curid (user_space ?u) = get_curid s" "mem (user_space ?u) = mem t" "kctx_pool (user_space ?u) = kctx_pool t"
    "sched_inv (user_space ?u) (Q(NUM_IDS := Q NUM_IDS @ [child]))"
    using t(2,3) by (simp_all add: syscall_results user_space_sched)
      (simp add: user_space_def set_reg_def Let_def set_pdir_base_def set_cr3_def lcr3_def tss_switch_def)
  ultimately show ?thesis using t(4-7) ch(1) by (intro exI[of _ "user_space ?u"]) simp
qed

text \<open>
  \<^verbatim>\<open>spawn\<close> with the number of no program returns -1, and nothing of the kernel state changes but the saved
  registers of the caller and the processor's tables.
\<close>

theorem spawn_unknown_program:
  assumes "get_curid s < NUM_IDS" "elf_id \<notin> {1, 2, 3, 4}"
  shows "\<exists>tf' s'. spawn elf_id quota tf s = Inr (- 1, tf', s') \<and>
    s' = s\<lparr>cr3 := cr3 s', segs := segs s', uctx_pool := (uctx_pool s)(get_curid s := tf')\<rparr>"
proof -
  let ?args = "\<lambda>r. r\<lparr>r_eax := SYS_spawn, r_ebx := elf_id, r_ecx := quota\<rparr>"
  let ?c = "call_frame ?args tf"
  let ?u = "syscall_set_retval1 NUM_IDS (syscall_set_errno E_INVAL_PID (entered ?c s))"
  have "syscall_dispatch (entered ?c s) = sys_spawn (entered ?c s)"
    using entered_args(1)[OF assms(1), of ?c] by (simp add: syscall_dispatch_def call_frame_def syscall_nrs)
  also have "\<dots> = Inr ?u" using entered_args(2)[OF assms(1), of ?c] assms(2) by (simp add: sys_spawn_def call_frame_def)
  finally have i: "int_syscall ?args tf s = Inr (return_frame E_INVAL_PID NUM_IDS ?c, user_space ?u)"
    using call_returns[OF assms(1)] by simp
  have p: "uctx_pool ?u = (uctx_pool s)(get_curid s := return_frame E_INVAL_PID NUM_IDS ?c)"
    using set_results[of "entered ?c s"] assms(1) by simp
  have "user_space ?u = s\<lparr>cr3 := cr3 (user_space ?u), segs := segs (user_space ?u), uctx_pool := uctx_pool ?u\<rparr>"
    by (simp add: user_space_def entered_def set_pdir_base_def set_cr3_def lcr3_def tss_switch_def get_curid_def
        syscall_results set_reg_def Let_def)
  then show ?thesis using i p
    by (intro exI[of _ "return_frame E_INVAL_PID NUM_IDS ?c"] exI[of _ "user_space ?u"])
       (simp add: spawn_def spawn_stub_def return_frame_def E_INVAL_PID_def)
qed

section \<open>Forking\<close>

lemma fork_stub_returns:
  fixes tf :: tf_t
  defines "call \<equiv> call_frame (\<lambda>r. r\<lparr>r_eax := SYS_fork\<rparr>) tf"
  assumes "get_curid s < NUM_IDS" "child \<noteq> NUM_IDS" "proc_fork (entered call s) = Inr (child, t)"
    "get_curid t = get_curid s" "uctx_pool t (get_curid s) = call"
  shows "fork_stub tf s = Inr (child, return_frame E_SUCC child call,
    user_space (syscall_set_retval1 child (syscall_set_errno E_SUCC t)))"
proof -
  let ?e = "entered call s" and ?u = "syscall_set_retval1 child (syscall_set_errno E_SUCC t)"
  have "syscall_dispatch ?e = sys_fork ?e"
    using entered_args(1)[OF assms(2), of call] by (simp add: syscall_dispatch_def call_def call_frame_def syscall_nrs)
  also have "\<dots> = Inr ?u" using assms(3,4) by (simp add: sys_fork_def)
  finally have "int_syscall (\<lambda>r. r\<lparr>r_eax := SYS_fork\<rparr>) tf s = Inr (return_frame E_SUCC child call, user_space ?u)"
    using call_returns[OF assms(2)] assms(5,6) unfolding call_def by simp
  then show ?thesis by (simp add: fork_stub_def return_frame_def)
qed

text \<open>
  C12: \<^verbatim>\<open>sys_fork\<close> from user code to user code, for both processes. The parent's call returns the number of
  the child. When the parent then yields, and no other process waits, the child resumes behind the same
  call, in its own address space and with the parent's registers; the number its call returns is what the parent
  happened to have in \<^verbatim>\<open>ebx\<close> before the call, and not 0.
\<close>

theorem fork_both_return:
  fixes s :: "'a proc_state_scheme" and tf :: tf_t
  defines "call \<equiv> call_frame (\<lambda>r. r\<lparr>r_eax := SYS_fork\<rparr>) tf"
  assumes inv: "thread_inv s Q" "Q NUM_IDS = []"
    and split: "container_split (get_curid s) ((container_get_quota (get_curid s) s - container_get_usage (get_curid s) s) div 2) s
       = Inr (child, s1)" "child \<noteq> NUM_IDS"
  shows "\<exists>s2 s3. fork_stub tf s = Inr (child, return_frame E_SUCC child call, s2) \<and> get_curid s2 = get_curid s
    \<and> user_yield (return_frame E_SUCC child call) s2 = Inr (call, s3) \<and> get_curid s3 = child
    \<and> cr3 s3 = loc_PDirPool s2 + child * 4096
    \<and> r_ebx (tf_regs call) = r_ebx (tf_regs tf)"
proof -
  let ?e = "entered call s"
  note ch = child_fresh[OF inv(1) fork_quota[OF inv(1)] split]
  obtain e1 where "container_split (get_curid ?e) ((container_get_quota (get_curid ?e) ?e - container_get_usage (get_curid ?e) ?e) div 2) ?e
      = Inr (child, e1)"
    using container_split_same[OF split(1), of ?e] by (auto simp: entered_containers)
  from proc_fork_ok[OF thread_inv_entered[OF inv(1)] this split(2)] obtain t where t: "proc_fork ?e = Inr (child, t)"
    "sched_inv t (Q(NUM_IDS := [child]))" "get_curid t = get_curid s" "uctx_pool t = (uctx_pool s)(get_curid s := call, child := call)"
    "kc_eip (kctx_pool t child) = loc_proc_start_user (layout s)" "layout t = layout s"
    using inv(2) by auto
  let ?u = "syscall_set_retval1 child (syscall_set_errno E_SUCC t)" and ?r = "return_frame E_SUCC child call"
  have "get_curid t = get_curid s" "uctx_pool t (get_curid s) = call" using t(3,4) ch(1) by simp_all
  note fork = fork_stub_returns[OF ch(3) split(2) t(1)[unfolded call_def] this[unfolded call_def], folded call_def]
  have u: "sched_inv (user_space ?u) (Q(NUM_IDS := [child]))" "get_curid (user_space ?u) = get_curid s"
    "kctx_pool (user_space ?u) = kctx_pool t" "layout (user_space ?u) = layout s" "loc_PDirPool (user_space ?u) = loc_PDirPool t"
    using t(2,3,6) by (simp_all add: syscall_results user_space_sched)
      (simp_all add: user_space_def set_reg_def Let_def set_pdir_base_def set_cr3_def lcr3_def tss_switch_def)
  have p: "uctx_pool (user_space ?u) child = call" using set_results[of t child E_SUCC] t(3,4) ch by simp
  let ?y = "call_frame (\<lambda>r. r\<lparr>r_eax := SYS_yield\<rparr>) ?r"
  have "tf_trapno ?y = T_SYSCALL" "r_eax (tf_regs ?y) = SYS_yield" by (simp_all add: call_frame_def)
  from yield_trap[OF u(1) _ this, of child "[]"] obtain s3 where s3: "trap ?y (user_space ?u) = Inr (uctx_pool s3 child, s3)"
    "get_curid s3 = child" "cr3 s3 = loc_PDirPool (user_space ?u) + child * 4096" "uctx_pool s3 child = call"
    using p u(3,4) t(5) by auto
  then have "user_yield ?r (user_space ?u) = Inr (call, s3)"
    by (simp add: user_yield_def yield_stub_def int_syscall_def call_frame_def)
  moreover have "r_ebx (tf_regs call) = r_ebx (tf_regs tf)" by (simp add: call_def call_frame_def)
  ultimately show ?thesis using fork u(2) s3(2,3) by blast
qed

text \<open>The two results do not matter for the address spaces.\<close>

lemma results_vm:
  fixes s :: "'a proc_state_scheme" and v e :: u32
  defines "u \<equiv> user_space (syscall_set_retval1 v (syscall_set_errno e s))"
  shows "pt_inv u = pt_inv s" "translate q va u = translate q va s" "get_curid u = get_curid s"
    "get_ptbl_entry_by_va q va u = get_ptbl_entry_by_va q va s" "no_more_pages q u = no_more_pages q s"
proof -
  have "PDirPool u = PDirPool s" "mem u = mem s" "AT u = AT s" "loc_IDPTbl u = loc_IDPTbl s" "CONTAINER u = CONTAINER s" "CURID u = CURID s"
    by (simp_all add: u_def syscall_results user_space_def set_reg_def Let_def set_pdir_base_def set_cr3_def lcr3_def tss_switch_def)
  then show "pt_inv u = pt_inv s" "translate q va u = translate q va s" "get_curid u = get_curid s"
    "get_ptbl_entry_by_va q va u = get_ptbl_entry_by_va q va s" "no_more_pages q u = no_more_pages q s"
    using pt_inv_cong[of u s] translate_cong[of u s q va] avail_cong[of u s]
    by (simp_all add: get_curid_def no_more_pages_def get_ptbl_entry_by_va_def get_pdir_entry_def get_ptbl_entry_def Let_def)
qed

text \<open>What a fork does to the address spaces is what \<^verbatim>\<open>vmm_copy\<close> does.\<close>

lemma proc_fork_vm:
  assumes inv: "thread_inv s Q"
    and split: "container_split (get_curid s) ((container_get_quota (get_curid s) s - container_get_usage (get_curid s) s) div 2) s
       = Inr (child, s1)" "child \<noteq> NUM_IDS"
  shows "\<exists>t. proc_fork s = rbind (vmm_copy (get_curid s) child t) (\<lambda>s. Inr (child, s))
    \<and> PDirPool t = PDirPool s \<and> AT t = AT s \<and> mem t = mem s \<and> loc_IDPTbl t = loc_IDPTbl s"
proof -
  let ?entry = "loc_proc_start_user (layout s)" and ?q = "(container_get_quota (get_curid s) s - container_get_usage (get_curid s) s) div 2"
  note can = fork_quota[OF inv] and ch = child_fresh[OF inv fork_quota[OF inv] split]
  obtain sp where sp: "thread_spawn ?entry (get_curid s) ?q s = Inr (child, sp)" using spawn_ok[OF inv can split, of ?entry] by blast
  note so = sched_only_spawn[OF sp]
  have "loc_IDPTbl sp = loc_IDPTbl s" by (subst so[unfolded sched_only_def]) simp
  then show ?thesis using sp sched_only_sel(6,7,9)[OF so] ch split(2) by (auto simp: proc_fork_def upd_uctx_def Let_def)
qed


section \<open>Mapping memory\<close>

lemma mmap_message: "message (chars ''In process %d, size: %d, perm: %d, flag: %d'' @ [10]) [a, b, c, d]"
  by (simp add: chars_def)


section \<open>Witnesses\<close>

text \<open>The image of an ELF file without segments stays as it is, since nothing is loaded.\<close>

lemma image_kept_example:
  assumes "mem s = elf_example" shows "image_kept 0 quota s"
proof -
  have "e_magic (mem sl) 0 = ELF_MAGIC" if "thread_spawn f (get_curid s) quota s = Inr (child, sp)" "elf_load 0 child sp = Inr sl"
    for child sp sl f
  proof -
    have m: "mem sp = elf_example" using sched_only_sel(9)[OF sched_only_spawn[OF that(1)]] assms by simp
    then have "sl = sp" using that(2) elf_example_ok
      by (simp add: elf_load_def elf_ok_def Let_def elf_segments.simps split: if_splits)
    then show ?thesis using m elf_example_ok by simp
  qed
  then show ?thesis by (auto simp: image_kept_def)
qed

theorem spawn_creates_witness:
  "\<exists>(s :: proc_state) tf s'. spawn 1 0 tf_zero s = Inr (1, tf, s') \<and> tf_esp (uctx_pool s' 1) = VM_USERHI"
proof -
  obtain t where t: "thread_inv t (\<lambda>_. [])" "CURID t = 0" "c_nchildren (CONTAINER t 0) = 0" and
    "thread_init 0 proc_boot = Inr t" using proc_boot_inv by blast
  let ?s = "t\<lparr>mem := elf_example, layout := (layout t)\<lparr>loc_elf := \<lambda>_. 0\<rparr>\<rparr>"
  have inv: "thread_inv ?s (\<lambda>_. [])"
    using t(1) queues_rep_cong[of ?s t] container_inv_cong[of ?s t] books_balance_cong[of ?s t]
    by (simp add: thread_inv_def sched_inv_def)
  have c: "get_curid ?s = 0" using t(2) by (simp add: get_curid_def)
  have can: "container_can_consume (get_curid ?s) 0 ?s = 1"
    using inv c by (simp add: thread_inv_def container_inv_def tree_ok_def container_can_consume_def NUM_IDS_def)
  obtain s1 where s1: "container_split (get_curid ?s) 0 ?s = Inr (1, s1)" using first_split[of ?s 0] t(3) c by auto
  have "\<exists>s'. spawn 1 0 tf_zero ?s = Inr (1, return_frame E_SUCC 1 (call_frame (\<lambda>r. r\<lparr>r_eax := SYS_spawn, r_ebx := 1, r_ecx := 0\<rparr>) tf_zero), s')
      \<and> tf_esp (uctx_pool s' 1) = VM_USERHI"
    using spawn_creates[OF inv _ _ _ can s1, of 1 tf_zero] elf_example_ok(1) by (auto simp: NUM_IDS_def image_kept_example)
  then show ?thesis by blast
qed

theorem spawn_unknown_program_witness:
  "\<exists>tf' s'. spawn 9 100 tf_zero (proc_of 0 cow_example) = Inr (- 1, tf', s')"
  using spawn_unknown_program[of "proc_of 0 cow_example" 9 100 tf_zero] by (auto simp: NUM_IDS_def)

theorem fork_both_return_witness:
  "\<exists>(s :: proc_state) s2 s3 tf. fork_stub tf_zero s = Inr (1, tf, s2) \<and> get_curid s2 = 0
     \<and> user_yield tf s2 = Inr (call_frame (\<lambda>r. r\<lparr>r_eax := SYS_fork\<rparr>) tf_zero, s3) \<and> get_curid s3 = 1"
proof -
  obtain s where s: "thread_init 0 proc_boot = Inr s" "thread_inv s (\<lambda>_. [])" "CURID s = 0"
    "c_nchildren (CONTAINER s 0) = 0" using proc_boot_inv by blast
  have c: "get_curid s = 0" using s(3) by (simp add: get_curid_def)
  obtain s1 where "container_split (get_curid s) ((container_get_quota (get_curid s) s - container_get_usage (get_curid s) s) div 2) s
      = Inr (1, s1)" using first_split[OF s(4)] c by metis
  from fork_both_return[OF s(2) refl this, of tf_zero] c show ?thesis by (auto simp: NUM_IDS_def)
qed


text \<open>A booted machine in which process 1 runs, with no user memory yet.\<close>

lemma spawn_containers:
  assumes "thread_spawn entry pid quota s = Inr (child, t)" "container_split pid quota s = Inr (child, s1)" "child \<noteq> NUM_IDS"
  shows "CONTAINER t = CONTAINER s1"
  using assms
  by (auto simp: thread_spawn_def kctx_new_def alloc_mem_quota_def kctx_set_eip_def kctx_set_esp_def upd_kctx_def tcb_set_state_def
      tqueue_enqueue_def tq_ops rbind_eq_Inr split: if_splits prod.splits)

lemma process_example:
  "\<exists>(s :: proc_state) Q. thread_inv s Q \<and> CURID s = 1 \<and> c_nchildren (CONTAINER s 1) = 0"
proof -
  obtain t where t: "thread_init 0 proc_boot = Inr t" "thread_inv t (\<lambda>_. [])" "CURID t = 0" "c_nchildren (CONTAINER t 0) = 0"
    using proc_boot_inv by blast
  have can: "container_can_consume 0 0 t = 1"
    using t(2) by (simp add: thread_inv_def container_inv_def tree_ok_def container_can_consume_def NUM_IDS_def)
  obtain s1 where s1: "container_split 0 0 t = Inr (1, s1)" using first_split[OF t(4)] by blast
  have ne: "(1 :: u32) \<noteq> NUM_IDS" by (simp add: NUM_IDS_def)
  obtain sp where sp: "thread_spawn 0 0 0 t = Inr (1, sp)" "thread_inv sp ((\<lambda>_. [])(NUM_IDS := [1]))" "CURID sp = 0"
    using spawn_ok[OF t(2) can s1 ne, of 0] t(3) by auto
  have "container_inv t" using t(2) by (simp add: thread_inv_def)
  from container_split_ok[OF this can s1] ne spawn_containers[OF sp(1) s1 ne] have c: "c_nchildren (CONTAINER sp 1) = 0" by auto
  from yield_thread_inv[OF sp(2)] obtain y Q where y: "thread_yield sp = Inr y" "thread_inv y Q"
    "CURID y # Q NUM_IDS = rotate1 (CURID sp # ((\<lambda>_. [])(NUM_IDS := [1])) NUM_IDS)" by blast
  have "sched_inv sp ((\<lambda>_. [])(NUM_IDS := [1]))" using sp(2) by (simp add: thread_inv_def)
  from yield_next[OF this, of 1 "[]"] y(1) have "CONTAINER y = CONTAINER sp" by auto
  then show ?thesis using y(2,3) c by (intro exI[of _ y] exI[of _ Q]) simp
qed


end
