(* ===== verification/DevLine.thy ===== *)
theory DevLine
  imports KPrintf DevCons
begin

text \<open>
  Lines from the console, the rest of \<^verbatim>\<open>kern/dev/console.c\<close>: \<^verbatim>\<open>getchar\<close>, \<^verbatim>\<open>putchar\<close> and the line editor
  \<^verbatim>\<open>readline\<close>, whose buffer \<^verbatim>\<open>linebuf\<close> lies in memory. A \<^verbatim>\<open>char\<close> is signed.
\<close>

section \<open>Operations\<close>

definition BUFLEN :: u32 where "BUFLEN = 1024"

text \<open>With no input the loop runs for ever.\<close>

partial_function (option) getchar :: "devs \<Rightarrow> (u8 \<times> devs) res option" where
  "getchar d = (case cons_getc d of
      Inl e \<Rightarrow> Some (Inl e)
    | Inr (c, d) \<Rightarrow> if c = 0 then getchar d else Some (Inr (c, d)))"

definition putchar :: "u8 \<Rightarrow> 'a machine_scheme \<Rightarrow> 'a machine_scheme" where
  "putchar c s = cons_putc c s"

definition set_linebuf :: "u32 \<Rightarrow> u8 \<Rightarrow> 'a machine_scheme \<Rightarrow> 'a machine_scheme" where
  "set_linebuf i c s = s\<lparr>mem := (mem s)(loc_linebuf (layout s) + i := c)\<rparr>"

text \<open>The loop of \<^verbatim>\<open>readline\<close>; the index stays between 0 and \<^verbatim>\<open>BUFLEN - 1\<close>. The result is a pointer, null on an error.\<close>

partial_function (option) readline_loop :: "i32 \<Rightarrow> 'a machine_scheme \<Rightarrow> (u32 \<times> 'a machine_scheme) res option" where
  "readline_loop i s = Option.bind (getchar (devs s)) (\<lambda>r. case r of
      Inl e \<Rightarrow> Some (Inl e)
    | Inr (c, d) \<Rightarrow>
        let s = s\<lparr>devs := d\<rparr>
        in if sint c < 0
           then Some (rbind (dprintf (chars ''read error: %e'' @ [10]) [scast c] s) (\<lambda>(_, s). Inr (0, s)))
           else if (c = 8 \<or> c = 127) \<and> i > 0 then readline_loop (i - 1) (putchar 8 s)
           else if c \<ge> 32 \<and> i < BUFLEN - 1 then readline_loop (i + 1) (set_linebuf i c (putchar c s))
           else if c = 10 \<or> c = 13
           then Some (Inr (loc_linebuf (layout s), set_linebuf i 0 (putchar 10 s)))
           else readline_loop i s)"

definition readline :: "u32 \<Rightarrow> 'a machine_scheme \<Rightarrow> (u32 \<times> 'a machine_scheme) res" where
  "readline prompt s =
     rbind (if prompt \<noteq> 0 then dprintf (chars ''%s'') [prompt] s else Inr (0, s)) (\<lambda>(_, s).
     case readline_loop 0 s of None \<Rightarrow> Inl Diverges | Some r \<Rightarrow> r)"

section \<open>Input that is already there\<close>

text \<open>Neither the serial line nor the keyboard has a character to deliver.\<close>

definition silent :: "devs \<Rightarrow> bool" where
  "silent d \<longleftrightarrow> (\<forall>n. io_in d n (COM1 + COM_LSR) AND COM_LSR_DATA = 0 \<and> io_in d n KBSTATP AND KBS_DIB = 0)"

text \<open>What reading and echoing leave of the drivers' state.\<close>

definition input_frame :: "devs \<Rightarrow> devs \<Rightarrow> bool" where
  "input_frame d d' \<longleftrightarrow> d' = d\<lparr>io_time := io_time d', io_out := io_out d', crt_pos := crt_pos d', cons_rpos := cons_rpos d'\<rparr>"

lemma input_frame_refl [simp]: "input_frame d d"
  by (simp add: input_frame_def)

lemma input_frame_trans: "input_frame d e \<Longrightarrow> input_frame e f \<Longrightarrow> input_frame d f"
  by (cases d, cases e, cases f) (simp add: input_frame_def)

lemma input_frame_sel:
  assumes "input_frame d d'"
  shows "silent d' = silent d" "crt_buf d' = crt_buf d" "cons_buf d' = cons_buf d" "cons_wpos d' = cons_wpos d"
  using assms by (cases d, cases d', simp add: input_frame_def silent_def)+

lemma cons_getc_silent:
  assumes "silent d"
  shows "\<exists>n. cons_getc d = cons_take (d\<lparr>io_time := n\<rparr>)"
proof -
  have k: "keyboard_intr (d\<lparr>io_time := n\<rparr>) = Inr (d\<lparr>io_time := n + 1\<rparr>)" for n
    using assms unfolding keyboard_intr_def drain_def
    by (subst cons_intr.simps) (simp add: kbd_proc_data_def inb_def silent_def)
  have "\<exists>n. serial_intr d = Inr (d\<lparr>io_time := n\<rparr>)"
  proof (cases "serial_exists d")
    case True
    have "cons_intr serial_proc_data d = Some (Inr (d\<lparr>io_time := io_time d + 1\<rparr>))"
      using assms by (subst cons_intr.simps) (simp add: serial_proc_data_def inb_def silent_def)
    with True show ?thesis by (auto simp: serial_intr_def drain_def)
  next
    case False
    then show ?thesis by (intro exI[of _ "io_time d"]) (simp add: serial_intr_def)
  qed
  with k show ?thesis by (auto simp: cons_getc_def)
qed

lemma getchar_waiting:
  assumes "silent d" "ring_ok d" "pending d = c # cs" "c \<noteq> 0"
  shows "\<exists>d'. getchar d = Some (Inr (c, d')) \<and> ring_ok d' \<and> pending d' = cs \<and> input_frame d d'
    \<and> crt_pos d' = crt_pos d"
proof -
  obtain n where n: "cons_getc d = cons_take (d\<lparr>io_time := n\<rparr>)" using cons_getc_silent[OF assms(1)] by blast
  let ?d = "d\<lparr>io_time := n\<rparr>"
  have "ring_ok ?d" "pending ?d = c # cs" using same_ring[of ?d d] assms(2,3) by simp_all
  from cons_take_ok[OF this] obtain d' where d': "cons_take ?d = Inr (c, d')" "ring_ok d'" "pending d' = cs" by blast
  have "d' = ?d\<lparr>cons_rpos := cons_rpos d'\<rparr>"
    using d'(1) by (auto simp: cons_take_def Let_def split: if_splits)
  then have "input_frame d d' \<and> crt_pos d' = crt_pos d" by (cases d, cases d') (simp add: input_frame_def)
  with n d' assms(4) show ?thesis by (subst getchar.simps) simp
qed

section \<open>A line editor\<close>

text \<open>
  What \<^verbatim>\<open>readline\<close> makes of a sequence of characters: backspace and delete remove the last one, characters
  from the blank on are appended while there is room, newline or return ends the line, a byte from
  128 on is an error, anything else is ignored. A delete on an empty line is a character like any other.
\<close>

definition edit_char :: "u8 list \<Rightarrow> u8 \<Rightarrow> u8 list" where
  "edit_char line c =
     (if (c = 8 \<or> c = 127) \<and> line \<noteq> [] then butlast line
      else if c \<ge> 32 \<and> length line < 1023 then line @ [c] else line)"

datatype edited = Waiting | Failed "u8 list" | Entered "u8 list" "u8 list"

fun edit :: "u8 list \<Rightarrow> u8 list \<Rightarrow> edited" where
  "edit line [] = Waiting"
| "edit line (c # cs) =
     (if c \<ge> 128 then Failed cs else if c = 10 \<or> c = 13 then Entered line cs else edit (edit_char line c) cs)"

text \<open>The characters it echoes.\<close>

definition echo_char :: "u8 list \<Rightarrow> u8 \<Rightarrow> u8 list" where
  "echo_char line c =
     (if (c = 8 \<or> c = 127) \<and> line \<noteq> [] then [8] else if c \<ge> 32 \<and> length line < 1023 then [c] else [])"

fun echo :: "u8 list \<Rightarrow> u8 list \<Rightarrow> u8 list" where
  "echo line [] = []"
| "echo line (c # cs) =
     (if c \<ge> 128 then [] else if c = 10 \<or> c = 13 then [10] else echo_char line c @ echo (edit_char line c) cs)"

definition line_frame :: "'a machine_scheme \<Rightarrow> 'a machine_scheme \<Rightarrow> bool" where
  "line_frame s t \<longleftrightarrow> t = s\<lparr>mem := mem t, devs := devs t\<rparr> \<and> input_frame (devs s) (devs t)
     \<and> (\<forall>a. \<not> a - crt_buf (devs s) < 4000 \<longrightarrow> \<not> a - loc_linebuf (layout s) < BUFLEN \<longrightarrow> mem t a = mem s a)"

lemma line_frame_layout: "line_frame s t \<Longrightarrow> layout t = layout s"
  unfolding line_frame_def by (elim conjE, drule arg_cong[of t _ layout]) simp

lemma line_frame_trans:
  assumes "line_frame s t" "line_frame t u"
  shows "line_frame s u"
proof -
  have "u = s\<lparr>mem := mem u, devs := devs u\<rparr>" using assms unfolding line_frame_def by (cases s, cases t, cases u) simp
  moreover have "crt_buf (devs t) = crt_buf (devs s)" using assms(1) by (simp add: line_frame_def input_frame_sel)
  ultimately show ?thesis using assms line_frame_layout[OF assms(1)] input_frame_trans unfolding line_frame_def by simp blast
qed

lemma line_frame_display: "display_frame s t \<Longrightarrow> line_frame s t"
  by (cases "devs s", cases "devs t") (simp add: display_frame_def line_frame_def input_frame_def)

lemma line_frame_devs: "input_frame (devs s) d \<Longrightarrow> line_frame s (s\<lparr>devs := d\<rparr>)"
  by (simp add: line_frame_def)

lemma line_frame_set: "i < BUFLEN \<Longrightarrow> line_frame s (set_linebuf i c s)"
  by (simp add: line_frame_def set_linebuf_def)

text \<open>The buffer does not lie in the memory of the display.\<close>

definition linebuf_off :: "'a machine_scheme \<Rightarrow> bool" where
  "linebuf_off s \<longleftrightarrow> (\<forall>a. a - loc_linebuf (layout s) < BUFLEN \<longrightarrow> \<not> a - crt_buf (devs s) < 4000)"

lemma sint_char: "sint (c :: u8) < 0 \<longleftrightarrow> c \<ge> 128"
proof -
  have "unat c < 256" using unsigned_less[of c, where ?'a = nat] by simp
  then have "unat c div 128 = (if unat c < 128 then 0 else 1)" by (auto intro: div_nat_eqI)
  then have "odd (unat c div 128) \<longleftrightarrow> 128 \<le> unat c" by (simp only:) simp
  moreover have "bit c 7 \<longleftrightarrow> odd (unat c div 128)"
    using bit_iff_odd[of "unat c" 7] by (simp add: bit_unsigned_iff)
  ultimately show ?thesis using bit_last_iff[of c] by (simp add: word_le_nat_alt)
qed

lemma line_frame_sel:
  assumes "line_frame s t"
  shows "crt_buf (devs t) = crt_buf (devs s)" "silent (devs t) = silent (devs s)" "linebuf_off t = linebuf_off s"
proof -
  have "input_frame (devs s) (devs t)" using assms by (simp add: line_frame_def)
  then show b: "crt_buf (devs t) = crt_buf (devs s)" "silent (devs t) = silent (devs s)" by (simp_all add: input_frame_sel)
  show "linebuf_off t = linebuf_off s" using b line_frame_layout[OF assms] by (simp add: linebuf_off_def)
qed

text \<open>The state in the loop: the characters that wait and the line so far.\<close>

definition editing :: "u8 list \<Rightarrow> u8 list \<Rightarrow> 'a machine_scheme \<Rightarrow> bool" where
  "editing line cs s \<longleftrightarrow> on_screen s \<and> silent (devs s) \<and> ring_ok (devs s) \<and> pending (devs s) = cs
     \<and> linebuf_off s \<and> length line \<le> 1023
     \<and> (\<forall>k<length line. mem s (loc_linebuf (layout s) + word_of_nat k) = line ! k)"

lemma linebuf_index: "k \<le> 1023 \<Longrightarrow> (word_of_nat k :: u32) < BUFLEN" "k \<le> 1023 \<Longrightarrow> unat (word_of_nat k :: u32) = k"
  by (simp_all add: BUFLEN_def word_less_nat_alt unat_u32)

lemma screen_set_linebuf:
  assumes "on_screen s" "linebuf_off s" "i < BUFLEN"
  shows "screen (set_linebuf i c s) = screen s"
proof -
  have "cellv (set_linebuf i c s) k = cellv s k" if "k < 2000" for k
  proof -
    let ?b = "crt_buf (devs s)"
    have "\<not> loc_linebuf (layout s) + i - ?b < 4000" using assms(2,3) by (simp add: linebuf_off_def)
    moreover have "cell ?b k - ?b < 4000" "cell ?b k + 1 - ?b < 4000"
      using that by (simp_all add: cell_def word_less_nat_alt unat_u32 unat_word_ariths)
    ultimately have "cell ?b k \<noteq> loc_linebuf (layout s) + i" "cell ?b k + 1 \<noteq> loc_linebuf (layout s) + i" by auto
    then show ?thesis by (simp add: cellv_def set_linebuf_def load16_def)
  qed
  then show ?thesis by (simp add: screen_def set_linebuf_def del: upt_rec_numeral)
qed

lemma display_frame_ring:
  assumes "display_frame s t"
  shows "ring_ok (devs t) = ring_ok (devs s)" "pending (devs t) = pending (devs s)"
proof -
  have d: "devs t = (devs s)\<lparr>io_time := io_time (devs t), io_out := io_out (devs t), crt_pos := crt_pos (devs t)\<rparr>"
    using assms by (simp add: display_frame_def)
  show "ring_ok (devs t) = ring_ok (devs s)" "pending (devs t) = pending (devs s)" by (subst d, rule same_ring, simp_all)+
qed

lemma editing_putchar:
  assumes "editing line cs s"
  shows "editing line cs (putchar c s)" "line_frame s (putchar c s)"
    "screen (putchar c s) = scr_putc (scast c) (screen s)"
proof -
  have os: "on_screen s" using assms by (simp add: editing_def)
  note p = cons_putc_ok[OF os, of c, folded putchar_def]
  show f: "line_frame s (putchar c s)" by (rule line_frame_display[OF p(2)])
  have "mem (putchar c s) (loc_linebuf (layout s) + word_of_nat k) = mem s (loc_linebuf (layout s) + word_of_nat k)"
    if "k < length line" for k
  proof -
    have "(word_of_nat k :: u32) < BUFLEN" using that assms linebuf_index(1)[of k] by (simp add: editing_def)
    then show ?thesis using p(2) assms by (simp add: display_frame_def editing_def linebuf_off_def)
  qed
  then show "editing line cs (putchar c s)"
    using assms p(3) display_frame_ring[OF p(2)] line_frame_sel[OF f] line_frame_layout[OF f] by (simp add: editing_def)
  show "screen (putchar c s) = scr_putc (scast c) (screen s)" by (rule p(1))
qed

lemma editing_store:
  assumes "editing line cs s" "length line < 1023"
  shows "editing (line @ [c]) cs (set_linebuf (word_of_nat (length line)) c s)"
proof -
  have "word_of_nat k \<noteq> (word_of_nat (length line) :: u32)" if "k < length line" for k
    using that assms(2) linebuf_index(2)[of k] linebuf_index(2)[of "length line"] by auto
  then show ?thesis using assms by (auto simp: editing_def set_linebuf_def on_screen_def linebuf_off_def nth_append less_Suc_eq)
qed

lemma editing_shorter: "editing line cs s \<Longrightarrow> editing (butlast line) cs s"
  by (auto simp: editing_def nth_butlast)

lemma editing_getchar:
  assumes "editing line (c # cs) s" "c \<noteq> 0"
  shows "\<exists>d. getchar (devs s) = Some (Inr (c, d)) \<and> editing line cs (s\<lparr>devs := d\<rparr>) \<and> line_frame s (s\<lparr>devs := d\<rparr>)
    \<and> screen (s\<lparr>devs := d\<rparr>) = screen s"
proof -
  obtain d where d: "getchar (devs s) = Some (Inr (c, d))" "ring_ok d" "pending d = cs" "input_frame (devs s) d"
    "crt_pos d = crt_pos (devs s)" using getchar_waiting[of "devs s" c cs] assms by (auto simp: editing_def)
  have f: "line_frame s (s\<lparr>devs := d\<rparr>)" by (rule line_frame_devs[OF d(4)])
  have "cellv (s\<lparr>devs := d\<rparr>) = cellv s" using cellv_cong[of "s\<lparr>devs := d\<rparr>" s] line_frame_sel(1)[OF f] by simp
  then have "screen (s\<lparr>devs := d\<rparr>) = screen s" using d(5) by (simp add: screen_def)
  moreover have "editing line cs (s\<lparr>devs := d\<rparr>)"
    using assms(1) d(2,3,5) line_frame_sel[OF f] by (simp add: editing_def on_screen_def)
  ultimately show ?thesis using d(1) f by blast
qed

lemma readline_loop_char:
  assumes "editing line (c # cs) s" "c \<noteq> 0" "\<not> c \<ge> 128" "c \<noteq> 10" "c \<noteq> 13"
  shows "\<exists>u. readline_loop (word_of_nat (length line)) s = readline_loop (word_of_nat (length (edit_char line c))) u
    \<and> line_frame s u \<and> editing (edit_char line c) cs u
    \<and> screen u = fold (\<lambda>c. scr_putc (scast c)) (echo_char line c) (screen s)"
proof -
  obtain d where d: "getchar (devs s) = Some (Inr (c, d))" "editing line cs (s\<lparr>devs := d\<rparr>)" "line_frame s (s\<lparr>devs := d\<rparr>)"
    "screen (s\<lparr>devs := d\<rparr>) = screen s" using editing_getchar[OF assms(1,2)] by auto
  let ?s = "s\<lparr>devs := d\<rparr>" and ?i = "word_of_nat (length line) :: u32"
  have len: "length line \<le> 1023" using d(2) by (simp add: editing_def)
  note idx = linebuf_index[OF len]
  have i: "?i > 0 \<longleftrightarrow> line \<noteq> []" "?i < BUFLEN - 1 \<longleftrightarrow> length line < 1023"
    using idx(2) by (auto simp: BUFLEN_def word_less_nat_alt)
  note loop = d(1) assms(3-5) sint_char[of c] i
  consider (erase) "c = 8 \<or> c = 127" "line \<noteq> []"
    | (char) "\<not> ((c = 8 \<or> c = 127) \<and> line \<noteq> [])" "c \<ge> 32" "length line < 1023"
    | (other) "\<not> ((c = 8 \<or> c = 127) \<and> line \<noteq> [])" "\<not> (c \<ge> 32 \<and> length line < 1023)" by blast
  then show ?thesis
  proof cases
    case erase
    note p = editing_putchar[OF d(2), of 8]
    have k: "?i - 1 = word_of_nat (length (butlast line))" using erase(2) by (cases line rule: rev_cases) simp_all
    have "readline_loop ?i s = readline_loop (word_of_nat (length (butlast line))) (putchar 8 ?s)"
      using loop erase k by (subst readline_loop.simps) simp
    then show ?thesis using erase p d(4) editing_shorter[OF p(1)] line_frame_trans[OF d(3) p(2)]
      by (intro exI[of _ "putchar 8 ?s"]) (simp add: edit_char_def echo_char_def)
  next
    case char
    note p = editing_putchar[OF d(2), of c]
    let ?u = "set_linebuf ?i c (putchar c ?s)"
    have "readline_loop ?i s = readline_loop (word_of_nat (length (line @ [c]))) ?u"
      using loop char by (subst readline_loop.simps) (auto simp: Let_def add.commute)
    moreover have "screen ?u = screen (putchar c ?s)" using p(1) idx(1) by (intro screen_set_linebuf) (simp_all add: editing_def)
    moreover have "line_frame s ?u" by (rule line_frame_trans[OF d(3) line_frame_trans[OF p(2) line_frame_set[OF idx(1)]]])
    ultimately show ?thesis using char p d(4) editing_store[OF p(1) char(3), of c]
      by (intro exI[of _ ?u]) (auto simp: edit_char_def echo_char_def)
  next
    case other
    have "readline_loop ?i s = readline_loop ?i ?s" using loop other by (subst readline_loop.simps) (auto simp: Let_def)
    then show ?thesis using other d by (intro exI[of _ ?s]) (auto simp: edit_char_def echo_char_def)
  qed
qed

lemma readline_loop_end:
  assumes "editing line (c # cs) s" "c = 10 \<or> c = 13" "0 \<notin> set line"
  shows "\<exists>t. readline_loop (word_of_nat (length line)) s = Some (Inr (loc_linebuf (layout s), t)) \<and> line_frame s t
    \<and> editing line cs t \<and> str_at (mem t) (loc_linebuf (layout s)) line \<and> screen t = scr_putc 10 (screen s)"
proof -
  obtain d where d: "getchar (devs s) = Some (Inr (c, d))" "editing line cs (s\<lparr>devs := d\<rparr>)" "line_frame s (s\<lparr>devs := d\<rparr>)"
    "screen (s\<lparr>devs := d\<rparr>) = screen s" using editing_getchar[OF assms(1)] assms(2) by auto
  let ?s = "s\<lparr>devs := d\<rparr>" and ?i = "word_of_nat (length line) :: u32"
  let ?u = "set_linebuf ?i 0 (putchar 10 ?s)"
  have len: "length line \<le> 1023" using d(2) by (simp add: editing_def)
  note idx = linebuf_index[OF len] and p = editing_putchar[OF d(2), of 10]
  have f: "line_frame s ?u" by (rule line_frame_trans[OF d(3) line_frame_trans[OF p(2) line_frame_set[OF idx(1)]]])
  have sc: "screen ?u = screen (putchar 10 ?s)" using p(1) idx(1) by (intro screen_set_linebuf) (simp_all add: editing_def)
  have "word_of_nat k \<noteq> ?i" if "k < length line" for k using that idx(2) linebuf_index(2)[of k] len by auto
  then have e: "editing line cs ?u" using p(1) by (simp add: editing_def set_linebuf_def on_screen_def linebuf_off_def)
  have "layout (putchar 10 ?s) = layout s" using line_frame_layout[OF p(2)] by simp
  then have "str_at (mem ?u) (loc_linebuf (layout s)) line"
    using e assms(3) by (intro str_at_take) (auto simp: editing_def set_linebuf_def)
  moreover have "readline_loop ?i s = Some (Inr (loc_linebuf (layout s), ?u))"
    using d(1) assms(2) sint_char[of c] by (subst readline_loop.simps) (auto simp: Let_def)
  ultimately show ?thesis using f e sc p(3) d(4) by auto
qed

lemma readline_loop_edits:
  assumes "editing line cs s" "0 \<notin> set cs" "0 \<notin> set line" "edit line cs = Entered l rest"
  shows "\<exists>t. readline_loop (word_of_nat (length line)) s = Some (Inr (loc_linebuf (layout s), t)) \<and> line_frame s t
    \<and> editing l rest t \<and> str_at (mem t) (loc_linebuf (layout s)) l
    \<and> screen t = fold (\<lambda>c. scr_putc (scast c)) (echo line cs) (screen s)"
  using assms
proof (induction line cs arbitrary: s rule: edit.induct)
  case (2 line c cs)
  have lo: "\<not> c \<ge> 128" "c \<noteq> 0" using "2.prems" by auto
  show ?case
  proof (cases "c = 10 \<or> c = 13")
    case True
    with readline_loop_end[OF "2.prems"(1) True "2.prems"(3)] "2.prems"(4) lo show ?thesis by auto
  next
    case False
    obtain u where u: "readline_loop (word_of_nat (length line)) s = readline_loop (word_of_nat (length (edit_char line c))) u"
      "line_frame s u" "editing (edit_char line c) cs u"
      "screen u = fold (\<lambda>c. scr_putc (scast c)) (echo_char line c) (screen s)"
      using readline_loop_char[OF "2.prems"(1) lo(2,1)] False by auto
    have "0 \<notin> set (edit_char line c)" using "2.prems"(3) lo(2) by (auto simp: edit_char_def dest: in_set_butlastD)
    with "2.IH"[OF lo(1) False u(3)] "2.prems"(2,4) lo(1) False obtain t where
      t: "readline_loop (word_of_nat (length (edit_char line c))) u = Some (Inr (loc_linebuf (layout u), t))" "line_frame u t"
      "editing l rest t" "str_at (mem t) (loc_linebuf (layout u)) l"
      "screen t = fold (\<lambda>c. scr_putc (scast c)) (echo (edit_char line c) cs) (screen u)" by auto
    then show ?thesis using u line_frame_layout[OF u(2)] line_frame_trans[OF u(2) t(2)] lo(1) False by auto
  qed
qed simp

section \<open>Lines from the console\<close>

lemma editing_prints:
  "editing line cs s \<Longrightarrow> editing line cs (fold cons_putc out s) \<and> line_frame s (fold cons_putc out s)
     \<and> screen (fold cons_putc out s) = fold (\<lambda>c. scr_putc (scast c)) out (screen s)"
proof (induction out arbitrary: s)
  case Nil
  then show ?case by (simp add: line_frame_display)
next
  case (Cons c out)
  note p = editing_putchar[OF Cons.prems, of c, unfolded putchar_def]
  show ?case using Cons.IH[OF p(1)] p line_frame_trans[OF p(2)] by auto
qed

lemma editing_start:
  "on_screen s \<Longrightarrow> linebuf_off s \<Longrightarrow> silent (devs s) \<Longrightarrow> ring_ok (devs s) \<Longrightarrow> editing [] (pending (devs s)) s"
  by (simp add: editing_def)

lemma readline_line:
  assumes "editing [] cs s" "0 \<notin> set cs" "prompt \<noteq> 0" "str_at (mem s) prompt ps" "edit [] cs = Entered line rest"
  shows "\<exists>t. readline prompt s = Inr (loc_linebuf (layout s), t) \<and> line_frame s t \<and> editing line rest t
    \<and> str_at (mem t) (loc_linebuf (layout s)) line
    \<and> screen t = fold (\<lambda>c. scr_putc (scast c)) (ps @ echo [] cs) (screen s)"
proof -
  let ?u = "fold cons_putc ps s"
  have "vprintfmt (mem s) (chars ''%s'') [prompt] = Inr ps"
    using vprintfmt_string[OF assms(3)] assms(4) by (simp add: cstring_str_at)
  from vdprintf_direct[OF this str_at_nonzero[OF assms(4)]]
  have d: "dprintf (chars ''%s'') [prompt] s = Inr (length ps, ?u)" by (simp add: dprintf_def)
  note u = editing_prints[OF assms(1), of ps]
  have ly: "layout ?u = layout s" using u line_frame_layout by blast
  obtain t where t: "readline_loop (word_of_nat (length ([] :: u8 list))) ?u = Some (Inr (loc_linebuf (layout ?u), t))"
    "line_frame ?u t" "editing line rest t" "str_at (mem t) (loc_linebuf (layout ?u)) line"
    "screen t = fold (\<lambda>c. scr_putc (scast c)) (echo [] cs) (screen ?u)"
    using readline_loop_edits[OF _ assms(2) _ assms(5), of ?u] u by auto
  then show ?thesis using assms(3) d u ly line_frame_trans[of s ?u t] by (simp add: readline_def)
qed

text \<open>
  C23: \<^verbatim>\<open>readline\<close> is a line editor. When the characters that wait in the console's queue contain a whole
  line and the devices are silent, \<^verbatim>\<open>readline\<close> returns the buffer with exactly the line that editing
  them gives (erasing with backspace or delete, at most 1023 characters), terminated by a 0, leaves the
  characters behind the line in the queue, and prints the prompt and the echo of what was typed;
  nothing else changes but the traffic on the ports and the queue's read position.
\<close>

theorem readline_edits:
  assumes "on_screen s" "linebuf_off s" "silent (devs s)" "ring_ok (devs s)" "0 \<notin> set (pending (devs s))"
    "prompt \<noteq> 0" "str_at (mem s) prompt ps" "edit [] (pending (devs s)) = Entered line rest"
  shows "\<exists>t. readline prompt s = Inr (loc_linebuf (layout s), t)
    \<and> str_at (mem t) (loc_linebuf (layout s)) line \<and> length line \<le> 1023 \<and> pending (devs t) = rest
    \<and> screen t = fold (\<lambda>c. scr_putc (scast c)) (ps @ echo [] (pending (devs s))) (screen s) \<and> line_frame s t"
  using readline_line[OF editing_start[OF assms(1-4)] assms(5-8)] by (auto simp: editing_def)

text \<open>A machine on which \<^verbatim>\<open>hi\<close>, a backspace, \<^verbatim>\<open>o\<close> and a return have been typed.\<close>

definition typed :: "u8 list \<Rightarrow> 'a machine_scheme \<Rightarrow> 'a machine_scheme" where
  "typed cs s = s\<lparr>devs := (devs s)\<lparr>io_in := (\<lambda>_ _. 0), cons_rpos := 0, cons_wpos := word_of_nat (length cs),
     cons_buf := (\<lambda>i. if unat i < length cs then cs ! unat i else 0)\<rparr>\<rparr>"

lemma typed_waits:
  assumes "length cs < 512"
  shows "silent (devs (typed cs s))" "ring_ok (devs (typed cs s))" "pending (devs (typed cs s)) = cs"
proof -
  have u: "unat (word_of_nat (length cs) :: u32) = length cs" using assms by (intro unat_u32) simp
  show "silent (devs (typed cs s))" by (simp add: silent_def typed_def)
  show "ring_ok (devs (typed cs s))" using u assms by (simp add: ring_ok_def typed_def CONSOLE_BUFFER_SIZE_def word_less_nat_alt)
  have "pending (devs (typed cs s)) = map (\<lambda>i. cs ! i) [0..<length cs]"
    using u assms unat_u32 by (auto simp: pending_def npending_def typed_def ring_at_def)
  then show "pending (devs (typed cs s)) = cs" by (simp add: map_nth)
qed

theorem readline_edits_witness:
  "\<exists>t. readline 0x120000 (typed [104, 105, 8, 111, 13, 120] (video_example\<lparr>mem := (\<lambda>_. 0)(0x120000 := 36)\<rparr>)) = Inr (0x1B0000, t)
     \<and> str_at (mem t) 0x1B0000 [104, 111] \<and> pending (devs t) = [120]"
proof -
  let ?s = "typed [104, 105, 8, 111, 13, 120] (video_example\<lparr>mem := (\<lambda>_. 0)(0x120000 := 36)\<rparr>)"
  have l: "layout ?s = layout_example" "mem ?s = (\<lambda>_. 0)(0x120000 := 36)" "crt_buf (devs ?s) = 0xB8000" "crt_pos (devs ?s) = 1999"
    by (simp_all add: typed_def video_example_def machine_example_def CGA_BUF_def)
  have lb: "loc_linebuf layout_example = 0x1B0000" by (simp add: layout_example_def)
  note w = typed_waits[of "[104, 105, 8, 111, 13, 120]" "video_example\<lparr>mem := (\<lambda>_. 0)(0x120000 := 36)\<rparr>"]
  have o: "on_screen ?s" using l by (simp add: on_screen_def in_space_def video_consts)
  have off: "linebuf_off ?s" unfolding linebuf_off_def l lb BUFLEN_def
  proof (intro allI impI)
    fix a :: u32 assume "a - 0x1B0000 < 1024"
    then show "\<not> a - 0xB8000 < 4000"
      by (simp add: word_less_nat_alt unat_sub_if_size word_size split: if_splits)
  qed
  have e: "edit [] (pending (devs ?s)) = Entered [104, 111] [120]" using w(3) by (simp add: edit_char_def)
  have "str_at (mem ?s) 0x120000 [36]" using l(2) by simp
  from readline_edits[OF o off w(1,2) _ _ this e] w(3) l(1) lb show ?thesis by simp blast
qed

end
