(* ===== verification/KMonitor.thy ===== *)
theory KMonitor
  imports PProc DevLine
begin

text \<open>
  The kernel monitor and start-up: \<^verbatim>\<open>kern/lib/monitor.c\<close>, \<^verbatim>\<open>kern/init/init.c\<close> and the messages of
  \<^verbatim>\<open>kern/lib/debug.c\<close>. String constants lie in memory at the addresses \<^const>\<open>loc_lit\<close>. The commands ignore
  their arguments and the trap frame, which are left out; a frame pointer is read from \<^const>\<open>cpu\<close>.
\<close>

section \<open>Messages (\<^verbatim>\<open>debug.c\<close>)\<close>

definition debug_normal :: "u32 \<Rightarrow> i32 \<Rightarrow> u8 list \<Rightarrow> u32 list \<Rightarrow> 'a machine_scheme \<Rightarrow> 'a machine_scheme res" where
  "debug_normal file line fmt ap s =
     rbind (dprintf (chars ''[D] %s:%d: '') [file, line] s) (\<lambda>(_, s).
     rbind (vdprintf fmt ap s) (\<lambda>(_, s). Inr s))"

definition debug_warn :: "u32 \<Rightarrow> i32 \<Rightarrow> u8 list \<Rightarrow> u32 list \<Rightarrow> 'a machine_scheme \<Rightarrow> 'a machine_scheme res" where
  "debug_warn file line fmt ap s =
     rbind (dprintf (chars ''[W] %s:%d: '') [file, line] s) (\<lambda>(_, s).
     rbind (vdprintf fmt ap s) (\<lambda>(_, s). Inr s))"

text \<open>The return addresses of the frames from \<open>frame\<close> on, 0 beyond the last.\<close>

fun debug_frames :: "nat \<Rightarrow> u32 \<Rightarrow> memory \<Rightarrow> u32 list" where
  "debug_frames 0 frame m = []"
| "debug_frames (Suc n) frame m =
     (if frame \<noteq> 0 then load32 m (frame + 4) # debug_frames n (load32 m frame) m else 0 # debug_frames n 0 m)"

definition debug_trace :: "u32 \<Rightarrow> memory \<Rightarrow> u32 list" where
  "debug_trace ebp m = debug_frames 10 ebp m"

fun print_trace :: "u32 list \<Rightarrow> 'a machine_scheme \<Rightarrow> 'a machine_scheme res" where
  "print_trace [] s = Inr s"
| "print_trace (eip # eips) s =
     (if eip \<noteq> 0 then rbind (dprintf ([9] @ chars ''from 0x%08x'' @ [10]) [eip] s) (\<lambda>(_, s). print_trace eips s)
      else Inr s)"

text \<open>The state in which \<^verbatim>\<open>debug_panic\<close> halts the processor.\<close>

definition debug_panic :: "u32 \<Rightarrow> i32 \<Rightarrow> u8 list \<Rightarrow> u32 list \<Rightarrow> 'a kctx_state_scheme \<Rightarrow> 'a kctx_state_scheme res" where
  "debug_panic file line fmt ap s =
     rbind (dprintf (chars ''[P] %s:%d: '') [file, line] s) (\<lambda>(_, s).
     rbind (vdprintf fmt ap s) (\<lambda>(_, s).
     rbind (print_trace (debug_trace (kc_ebp (cpu s)) (mem s)) s) (\<lambda>s.
     rbind (dprintf (chars ''Kernel Panic !!!'' @ [10]) [] s) (\<lambda>(_, s). Inr s))))"

section \<open>Commands\<close>

datatype command = Help | Kerninfo | Backtrace | Startuser

record Command =
  cmd_name :: string
  cmd_desc :: string
  cmd_func :: command

definition commands :: "Command list" where
  "commands =
     [\<lparr>cmd_name = ''help'', cmd_desc = ''Display this list of commands'', cmd_func = Help\<rparr>,
      \<lparr>cmd_name = ''kerninfo'', cmd_desc = ''Display information about the kernel'', cmd_func = Kerninfo\<rparr>,
      \<lparr>cmd_name = ''backtrace'', cmd_desc = ''Display the stack about the kernel'', cmd_func = Backtrace\<rparr>,
      \<lparr>cmd_name = ''startuser'', cmd_desc = ''Start the user idle process'', cmd_func = Startuser\<rparr>]"

fun help_lines :: "Command list \<Rightarrow> 'a machine_scheme \<Rightarrow> 'a machine_scheme res" where
  "help_lines [] s = Inr s"
| "help_lines (c # cs) s =
     rbind (dprintf (chars ''%s - %s'' @ [10]) [loc_lit (layout s) (cmd_name c), loc_lit (layout s) (cmd_desc c)] s)
       (\<lambda>(_, s). help_lines cs s)"

definition mon_help :: "'a machine_scheme \<Rightarrow> 'a machine_scheme res" where
  "mon_help s = help_lines commands s"

text \<open>The end of the kernel lies behind its start, so that the difference is not negative.\<close>

definition mon_kerninfo :: "'a machine_scheme \<Rightarrow> 'a machine_scheme res" where
  "mon_kerninfo s =
     (let l = layout s
      in rbind (dprintf (chars ''Special kernel symbols:'' @ [10]) [] s) (\<lambda>(_, s).
         rbind (dprintf (chars ''  start  %08x'' @ [10]) [loc_start l] s) (\<lambda>(_, s).
         rbind (dprintf (chars ''  etext  %08x'' @ [10]) [loc_etext l] s) (\<lambda>(_, s).
         rbind (dprintf (chars ''  edata  %08x'' @ [10]) [loc_edata l] s) (\<lambda>(_, s).
         rbind (dprintf (chars ''  end    %08x'' @ [10]) [loc_end l] s) (\<lambda>(_, s).
         rbind (dprintf (chars ''Kernel executable memory footprint: %dKB'' @ [10])
             [roundup (loc_end l - loc_start l) 1024 div 1024] s) (\<lambda>(_, s). Inr s)))))))"

text \<open>The arguments of a frame: the words \<^verbatim>\<open>p_ebp[i]\<close> for \<open>i\<close> below 7.\<close>

function backtrace_args :: "u32 \<Rightarrow> u32 \<Rightarrow> 'a machine_scheme \<Rightarrow> 'a machine_scheme res" where
  "backtrace_args i ebp s =
     (if i < 7
      then rbind (dprintf (chars '' %08x'') [load32 (mem s) (ebp + 4 * i)] s) (\<lambda>(_, s). backtrace_args (i + 1) ebp s)
      else Inr s)"
  by pat_completeness auto
termination
  by (relation "measure (\<lambda>(i, ebp, s). unat (7 - i))") (auto simp: word_count_down[of _ 7, simplified])

declare backtrace_args.simps [simp del]

partial_function (option) backtrace_loop :: "u32 \<Rightarrow> 'a machine_scheme \<Rightarrow> 'a machine_scheme res option" where
  "backtrace_loop ebp s =
     (if ebp \<noteq> 0
      then (case rbind (dprintf (chars ''  ebp %08x'') [ebp] s) (\<lambda>(_, s).
                 rbind (dprintf (chars ''  eip %08x'') [load32 (mem s) (ebp + 4)] s) (\<lambda>(_, s).
                 rbind (dprintf (chars ''  args'') [] s) (\<lambda>(_, s).
                 rbind (backtrace_args 2 ebp s) (\<lambda>s.
                 rbind (dprintf [10] [] s) (\<lambda>(_, s). Inr s))))) of
              Inl e \<Rightarrow> Some (Inl e)
            | Inr s \<Rightarrow> backtrace_loop (load32 (mem s) ebp) s)
      else Some (Inr s))"

definition mon_backtrace :: "'a kctx_state_scheme \<Rightarrow> 'a kctx_state_scheme res" where
  "mon_backtrace s =
     rbind (dprintf (chars ''Stack backtrace:'' @ [10]) [] s) (\<lambda>(_, s).
     case backtrace_loop (kc_ebp (cpu s)) s of None \<Rightarrow> Inl Diverges | Some r \<Rightarrow> r)"

text \<open>
  The state right after the switch to the new process, whose kernel context the processor now runs.
  The panic behind the switch is reached only if another thread switches back to thread 0.
\<close>

definition mon_start_user :: "'a proc_state_scheme \<Rightarrow> 'a proc_state_scheme res" where
  "mon_start_user s =
     rbind (proc_create (loc_elf (layout s) 0) 10000 s) (\<lambda>(idle_pid, s).
     rbind (debug_normal (loc_lit (layout s) ''kern/lib/monitor.c'') 94
         (chars ''process idle %d is created.'' @ [10]) [idle_pid] s) (\<lambda>s.
     rbind (debug_info (chars ''Start user-space ... '' @ [10]) [] s) (\<lambda>s.
     rbind (tqueue_remove NUM_IDS idle_pid s) (\<lambda>s.
     rbind (tcb_set_state idle_pid TSTATE_RUN s) (\<lambda>s.
     kctx_switch 0 idle_pid (set_curid idle_pid s))))))"

section \<open>The command interpreter\<close>

definition MAXARGS :: nat where "MAXARGS = 16"

definition WHITESPACE :: string where "WHITESPACE = [CHR 0x09, CHR 0x0D, CHR 0x0A, CHR 0x20]"

text \<open>The two inner loops; \<open>ws\<close> is the address of the string \<^const>\<open>WHITESPACE\<close>.\<close>

partial_function (option) gobble :: "u32 \<Rightarrow> u32 \<Rightarrow> memory \<Rightarrow> (u32 \<times> memory) option" where
  "gobble ws buf m =
     (if m buf \<noteq> 0
      then Option.bind (strchr ws (m buf) m) (\<lambda>p. if p \<noteq> 0 then gobble ws (buf + 1) (m(buf := 0)) else Some (buf, m))
      else Some (buf, m))"

partial_function (option) scan_arg :: "u32 \<Rightarrow> u32 \<Rightarrow> memory \<Rightarrow> u32 option" where
  "scan_arg ws buf m =
     (if m buf \<noteq> 0
      then Option.bind (strchr ws (m buf) m) (\<lambda>p. if p = 0 then scan_arg ws (buf + 1) m else Some buf)
      else Some buf)"

text \<open>The loop that splits the line: the arguments, or \<^const>\<open>None\<close> if they are too many.\<close>

partial_function (option) parse_args :: "u32 \<Rightarrow> u32 \<Rightarrow> u32 list \<Rightarrow> memory \<Rightarrow> (u32 list option \<times> memory) option" where
  "parse_args ws buf argv m =
     Option.bind (gobble ws buf m) (\<lambda>(buf, m).
     if m buf = 0 then Some (Some argv, m)
     else if length argv = MAXARGS - 1 then Some (None, m)
     else Option.bind (scan_arg ws buf m) (\<lambda>next. parse_args ws next (argv @ [buf]) m))"

text \<open>What a command leads to: it returns a number, or the processor runs another thread.\<close>

datatype 'a outcome = Returned i32 'a | Switched 'a

definition run_command :: "command \<Rightarrow> 'a proc_state_scheme \<Rightarrow> 'a proc_state_scheme outcome res" where
  "run_command c s = (case c of
      Help \<Rightarrow> rbind (mon_help s) (\<lambda>s. Inr (Returned 0 s))
    | Kerninfo \<Rightarrow> rbind (mon_kerninfo s) (\<lambda>s. Inr (Returned 0 s))
    | Backtrace \<Rightarrow> rbind (mon_backtrace s) (\<lambda>s. Inr (Returned 0 s))
    | Startuser \<Rightarrow> rbind (mon_start_user s) (\<lambda>s. Inr (Switched s)))"

fun find_command :: "Command list \<Rightarrow> u32 \<Rightarrow> 'a machine_scheme \<Rightarrow> command option option" where
  "find_command [] arg s = Some None"
| "find_command (c # cs) arg s =
     Option.bind (strcmp arg (loc_lit (layout s) (cmd_name c)) (mem s)) (\<lambda>d.
     if d = 0 then Some (Some (cmd_func c)) else find_command cs arg s)"

definition runcmd :: "u32 \<Rightarrow> 'a proc_state_scheme \<Rightarrow> 'a proc_state_scheme outcome res" where
  "runcmd buf s =
     (case parse_args (loc_lit (layout s) WHITESPACE) buf [] (mem s) of
        None \<Rightarrow> Inl Diverges
      | Some (None, m) \<Rightarrow>
          rbind (dprintf (chars ''Too many arguments (max %d)'' @ [10]) [word_of_nat MAXARGS] (s\<lparr>mem := m\<rparr>))
            (\<lambda>(_, s). Inr (Returned 0 s))
      | Some (Some argv, m) \<Rightarrow>
          let s = s\<lparr>mem := m\<rparr>
          in (case argv of
                [] \<Rightarrow> Inr (Returned 0 s)
              | arg # _ \<Rightarrow> (case find_command commands arg s of
                    None \<Rightarrow> Inl Diverges
                  | Some (Some c) \<Rightarrow> run_command c s
                  | Some None \<Rightarrow> rbind (dprintf (chars ''Unknown command '' @ [39] @ chars ''%s'' @ [39, 10]) [arg] s)
                      (\<lambda>(_, s). Inr (Returned 0 s)))))"

partial_function (option) monitor_loop :: "'a proc_state_scheme \<Rightarrow> 'a proc_state_scheme outcome res option" where
  "monitor_loop s = (case readline (loc_lit (layout s) ''$> '') s of
      Inl e \<Rightarrow> Some (Inl e)
    | Inr (buf, s) \<Rightarrow>
        if buf \<noteq> 0
        then (case runcmd buf s of
                Inl e \<Rightarrow> Some (Inl e)
              | Inr r \<Rightarrow> (case r of
                    Switched s \<Rightarrow> Some (Inr (Switched s))
                  | Returned v s \<Rightarrow> if sint v < 0 then Some (Inr (Returned v s)) else monitor_loop s))
        else monitor_loop s)"

definition monitor :: "'a proc_state_scheme \<Rightarrow> 'a proc_state_scheme outcome res" where
  "monitor s =
     (let stars = [10] @ chars ''****************************************'' @ [10, 10]
      in rbind (dprintf stars [] s) (\<lambda>(_, s).
         rbind (dprintf (chars ''Welcome to the mCertiKOS kernel monitor!'' @ [10]) [] s) (\<lambda>(_, s).
         rbind (dprintf stars [] s) (\<lambda>(_, s).
         rbind (dprintf (chars ''Type '' @ [39] @ chars ''help'' @ [39] @ chars '' for a list of commands.'' @ [10]) [] s) (\<lambda>(_, s).
         case monitor_loop s of None \<Rightarrow> Inl Diverges | Some r \<Rightarrow> r)))))"

section \<open>Start-up (\<^verbatim>\<open>init.c\<close>)\<close>

text \<open>\<^verbatim>\<open>TEST\<close> is not defined.\<close>

definition kern_main :: "'a proc_state_scheme \<Rightarrow> 'a proc_state_scheme outcome res" where
  "kern_main s =
     rbind (debug_normal (loc_lit (layout s) ''kern/init/init.c'') 18 (chars ''In kernel main.'' @ [10, 10]) [] s) monitor"

definition kern_init :: "u32 \<Rightarrow> 'a proc_state_scheme \<Rightarrow> 'a proc_state_scheme outcome res" where
  "kern_init mbi_addr s =
     rbind (thread_init mbi_addr s) (\<lambda>s.
     rbind (debug_normal (loc_lit (layout s) ''kern/init/init.c'') 88 (chars ''Kernel initialized.'' @ [10]) [] s) kern_main)"

section \<open>Splitting a line\<close>

definition blank :: "u8 \<Rightarrow> bool" where
  "blank c \<longleftrightarrow> c \<in> {9, 13, 10, 32}"

text \<open>The reference: the maximal runs of characters that are not blank.\<close>

function words_of :: "u8 list \<Rightarrow> u8 list list" where
  "words_of xs = (case dropWhile blank xs of
      [] \<Rightarrow> []
    | y # ys \<Rightarrow> takeWhile (\<lambda>c. \<not> blank c) (y # ys) # words_of (dropWhile (\<lambda>c. \<not> blank c) (y # ys)))"
  by pat_completeness auto
termination
proof (relation "measure length", goal_cases)
  case (2 xs y ys)
  have "\<not> blank y" using hd_dropWhile[of blank xs] 2 by simp
  then have "length (dropWhile (\<lambda>c. \<not> blank c) (y # ys)) < length (y # ys)"
    using length_dropWhile_le[of "\<lambda>c. \<not> blank c" ys] by simp
  then show ?case using length_dropWhile_le[of blank xs] 2 by simp
qed simp

declare words_of.simps [simp del]

text \<open>The string of blanks is in its place and does not overlap a block of \<open>n + 1\<close> bytes.\<close>

definition blanks_at :: "u32 \<Rightarrow> memory \<Rightarrow> bool" where
  "blanks_at ws m \<longleftrightarrow> str_at m ws [9, 13, 10, 32] \<and> 0 < unat ws \<and> unat ws + 4 < 4294967296"

lemma strchr_blanks:
  assumes "blanks_at ws m"
  shows "\<exists>q. strchr ws c m = Some q \<and> (q = 0 \<longleftrightarrow> \<not> blank c)"
proof -
  have "unat (ws + word_of_nat k) = unat ws + k" if "k \<le> 4" for k
    using that assms by (simp add: blanks_at_def unat_word_ariths unat_u32)
  then have "ws + word_of_nat k \<noteq> 0" if "k \<le> 4" for k
    using that assms unfolding blanks_at_def by (metis add_is_0 less_numeral_extra(3) unat_0)
  moreover have "length (takeWhile (\<lambda>x. x \<noteq> c) [9, 13, 10, 32 :: u8]) \<le> 4" using length_takeWhile_le[of _ "[9, 13, 10, 32 :: u8]"] by simp
  ultimately show ?thesis using strchr_eq[of m ws "[9, 13, 10, 32]" c] assms by (auto simp: blanks_at_def blank_def)
qed

lemma scan_arg_word:
  assumes "blanks_at ws m" "str_at m buf xs"
  shows "scan_arg ws buf m = Some (buf + word_of_nat (length (takeWhile (\<lambda>c. \<not> blank c) xs)))"
  using assms(2)
proof (induction xs arbitrary: buf)
  case Nil
  then show ?case by (subst scan_arg.simps) simp
next
  case (Cons x xs)
  obtain q where "strchr ws x m = Some q" "q = 0 \<longleftrightarrow> \<not> blank x" using strchr_blanks[OF assms(1)] by blast
  with Cons show ?case by (subst scan_arg.simps) (auto simp: algebra_simps)
qed

definition zeroed :: "u32 \<Rightarrow> nat \<Rightarrow> memory \<Rightarrow> memory" where
  "zeroed buf n m = (\<lambda>a. if unat (a - buf) < n then 0 else m a)"

lemma zeroed_Suc:
  assumes "n < 4294967296"
  shows "zeroed (buf + 1) n (m(buf := 0)) = zeroed buf (Suc n) m"
proof
  fix a
  show "zeroed (buf + 1) n (m(buf := 0)) a = zeroed buf (Suc n) m a"
  proof (cases "a = buf")
    case True
    then show ?thesis by (simp add: zeroed_def)
  next
    case False
    then have "a - buf \<noteq> 0" by simp
    then have "unat (a - buf) = Suc (unat (a - buf - 1))" by unat_arith
    then show ?thesis using False by (simp add: zeroed_def algebra_simps)
  qed
qed

lemma blanks_at_upd: "blanks_at ws m \<Longrightarrow> (\<And>j. j \<le> 4 \<Longrightarrow> m' (ws + word_of_nat j) = m (ws + word_of_nat j)) \<Longrightarrow> blanks_at ws m'"
  using str_at_cong[of "[9, 13, 10, 32]" m' ws m] by (simp add: blanks_at_def)

lemma gobble_blanks:
  assumes "blanks_at ws m" "str_at m buf xs" "apart buf (length xs) ws 4"
  shows "gobble ws buf m = Some (buf + word_of_nat (length (takeWhile blank xs)), zeroed buf (length (takeWhile blank xs)) m)"
  using assms
proof (induction xs arbitrary: buf m)
  case Nil
  then show ?case by (subst gobble.simps) (simp add: zeroed_def)
next
  case (Cons x xs)
  obtain q where q: "strchr ws x m = Some q" "q = 0 \<longleftrightarrow> \<not> blank x" using strchr_blanks[OF Cons.prems(1)] by blast
  show ?case
  proof (cases "blank x")
    case True
    have off: "buf + word_of_nat i \<noteq> ws + word_of_nat j" if "i < length (x # xs)" "j \<le> 4" for i j
      using Cons.prems(3) that unfolding apart_def by blast
    have len: "length xs < 4294967296" using str_at_length[OF Cons.prems(2)] by simp
    have "blanks_at ws (m(buf := 0))" by (rule blanks_at_upd[OF Cons.prems(1)]) (use off[of 0] in force)
    moreover have "str_at (m(buf := 0)) (buf + 1) xs"
    proof (subst str_at_cong[of xs _ "buf + 1" m])
      fix j assume "j \<le> length xs"
      then have "unat (word_of_nat (Suc j) :: u32) = Suc j" using str_at_length[OF Cons.prems(2)] by (intro unat_u32) simp
      then have "(1 :: u32) + word_of_nat j \<noteq> 0" by (metis of_nat_Suc unat_0 nat.distinct(1))
      then show "(m(buf := 0)) (buf + 1 + word_of_nat j) = m (buf + 1 + word_of_nat j)" by (simp add: add.assoc)
    qed (use Cons.prems(2) in simp)
    moreover have "apart (buf + 1) (length xs) ws 4" unfolding apart_def
      using off[of "Suc i" for i] by (auto simp: algebra_simps)
    ultimately have "gobble ws (buf + 1) (m(buf := 0)) = Some (buf + 1 + word_of_nat (length (takeWhile blank xs)),
        zeroed (buf + 1) (length (takeWhile blank xs)) (m(buf := 0)))" by (rule Cons.IH)
    moreover have "length (takeWhile blank xs) < 4294967296" using length_takeWhile_le[of blank xs] len by linarith
    ultimately show ?thesis using True q Cons.prems(2) by (subst gobble.simps) (simp add: zeroed_Suc add.assoc)
  next
    case False
    then show ?thesis using q Cons.prems(2) by (subst gobble.simps) (simp add: zeroed_def)
  qed
qed

text \<open>Parts of a block: a suffix lies in the block, and what comes before the suffix does not lie in it.\<close>

lemma suffix_inside:
  fixes a buf :: u32
  assumes "unat (a - (buf + word_of_nat j)) < l - j" "l < 4294967296"
  shows "unat (a - buf) < l"
proof -
  have "a - buf = (a - (buf + word_of_nat j)) + word_of_nat j" by simp
  moreover have "unat (word_of_nat j :: u32) = j" using assms by (intro unat_u32) linarith
  ultimately have "unat (a - buf) = unat (a - (buf + word_of_nat j)) + j"
    using assms by (simp only: unat_word_ariths(1)) simp
  then show ?thesis using assms(1) by linarith
qed

lemma prefix_outside:
  fixes buf :: u32
  assumes "i < j" "j \<le> l" "l < 4294967296"
  shows "\<not> unat (buf + word_of_nat i - (buf + word_of_nat j)) < l - j"
proof
  assume a: "unat (buf + word_of_nat i - (buf + word_of_nat j)) < l - j"
  let ?d = "word_of_nat i - word_of_nat j :: u32"
  have u: "unat (word_of_nat i :: u32) = i" "unat (word_of_nat j :: u32) = j" using assms by (simp_all add: unat_u32)
  have b: "unat ?d + j < 4294967296" using a assms by (simp only: add_diff_cancel_left)
  have "unat (?d + word_of_nat j) = (unat ?d + unat (word_of_nat j :: u32)) mod 2 ^ LENGTH(32)" by (rule unat_word_ariths(1))
  then have "i = (unat ?d + j) mod 4294967296" using u by simp
  then have "i = unat ?d + j" by (simp only: mod_less[OF b])
  then show False using assms(1) by simp
qed

lemma apart_suffix: "apart buf l ws k \<Longrightarrow> j \<le> l \<Longrightarrow> apart (buf + word_of_nat j) (l - j) ws k"
proof -
  assume a: "apart buf l ws k" "j \<le> l"
  have "buf + word_of_nat j + word_of_nat i \<noteq> ws + word_of_nat h" if "i < l - j" "h \<le> k" for i h
    using a(1)[unfolded apart_def, rule_format, of "j + i" h] that by (simp add: add.assoc)
  then show ?thesis by (simp add: apart_def)
qed

text \<open>What the inner loops of one round do to the line: the blanks before a word become 0.\<close>

lemma gobble_line:
  assumes "blanks_at ws m" "str_at m buf xs" "apart buf (length xs) ws 4"
  defines "n \<equiv> length (takeWhile blank xs)"
  shows "gobble ws buf m = Some (buf + word_of_nat n, zeroed buf n m)"
    "str_at (zeroed buf n m) (buf + word_of_nat n) (dropWhile blank xs)" "blanks_at ws (zeroed buf n m)"
proof -
  have len: "length xs < 4294967296" "n \<le> length xs" using str_at_length[OF assms(2)] length_takeWhile_le by (auto simp: n_def)
  show "gobble ws buf m = Some (buf + word_of_nat n, zeroed buf n m)" unfolding n_def by (rule gobble_blanks[OF assms(1-3)])
  have l: "length xs = n + length (dropWhile blank xs)" unfolding n_def by (metis takeWhile_dropWhile_id length_append)
  have "str_at m (buf + word_of_nat n) (dropWhile blank xs)"
    unfolding n_def using assms(2) by (intro str_at_drop) simp
  moreover have "zeroed buf n m (buf + word_of_nat n + word_of_nat j) = m (buf + word_of_nat n + word_of_nat j)"
    if "j \<le> length (dropWhile blank xs)" for j
  proof -
    have "unat (word_of_nat (n + j) :: u32) = n + j" using that l len by (intro unat_u32) linarith
    moreover have "buf + word_of_nat n + word_of_nat j - buf = word_of_nat (n + j)" by simp
    ultimately show ?thesis unfolding zeroed_def by (simp only:) simp
  qed
  ultimately show "str_at (zeroed buf n m) (buf + word_of_nat n) (dropWhile blank xs)" by (subst str_at_cong[where m = m]) auto
  show "blanks_at ws (zeroed buf n m)"
  proof (rule blanks_at_upd[OF assms(1)])
    fix j :: nat assume j: "j \<le> 4"
    have "buf + word_of_nat (unat (ws + word_of_nat j - buf)) = ws + word_of_nat j" by simp
    then have "\<not> unat (ws + word_of_nat j - buf) < length xs" using assms(3) j unfolding apart_def by metis
    then show "zeroed buf n m (ws + word_of_nat j) = m (ws + word_of_nat j)" using len(2) by (simp add: zeroed_def)
  qed
qed

lemma word_at:
  assumes "str_at m p ys" "length (takeWhile (\<lambda>c. \<not> blank c) ys) = k"
    "\<And>i. i < k \<Longrightarrow> m' (p + word_of_nat i) = m (p + word_of_nat i)" "m' (p + word_of_nat k) = 0"
  shows "str_at m' p (takeWhile (\<lambda>c. \<not> blank c) ys)"
proof (rule str_at_take)
  show "0 \<notin> set (takeWhile (\<lambda>c. \<not> blank c) ys)" using str_at_nonzero[OF assms(1)] by (auto dest: set_takeWhileD)
  show "m' (p + word_of_nat i) = takeWhile (\<lambda>c. \<not> blank c) ys ! i" if "i < length (takeWhile (\<lambda>c. \<not> blank c) ys)" for i
    using that assms(2,3) str_at_nth[OF assms(1), of i] length_takeWhile_le[of "\<lambda>c. \<not> blank c" ys]
    by (simp add: takeWhile_nth)
qed (use assms in simp)

lemma parse_args_words:
  assumes "blanks_at ws m" "str_at m buf xs" "apart buf (length xs) ws 4" "length argv \<le> 15"
  shows "\<exists>m'. (\<forall>a. \<not> unat (a - buf) < length xs \<longrightarrow> m' a = m a) \<and> (xs = [] \<or> blank (hd xs) \<longrightarrow> m' buf = 0)
    \<and> (if length argv + length (words_of xs) \<le> 15
       then \<exists>ps. parse_args ws buf argv m = Some (Some (argv @ ps), m') \<and> list_all2 (str_at m') ps (words_of xs)
       else parse_args ws buf argv m = Some (None, m'))"
  using assms
proof (induction "length xs" arbitrary: xs buf argv m rule: less_induct)
  case less
  define n where "n = length (takeWhile blank xs)"
  let ?m = "zeroed buf n m" and ?ys = "dropWhile blank xs"
  note g = gobble_line[OF less.prems(1-3), folded n_def]
  have len: "length xs < 4294967296" "length xs = n + length ?ys"
    using str_at_length[OF less.prems(2)] unfolding n_def by (auto simp: length_append[symmetric])
  have z: "?m buf = 0" if "xs = [] \<or> blank (hd xs)"
    using that less.prems(2) unfolding n_def zeroed_def by (cases xs) auto
  show ?case
  proof (cases ?ys)
    case Nil
    have "?m (buf + word_of_nat n) = 0" using g(2) unfolding Nil by simp
    then have "parse_args ws buf argv m = Some (Some argv, ?m)" using g(1) by (subst parse_args.simps) simp
    moreover have "words_of xs = []" by (subst words_of.simps) (simp only: Nil list.case)
    ultimately show ?thesis using less.prems(4) z len(2) by (intro exI[of _ ?m]) (auto simp: zeroed_def)
  next
    case (Cons y t)
    define k where "k = length (takeWhile (\<lambda>c. \<not> blank c) ?ys)"
    let ?zs = "dropWhile (\<lambda>c. \<not> blank c) ?ys" and ?p = "buf + word_of_nat n" and ?q = "buf + word_of_nat (n + k)"
    have w: "words_of xs = takeWhile (\<lambda>c. \<not> blank c) ?ys # words_of ?zs" using Cons by (subst words_of.simps) simp
    have y: "?m ?p \<noteq> 0" using g(2) Cons by simp
    have "\<not> blank y" using hd_dropWhile[of blank xs] Cons by simp
    then have k0: "0 < k" using Cons by (simp add: k_def)
    have lz: "length ?ys = k + length ?zs" unfolding k_def by (metis takeWhile_dropWhile_id length_append)
    have inside: "\<not> unat (a - ?q) < length ?zs" if "\<not> unat (a - buf) < length xs" for a
      using that suffix_inside[of a buf "n + k" "length xs"] len lz by auto
    have before: "\<not> unat (buf + word_of_nat i - ?q) < length ?zs" if "i < n + k" for i
      using prefix_outside[of i "n + k" "length xs" buf] that len lz by auto
    show ?thesis
    proof (cases "length argv = 15")
      case True
      then have "parse_args ws buf argv m = Some (None, ?m)" using g y by (subst parse_args.simps) (simp add: MAXARGS_def)
      then show ?thesis using True w z len(2) by (intro exI[of _ ?m]) (auto simp: zeroed_def)
    next
      case False
      have st: "str_at ?m ?q ?zs"
        using str_at_drop[of ?m ?p "takeWhile (\<lambda>c. \<not> blank c) ?ys" ?zs] g(2) by (simp add: k_def add.assoc)
      have sc: "scan_arg ws ?p ?m = Some ?q" using scan_arg_word[OF g(3,2)] by (simp add: k_def add.assoc)
      have run: "parse_args ws buf argv m = parse_args ws ?q (argv @ [?p]) ?m"
        using g y sc False by (subst parse_args.simps) (simp add: MAXARGS_def)
      have ap: "apart ?q (length ?zs) ws 4" using apart_suffix[OF less.prems(3), of "n + k"] len lz by simp
      have "length ?zs < length xs" "length (argv @ [?p]) \<le> 15" using k0 len lz less.prems(4) False by auto
      from less.hyps[OF this(1) g(3) st ap this(2)] obtain m' where
        m': "\<forall>a. \<not> unat (a - ?q) < length ?zs \<longrightarrow> m' a = ?m a" "?zs = [] \<or> blank (hd ?zs) \<longrightarrow> m' ?q = 0"
        "if length (argv @ [?p]) + length (words_of ?zs) \<le> 15
         then \<exists>ps. parse_args ws ?q (argv @ [?p]) ?m = Some (Some ((argv @ [?p]) @ ps), m') \<and> list_all2 (str_at m') ps (words_of ?zs)
         else parse_args ws ?q (argv @ [?p]) ?m = Some (None, m')" by blast
      have "m' ?q = 0" using m'(2) hd_dropWhile[of "\<lambda>c. \<not> blank c" ?ys] by (cases ?zs) auto
      moreover have "m' (buf + word_of_nat i) = ?m (buf + word_of_nat i)" if "i < n + k" for i using m'(1) before[OF that] by blast
      ultimately have "str_at m' ?p (takeWhile (\<lambda>c. \<not> blank c) ?ys)"
        by (intro word_at[OF g(2) k_def[symmetric]]) (simp_all add: add.assoc flip: of_nat_add)
      moreover have "m' a = m a" if "\<not> unat (a - buf) < length xs" for a
        using m'(1) inside[OF that] that len(2) by (simp add: zeroed_def)
      moreover have "m' buf = ?m buf" using m'(1) before[of 0] k0 by simp
      ultimately show ?thesis using m'(3) run w z by (intro exI[of _ m']) (auto split: if_splits)
    qed
  qed
qed

section \<open>Running a command\<close>

text \<open>A string constant is in its place, off the display and off the line buffer.\<close>

definition literal_ok :: "string \<Rightarrow> 'a machine_scheme \<Rightarrow> bool" where
  "literal_ok str s \<longleftrightarrow> (let p = loc_lit (layout s) str in p \<noteq> 0 \<and> unat p + length str < 4294967296
     \<and> str_at (mem s) p (chars str)
     \<and> (\<forall>j\<le>length str. \<not> p + word_of_nat j - crt_buf (devs s) < 4000
         \<and> \<not> p + word_of_nat j - loc_linebuf (layout s) < BUFLEN))"

definition literals_ok :: "'a machine_scheme \<Rightarrow> bool" where
  "literals_ok s \<longleftrightarrow> list_all (\<lambda>str. literal_ok str s) ([''$> '', WHITESPACE] @ map cmd_name commands)"

lemma literal_ok_frame: "line_frame s t \<Longrightarrow> literal_ok str s \<Longrightarrow> literal_ok str t"
proof -
  assume f: "line_frame s t" and l: "literal_ok str s"
  let ?p = "loc_lit (layout s) str"
  have "str_at (mem t) ?p (chars str) = str_at (mem s) ?p (chars str)"
    using f l by (intro str_at_cong) (simp add: literal_ok_def line_frame_def chars_def Let_def)
  then show ?thesis using l line_frame_layout[OF f] line_frame_sel(1)[OF f] by (simp add: literal_ok_def Let_def)
qed

lemma literals_ok_frame: "line_frame s t \<Longrightarrow> literals_ok s \<Longrightarrow> literals_ok t"
  unfolding literals_ok_def by (auto simp: list_all_iff intro: literal_ok_frame)

lemma literal_blanks: "literal_ok WHITESPACE s \<Longrightarrow> blanks_at (loc_lit (layout s) WHITESPACE) (mem s)"
  by (auto simp: literal_ok_def blanks_at_def WHITESPACE_def chars_def Let_def unat_gt_0)

lemma literal_apart:
  assumes "literal_ok str s" "n \<le> 1024"
  shows "apart (loc_linebuf (layout s)) n (loc_lit (layout s) str) (length str)"
proof -
  have "loc_linebuf (layout s) + word_of_nat i \<noteq> loc_lit (layout s) str + word_of_nat j" if "i < n" "j \<le> length str" for i j
  proof
    assume "loc_linebuf (layout s) + word_of_nat i = loc_lit (layout s) str + word_of_nat j"
    then have "loc_lit (layout s) str + word_of_nat j - loc_linebuf (layout s) = word_of_nat i" by (metis add_diff_cancel_left')
    moreover have "(word_of_nat i :: u32) < BUFLEN" using that(1) assms(2) by (simp add: BUFLEN_def word_less_nat_alt unat_u32)
    ultimately show False using assms(1) that(2) unfolding literal_ok_def Let_def by metis
  qed
  then show ?thesis by (simp add: apart_def)
qed

definition lookup_command :: "u8 list \<Rightarrow> Command option" where
  "lookup_command w = find (\<lambda>c. chars (cmd_name c) = w) commands"

lemma find_command_eq:
  assumes "str_at (mem s) arg w" "list_all (\<lambda>c. literal_ok (cmd_name c) s) cs"
  shows "find_command cs arg s = Some (map_option cmd_func (find (\<lambda>c. chars (cmd_name c) = w) cs))"
  using assms(2)
proof (induction cs)
  case (Cons c cs)
  let ?l = "loc_lit (layout s) (cmd_name c)"
  have l: "str_at (mem s) ?l (chars (cmd_name c))" using Cons.prems by (simp add: literal_ok_def Let_def)
  have "strcmp arg ?l (mem s) = Some (str_diff w (chars (cmd_name c)))" by (rule strcmp_eq[OF assms(1) l])
  moreover have "str_diff w (chars (cmd_name c)) = 0 \<longleftrightarrow> w = chars (cmd_name c)"
    by (rule str_diff_eq0[OF str_at_nonzero[OF assms(1)] str_at_nonzero[OF l]])
  ultimately show ?case using Cons by auto
qed simp

text \<open>The line in the buffer is split and its first word looked up.\<close>

lemma runcmd_known:
  assumes "literals_ok s" "str_at (mem s) (loc_linebuf (layout s)) line" "length line \<le> 1023"
    "words_of line = w # args" "length args \<le> 14" "lookup_command w = Some c"
  shows "\<exists>t. runcmd (loc_linebuf (layout s)) s = run_command (cmd_func c) t \<and> line_frame s t \<and> devs t = devs s
    \<and> (\<forall>a. \<not> a - loc_linebuf (layout s) < BUFLEN \<longrightarrow> mem t a = mem s a)"
proof -
  let ?lb = "loc_linebuf (layout s)" and ?ws = "loc_lit (layout s) WHITESPACE"
  have lit: "literal_ok WHITESPACE s" "list_all (\<lambda>c. literal_ok (cmd_name c) s) commands"
    using assms(1) by (simp_all add: literals_ok_def list_all_iff)
  have ap: "apart ?lb (length line) ?ws 4" using literal_apart[OF lit(1), of "length line"] assms(3) by (simp add: WHITESPACE_def numeral_eq_Suc)
  obtain m' ps where m': "\<forall>a. \<not> unat (a - ?lb) < length line \<longrightarrow> m' a = mem s a"
    "parse_args ?ws ?lb [] (mem s) = Some (Some ps, m')" "list_all2 (str_at m') ps (w # args)"
    using parse_args_words[OF literal_blanks[OF lit(1)] assms(2) ap, of "[]"] assms(4,5) by auto
  let ?t = "s\<lparr>mem := m'\<rparr>"
  have off: "m' a = mem s a" if "\<not> a - ?lb < BUFLEN" for a
    using m'(1) that assms(3) by (simp add: BUFLEN_def word_less_nat_alt)
  then have f: "line_frame s ?t" by (simp add: line_frame_def)
  obtain p qs where ps: "ps = p # qs" "str_at m' p w" using m'(3) by (cases ps) auto
  have "list_all (\<lambda>c. literal_ok (cmd_name c) ?t) commands"
    using lit(2) literal_ok_frame[OF f] by (auto simp: list_all_iff)
  from find_command_eq[OF _ this, of p w] ps(2) assms(6)
  have "find_command commands p ?t = Some (Some (cmd_func c))" by (simp add: lookup_command_def)
  then have "runcmd ?lb s = run_command (cmd_func c) ?t" using m'(2) ps(1) by (simp add: runcmd_def)
  then show ?thesis using f off by (intro exI[of _ ?t]) simp
qed

section \<open>Starting the first process\<close>

lemma display_frame_threads:
  fixes s t :: "'a proc_state_scheme"
  assumes "display_frame s t"
  shows "CURID t = CURID s" "TCBPool t = TCBPool s" "TQueuePool t = TQueuePool s" "kctx_pool t = kctx_pool s"
    "cpu t = cpu s" "uctx_pool t = uctx_pool s" "layout t = layout s" "sched_inv t Q = sched_inv s Q"
proof -
  show p: "CURID t = CURID s" "TCBPool t = TCBPool s" "TQueuePool t = TQueuePool s" "kctx_pool t = kctx_pool s"
    "cpu t = cpu s" "uctx_pool t = uctx_pool s" "layout t = layout s"
    using assms[unfolded display_frame_def] by (cases s, cases t, simp)+
  show "sched_inv t Q = sched_inv s Q" using p queues_rep_cong[of t s Q] by (simp add: sched_inv_def)
qed

lemma vprintfmt_char: "c \<noteq> 0 \<Longrightarrow> c \<noteq> 37 \<Longrightarrow> vprintfmt m (c # fmt) ap = rbind (vprintfmt m fmt ap) (\<lambda>out. Inr (c # out))"
  by (subst vprintfmt.simps) simp

lemma vprintfmt_percent_s:
  "p \<noteq> 0 \<Longrightarrow> str_at m p cs \<Longrightarrow> vprintfmt m (37 # 115 # fmt) (p # ap) = rbind (vprintfmt m fmt ap) (\<lambda>out. Inr (cs @ out))"
  by (subst vprintfmt.simps) (simp add: reswitch.simps flags0_def convert_def va_word_def string_arg_def cstring_str_at[symmetric]
      convert_string_def string_char_def map_idI)

lemma debug_normal_prints:
  assumes "on_screen s" "file \<noteq> 0" "str_at (mem s) file cs" "message fmt ap"
  shows "\<exists>t. debug_normal file line fmt ap s = Inr t \<and> display_frame s t \<and> on_screen t"
proof -
  obtain tail where tail: "vprintfmt (mem s) (chars '':%d: '') [line] = Inr tail" "0 \<notin> set tail"
    using message_rules(1) unfolding chars_def
    by (simp add: vprintfmt_char vprintfmt_escape vprintfmt.simps[of _ "[]"] printnum_nonzero)
  let ?out = "chars ''[D] '' @ cs @ tail"
  have "vprintfmt (mem s) (chars ''[D] %s:%d: '') [file, line] = Inr ?out"
    using tail(1) vprintfmt_percent_s[OF assms(2,3)] by (simp add: chars_def vprintfmt_char)
  moreover have "0 \<notin> set ?out" using tail(2) str_at_nonzero[OF assms(3)] by (simp add: chars_def)
  ultimately have d: "dprintf (chars ''[D] %s:%d: '') [file, line] s = Inr (length ?out, fold cons_putc ?out s)"
    unfolding dprintf_def by (rule vdprintf_direct)
  note p = prints_ok[OF assms(1), of ?out]
  obtain t n where "dprintf fmt ap (fold cons_putc ?out s) = Inr (n, t)" "display_frame (fold cons_putc ?out s) t" "on_screen t"
    using message_printed[OF assms(4)] p by blast
  then show ?thesis using d p display_frame_trans by (auto simp: debug_normal_def dprintf_def)
qed

lemma start_user_switch:
  fixes s :: "'a proc_state_scheme"
  assumes inv: "sched_inv s (Q(NUM_IDS := Q NUM_IDS @ [child]))" and cur: "CURID s = 0"
  shows "\<exists>t. rbind (tqueue_remove NUM_IDS child s) (\<lambda>s. rbind (tcb_set_state child TSTATE_RUN s) (\<lambda>s.
      kctx_switch 0 child (set_curid child s))) = Inr t \<and> sched_inv t Q \<and> CURID t = child \<and> child < NUM_IDS
    \<and> kc_eip (cpu t) = kc_eip (kctx_pool s child) \<and> uctx_pool t = uctx_pool s \<and> layout t = layout s
    \<and> tcb_state (TCBPool t 0) = TSTATE_RUN"
proof -
  let ?Q = "Q(NUM_IDS := Q NUM_IDS @ [child])"
  have rep: "queues_rep s ?Q" "\<And>d. d < NUM_IDS + 1 \<Longrightarrow> 0 \<notin> set (?Q d)" "tcb_state (TCBPool s 0) = TSTATE_RUN"
    "\<And>x. x < NUM_IDS \<Longrightarrow> tcb_state (TCBPool s x) = TSTATE_RUN \<Longrightarrow> x = 0"
    "\<And>x. x \<in> set (?Q NUM_IDS) \<Longrightarrow> tcb_state (TCBPool s x) = TSTATE_READY"
    using inv cur by (auto simp: sched_inv_def)
  have ch: "child < NUM_IDS" "child \<noteq> 0" "child \<notin> set (Q NUM_IDS)"
    using in_queue_bound[OF rep(1), of NUM_IDS child] rep(2)[of NUM_IDS] queues_rep_ends(3)[OF rep(1), of NUM_IDS] by auto
  have other: "child \<notin> set (Q d)" if "d < NUM_IDS + 1" for d
    using queues_disjoint[OF rep(1), of NUM_IDS d child] ch(3) that by (cases "d = NUM_IDS") auto
  obtain s1 where s1: "tqueue_remove NUM_IDS child s = Inr s1"
    "queues_rep s1 (?Q(NUM_IDS := remove1 child (?Q NUM_IDS)))" "tq_frame s s1" using remove_ok[OF rep(1), of NUM_IDS child] by auto
  have q: "?Q(NUM_IDS := remove1 child (?Q NUM_IDS)) = Q" using ch(3) by (simp add: remove1_append fun_upd_idem)
  note f = tq_frameD[OF s1(3)]
  let ?t = "cswitch 0 child (set_curid child (s1\<lparr>TCBPool := (TCBPool s1)(child := (TCBPool s1 child)\<lparr>tcb_state := TSTATE_RUN\<rparr>)\<rparr>))"
  have st: "tcb_state (TCBPool ?t x) = (if x = child then TSTATE_RUN else tcb_state (TCBPool s x))" for x
    using f(8)[of x] by (simp add: set_curid_def)
  have "queues_rep ?t Q" using s1(2) queues_rep_cong[of ?t s1 Q] unfolding q by (simp add: set_curid_def)
  then have "sched_inv ?t Q" unfolding sched_inv_def st using ch(1,3) other rep(4,5)
    by (auto simp: set_curid_def)
  moreover have "rbind (tqueue_remove NUM_IDS child s) (\<lambda>s. rbind (tcb_set_state child TSTATE_RUN s) (\<lambda>s.
      kctx_switch 0 child (set_curid child s))) = Inr ?t" using s1(1) ch(1) by (simp add: set_state_eq kctx_switch_def)
  moreover have "uctx_pool s1 = uctx_pool s" "layout s1 = layout s"
    using s1(3) by (cases s, cases s1, simp add: tq_frame_def)+
  moreover have "kctx_pool s1 = kctx_pool s" using f by simp
  ultimately show ?thesis using ch rep(3) st[of 0]
    by (intro exI[of _ ?t]) (simp add: cswitch_def set_curid_def Let_def)
qed

text \<open>
  The process \<open>child\<close>, created from the image in state \<open>s\<close>, is about to run for the first time: it is the
  current thread, the processor enters \<^verbatim>\<open>proc_start_user\<close> on its kernel context, and this continues with
  the frame of a fresh process at the entry point of the image. The scheduler is in order, and thread 0
  still is marked as running.
\<close>

definition first_process :: "'a proc_state_scheme \<Rightarrow> u32 \<Rightarrow> (u32 \<Rightarrow> u32 list) \<Rightarrow> 'a proc_state_scheme \<Rightarrow> bool" where
  "first_process s child Q t \<longleftrightarrow> sched_inv t Q \<and> get_curid t = child \<and> tcb_state (TCBPool t 0) = TSTATE_RUN
     \<and> kc_eip (cpu t) = loc_proc_start_user (layout s)
     \<and> (\<exists>u. proc_start_user t = Inr (uctx_pool t child, u))
     \<and> (\<exists>s1. proc_create (loc_elf (layout s) 0) 10000 s = Inr (child, s1)
         \<and> tf_eip (uctx_pool t child) = e_entry (mem s1) (loc_elf (layout s) 0))
     \<and> tf_esp (uctx_pool t child) = VM_USERHI \<and> tf_cs (uctx_pool t child) = CPU_GDT_UCODE OR 3"

text \<open>Loading the image into the pages of the new process overwrote the image's own header.\<close>

definition header_lost :: "'a proc_state_scheme \<Rightarrow> u32 \<Rightarrow> bool" where
  "header_lost s child \<longleftrightarrow> (\<exists>sp sl. thread_spawn (loc_proc_start_user (layout s)) (get_curid s) 10000 s = Inr (child, sp)
     \<and> elf_load (loc_elf (layout s) 0) child sp = Inr sl \<and> e_magic (mem sl) (loc_elf (layout s) 0) \<noteq> ELF_MAGIC)"

lemma mon_start_user_ok:
  assumes inv: "thread_inv s Q" and cur: "get_curid s = 0" and can: "container_can_consume 0 10000 s = 1"
    and split: "container_split 0 10000 s = Inr (child, s0)" "child \<noteq> NUM_IDS"
    and elf: "elf_ok (mem s) (loc_elf (layout s) 0)" and disp: "on_screen s"
    and lit: "loc_lit (layout s) ''kern/lib/monitor.c'' \<noteq> 0"
      "\<And>s1. proc_create (loc_elf (layout s) 0) 10000 s = Inr (child, s1) \<Longrightarrow>
         \<exists>cs. str_at (mem s1) (loc_lit (layout s) ''kern/lib/monitor.c'') cs"
  shows "(\<exists>t. mon_start_user s = Inr t \<and> first_process s child Q t)
    \<or> mon_start_user s = Inl Panic \<and> header_lost s child"
proof -
  let ?e = "loc_elf (layout s) 0" and ?f = "loc_lit (layout s) ''kern/lib/monitor.c''"
  have can': "container_can_consume (get_curid s) 10000 s = 1" "container_split (get_curid s) 10000 s = Inr (child, s0)"
    using can split cur by simp_all
  from proc_create_ok[OF inv can' split(2) elf]
  consider "proc_create ?e 10000 s = Inl Panic" "header_lost s child"
    | s1 where "proc_create ?e 10000 s = Inr (child, s1)" "sched_inv s1 (Q(NUM_IDS := Q NUM_IDS @ [child]))"
      "get_curid s1 = get_curid s" "kc_eip (kctx_pool s1 child) = loc_proc_start_user (layout s)"
      "tf_eip (uctx_pool s1 child) = e_entry (mem s1) ?e" "tf_esp (uctx_pool s1 child) = VM_USERHI"
      "tf_cs (uctx_pool s1 child) = CPU_GDT_UCODE OR 3" "devs s1 = devs s" "layout s1 = layout s"
    by (auto simp: Let_def header_lost_def)
  then show ?thesis
  proof cases
    case 1
    then show ?thesis by (simp add: mon_start_user_def)
  next
    case (2 s1)
    have on1: "on_screen s1" using disp 2(8) by (simp add: on_screen_def)
    obtain cs where "str_at (mem s1) ?f cs" using lit(2)[OF 2(1)] by blast
    from debug_normal_prints[OF on1 lit(1) this, of "chars ''process idle %d is created.'' @ [10]" "[child]" 94] obtain s2 where
      s2: "debug_normal ?f 94 (chars ''process idle %d is created.'' @ [10]) [child] s1 = Inr s2" "display_frame s1 s2" "on_screen s2"
      by (auto simp: chars_def)
    have "message (chars ''Start user-space ... '' @ [10]) []" by (simp add: chars_def)
    from message_printed[OF this s2(3)] obtain s3 where
      s3: "debug_info (chars ''Start user-space ... '' @ [10]) [] s2 = Inr s3" "display_frame s2 s3" by blast
    note d = display_frame_threads[OF display_frame_trans[OF s2(2) s3(2)]]
    have "sched_inv s3 (Q(NUM_IDS := Q NUM_IDS @ [child]))" "CURID s3 = 0" using 2(2,3) d cur by (simp_all add: get_curid_def)
    from start_user_switch[OF this] obtain t where t: "rbind (tqueue_remove NUM_IDS child s3) (\<lambda>s. rbind (tcb_set_state child TSTATE_RUN s) (\<lambda>s.
        kctx_switch 0 child (set_curid child s))) = Inr t" "sched_inv t Q" "CURID t = child" "child < NUM_IDS"
      "kc_eip (cpu t) = kc_eip (kctx_pool s3 child)" "uctx_pool t = uctx_pool s3" "tcb_state (TCBPool t 0) = TSTATE_RUN" by auto
    have "mon_start_user s = Inr t" using 2(1,9) s2(1) s3(1) t(1) by (simp add: mon_start_user_def)
    moreover have "\<exists>u. proc_start_user t = Inr (uctx_pool t child, u)" using t(3,4)
      by (simp add: proc_start_user_def get_curid_def Let_def tss_switch_def set_pdir_base_def set_cr3_def lcr3_def)
    ultimately show ?thesis using t 2 d by (auto simp: get_curid_def first_process_def)
  qed
qed

text \<open>What the loop does with the outcome of a command: no command asks it to leave.\<close>

definition resume_monitor :: "'a proc_state_scheme outcome res \<Rightarrow> 'a proc_state_scheme outcome res option" where
  "resume_monitor r = (case r of Inl e \<Rightarrow> Some (Inl e) | Inr (Switched u) \<Rightarrow> Some (Inr (Switched u))
     | Inr (Returned v u) \<Rightarrow> monitor_loop u)"

lemma run_command_returns: "run_command c s = Inr (Returned v u) \<Longrightarrow> v = 0"
  by (auto simp: run_command_def rbind_eq_Inr split: command.splits)

lemma monitor_round:
  assumes "editing [] cs s" "0 \<notin> set cs" "literals_ok s" "loc_linebuf (layout s) \<noteq> 0"
    "edit [] cs = Entered line rest" "words_of line = w # args" "length args \<le> 14" "lookup_command w = Some c"
  shows "\<exists>t. monitor_loop s = resume_monitor (run_command (cmd_func c) t) \<and> line_frame s t
    \<and> pending (devs t) = rest \<and> on_screen t"
proof -
  let ?lb = "loc_linebuf (layout s)" and ?p = "loc_lit (layout s) ''$> ''"
  have p: "?p \<noteq> 0" "str_at (mem s) ?p (chars ''$> '')" using assms(3) by (simp_all add: literals_ok_def literal_ok_def Let_def)
  obtain t where t: "readline ?p s = Inr (?lb, t)" "line_frame s t" "editing line rest t" "str_at (mem t) ?lb line"
    using readline_line[OF assms(1,2) p assms(5)] by blast
  have ly: "layout t = layout s" by (rule line_frame_layout[OF t(2)])
  have "length line \<le> 1023" "pending (devs t) = rest" "on_screen t" using t(3) by (simp_all add: editing_def)
  with runcmd_known[OF literals_ok_frame[OF t(2) assms(3)], of line w args c] t(4) ly assms(6-8) obtain u where
    u: "runcmd ?lb t = run_command (cmd_func c) u" "line_frame t u" "pending (devs u) = rest" "on_screen u"
    by (auto simp: on_screen_def)
  have "monitor_loop s = resume_monitor (run_command (cmd_func c) u)"
    using t(1) u(1) assms(4) run_command_returns[of "cmd_func c" u]
    by (subst monitor_loop.simps) (auto simp: resume_monitor_def split: sum.splits outcome.splits)
  then show ?thesis using line_frame_trans[OF t(2) u(2)] u(3,4) by blast
qed

section \<open>From the start to the first process\<close>

lemma line_frame_threads:
  fixes s t :: "'a proc_state_scheme"
  assumes "line_frame s t"
  shows "CURID t = CURID s" "CONTAINER t = CONTAINER s" "thread_inv t Q = thread_inv s Q"
    "container_can_consume pid n t = container_can_consume pid n s"
proof -
  have p: "CURID t = CURID s" "TCBPool t = TCBPool s" "TQueuePool t = TQueuePool s" "CONTAINER t = CONTAINER s" "AT t = AT s"
    using assms[unfolded line_frame_def] by (cases s, cases t, simp)+
  show "CURID t = CURID s" "CONTAINER t = CONTAINER s" using p by simp_all
  show "thread_inv t Q = thread_inv s Q"
    using p queues_rep_cong[of t s Q] container_inv_cong[of t s] books_balance_cong[of t s]
    by (simp add: thread_inv_def sched_inv_def)
  show "container_can_consume pid n t = container_can_consume pid n s" using p by (simp add: container_can_consume_def)
qed

text \<open>Messages keep the console ready.\<close>

lemma editing_display:
  assumes "editing [] cs s" "display_frame s t" "on_screen t"
  shows "editing [] cs t" "line_frame s t"
proof -
  show f: "line_frame s t" by (rule line_frame_display[OF assms(2)])
  show "editing [] cs t" using assms(1,3) display_frame_ring[OF assms(2)] line_frame_sel[OF f] by (simp add: editing_def)
qed

lemma monitor_banner:
  assumes "editing [] cs s"
  shows "\<exists>t. monitor s = (case monitor_loop t of None \<Rightarrow> Inl Diverges | Some r \<Rightarrow> r) \<and> line_frame s t \<and> editing [] cs t"
proof -
  have p: "\<exists>n t. dprintf fmt [] u = Inr (n, t) \<and> editing [] cs t \<and> line_frame s t"
    if "editing [] cs u" "line_frame s u" "message fmt []" for fmt u
  proof -
    note m = message_printed[OF that(3), of u] and e = editing_display[OF that(1)] and f = line_frame_trans[OF that(2)]
    have "on_screen u" using that(1) by (simp add: editing_def)
    with m e f show ?thesis by blast
  qed
  let ?stars = "[10] @ chars ''****************************************'' @ [10, 10]"
  let ?greet = "chars ''Welcome to the mCertiKOS kernel monitor!'' @ [10]"
  let ?type = "chars ''Type '' @ [39] @ chars ''help'' @ [39] @ chars '' for a list of commands.'' @ [10]"
  have m: "message ?stars []" "message ?greet []" "message ?type []" by (rule message_plain, simp add: chars_def)+
  have "line_frame s s" by (simp add: line_frame_def)
  from p[OF assms this m(1)] obtain n1 s1 where 1: "dprintf ?stars [] s = Inr (n1, s1)" "editing [] cs s1" "line_frame s s1" by blast
  from p[OF 1(2,3) m(2)] obtain n2 s2 where 2: "dprintf ?greet [] s1 = Inr (n2, s2)" "editing [] cs s2" "line_frame s s2" by blast
  from p[OF 2(2,3) m(1)] obtain n3 s3 where 3: "dprintf ?stars [] s2 = Inr (n3, s3)" "editing [] cs s3" "line_frame s s3" by blast
  from p[OF 3(2,3) m(3)] obtain n4 s4 where 4: "dprintf ?type [] s3 = Inr (n4, s4)" "editing [] cs s4" "line_frame s s4" by blast
  have "monitor s = (case monitor_loop s4 of None \<Rightarrow> Inl Diverges | Some r \<Rightarrow> r)"
    using 1(1) 2(1) 3(1) 4(1) by (simp only: monitor_def Let_def rbind_simps prod.case)
  then show ?thesis using 4 by blast
qed

text \<open>
  The monitor runs the command that is typed. When the characters that wait in the console's queue
  contain a whole line, the monitor edits it, splits it at its blanks into at most 15 words, and runs the
  command whose name the first word is, in a state where only the display, the line buffer and the
  traffic on the ports have changed and the characters behind the line are left; a command that
  returns is followed by the next prompt.
\<close>

theorem monitor_runs_command:
  assumes "on_screen s" "linebuf_off s" "silent (devs s)" "ring_ok (devs s)" "0 \<notin> set (pending (devs s))"
    "literals_ok s" "loc_linebuf (layout s) \<noteq> 0" "edit [] (pending (devs s)) = Entered line rest"
    "words_of line = w # args" "length args \<le> 14" "lookup_command w = Some c"
  shows "\<exists>t. monitor_loop s = (case run_command (cmd_func c) t of Inl e \<Rightarrow> Some (Inl e)
      | Inr (Switched u) \<Rightarrow> Some (Inr (Switched u)) | Inr (Returned v u) \<Rightarrow> monitor_loop u)
    \<and> line_frame s t \<and> pending (devs t) = rest"
  using monitor_round[OF editing_start[OF assms(1-4)] assms(5-11)] by (auto simp: resume_monitor_def)

lemma kern_main_ok:
  assumes ed: "editing [] cs s" "0 \<notin> set cs" "edit [] cs = Entered line rest"
    "words_of line = chars ''startuser'' # args" "length args \<le> 14"
    and lit: "literals_ok s" "literal_ok ''kern/init/init.c'' s" "loc_linebuf (layout s) \<noteq> 0"
      "loc_lit (layout s) ''kern/lib/monitor.c'' \<noteq> 0"
    and inv: "thread_inv s Q" "get_curid s = 0" "container_can_consume 0 10000 s = 1"
      "container_split 0 10000 s = Inr (child, s0)" "child \<noteq> NUM_IDS"
    and image: "\<And>t. line_frame s t \<Longrightarrow> elf_ok (mem t) (loc_elf (layout s) 0)"
      "\<And>t s1. line_frame s t \<Longrightarrow> proc_create (loc_elf (layout s) 0) 10000 t = Inr (child, s1) \<Longrightarrow>
         \<exists>cs. str_at (mem s1) (loc_lit (layout s) ''kern/lib/monitor.c'') cs"
  shows "\<exists>r. line_frame s r \<and> ((\<exists>t. kern_main s = Inr (Switched t) \<and> first_process r child Q t)
    \<or> kern_main s = Inl Panic \<and> header_lost r child)"
proof -
  let ?i = "loc_lit (layout s) ''kern/init/init.c''"
  have "message (chars ''In kernel main.'' @ [10, 10]) []" by (simp add: chars_def)
  moreover have "?i \<noteq> 0" "str_at (mem s) ?i (chars ''kern/init/init.c'')" "on_screen s"
    using lit(2) ed(1) by (simp_all add: literal_ok_def Let_def editing_def)
  ultimately obtain s1 where s1: "debug_normal ?i 18 (chars ''In kernel main.'' @ [10, 10]) [] s = Inr s1"
    "display_frame s s1" "on_screen s1" using debug_normal_prints by blast
  note e1 = editing_display[OF ed(1) s1(2,3)]
  obtain s2 where s2: "monitor s1 = (case monitor_loop s2 of None \<Rightarrow> Inl Diverges | Some r \<Rightarrow> r)" "line_frame s1 s2" "editing [] cs s2"
    using monitor_banner[OF e1(1)] by blast
  have f2: "line_frame s s2" by (rule line_frame_trans[OF e1(2) s2(2)])
  have "lookup_command (chars ''startuser'') = Some \<lparr>cmd_name = ''startuser'', cmd_desc = ''Start the user idle process'', cmd_func = Startuser\<rparr>"
    by (simp add: lookup_command_def commands_def chars_def)
  from monitor_round[OF s2(3) ed(2) literals_ok_frame[OF f2 lit(1)] _ ed(3,4,5) this] lit(3) line_frame_layout[OF f2]
  obtain r where r: "monitor_loop s2 = resume_monitor (run_command Startuser r)" "line_frame s2 r" "on_screen r" by auto
  have f: "line_frame s r" by (rule line_frame_trans[OF f2 r(2)])
  note th = line_frame_threads[OF f] and ly = line_frame_layout[OF f]
  obtain r0 where sp: "container_split 0 10000 r = Inr (child, r0)" using container_split_same[OF inv(4) th(2)] by blast
  have "kern_main s = monitor s1" using s1(1) by (simp add: kern_main_def)
  also have "\<dots> = (case resume_monitor (run_command Startuser r) of None \<Rightarrow> Inl Diverges | Some r \<Rightarrow> r)" using s2(1) r(1) by simp
  also have "\<dots> = rbind (mon_start_user r) (\<lambda>t. Inr (Switched t))"
    by (cases "mon_start_user r") (simp_all add: run_command_def resume_monitor_def)
  finally have k: "kern_main s = rbind (mon_start_user r) (\<lambda>t. Inr (Switched t))" .
  have "thread_inv r Q" "get_curid r = 0" "container_can_consume 0 10000 r = 1" using inv th by (simp_all add: get_curid_def)
  from mon_start_user_ok[OF this sp inv(5), unfolded ly, OF image(1)[OF f] r(3) lit(4) image(2)[OF f]] show ?thesis
    using f k by auto
qed

text \<open>
  C4: from the kernel's main routine to the first process. In the state after initialisation, with thread 0
  current and able to spare the quota, and with a line that starts with \<^verbatim>\<open>startuser\<close> typed at the console,
  \<^verbatim>\<open>kern_main\<close> prints its messages, the monitor reads and runs the command, and the processor switches
  to a new process created from the idle image: the process is current, its kernel context enters
  \<^verbatim>\<open>proc_start_user\<close>, and that continues in user mode at the image's entry point with the stack at the top of
  user memory. Otherwise loading overwrote the image's own header and the kernel panics. The image
  and the string constants must not lie in the display or in the line buffer.
\<close>

theorem kern_main_starts_user:
  assumes "on_screen s" "linebuf_off s" "silent (devs s)" "ring_ok (devs s)" "0 \<notin> set (pending (devs s))"
    "edit [] (pending (devs s)) = Entered line rest" "words_of line = chars ''startuser'' # args" "length args \<le> 14"
    "literals_ok s" "literal_ok ''kern/init/init.c'' s" "loc_linebuf (layout s) \<noteq> 0"
    "loc_lit (layout s) ''kern/lib/monitor.c'' \<noteq> 0"
    "thread_inv s Q" "get_curid s = 0" "container_can_consume 0 10000 s = 1"
    "container_split 0 10000 s = Inr (child, s0)" "child \<noteq> NUM_IDS"
    "\<And>t. line_frame s t \<Longrightarrow> elf_ok (mem t) (loc_elf (layout s) 0)"
    "\<And>t s1. line_frame s t \<Longrightarrow> proc_create (loc_elf (layout s) 0) 10000 t = Inr (child, s1) \<Longrightarrow>
       \<exists>cs. str_at (mem s1) (loc_lit (layout s) ''kern/lib/monitor.c'') cs"
  shows "\<exists>r. line_frame s r \<and> ((\<exists>t. kern_main s = Inr (Switched t) \<and> first_process r child Q t)
    \<or> kern_main s = Inl Panic \<and> header_lost r child)"
  by (rule kern_main_ok[OF editing_start[OF assms(1-4)] assms(5-19)])

section \<open>Witnesses\<close>

text \<open>
  A machine on which a line has been typed: string constants at 0x121000, an image without segments at
  0x140000, a root container with 10000 pages.
\<close>

definition lits :: "string list" where
  "lits = [''$> '', WHITESPACE, ''help'', ''kerninfo'', ''backtrace'', ''startuser'', ''kern/lib/monitor.c'', ''kern/init/init.c'']"

definition lit_addr :: "string \<Rightarrow> u32" where
  "lit_addr str = 0x121000 + word_of_nat (32 * length (takeWhile (\<lambda>x. x \<noteq> str) lits))"

definition lit_mem :: memory where
  "lit_mem a = (let i = unat (a - 0x121000)
     in if i < 256 then (let cs = chars (lits ! (i div 32)) in if i mod 32 < length cs then cs ! (i mod 32) else 0)
        else elf_example (a - 0x140000))"

definition monitor_example :: "u8 list \<Rightarrow> proc_state" where
  "monitor_example keys = typed keys ((thread_state.extend (thread_example (\<lambda>_. CONTAINER_zero)) \<lparr>uctx_pool = (\<lambda>_. tf_zero)\<rparr>)
     \<lparr>mem := lit_mem, layout := layout_example\<lparr>loc_lit := lit_addr\<rparr>, devs := devs_example\<lparr>crt_buf := CGA_BUF\<rparr>,
      AT := AT (at_example {p. 0x40000 \<le> p \<and> p < 0x42710} {}),
      CONTAINER := (\<lambda>_. CONTAINER_zero)(0 := \<lparr>c_quota = 10000, c_usage = 0, c_parent = 0, c_nchildren = 0, c_used = 1\<rparr>),
      TCBPool := (\<lambda>_. \<lparr>tcb_state = TSTATE_DEAD, tcb_prev = NUM_IDS, tcb_next = NUM_IDS\<rparr>)
        (0 := \<lparr>tcb_state = TSTATE_RUN, tcb_prev = NUM_IDS, tcb_next = NUM_IDS\<rparr>)\<rparr>)"

lemma monitor_example_sel:
  "mem (monitor_example keys) = lit_mem" "layout (monitor_example keys) = layout_example\<lparr>loc_lit := lit_addr\<rparr>"
  "crt_buf (devs (monitor_example keys)) = 0xB8000" "crt_pos (devs (monitor_example keys)) = 0"
  "CURID (monitor_example keys) = 0" "AT (monitor_example keys) = AT (at_example {p. 0x40000 \<le> p \<and> p < 0x42710} {})"
  "CONTAINER (monitor_example keys)
     = (\<lambda>_. CONTAINER_zero)(0 := \<lparr>c_quota = 10000, c_usage = 0, c_parent = 0, c_nchildren = 0, c_used = 1\<rparr>)"
  "TCBPool (monitor_example keys) = (\<lambda>_. \<lparr>tcb_state = TSTATE_DEAD, tcb_prev = NUM_IDS, tcb_next = NUM_IDS\<rparr>)
     (0 := \<lparr>tcb_state = TSTATE_RUN, tcb_prev = NUM_IDS, tcb_next = NUM_IDS\<rparr>)"
  "TQueuePool (monitor_example keys) = (\<lambda>_. \<lparr>tq_head = NUM_IDS, tq_tail = NUM_IDS\<rparr>)"
  by (simp_all add: monitor_example_def typed_def thread_state.defs thread_example_def kctx_state.defs kctx_example_def
      pt_state.defs pt_example_def container_state.defs container_example_def at_state.defs at_example_def devs_example_def CGA_BUF_def)

lemma lits_short: "i < 8 \<Longrightarrow> length (lits ! i) \<le> 18 \<and> 0 \<notin> set (chars (lits ! i))"
proof -
  have "list_all (\<lambda>l. length l \<le> 18 \<and> 0 \<notin> set (chars l)) lits" "length lits = 8"
    by (simp_all add: lits_def WHITESPACE_def chars_def)
  then show "i < 8 \<Longrightarrow> length (lits ! i) \<le> 18 \<and> 0 \<notin> set (chars (lits ! i))" by (simp add: list_all_length)
qed

lemma lit_mem_at:
  assumes "i < 8" "j < 32"
  shows "lit_mem (0x121000 + word_of_nat (32 * i) + word_of_nat j) = (if j < length (lits ! i) then chars (lits ! i) ! j else 0)"
proof -
  have "unat (word_of_nat (32 * i + j) :: u32) = 32 * i + j" using assms by (intro unat_u32) simp
  then have "unat (0x121000 + word_of_nat (32 * i) + word_of_nat j - (0x121000 :: u32)) = 32 * i + j" by simp
  then show ?thesis using assms unfolding lit_mem_def by (simp only: Let_def) (simp add: chars_def)
qed

lemma lit_str: "i < 8 \<Longrightarrow> str_at lit_mem (0x121000 + word_of_nat (32 * i)) (chars (lits ! i))"
  using lits_short[of i] lit_mem_at[of i] by (intro str_at_take) (auto simp: chars_def)

lemma lit_literal:
  assumes "i < 8" "lit_addr str = 0x121000 + word_of_nat (32 * i)" "lits ! i = str"
  shows "literal_ok str (monitor_example keys)"
proof -
  have l: "loc_linebuf (layout (monitor_example keys)) = 0x1B0000" "loc_lit (layout (monitor_example keys)) = lit_addr"
    by (simp_all add: monitor_example_sel layout_example_def)
  have off: "\<not> lit_addr str + word_of_nat j - 0xB8000 < 4000 \<and> \<not> lit_addr str + word_of_nat j - 0x1B0000 < BUFLEN"
    if "j \<le> length str" for j
  proof -
    define n where "n = 32 * i + j"
    have b: "n < 256" using that assms(1,3) lits_short[OF assms(1)] by (auto simp: n_def)
    then have u: "unat (word_of_nat n :: u32) = n" by (intro unat_u32) simp
    have "lit_addr str + word_of_nat j = 0x121000 + word_of_nat n" using assms(2) by (simp add: n_def)
    moreover have "unat (0x121000 + word_of_nat n - 0xB8000 :: u32) = 0x69000 + n"
      using b u unat_add_lem[of "0x69000 :: u32" "word_of_nat n"] by (simp add: diff_add_eq)
    moreover have "unat (0x121000 + word_of_nat n - 0x1B0000 :: u32) = 0xFFF71000 + n"
      using b u by (simp add: diff_add_eq unat_sub_if_size word_size)
    ultimately show ?thesis by (simp add: BUFLEN_def word_less_nat_alt)
  qed
  have "unat (word_of_nat (32 * i) :: u32) = 32 * i" using assms(1) by (intro unat_u32) simp
  then have "unat (lit_addr str) = 0x121000 + 32 * i" using assms(1,2) by (simp add: unat_word_ariths)
  then have "lit_addr str \<noteq> 0" "unat (lit_addr str) + length str < 4294967296"
    using lits_short[OF assms(1)] assms(1,3) by auto
  moreover have "str_at lit_mem (lit_addr str) (chars str)" using lit_str[OF assms(1)] assms(2,3) by simp
  ultimately show ?thesis unfolding literal_ok_def Let_def l monitor_example_sel(1,3) using off by blast
qed

lemma monitor_example_literals: "list_all (\<lambda>str. literal_ok str (monitor_example keys)) lits"
proof -
  have "list_all (\<lambda>i. lit_addr (lits ! i) = 0x121000 + word_of_nat (32 * i)) [0, 1, 2, 3, 4, 5, 6, 7]"
    by (simp add: lit_addr_def lits_def WHITESPACE_def)
  then have "lit_addr (lits ! i) = 0x121000 + word_of_nat (32 * i)" if "i < 8" for i
    using that by (auto simp: list_all_iff less_Suc_eq numeral_eq_Suc)
  moreover have "length lits = 8" by (simp add: lits_def)
  ultimately show ?thesis using lit_literal by (simp add: list_all_length)
qed

lemma monitor_example_console:
  assumes "length keys < 512" "0 \<notin> set keys"
  shows "on_screen (monitor_example keys)" "linebuf_off (monitor_example keys)" "silent (devs (monitor_example keys))"
    "ring_ok (devs (monitor_example keys))" "pending (devs (monitor_example keys)) = keys" "literals_ok (monitor_example keys)"
    "literal_ok ''kern/init/init.c'' (monitor_example keys)" "literal_ok ''kern/lib/monitor.c'' (monitor_example keys)"
    "loc_linebuf (layout (monitor_example keys)) \<noteq> 0"
proof -
  show "on_screen (monitor_example keys)" by (simp add: on_screen_def monitor_example_sel in_space_def video_consts)
  show "linebuf_off (monitor_example keys)" unfolding linebuf_off_def
    by (auto simp: monitor_example_sel layout_example_def BUFLEN_def word_less_nat_alt unat_sub_if_size word_size split: if_splits)
  show "silent (devs (monitor_example keys))" "ring_ok (devs (monitor_example keys))" "pending (devs (monitor_example keys)) = keys"
    unfolding monitor_example_def by (rule typed_waits[OF assms(1)])+
  show "literals_ok (monitor_example keys)" "literal_ok ''kern/init/init.c'' (monitor_example keys)"
    "literal_ok ''kern/lib/monitor.c'' (monitor_example keys)"
    using monitor_example_literals[of keys] by (simp_all add: lits_def literals_ok_def commands_def)
  show "loc_linebuf (layout (monitor_example keys)) \<noteq> 0" by (simp add: monitor_example_sel layout_example_def)
qed

theorem monitor_runs_command_witness:
  "\<exists>t. monitor_loop (monitor_example (chars '' help'' @ [13])) = (case run_command Help t of Inl e \<Rightarrow> Some (Inl e)
      | Inr (Switched u) \<Rightarrow> Some (Inr (Switched u)) | Inr (Returned v u) \<Rightarrow> monitor_loop u)
    \<and> pending (devs t) = []"
proof -
  let ?k = "chars '' help'' @ [13]"
  have k: "length ?k < 512" "0 \<notin> set ?k" by (simp_all add: chars_def)
  note c = monitor_example_console[OF k]
  have e: "edit [] (pending (devs (monitor_example ?k))) = Entered (chars '' help'') []"
    unfolding c(5) by (simp add: chars_def edit_char_def)
  have w: "words_of (chars '' help'') = [chars ''help'']"
    by (simp add: words_of.simps chars_def blank_def)
  have "lookup_command (chars ''help'') = Some \<lparr>cmd_name = ''help'', cmd_desc = ''Display this list of commands'', cmd_func = Help\<rparr>"
    by (simp add: lookup_command_def commands_def)
  from monitor_runs_command[OF c(1-4) _ c(6,9) e w _ this] k(2) show ?thesis unfolding c(5) by auto
qed

lemma card_words: "card {p :: u32. 0x40000 \<le> p \<and> p < 0x42710} = 10000"
proof -
  have "{p :: u32. 0x40000 \<le> p \<and> p < 0x42710} = word_of_nat ` {0x40000..<0x42710}"
    by (auto simp: word_le_nat_alt word_less_nat_alt unat_u32 image_iff intro!: bexI[of _ "unat (_ :: u32)"])
  moreover have "inj_on (word_of_nat :: nat \<Rightarrow> u32) {0x40000..<0x42710}"
    by (rule inj_on_inverseI[of _ unat]) (simp add: unat_u32)
  ultimately show ?thesis by (simp add: card_image)
qed

lemma monitor_example_inv: "thread_inv (monitor_example keys) (\<lambda>_. [])"
proof -
  let ?s = "monitor_example keys"
  have "queues_rep ?s (\<lambda>_. [])" by (simp add: queues_rep_def tq_rep_def monitor_example_sel)
  then have "sched_inv ?s (\<lambda>_. [])"
    by (simp add: sched_inv_def monitor_example_sel TSTATE_RUN_def TSTATE_DEAD_def NUM_IDS_def)
  moreover have "container_inv ?s"
    by (simp add: container_inv_def quota_ok_def tree_ok_def monitor_example_sel CONTAINER_zero_def)
  moreover have "books_balance ?s"
  proof -
    have "avail_pages ?s = {p. 0x40000 \<le> p \<and> p < 0x42710}"
      by (auto simp: avail_pages_def page_free_def page_norm_def page_used_def monitor_example_sel at_example_def
          user_page_def VM_PI_eq intro: order.strict_trans)
    moreover have "charged ?s = 0"
      by (simp add: charged_def monitor_example_sel CONTAINER_zero_def if_distrib cong: if_cong)
    ultimately show ?thesis by (simp add: books_balance_def card_words monitor_example_sel)
  qed
  ultimately show ?thesis by (simp add: thread_inv_def monitor_example_sel)
qed

lemma elf_example_frame:
  assumes "line_frame (monitor_example keys) t"
  shows "elf_ok (mem t) 0x140000" "e_phnum (mem t) 0x140000 = 0" "e_magic (mem t) 0x140000 = ELF_MAGIC"
proof -
  have "\<not> 0x140000 + a - 0xB8000 < 4000 \<and> \<not> 0x140000 + a - 0x1B0000 < BUFLEN \<and> \<not> 0x140000 + a - 0x121000 < (256 :: u32)"
    if "a < 0x1000" for a :: u32
    using that by (auto simp: BUFLEN_def word_less_nat_alt unat_word_ariths unat_sub_if_size word_size split: if_splits)
  then have m: "mem t (0x140000 + a) = elf_example a" if "a < 0x1000" for a
    using assms that by (simp add: line_frame_def monitor_example_sel layout_example_def lit_mem_def word_less_nat_alt Let_def)
  note ld = m[of 0] m[of 1] m[of 2] m[of 3] m[of 32] m[of 33] m[of 34] m[of 35] m[of 44] m[of 45] m[of 50] m[of 51]
    m[of 108] m[of 109] m[of 110] m[of 111]
  show "elf_ok (mem t) 0x140000" "e_phnum (mem t) 0x140000 = 0" "e_magic (mem t) 0x140000 = ELF_MAGIC"
    using ld by (simp_all add: elf_ok_def elf_example_def e_magic_def e_shstrndx_def e_shoff_def e_phnum_def sh_type_def
        load32_def load16_def ELF_MAGIC_def ELF_SHN_UNDEF_def ELF_SHT_STRTAB_def)
qed

lemma elf_example_load:
  assumes "line_frame (monitor_example keys) t" "thread_spawn e c q t = Inr (1, sp)" "elf_load 0x140000 1 sp = Inr sl"
  shows "mem sl = mem t"
proof -
  have "mem sp = mem t" by (rule sched_only_sel(9)[OF sched_only_spawn[OF assms(2)]])
  moreover from this have "sl = sp" using assms(3) elf_example_frame[OF assms(1)]
    by (simp add: elf_load_def elf_ok_def Let_def elf_segments.simps split: if_splits)
  ultimately show ?thesis by simp
qed

theorem kern_main_starts_user_witness:
  "\<exists>t. kern_main (monitor_example (chars ''startuser'' @ [13])) = Inr (Switched t) \<and> get_curid t = 1
     \<and> kc_eip (cpu t) = 0x102000"
proof -
  let ?k = "chars ''startuser'' @ [13]"
  let ?s = "monitor_example ?k"
  have k: "length ?k < 512" "0 \<notin> set ?k" by (simp_all add: chars_def)
  note c = monitor_example_console[OF k]
  have e: "edit [] (pending (devs ?s)) = Entered (chars ''startuser'') []"
    unfolding c(5) by (simp add: chars_def edit_char_def)
  have w: "words_of (chars ''startuser'') = [chars ''startuser'']" by (simp add: words_of.simps chars_def blank_def)
  have z: "0 \<notin> set (pending (devs ?s))" using k(2) unfolding c(5) .
  have cur: "get_curid ?s = 0" by (simp add: get_curid_def monitor_example_sel)
  have can: "container_can_consume 0 10000 ?s = 1" by (simp add: container_can_consume_def monitor_example_sel NUM_IDS_def)
  obtain s0 where sp: "container_split 0 10000 ?s = Inr (1, s0)"
    using first_split[of ?s 10000] by (auto simp: monitor_example_sel)
  have im: "loc_elf (layout ?s) 0 = 0x140000" "loc_proc_start_user (layout ?s) = 0x102000"
    by (simp_all add: monitor_example_sel layout_example_def)
  let ?m = "loc_lit (layout ?s) ''kern/lib/monitor.c''"
  have lm: "?m \<noteq> 0" using c(8) by (simp add: literal_ok_def Let_def)
  have kept: "\<exists>cs. str_at (mem s1) ?m cs" if f: "line_frame ?s t" and p: "proc_create 0x140000 10000 t = Inr (1, s1)" for t s1
  proof -
    from p obtain sp sl where a: "thread_spawn (loc_proc_start_user (layout t)) (get_curid t) 10000 t = Inr (1, sp)"
      "elf_load 0x140000 1 sp = Inr sl" "mem s1 = mem sl"
      by (auto simp: proc_create_def Let_def rbind_eq_Inr upd_uctx_def NUM_IDS_def split: if_splits)
    have "mem s1 = mem t" by (rule trans[OF a(3) elf_example_load[OF f a(1,2)]])
    moreover have "literal_ok ''kern/lib/monitor.c'' t" by (rule literal_ok_frame[OF f c(8)])
    ultimately show ?thesis using line_frame_layout[OF f] by (auto simp: literal_ok_def Let_def)
  qed
  have "\<exists>r. line_frame ?s r \<and> ((\<exists>t. kern_main ?s = Inr (Switched t) \<and> first_process r 1 (\<lambda>_. []) t)
      \<or> kern_main ?s = Inl Panic \<and> header_lost r 1)"
    by (rule kern_main_starts_user[OF c(1-4) z e w _ c(6,7,9) lm monitor_example_inv cur can sp, unfolded im])
      (use elf_example_frame(1) kept in \<open>auto simp: NUM_IDS_def\<close>)
  then obtain r where r: "line_frame ?s r" "(\<exists>t. kern_main ?s = Inr (Switched t) \<and> first_process r 1 (\<lambda>_. []) t)
      \<or> kern_main ?s = Inl Panic \<and> header_lost r 1" by blast
  have ly: "loc_elf (layout r) 0 = 0x140000" "loc_proc_start_user (layout r) = 0x102000" using line_frame_layout[OF r(1)] im by simp_all
  have "\<not> header_lost r 1"
  proof
    assume "header_lost r 1"
    then obtain sp sl where a: "thread_spawn 0x102000 (get_curid r) 10000 r = Inr (1, sp)" "elf_load 0x140000 1 sp = Inr sl"
      "e_magic (mem sl) 0x140000 \<noteq> ELF_MAGIC" unfolding header_lost_def ly by blast
    from a(3) elf_example_frame(3)[OF r(1)] show False unfolding elf_example_load[OF r(1) a(1,2)] by contradiction
  qed
  with r(2) show ?thesis by (auto simp: first_process_def ly)
qed

end
