(* ===== verification/UString.thy ===== *)
theory UString
  imports KPrintf
begin

text \<open>
  The string library of user programs, \<^verbatim>\<open>user/lib/string.c\<close> and \<^verbatim>\<open>user/lib/atoi.c\<close>, over the bytes of
  a program's memory. \<^verbatim>\<open>strnlen\<close>, \<^verbatim>\<open>strcmp\<close>, \<^verbatim>\<open>strncmp\<close>, \<^verbatim>\<open>strchr\<close>, \<^verbatim>\<open>memset\<close>, \<^verbatim>\<open>memmove\<close>, \<^verbatim>\<open>memcpy\<close> and
  \<^verbatim>\<open>memzero\<close> are the same text as in the kernel's library and are in \<^verbatim>\<open>KString\<close>; here are the others.
  An \<^verbatim>\<open>int\<close> and a \<^verbatim>\<open>long\<close> are words of 32 bits, and overflow wraps.
\<close>

section \<open>Copying\<close>

partial_function (option) strlen_loop :: "u32 \<Rightarrow> i32 \<Rightarrow> memory \<Rightarrow> i32 option" where
  "strlen_loop s n m = (if m s \<noteq> 0 then strlen_loop (s + 1) (n + 1) m else Some n)"

definition strlen :: "u32 \<Rightarrow> memory \<Rightarrow> i32 option" where
  "strlen s m = strlen_loop s 0 m"

partial_function (option) strcpy :: "u32 \<Rightarrow> u32 \<Rightarrow> memory \<Rightarrow> memory option" where
  "strcpy dst src m =
     (let c = m src; m = m(dst := c) in if c \<noteq> 0 then strcpy (dst + 1) (src + 1) m else Some m)"

function strncpy_loop :: "u32 \<Rightarrow> u32 \<Rightarrow> u32 \<Rightarrow> u32 \<Rightarrow> memory \<Rightarrow> memory" where
  "strncpy_loop i dst src sz m =
     (if i < sz
      then (let m = m(dst := m src)
            in strncpy_loop (i + 1) (dst + 1) (if m src \<noteq> 0 then src + 1 else src) sz m)
      else m)"
  by pat_completeness auto
termination
  by (relation "measure (\<lambda>(i, dst, src, sz, m). unat (sz - i))") (simp_all add: word_count_down)

declare strncpy_loop.simps [simp del]

definition strncpy :: "u32 \<Rightarrow> u32 \<Rightarrow> u32 \<Rightarrow> memory \<Rightarrow> memory" where
  "strncpy dst src sz m = strncpy_loop 0 dst src sz m"

text \<open>The loop of \<^verbatim>\<open>strlcpy\<close> for a size other than 0: where it ends and the memory there.\<close>

function strlcpy_loop :: "u32 \<Rightarrow> u32 \<Rightarrow> u32 \<Rightarrow> memory \<Rightarrow> u32 \<times> memory" where
  "strlcpy_loop dst src sz m =
     (if sz = 0 then (dst, m)
      else (let sz = sz - 1
            in if sz > 0 \<and> m src \<noteq> 0 then strlcpy_loop (dst + 1) (src + 1) sz (m(dst := m src)) else (dst, m)))"
  by pat_completeness auto
termination
  by (relation "measure (\<lambda>(dst, src, sz, m). unat sz)") (auto, unat_arith)

declare strlcpy_loop.simps [simp del]

definition strlcpy :: "u32 \<Rightarrow> u32 \<Rightarrow> u32 \<Rightarrow> memory \<Rightarrow> u32 \<times> memory" where
  "strlcpy dst src sz m =
     (if sz > 0 then (let (d, m) = strlcpy_loop dst src sz m in (d - dst, m(d := 0))) else (dst - dst, m))"

section \<open>Searching and comparing\<close>

partial_function (option) strfind :: "u32 \<Rightarrow> u8 \<Rightarrow> memory \<Rightarrow> u32 option" where
  "strfind s c m = (if m s = 0 \<or> m s = c then Some s else strfind (s + 1) c m)"

function memcmp :: "u32 \<Rightarrow> u32 \<Rightarrow> u32 \<Rightarrow> memory \<Rightarrow> int" where
  "memcmp s1 s2 n m =
     (if n > 0 then (if m s1 \<noteq> m s2 then byte_diff (m s1) (m s2) else memcmp (s1 + 1) (s2 + 1) (n - 1) m) else 0)"
  by pat_completeness auto
termination
  by (relation "measure (\<lambda>(s1, s2, n, m). unat n)") (auto, unat_arith)

declare memcmp.simps [simp del]

function memchr_loop :: "u32 \<Rightarrow> i32 \<Rightarrow> u32 \<Rightarrow> memory \<Rightarrow> u32" where
  "memchr_loop s c ends m =
     (if s < ends then (if m s = ucast c then s else memchr_loop (s + 1) c ends m) else 0)"
  by pat_completeness auto
termination
  by (relation "measure (\<lambda>(s, c, ends, m). unat (ends - s))") (simp_all add: word_count_down)

declare memchr_loop.simps [simp del]

definition memchr :: "u32 \<Rightarrow> i32 \<Rightarrow> u32 \<Rightarrow> memory \<Rightarrow> u32" where
  "memchr s c n m = memchr_loop s c (s + n) m"

section \<open>Numbers\<close>

partial_function (option) skip_blanks :: "u32 \<Rightarrow> memory \<Rightarrow> u32 option" where
  "skip_blanks s m = (if m s = 32 \<or> m s = 9 then skip_blanks (s + 1) m else Some s)"

text \<open>The value of a digit or letter; bytes from 128 on are negative characters and are none.\<close>

definition digit_of :: "u8 \<Rightarrow> i32 option" where
  "digit_of c = (if 48 \<le> c \<and> c \<le> 57 then Some (ucast c - 48)
     else if 97 \<le> c \<and> c \<le> 122 then Some (ucast c - 97 + 10)
     else if 65 \<le> c \<and> c \<le> 90 then Some (ucast c - 65 + 10) else None)"

partial_function (option) strtol_digits :: "u32 \<Rightarrow> i32 \<Rightarrow> i32 \<Rightarrow> memory \<Rightarrow> (i32 \<times> u32) option" where
  "strtol_digits s val bs m =
     (case digit_of (m s) of
        None \<Rightarrow> Some (val, s)
      | Some dig \<Rightarrow> if word_sle bs dig then Some (val, s) else strtol_digits (s + 1) (val * bs + dig) bs m)"

text \<open>The value and the address that is stored through \<^verbatim>\<open>endptr\<close>.\<close>

definition strtol :: "u32 \<Rightarrow> i32 \<Rightarrow> memory \<Rightarrow> (i32 \<times> u32) option" where
  "strtol s bs m =
     Option.bind (skip_blanks s m) (\<lambda>s.
     let (s, neg) = (if m s = 43 then (s + 1, False) else if m s = 45 then (s + 1, True) else (s, False));
         (s, bs) = (if (bs = 0 \<or> bs = 16) \<and> m s = 48 \<and> m (s + 1) = 120 then (s + 2, 16)
                    else if bs = 0 \<and> m s = 48 then (s + 1, 8)
                    else if bs = 0 then (s, 10) else (s, bs))
     in Option.bind (strtol_digits s 0 bs m) (\<lambda>(val, s). Some (if neg then - val else val, s)))"

text \<open>\<^verbatim>\<open>atoi\<close>: the characters used and the number, if there is one to store.\<close>

partial_function (option) atoi_digits :: "u32 \<Rightarrow> i32 \<Rightarrow> i32 \<Rightarrow> memory \<Rightarrow> (i32 \<times> i32) option" where
  "atoi_digits buf loc acc m =
     (let c = m (buf + loc)
      in if 48 \<le> c \<and> c \<le> 57 then atoi_digits buf (loc + 1) (acc * 10 + (ucast c - 48)) m else Some (loc, acc))"

definition atoi :: "u32 \<Rightarrow> memory \<Rightarrow> (i32 \<times> i32 option) option" where
  "atoi buf m =
     (let (numstart, negative) = (if m buf = 43 then (1, False) else if m buf = 45 then (1, True) else (0, False))
      in Option.bind (atoi_digits buf numstart 0 m) (\<lambda>(loc, acc).
         if numstart = loc then Some (0, None) else Some (loc, Some (if negative then - acc else acc))))"

section \<open>Strings\<close>

lemma strlen_eq: "str_at m p xs \<Longrightarrow> strlen p m = Some (word_of_nat (length xs))"
proof -
  have "str_at m p xs \<Longrightarrow> strlen_loop p n m = Some (n + word_of_nat (length xs))" for n
    by (induction xs arbitrary: p n) (subst strlen_loop.simps, simp add: algebra_simps)+
  then show "str_at m p xs \<Longrightarrow> strlen p m = Some (word_of_nat (length xs))" by (simp add: strlen_def)
qed

lemma apart_step: "apart dst (Suc n) src (Suc k) \<Longrightarrow> apart (dst + 1) n (src + 1) k"
proof -
  assume a: "apart dst (Suc n) src (Suc k)"
  have "dst + 1 + word_of_nat i \<noteq> src + 1 + word_of_nat j" if "i < n" "j \<le> k" for i j
    using a[unfolded apart_def, rule_format, of "Suc i" "Suc j"] that by (simp add: algebra_simps)
  then show ?thesis by (simp add: apart_def)
qed

lemma strlcpy_loop_eq:
  assumes "str_at m src xs" "sz > 0" "apart dst (unat sz) src (length xs)"
  shows "strlcpy_loop dst src sz m = (dst + word_of_nat (min (unat sz - 1) (length xs)),
     \<lambda>a. if unat (a - dst) < min (unat sz - 1) (length xs) then xs ! unat (a - dst) else m a)"
  using assms
proof (induction xs arbitrary: dst src sz m)
  case Nil
  then show ?case by (subst strlcpy_loop.simps) simp
next
  case (Cons x xs)
  show ?case
  proof (cases "sz - 1 > 0")
    case True
    have sz: "unat sz = Suc (unat (sz - 1))" using Cons.prems(2) by unat_arith
    let ?m = "m(dst := x)"
    have ap: "apart (dst + 1) (unat (sz - 1)) (src + 1) (length xs)"
      using Cons.prems(3) sz by (intro apart_step) simp
    have "dst \<noteq> src + 1 + word_of_nat j" if "j \<le> length xs" for j
      using Cons.prems(3)[unfolded apart_def, rule_format, of 0 "Suc j"] sz that by (simp add: algebra_simps)
    then have "str_at ?m (src + 1) xs = str_at m (src + 1) xs" by (intro str_at_cong) (metis fun_upd_other)
    then have st: "str_at ?m (src + 1) xs" using Cons.prems(1) by simp
    let ?k = "min (unat (sz - 1) - 1) (length xs)"
    have k: "min (unat sz - 1) (length (x # xs)) = Suc ?k" using True sz by (auto simp: min_def word_less_nat_alt)
    have kb: "?k < 4294967296" using unat_u32_less[of "sz - 1"] by simp
    have ev: "(if unat (a - (dst + 1)) < ?k then xs ! unat (a - (dst + 1)) else ?m a)
        = (if unat (a - dst) < Suc ?k then (x # xs) ! unat (a - dst) else m a)" for a
    proof (cases "a = dst")
      case True
      then have "\<not> unat (a - (dst + 1)) < ?k" using offset_self[OF kb, of dst] by (simp only: not_False_eq_True)
      then show ?thesis using True by (simp only: if_False) simp
    next
      case False
      moreover have "unat d = Suc (unat (d - 1))" if "d \<noteq> 0" for d :: u32 using that by unat_arith
      ultimately have "unat (a - dst) = Suc (unat (a - (dst + 1)))" by (simp add: diff_diff_eq[symmetric])
      then show ?thesis using False by simp
    qed
    have "strlcpy_loop dst src sz m = strlcpy_loop (dst + 1) (src + 1) (sz - 1) ?m"
      using True Cons.prems(1,2) by (subst strlcpy_loop.simps) auto
    then show ?thesis unfolding k Cons.IH[OF st True ap] ev by simp
  next
    case False
    then have "unat sz = 1" using Cons.prems(2) by unat_arith
    then show ?thesis using False Cons.prems(2) by (subst strlcpy_loop.simps) simp
  qed
qed

text \<open>
  \<^verbatim>\<open>strlcpy\<close> stays within its size. For a source string that the destination does not overlap, it
  leaves the longest prefix that fits together with the terminating 0, returns the prefix's length, and
  writes no byte outside the given size.
\<close>

theorem strlcpy_bounded:
  assumes "str_at m src xs" "sz > 0" "apart dst (unat sz) src (length xs)"
  shows "\<exists>m'. strlcpy dst src sz m = (word_of_nat (min (unat sz - 1) (length xs)), m')
    \<and> str_at m' dst (take (unat sz - 1) xs) \<and> (\<forall>a. \<not> a - dst < sz \<longrightarrow> m' a = m a)"
proof -
  let ?k = "min (unat sz - 1) (length xs)" and ?ys = "take (unat sz - 1) xs"
  let ?m = "(\<lambda>a. if unat (a - dst) < ?k then xs ! unat (a - dst) else m a)(dst + word_of_nat ?k := 0)"
  have run: "strlcpy dst src sz m = (word_of_nat ?k, ?m)"
    using strlcpy_loop_eq[OF assms] assms(2) by (simp add: strlcpy_def del: min_less_iff_conj)
  have kb: "?k < unat sz" "unat sz < 4294967296" using assms(2) unat_u32_less[of sz] by (auto simp: word_less_nat_alt min_def)
  have un: "unat (word_of_nat i :: u32) = i" if "i \<le> ?k" for i using that kb by (intro unat_u32) linarith
  have ne: "dst + word_of_nat i \<noteq> dst + word_of_nat ?k" if "i < ?k" for i
    using un[of i] un[of ?k] that by auto
  have "str_at ?m dst ?ys"
  proof (rule str_at_take)
    show "0 \<notin> set ?ys" using str_at_nonzero[OF assms(1)] by (auto dest: in_set_takeD)
    show "?m (dst + word_of_nat i) = ?ys ! i" if "i < length ?ys" for i
      using ne[of i] un[of i] that by (simp add: min.commute)
  qed (simp add: min.commute)
  moreover have "?m a = m a" if "\<not> a - dst < sz" for a
  proof -
    have "unat sz \<le> unat (a - dst)" using that by (simp add: word_less_nat_alt)
    moreover from this have "a \<noteq> dst + word_of_nat ?k" using un[of ?k] kb by auto
    moreover have "\<not> unat (a - dst) < ?k" using calculation(1) kb(1) by linarith
    ultimately show ?thesis by (simp only: fun_upd_apply if_False)
  qed
  ultimately show ?thesis using run by blast
qed

theorem strlcpy_bounded_witness:
  "\<exists>m'. strlcpy 0x200 0x100 3 ((\<lambda>_. 0)(0x100 := 104, 0x101 := 105, 0x102 := 33)) = (2, m')
     \<and> str_at m' 0x200 [104, 105]"
proof -
  let ?m = "(\<lambda>_. 0)(0x100 := 104, 0x101 := 105, 0x102 := 33) :: memory"
  have s: "str_at ?m 0x100 [104, 105, 33]" by simp
  have "apart 0x200 (unat (3 :: u32)) 0x100 (length [104, 105, 33 :: u8])" by (rule apart_above) simp_all
  from strlcpy_bounded[OF s _ this] show ?thesis by auto
qed

section \<open>Reading numbers\<close>

lemma digit_of_char:
  assumes "d < 16"
  shows "digit_of (digit_char d) = Some (word_of_nat d)" "digit_char d \<noteq> 120" "digit_char d \<notin> {9, 32, 43, 45}"
proof -
  note u = unat_digit_char[OF assms]
  have "(ucast (digit_char d) :: i32) = word_of_nat (unat (digit_char d))" by simp
  then show "digit_of (digit_char d) = Some (word_of_nat d)"
    using assms by (simp add: u digit_of_def word_le_nat_alt del: of_nat_unat)
  show "digit_char d \<noteq> 120" "digit_char d \<notin> {9, 32, 43, 45}" using u assms by (auto split: if_splits)
qed

text \<open>The digits of a number, most significant first, as \<^verbatim>\<open>printnum\<close> prints them without a width.\<close>

lemma printnum_digits:
  assumes "2 \<le> bs" "bs \<le> 16" "w \<le> 1"
  shows "\<exists>ds. printnum num bs w pc = map digit_char ds \<and> ds \<noteq> [] \<and> (\<forall>d\<in>set ds. d < unat bs)
    \<and> foldl (\<lambda>v d. v * unat bs + d) 0 ds = unat num"
  using assms
proof (induction num bs w pc rule: printnum.induct)
  case (1 num bs w pc)
  have b: "2 \<le> unat bs" "bs > 1" using "1.prems"(1) by (simp_all add: word_le_nat_alt word_less_nat_alt)
  have d: "unat (num mod bs) < unat bs" using b by (simp add: unat_mod)
  show ?case
  proof (cases "num \<ge> bs")
    case True
    obtain ds where ds: "printnum (num div bs) bs (w - 1) pc = map digit_char ds" "\<forall>d\<in>set ds. d < unat bs"
      "foldl (\<lambda>v d. v * unat bs + d) 0 ds = unat (num div bs)"
      using "1.IH"[OF conjI[OF True b(2)]] "1.prems" by auto
    then show ?thesis using True b d
      by (intro exI[of _ "ds @ [unat (num mod bs)]"]) (subst printnum.simps, auto simp: unat_div unat_mod)
  next
    case False
    then have "unat num < unat bs" by (simp add: word_le_nat_alt)
    then show ?thesis using False d "1.prems"(3)
      by (intro exI[of _ "[unat (num mod bs)]"]) (subst printnum.simps, auto simp: unat_mod)
  qed
qed

lemma strtol_digits_eq:
  assumes "2 \<le> b" "b \<le> 16" "\<forall>d\<in>set ds. d < b" "str_at m p (map digit_char ds)"
  shows "strtol_digits p v (word_of_nat b) m
    = Some (foldl (\<lambda>v d. v * word_of_nat b + word_of_nat d) v ds, p + word_of_nat (length ds))"
  using assms(3,4)
proof (induction ds arbitrary: p v)
  case Nil
  then show ?case by (subst strtol_digits.simps) (simp add: digit_of_def)
next
  case (Cons d ds)
  have d: "d < 16" "d < b" using Cons.prems(1) assms(2) by auto
  have "sint (word_of_nat k :: i32) = int k" if "k \<le> 16" for k
    using that by (simp add: sint_uint signed_take_bit_int_eq_self uint_nat unat_u32)
  then have "\<not> word_sle (word_of_nat b :: i32) (word_of_nat d)" using d assms(2) by (simp add: word_sle_eq)
  then show ?case using Cons digit_of_char(1)[OF d(1)] by (subst strtol_digits.simps) (simp add: algebra_simps)
qed

lemma foldl_of_nat:
  "foldl (\<lambda>v d. v * word_of_nat b + word_of_nat d) (word_of_nat n) ds = (word_of_nat (foldl (\<lambda>v d. v * b + d) n ds) :: i32)"
proof (induction ds arbitrary: n)
  case (Cons d ds)
  have "foldl (\<lambda>v d. v * word_of_nat b + word_of_nat d) (word_of_nat (n * b + d)) ds
      = (word_of_nat (foldl (\<lambda>v d. v * b + d) (n * b + d) ds) :: i32)" by (rule Cons)
  then show ?case by simp
qed simp

text \<open>
  C40: \<^verbatim>\<open>strtol\<close> reads what the formatted output writes. The text of a 32-bit number in base 8, 10 or 16, with
  a 0 behind it, is read back as the number, all of it.
\<close>

theorem strtol_reads_printnum:
  assumes "bs \<in> {8, 10, 16}" "num < 0x100000000" "str_at m p (printnum num bs (-1) 32)"
  shows "strtol p (ucast bs) m = Some (ucast num, p + word_of_nat (length (printnum num bs (-1) 32)))"
proof -
  have b: "2 \<le> bs" "bs \<le> 16" "2 \<le> unat bs" "unat bs \<le> 16" "ucast bs \<noteq> (0 :: i32)" using assms(1) by auto
  obtain ds where ds: "printnum num bs (-1) 32 = map digit_char ds" "ds \<noteq> []" "\<forall>d\<in>set ds. d < unat bs"
    "foldl (\<lambda>v d. v * unat bs + d) 0 ds = unat num" using printnum_digits[OF b(1,2), of "-1" num 32] by auto
  then obtain d e where de: "ds = d # e" by (cases ds) auto
  have d16: "x < 16" if "x \<in> set ds" for x using ds(3) b(4) that by fastforce
  have st: "str_at m p (map digit_char ds)" using assms(3) ds(1) by simp
  have first: "m p \<notin> {9, 32, 43, 45}" using st de digit_of_char(3)[OF d16, of d] by auto
  have second: "m (p + 1) \<noteq> 120"
    using st de digit_of_char(2)[OF d16, of "hd e"] by (cases e) auto
  have dig: "strtol_digits p 0 (ucast bs) m = Some (ucast num, p + word_of_nat (length ds))"
    using strtol_digits_eq[OF b(3,4) ds(3) st, of 0] foldl_of_nat[of "unat bs" 0 ds] ds(4) by simp
  have "skip_blanks p m = Some p" using first by (subst skip_blanks.simps) simp
  then show ?thesis using first second dig b(5) ds(1) by (simp add: strtol_def)
qed

theorem strtol_reads_printnum_witness:
  "strtol 0x100 16 ((\<lambda>_. 0)(0x100 := 102, 0x101 := 51)) = Some (243, 0x102)"
proof -
  have p: "printnum 243 16 (-1) 32 = [102, 51]" by (simp add: printnum.simps digit_char_def)
  then have "str_at ((\<lambda>_. 0)(0x100 := 102, 0x101 := 51)) 0x100 (printnum 243 16 (-1) 32)" by simp
  from strtol_reads_printnum[OF _ _ this] show ?thesis by (simp add: p)
qed

end
