(* ===== verification/UPrintf.thy ===== *)
theory UPrintf
  imports UString
begin

text \<open>
  Formatted output of user programs: \<^verbatim>\<open>user/lib/printfmt.c\<close>, \<^verbatim>\<open>printf.c\<close> and \<^verbatim>\<open>debug.c\<close>. Formatting calls
  a routine \<^verbatim>\<open>putch\<close> for every character, on a state \<^verbatim>\<open>putdat\<close> which may hold the memory that later
  arguments are read from; here these are the arguments \<open>put\<close> and \<open>rd\<close>. Scanning an escape sequence and
  printing a number read no memory and are the same text as in the kernel (\<^verbatim>\<open>KPrintf\<close>). Formats and
  argument lists are represented as there.
\<close>

section \<open>Formatting\<close>

text \<open>The loop over the characters of a string argument, with what is left of the width.\<close>

partial_function (option) put_string ::
  "(u8 \<Rightarrow> 's \<Rightarrow> 's) \<Rightarrow> ('s \<Rightarrow> memory) \<Rightarrow> bool \<Rightarrow> u32 \<Rightarrow> int \<Rightarrow> int \<Rightarrow> 's \<Rightarrow> (int \<times> 's) option" where
  "put_string put rd alt p prec w s =
     (let ch = rd s p
      in if ch \<noteq> 0 \<and> (prec < 0 \<or> prec - 1 \<ge> 0)
         then put_string put rd alt (p + 1) (if prec < 0 then prec else prec - 1) (w - 1) (put (string_char alt ch) s)
         else Some (w, s))"

text \<open>
  The case of a string. What \<^verbatim>\<open>strnlen(p, precision)\<close> counts are the characters of \<^const>\<open>string_arg\<close>; the text of
  a null pointer is a constant.
\<close>

definition format_string ::
  "(u8 \<Rightarrow> 's \<Rightarrow> 's) \<Rightarrow> ('s \<Rightarrow> memory) \<Rightarrow> flags \<Rightarrow> u32 \<Rightarrow> 's \<Rightarrow> 's res" where
  "format_string put rd f p s =
     (if p = 0 then rbind (string_arg (rd s) 0 (precision f)) (\<lambda>cs. Inr (fold put (convert_string f cs) s))
      else rbind (if width f > 0 \<and> padc f \<noteq> 45
                  then rbind (string_arg (rd s) p (precision f)) (\<lambda>cs.
                       let w = width f - int (length cs)
                       in Inr (min w 0, fold put (replicate (nat w) (padc f)) s))
                  else Inr (width f, s)) (\<lambda>(w, s).
           case put_string put rd (altflag f) p (precision f) w s of
             None \<Rightarrow> Inl Diverges
           | Some (w, s) \<Rightarrow> Inr (fold put (replicate (nat w) 32) s)))"

text \<open>
  The conversions. \<^verbatim>\<open>SOL\<close> is not defined, so \<^verbatim>\<open>%o\<close> prints three letters and takes no argument; the
  cases other than this and the string are the kernel's and read no memory.
\<close>

definition convert_user ::
  "(u8 \<Rightarrow> 's \<Rightarrow> 's) \<Rightarrow> ('s \<Rightarrow> memory) \<Rightarrow> u8 \<Rightarrow> flags \<Rightarrow> u32 list \<Rightarrow> 's \<Rightarrow> ('s \<times> u32 list) option res" where
  "convert_user put rd ch f ap s =
     (if ch = 111 then Inr (Some (put 88 (put 88 (put 88 s)), ap))
      else if ch = 115
      then rbind (va_word ap) (\<lambda>(p, ap'). rbind (format_string put rd f p s) (\<lambda>s. Inr (Some (s, ap'))))
      else rbind (convert (rd s) ch f ap) (\<lambda>r. Inr (map_option (\<lambda>(cs, ap'). (fold put cs s, ap')) r)))"

function vprintfmt_user ::
  "(u8 \<Rightarrow> 's \<Rightarrow> 's) \<Rightarrow> ('s \<Rightarrow> memory) \<Rightarrow> u8 list \<Rightarrow> u32 list \<Rightarrow> 's \<Rightarrow> 's res" where
  "vprintfmt_user put rd fmt ap s =
     (case fmt of
        [] \<Rightarrow> Inr s
      | c # rest \<Rightarrow>
          if c = 0 then Inr s
          else if c \<noteq> 37 then vprintfmt_user put rd rest ap (put c s)
          else rbind (reswitch rest flags0 ap) (\<lambda>(ch, rest', f, ap1).
               rbind (convert_user put rd ch f ap1 s) (\<lambda>r. case r of
                 None \<Rightarrow> vprintfmt_user put rd rest ap1 (put 37 s)
               | Some (s', ap2) \<Rightarrow> vprintfmt_user put rd rest' ap2 s')))"
  by pat_completeness auto
termination
  by (relation "measure (\<lambda>(put, rd, fmt, ap, s). length fmt)") (auto simp: less_Suc_eq_le intro: reswitch_length)

declare vprintfmt_user.simps [simp del]

definition printfmt ::
  "(u8 \<Rightarrow> 's \<Rightarrow> 's) \<Rightarrow> ('s \<Rightarrow> memory) \<Rightarrow> u8 list \<Rightarrow> u32 list \<Rightarrow> 's \<Rightarrow> 's res" where
  "printfmt put rd fmt ap s = vprintfmt_user put rd fmt ap s"

section \<open>Into a string\<close>

record sprintbuf =
  buf :: u32
  ebuf :: u32
  cnt :: i32

definition sprintputch :: "u8 \<Rightarrow> memory \<times> sprintbuf \<Rightarrow> memory \<times> sprintbuf" where
  "sprintputch ch = (\<lambda>(m, b).
     let b = b\<lparr>cnt := cnt b + 1\<rparr>
     in if buf b < ebuf b then (m(buf b := ch), b\<lparr>buf := buf b + 1\<rparr>) else (m, b))"

definition vsprintf :: "u32 \<Rightarrow> u8 list \<Rightarrow> u32 list \<Rightarrow> memory \<Rightarrow> (i32 \<times> memory) res" where
  "vsprintf bf fmt ap m =
     rbind (vprintfmt_user sprintputch fst fmt ap (m, \<lparr>buf = bf, ebuf = NOT 0, cnt = 0\<rparr>))
       (\<lambda>(m, b). Inr (cnt b, m(buf b := 0)))"

definition sprintf :: "u32 \<Rightarrow> u8 list \<Rightarrow> u32 list \<Rightarrow> memory \<Rightarrow> (i32 \<times> memory) res" where
  "sprintf bf fmt ap m = vsprintf bf fmt ap m"

definition vsnprintf :: "u32 \<Rightarrow> i32 \<Rightarrow> u8 list \<Rightarrow> u32 list \<Rightarrow> memory \<Rightarrow> (i32 \<times> memory) res" where
  "vsnprintf bf n fmt ap m =
     rbind (vprintfmt_user sprintputch fst fmt ap (m, \<lparr>buf = bf, ebuf = bf + n - 1, cnt = 0\<rparr>))
       (\<lambda>(m, b). Inr (cnt b, m(buf b := 0)))"

definition snprintf :: "u32 \<Rightarrow> i32 \<Rightarrow> u8 list \<Rightarrow> u32 list \<Rightarrow> memory \<Rightarrow> (i32 \<times> memory) res" where
  "snprintf bf n fmt ap m = vsnprintf bf n fmt ap m"

section \<open>To the console\<close>

text \<open>
  What a program asks of the kernel: the text at the address and of the length that a \<^verbatim>\<open>puts\<close> call
  passes, or a yield. The kernel's side of the calls is in \<^verbatim>\<open>TSyscall\<close>.
\<close>

datatype ucall = UPuts "u8 list" | UYield

record user =
  umem :: memory
  calls :: "ucall list"

definition puts :: "u32 \<Rightarrow> u32 \<Rightarrow> user \<Rightarrow> user" where
  "puts s len u = u\<lparr>calls := calls u @ [UPuts (map (\<lambda>i. umem u (s + word_of_nat i)) [0..<unat len])]\<rparr>"

definition yield :: "user \<Rightarrow> user" where
  "yield u = u\<lparr>calls := calls u @ [UYield]\<rparr>"

definition MAX_BUF :: u32 where "MAX_BUF = 512"

text \<open>The fields \<^verbatim>\<open>idx\<close> and \<^verbatim>\<open>cnt\<close> of \<^verbatim>\<open>struct printbuf\<close>; its field \<^verbatim>\<open>buf\<close> lies in memory at the address \<open>b\<close>.\<close>

record printbuf =
  idx :: i32
  total :: i32

definition putch_user :: "u32 \<Rightarrow> u8 \<Rightarrow> user \<times> printbuf \<Rightarrow> user \<times> printbuf" where
  "putch_user b ch = (\<lambda>(u, pb).
     let u = u\<lparr>umem := (umem u)(b + idx pb := ch)\<rparr>;
         pb = pb\<lparr>idx := idx pb + 1\<rparr>;
         (u, pb) = (if idx pb = MAX_BUF - 1
                    then (puts b (idx pb) (u\<lparr>umem := (umem u)(b + idx pb := 0)\<rparr>), pb\<lparr>idx := 0\<rparr>)
                    else (u, pb))
     in (u, pb\<lparr>total := total pb + 1\<rparr>))"

definition vcprintf :: "u32 \<Rightarrow> u8 list \<Rightarrow> u32 list \<Rightarrow> user \<Rightarrow> (i32 \<times> user) res" where
  "vcprintf b fmt ap u =
     rbind (vprintfmt_user (putch_user b) (umem \<circ> fst) fmt ap (u, \<lparr>idx = 0, total = 0\<rparr>)) (\<lambda>(u, pb).
     Inr (total pb, puts b (idx pb) (u\<lparr>umem := (umem u)(b + idx pb := 0)\<rparr>)))"

definition printf :: "u32 \<Rightarrow> u8 list \<Rightarrow> u32 list \<Rightarrow> user \<Rightarrow> (i32 \<times> user) res" where
  "printf b fmt ap u = vcprintf b fmt ap u"

text \<open>\<^verbatim>\<open>debug.c\<close>. After its messages \<^verbatim>\<open>panic\<close> yields for ever; \<open>panic b file line fmt ap n\<close> is the state after \<open>n\<close> yields.\<close>

definition debug :: "u32 \<Rightarrow> u32 \<Rightarrow> i32 \<Rightarrow> u8 list \<Rightarrow> u32 list \<Rightarrow> user \<Rightarrow> user res" where
  "debug b file line fmt ap u =
     rbind (printf b (chars ''[D] %s:%d: '') [file, line] u) (\<lambda>(_, u).
     rbind (vcprintf b fmt ap u) (\<lambda>(_, u). Inr u))"

definition warn :: "u32 \<Rightarrow> u32 \<Rightarrow> i32 \<Rightarrow> u8 list \<Rightarrow> u32 list \<Rightarrow> user \<Rightarrow> user res" where
  "warn b file line fmt ap u =
     rbind (printf b (chars ''[W] %s:%d: '') [file, line] u) (\<lambda>(_, u).
     rbind (vcprintf b fmt ap u) (\<lambda>(_, u). Inr u))"

definition panic :: "u32 \<Rightarrow> u32 \<Rightarrow> i32 \<Rightarrow> u8 list \<Rightarrow> u32 list \<Rightarrow> nat \<Rightarrow> user \<Rightarrow> user res" where
  "panic b file line fmt ap n u =
     rbind (printf b (chars ''[P] %s:%d: '') [file, line] u) (\<lambda>(_, u).
     rbind (vcprintf b fmt ap u) (\<lambda>(_, u). Inr ((yield ^^ n) u)))"

section \<open>The text that is printed\<close>

text \<open>
  The reference: the characters in the order in which they are printed, where \<open>str\<close> gives the text
  of a string argument.
\<close>

definition convert_text ::
  "(u32 \<Rightarrow> int \<Rightarrow> u8 list res) \<Rightarrow> u8 \<Rightarrow> flags \<Rightarrow> u32 list \<Rightarrow> (u8 list \<times> u32 list) option res" where
  "convert_text str ch f ap =
     (if ch = 111 then Inr (Some ([88, 88, 88], ap))
      else if ch = 115
      then rbind (va_word ap) (\<lambda>(p, ap'). rbind (str p (precision f)) (\<lambda>cs. Inr (Some (convert_string f cs, ap'))))
      else convert (\<lambda>_. 0) ch f ap)"

function format_text :: "(u32 \<Rightarrow> int \<Rightarrow> u8 list res) \<Rightarrow> u8 list \<Rightarrow> u32 list \<Rightarrow> u8 list res" where
  "format_text str fmt ap =
     (case fmt of
        [] \<Rightarrow> Inr []
      | c # rest \<Rightarrow>
          if c = 0 then Inr []
          else if c \<noteq> 37 then rbind (format_text str rest ap) (\<lambda>out. Inr (c # out))
          else rbind (reswitch rest flags0 ap) (\<lambda>(ch, rest', f, ap1).
               rbind (convert_text str ch f ap1) (\<lambda>r. case r of
                 None \<Rightarrow> rbind (format_text str rest ap1) (\<lambda>out. Inr (37 # out))
               | Some (cs, ap2) \<Rightarrow> rbind (format_text str rest' ap2) (\<lambda>out. Inr (cs @ out)))))"
  by pat_completeness auto
termination
  by (relation "measure (\<lambda>(str, fmt, ap). length fmt)") (auto simp: less_Suc_eq_le intro: reswitch_length)

declare format_text.simps [simp del]

text \<open>String arguments that lie, with the byte behind them, outside a region; others are refused.\<close>

definition strings_off :: "(u32 \<Rightarrow> bool) \<Rightarrow> memory \<Rightarrow> u32 \<Rightarrow> int \<Rightarrow> u8 list res" where
  "strings_off A m p prec =
     rbind (string_arg m p prec) (\<lambda>cs.
     if p \<noteq> 0 \<and> (\<exists>i\<in>set [0..<Suc (length cs)]. A (p + word_of_nat i)) then Inl OutOfBounds else Inr cs)"

text \<open>The characters of a string argument as they lie in memory, from the address on.\<close>

fun text_at :: "memory \<Rightarrow> u32 \<Rightarrow> int \<Rightarrow> u8 list \<Rightarrow> bool" where
  "text_at m p prec [] \<longleftrightarrow> m p = 0 \<or> prec = 0"
| "text_at m p prec (x # xs) \<longleftrightarrow>
     m p = x \<and> x \<noteq> 0 \<and> prec \<noteq> 0 \<and> text_at m (p + 1) (if prec < 0 then prec else prec - 1) xs"

lemma text_at_neg: "prec < 0 \<Longrightarrow> text_at m p prec cs \<longleftrightarrow> str_at m p cs"
  by (induction cs arbitrary: p) auto

lemma text_at_takeWhile:
  "takeWhile (\<lambda>c. c \<noteq> 0) (map (\<lambda>i. m (p + word_of_nat i)) [0..<n]) = cs \<longleftrightarrow> text_at m p (int n) cs"
proof (induction n arbitrary: p cs)
  case 0
  then show ?case by (cases cs) auto
next
  case (Suc n)
  have "map (\<lambda>i. m (p + word_of_nat i)) [0..<Suc n] = m p # map (\<lambda>i. m (p + 1 + word_of_nat i)) [0..<n]"
    by (simp add: upt_conv_Cons map_Suc_upt[symmetric] add.assoc del: upt_Suc)
  then show ?case using Suc[of "p + 1" "tl cs"] by (cases cs) auto
qed

lemma string_arg_text_at: "p \<noteq> 0 \<Longrightarrow> string_arg m p prec = Inr cs \<longleftrightarrow> text_at m p prec cs"
  using text_at_takeWhile[of m p "nat prec" cs]
  by (auto simp: string_arg_def text_at_neg cstring_str_at[symmetric] split: option.splits)

lemma text_at_cong:
  "(\<And>j. j \<le> length cs \<Longrightarrow> m' (p + word_of_nat j) = m (p + word_of_nat j)) \<Longrightarrow> text_at m' p prec cs = text_at m p prec cs"
proof (induction cs arbitrary: p prec)
  case (Cons c cs)
  have "text_at m' (p + 1) k cs = text_at m (p + 1) k cs" for k
    using Cons.prems[of "Suc j" for j] by (intro Cons.IH) (simp add: algebra_simps)
  with Cons.prems[of 0] show ?case by simp
qed simp

lemma convert_no_string: "ch \<noteq> 115 \<Longrightarrow> convert m ch f ap = convert m' ch f ap"
  unfolding convert_def by (simp only: if_False)

section \<open>Formatting prints this text\<close>

text \<open>
  What formatting relies on of \<^verbatim>\<open>putch\<close>: an invariant of the state behind \<^verbatim>\<open>putdat\<close>, under which every call
  leaves the memory outside a region alone.
\<close>

locale printer =
  fixes put :: "u8 \<Rightarrow> 's \<Rightarrow> 's" and rd :: "'s \<Rightarrow> memory" and ok :: "'s \<Rightarrow> bool" and A :: "u32 \<Rightarrow> bool"
  assumes put_ok: "ok s \<Longrightarrow> ok (put c s)"
    and put_keeps: "ok s \<Longrightarrow> \<not> A a \<Longrightarrow> rd (put c s) a = rd s a"
begin

lemma fold_ok: "ok s \<Longrightarrow> ok (fold put cs s)"
  by (induction cs arbitrary: s) (simp_all add: put_ok)

lemma fold_keeps: "ok s \<Longrightarrow> \<not> A a \<Longrightarrow> rd (fold put cs s) a = rd s a"
  by (induction cs arbitrary: s) (simp_all add: put_ok put_keeps)

lemma put_string_text:
  assumes "ok s" "text_at (rd s) p prec cs" "\<And>i. i \<le> length cs \<Longrightarrow> \<not> A (p + word_of_nat i)"
  shows "put_string put rd alt p prec w s = Some (w - int (length cs), fold put (map (string_char alt) cs) s)"
  using assms
proof (induction cs arbitrary: s p prec w)
  case Nil
  then show ?case by (subst put_string.simps) auto
next
  case (Cons c cs)
  let ?s = "put (string_char alt c) s" and ?k = "if prec < 0 then prec else prec - 1"
  have off: "\<not> A (p + 1 + word_of_nat i)" if "i \<le> length cs" for i
    using Cons.prems(3)[of "Suc i"] that by (simp add: algebra_simps)
  have "text_at (rd ?s) (p + 1) ?k cs = text_at (rd s) (p + 1) ?k cs"
    using off by (intro text_at_cong) (simp add: put_keeps[OF Cons.prems(1)])
  then have "put_string put rd alt (p + 1) ?k (w - 1) ?s
      = Some (w - 1 - int (length cs), fold put (map (string_char alt) cs) ?s)"
    using Cons.prems(1,2) off by (intro Cons.IH) (simp_all add: put_ok)
  with Cons.prems(2) show ?case by (subst put_string.simps) auto
qed

lemma format_string_text:
  assumes "ok s" "\<And>a. \<not> A a \<Longrightarrow> rd s a = m a" "strings_off A m p (precision f) = Inr cs"
  shows "format_string put rd f p s = Inr (fold put (convert_string f cs) s)"
proof (cases "p = 0")
  case True
  with assms(3) show ?thesis by (simp add: format_string_def strings_off_def rbind_eq_Inr string_arg_def)
next
  case False
  from assms(3) have st: "string_arg m p (precision f) = Inr cs" and off: "\<And>i. i \<le> length cs \<Longrightarrow> \<not> A (p + word_of_nat i)"
    using False by (auto simp: strings_off_def rbind_eq_Inr split: if_splits)
  have at: "text_at (rd s) p (precision f) cs"
    using st string_arg_text_at[OF False] text_at_cong[of cs "rd s" p m] off assms(2) by auto
  have ps: "put_string put rd (altflag f) p (precision f) w (fold put xs s)
      = Some (w - int (length cs), fold put (map (string_char (altflag f)) cs) (fold put xs s))" for w xs
  proof (rule put_string_text)
    show "text_at (rd (fold put xs s)) p (precision f) cs"
      using at text_at_cong[of cs "rd (fold put xs s)" p "rd s"] off fold_keeps[OF assms(1)] by auto
  qed (use off assms(1) fold_ok in auto)
  have "string_arg (rd s) p (precision f) = Inr cs" using at string_arg_text_at[OF False] by simp
  with False show ?thesis using ps[of _ "[]"] ps[of _ "replicate (nat (width f - int (length cs))) (padc f)"]
    by (simp add: format_string_def convert_string_def Let_def)
qed

lemma convert_user_text:
  assumes "ok s" "\<And>a. \<not> A a \<Longrightarrow> rd s a = m a" "convert_text (strings_off A m) ch f ap = Inr r"
  shows "convert_user put rd ch f ap s = Inr (map_option (\<lambda>(cs, ap'). (fold put cs s, ap')) r)"
proof -
  consider "ch = 111" | "ch = 115" | "ch \<noteq> 111" "ch \<noteq> 115" by blast
  then show ?thesis
  proof cases
    case 2
    then show ?thesis using assms(3) format_string_text[OF assms(1,2)]
      by (auto simp: convert_text_def convert_user_def rbind_eq_Inr)
  next
    case 3
    then have "convert (rd s) ch f ap = Inr r"
      using assms(3) convert_no_string[of ch "rd s" f ap "\<lambda>_. 0"] by (simp add: convert_text_def)
    with 3 show ?thesis by (simp add: convert_user_def)
  qed (use assms(3) in \<open>auto simp: convert_text_def convert_user_def\<close>)
qed

lemma vprintfmt_user_text:
  assumes "ok s" "\<And>a. \<not> A a \<Longrightarrow> rd s a = m a" "format_text (strings_off A m) fmt ap = Inr out"
  shows "vprintfmt_user put rd fmt ap s = Inr (fold put out s)"
  using assms
proof (induction "length fmt" arbitrary: fmt ap s out rule: less_induct)
  case less
  show ?case
  proof (cases fmt)
    case Nil
    with less.prems(3) show ?thesis by (simp add: format_text.simps vprintfmt_user.simps)
  next
    case (Cons c rest)
    have keep: "rd (fold put cs s) a = m a" if "\<not> A a" for cs a
      using fold_keeps[OF less.prems(1) that] less.prems(2)[OF that] by simp
    have IH: "vprintfmt_user put rd f' ap' (fold put cs s) = Inr (fold put o' (fold put cs s))"
      if "length f' \<le> length rest" "format_text (strings_off A m) f' ap' = Inr o'" for f' ap' cs o'
      using that less.hyps[of f' "fold put cs s" ap' o'] Cons fold_ok[OF less.prems(1)] keep by simp
    consider "c = 0" | "c \<noteq> 0" "c \<noteq> 37" | "c = 37" by blast
    then show ?thesis
    proof cases
      case 2
      then show ?thesis using less.prems(3) Cons IH[of rest ap _ "[c]"]
        by (subst vprintfmt_user.simps) (auto simp: format_text.simps[of _ "c # rest"] rbind_eq_Inr)
    next
      case 3
      with less.prems(3) Cons obtain ch rest' f ap1 r where r: "reswitch rest flags0 ap = Inr (ch, rest', f, ap1)"
        "convert_text (strings_off A m) ch f ap1 = Inr r"
        by (subst (asm) format_text.simps) (auto simp: rbind_eq_Inr)
      show ?thesis using less.prems(3) Cons 3 r(1) convert_user_text[OF less.prems(1,2) r(2)] r(2)
          IH[of rest ap1 _ "[37]"] IH[of rest'] reswitch_length[OF r(1)]
        by (subst vprintfmt_user.simps)
          (auto simp: format_text.simps[of _ "37 # rest"] rbind_eq_Inr split: option.splits)
    qed (use less.prems(3) Cons in \<open>simp add: format_text.simps vprintfmt_user.simps\<close>)
  qed
qed

end

section \<open>Output into a string is bounded\<close>

definition within :: "u32 \<Rightarrow> u32 \<Rightarrow> u32 \<Rightarrow> bool" where
  "within b n a \<longleftrightarrow> a - b < n"

definition sprint_ok :: "u32 \<Rightarrow> u32 \<Rightarrow> memory \<times> sprintbuf \<Rightarrow> bool" where
  "sprint_ok bf n = (\<lambda>(m, b). 0 < n \<and> unat bf + unat n \<le> 4294967296
     \<and> bf \<le> buf b \<and> buf b \<le> ebuf b \<and> ebuf b = bf + (n - 1))"

lemma last_byte: "0 < n \<Longrightarrow> unat bf + unat n \<le> 4294967296 \<Longrightarrow> unat ((bf :: u32) + (n - 1)) = unat bf + unat n - 1"
proof -
  assume a: "0 < n" "unat bf + unat n \<le> 4294967296"
  then have "unat (n - 1) = unat n - 1" "0 < unat n" by unat_arith+
  with a show ?thesis by (simp add: unat_word_ariths(1))
qed

lemma offset_within: "0 < n \<Longrightarrow> unat bf + unat n \<le> 4294967296 \<Longrightarrow> (bf :: u32) \<le> a \<Longrightarrow> a \<le> bf + (n - 1) \<Longrightarrow> within bf n a"
  using last_byte[of n bf] by (simp add: within_def word_less_nat_alt word_le_nat_alt unat_sub)

interpretation sp: printer sprintputch fst "sprint_ok bf n" "within bf n" for bf n
proof
  fix s :: "memory \<times> sprintbuf" and c a
  assume ok: "sprint_ok bf n s"
  obtain m b where s: "s = (m, b)" by fastforce
  have b: "0 < n" "unat bf + unat n \<le> 4294967296" "bf \<le> buf b" "buf b \<le> ebuf b" "ebuf b = bf + (n - 1)"
    using ok by (auto simp: sprint_ok_def s)
  show "sprint_ok bf n (sprintputch c s)"
    using b word_Suc_le[of "buf b" "ebuf b"] word_less_Suc[of "buf b" "ebuf b" bf]
    by (auto simp: s sprint_ok_def sprintputch_def Let_def le_less)
  show "fst (sprintputch c s) a = fst s a" if "\<not> within bf n a"
    using that offset_within[of n bf "buf b"] b by (auto simp: s sprintputch_def Let_def)
qed

lemma fold_sprintputch:
  assumes "buf b \<le> ebuf b"
  shows "fold sprintputch out (m, b) =
    (let k = min (length out) (unat (ebuf b - buf b))
     in (\<lambda>a. if unat (a - buf b) < k then out ! unat (a - buf b) else m a,
         b\<lparr>buf := buf b + word_of_nat k, cnt := cnt b + word_of_nat (length out)\<rparr>))"
  using assms
proof (induction out arbitrary: m b)
  case (Cons c cs)
  show ?case
  proof (cases "buf b < ebuf b")
    case True
    let ?b = "b\<lparr>cnt := cnt b + 1, buf := buf b + 1\<rparr>"
    let ?k = "min (length cs) (unat (ebuf b - (buf b + 1)))"
    have step: "sprintputch c (m, b) = (m(buf b := c), ?b)" using True by (simp add: sprintputch_def)
    have k: "min (Suc (length cs)) (unat (ebuf b - buf b)) = Suc ?k"
      using True word_count_down[OF True] by (simp add: word_Suc_le unat_sub order_less_imp_le unat_Suc[OF True] word_less_nat_alt)
    have off: "unat (a - buf b) = Suc (unat (a - (buf b + 1)))" if "a \<noteq> buf b" for a
    proof -
      have "a - buf b \<noteq> 0" using that by simp
      then have "unat (a - buf b) = Suc (unat (a - buf b - 1))" by unat_arith
      then show ?thesis by (simp add: algebra_simps)
    qed
    have "(\<lambda>a. if unat (a - (buf b + 1)) < ?k then cs ! unat (a - (buf b + 1)) else (m(buf b := c)) a)
      = (\<lambda>a. if unat (a - buf b) < Suc ?k then (c # cs) ! unat (a - buf b) else m a)" (is "?f = ?g")
    proof
      fix a
      show "?f a = ?g a"
      proof (cases "a = buf b")
        case True
        have "unat (- 1 :: u32) = 4294967295" by (simp add: unsigned_minus_1_eq_mask mask_eq_exp_minus_1)
        moreover have "?k \<le> 4294967295" using unat_u32_less[of "ebuf b - (buf b + 1)"] by linarith
        ultimately have "\<not> unat (a - (buf b + 1)) < ?k" using True by (simp del: min_less_iff_conj)
        then show ?thesis using True by (simp del: min_less_iff_conj)
      qed (simp add: off del: min_less_iff_conj)
    qed
    moreover have "fold sprintputch cs (m(buf b := c), ?b) = (?f,
        b\<lparr>buf := buf b + 1 + word_of_nat ?k, cnt := cnt b + 1 + word_of_nat (length cs)\<rparr>)"
      using Cons.IH[of ?b "m(buf b := c)"] word_Suc_le[OF True]
      by (simp add: Let_def del: min_less_iff_conj fun_upd_apply cong: if_cong)
    ultimately show ?thesis by (simp only: fold_Cons o_apply step k Let_def of_nat_Suc length_Cons add.assoc)
  next
    case False
    then have "ebuf b = buf b" using Cons.prems by simp
    then show ?thesis using Cons.IH[of "b\<lparr>cnt := cnt b + 1\<rparr>" m]
      by (simp add: sprintputch_def algebra_simps)
  qed
qed (simp add: Let_def)

text \<open>
  C30: \<^verbatim>\<open>snprintf\<close> never writes outside the \<open>n\<close> bytes it is given. For a buffer of at least one byte which
  the string arguments do not overlap it returns, its result is the length of the whole text that the
  format describes, the buffer holds as much of the text as fits with a 0 behind it, and no other byte changes.
\<close>

theorem snprintf_bounded:
  assumes "0 < n" "unat bf + unat n \<le> 4294967296"
    "format_text (strings_off (within bf n) m) fmt ap = Inr out"
    "k = min (length out) (unat n - 1)"
  shows "\<exists>m'. snprintf bf n fmt ap m = Inr (word_of_nat (length out), m')
    \<and> map (\<lambda>i. m' (bf + word_of_nat i)) [0..<k] = take k out \<and> m' (bf + word_of_nat k) = 0
    \<and> (\<forall>a. \<not> within bf n a \<longrightarrow> m' a = m a)"
proof -
  let ?b = "\<lparr>buf = bf, ebuf = bf + (n - 1), cnt = 0\<rparr>"
  let ?m = "\<lambda>a. if unat (a - bf) < k then out ! unat (a - bf) else m a"
  have le: "bf \<le> bf + (n - 1)" using last_byte[OF assms(1,2)] assms(1) by (simp add: word_le_nat_alt word_less_nat_alt)
  have un: "unat (n - 1) = unat n - 1" using assms(1) by unat_arith
  have "sprint_ok bf n (m, ?b)" using assms(1,2) le by (simp add: sprint_ok_def)
  from sp.vprintfmt_user_text[OF this _ assms(3)]
  have v: "vprintfmt_user sprintputch fst fmt ap (m, ?b) = Inr (fold sprintputch out (m, ?b))" by simp
  have "fold sprintputch out (m, ?b) = (?m, ?b\<lparr>buf := bf + word_of_nat k, cnt := word_of_nat (length out)\<rparr>)"
    using fold_sprintputch[of ?b out m] le un assms(4) by (simp add: Let_def del: min_less_iff_conj cong: if_cong)
  with v have run: "snprintf bf n fmt ap m = Inr (word_of_nat (length out), ?m(bf + word_of_nat k := 0))"
    by (simp add: snprintf_def vsnprintf_def add_diff_eq)
  have kn: "k < unat n" "unat n \<le> 4294967295" using assms(1,4) unat_u32_less[of n] by (auto simp: word_less_nat_alt)
  have small: "unat (word_of_nat i :: u32) = i" if "i \<le> k" for i using that kn by (intro unat_u32) linarith
  have "map (\<lambda>i. (?m(bf + word_of_nat k := 0)) (bf + word_of_nat i)) [0..<k] = take k out"
  proof (rule nth_equalityI)
    fix i assume i: "i < length (map (\<lambda>i. (?m(bf + word_of_nat k := 0)) (bf + word_of_nat i)) [0..<k])"
    then have "word_of_nat i \<noteq> (word_of_nat k :: u32)" using small[of i] small[of k] by auto
    with i small[of i] assms(4) show "map (\<lambda>i. (?m(bf + word_of_nat k := 0)) (bf + word_of_nat i)) [0..<k] ! i = take k out ! i"
      by simp
  qed (simp add: assms(4))
  moreover have "(?m(bf + word_of_nat k := 0)) a = m a" if "\<not> within bf n a" for a
  proof -
    have "\<not> unat (a - bf) < unat n" using that by (simp add: within_def word_less_nat_alt)
    moreover from this have "a \<noteq> bf + word_of_nat k" using small[of k] kn by auto
    ultimately show ?thesis using kn by simp
  qed
  ultimately show ?thesis using run by (intro exI[of _ "?m(bf + word_of_nat k := 0)"]) simp
qed

lemma strings_off_str:
  "p \<noteq> 0 \<Longrightarrow> prec < 0 \<Longrightarrow> str_at m p cs \<Longrightarrow> list_all (\<lambda>i. \<not> A (p + word_of_nat i)) [0..<Suc (length cs)]
     \<Longrightarrow> strings_off A m p prec = Inr cs"
  using string_arg_text_at[of p m prec cs] text_at_neg[of prec m p cs]
  by (auto simp: strings_off_def list_all_iff)

lemma format_text_example:
  assumes "m 0x100 = 104" "m 0x101 = 105" "m 0x102 = 0" "\<not> A 0x100" "\<not> A 0x101" "\<not> A 0x102"
  shows "format_text (strings_off A m) (chars ''%s=%d'') [0x100, 7] = Inr (chars ''hi=7'')"
proof -
  have "strings_off A m 0x100 (-1) = Inr (chars ''hi'')"
    using assms by (intro strings_off_str) (simp_all add: chars_def)
  then show ?thesis
    by (simp add: format_text.simps reswitch.simps flags0_def convert_text_def convert_def convert_string_def
        string_char_def va_word_def getint_def printnum.simps digit_char_def chars_def)
qed

theorem snprintf_bounded_witness:
  "\<exists>m'. snprintf 0x200 4 (chars ''%s=%d'') [0x100, 7] ((\<lambda>_. 0)(0x100 := 104, 0x101 := 105)) = Inr (4, m')
     \<and> m' 0x200 = 104 \<and> m' 0x202 = 61 \<and> m' 0x203 = 0"
proof -
  let ?m = "(\<lambda>_. 0)(0x100 := 104, 0x101 := 105) :: memory"
  have f: "format_text (strings_off (within 0x200 4) ?m) (chars ''%s=%d'') [0x100, 7] = Inr (chars ''hi=7'')"
    by (rule format_text_example) (simp_all add: within_def)
  have "\<exists>m'. snprintf 0x200 4 (chars ''%s=%d'') [0x100, 7] ?m = Inr (word_of_nat (length (chars ''hi=7'')), m')
      \<and> map (\<lambda>i. m' (0x200 + word_of_nat i)) [0..<3] = take 3 (chars ''hi=7'') \<and> m' (0x200 + word_of_nat 3) = 0
      \<and> (\<forall>a. \<not> within 0x200 4 a \<longrightarrow> m' a = ?m a)"
    using snprintf_bounded[OF _ _ f, of 3] by (simp add: chars_def)
  then show ?thesis by (auto simp: chars_def upt_rec)
qed

text \<open>With a size of 0 the terminating byte still is written, to the byte behind the (empty) buffer.\<close>

lemma snprintf_zero: "snprintf bf 0 [] [] m = Inr (0, m(bf := 0))"
  by (simp add: snprintf_def vsnprintf_def vprintfmt_user.simps)

section \<open>Output to the console\<close>

definition print_ok :: "user \<times> printbuf \<Rightarrow> bool" where
  "print_ok = (\<lambda>(u, pb). idx pb < MAX_BUF - 1)"

text \<open>The characters that wait in the buffer.\<close>

definition buffered :: "u32 \<Rightarrow> user \<times> printbuf \<Rightarrow> u8 list" where
  "buffered b = (\<lambda>(u, pb). map (\<lambda>i. umem u (b + word_of_nat i)) [0..<unat (idx pb)])"

lemma buffered_other:
  assumes "unat (idx pb) \<le> 511"
  shows "map (\<lambda>i. ((umem u)(b + idx pb := c)) (b + word_of_nat i)) [0..<unat (idx pb)] = buffered b (u, pb)"
proof -
  have "word_of_nat i \<noteq> idx pb" if "i < unat (idx pb)" for i using that assms unat_u32[of i] by auto
  then show ?thesis by (simp add: buffered_def)
qed

lemma buffered_store:
  assumes "unat (idx pb) \<le> 510"
  shows "buffered b (u\<lparr>umem := (umem u)(b + idx pb := c)\<rparr>, pb\<lparr>idx := idx pb + 1\<rparr>) = buffered b (u, pb) @ [c]"
proof -
  have "unat (idx pb + 1) = Suc (unat (idx pb))" using assms by (intro unat_Suc[of _ 511]) (simp add: word_less_nat_alt)
  then show ?thesis using buffered_other[of pb u b c] assms by (simp add: buffered_def del: map_eq_conv)
qed

interpretation up: printer "putch_user b" "umem \<circ> fst" print_ok "within b 512" for b
proof
  fix s :: "user \<times> printbuf" and c a
  assume ok: "print_ok s"
  obtain u pb where s: "s = (u, pb)" by fastforce
  have i: "idx pb < 511" using ok by (simp add: s print_ok_def MAX_BUF_def)
  then have j: "idx pb < 512" "idx pb + 1 < 512" "idx pb \<noteq> 510 \<Longrightarrow> idx pb + 1 < 511" by unat_arith+
  show "print_ok (putch_user b c s)"
    using j by (auto simp: s putch_user_def print_ok_def MAX_BUF_def Let_def)
  show "(umem \<circ> fst) (putch_user b c s) a = (umem \<circ> fst) s a" if "\<not> within b 512 a"
    using that j by (auto simp: s putch_user_def puts_def within_def MAX_BUF_def Let_def)
qed

lemma putch_user_step:
  assumes "print_ok (u, pb)"
  shows "\<exists>u' pb' ts. putch_user b c (u, pb) = (u', pb') \<and> calls u' = calls u @ map UPuts ts
    \<and> concat ts @ buffered b (u', pb') = buffered b (u, pb) @ [c] \<and> list_all (\<lambda>t. length t \<le> 511) ts
    \<and> total pb' = total pb + 1"
proof -
  have i: "unat (idx pb) \<le> 510" using assms by (simp add: print_ok_def MAX_BUF_def word_less_nat_alt)
  let ?u = "u\<lparr>umem := (umem u)(b + idx pb := c)\<rparr>" and ?pb = "pb\<lparr>idx := idx pb + 1\<rparr>"
  show ?thesis
  proof (cases "idx pb + 1 = 511")
    case True
    have "map (\<lambda>i. ((umem ?u)(b + 511 := 0)) (b + word_of_nat i)) [0..<511] = buffered b (?u, ?pb)"
      using buffered_other[of ?pb ?u b 0] True by (simp cong: if_cong)
    with True buffered_store[OF i, of b u c] show ?thesis
      by (intro exI[of _ "fst (putch_user b c (u, pb))"] exI[of _ "snd (putch_user b c (u, pb))"]
          exI[of _ "[buffered b (u, pb) @ [c]]"])
        (simp add: putch_user_def MAX_BUF_def puts_def buffered_def cong: if_cong)
  next
    case False
    with buffered_store[OF i, of b u c] show ?thesis
      by (intro exI[of _ ?u] exI[of _ "?pb\<lparr>total := total pb + 1\<rparr>"] exI[of _ "[]"])
        (simp add: putch_user_def MAX_BUF_def buffered_def)
  qed
qed

lemma putch_user_fold:
  assumes "print_ok (u, pb)"
  shows "\<exists>u' pb' ts. fold (putch_user b) out (u, pb) = (u', pb') \<and> calls u' = calls u @ map UPuts ts
    \<and> concat ts @ buffered b (u', pb') = buffered b (u, pb) @ out \<and> list_all (\<lambda>t. length t \<le> 511) ts
    \<and> total pb' = total pb + word_of_nat (length out)"
  using assms
proof (induction out arbitrary: u pb)
  case Nil
  show ?case by (intro exI[of _ u] exI[of _ pb] exI[of _ "[]"]) simp
next
  case (Cons c out)
  obtain u1 pb1 ts where 1: "putch_user b c (u, pb) = (u1, pb1)" "calls u1 = calls u @ map UPuts ts"
    "concat ts @ buffered b (u1, pb1) = buffered b (u, pb) @ [c]" "list_all (\<lambda>t. length t \<le> 511) ts" "total pb1 = total pb + 1"
    using putch_user_step[OF Cons.prems] by blast
  have "print_ok (u1, pb1)" using up.put_ok[OF Cons.prems, of b c] 1(1) by simp
  from Cons.IH[OF this] obtain u2 pb2 ts' where 2: "fold (putch_user b) out (u1, pb1) = (u2, pb2)"
    "calls u2 = calls u1 @ map UPuts ts'" "concat ts' @ buffered b (u2, pb2) = buffered b (u1, pb1) @ out"
    "list_all (\<lambda>t. length t \<le> 511) ts'" "total pb2 = total pb1 + word_of_nat (length out)" by blast
  have "concat (ts @ ts') @ buffered b (u2, pb2) = concat ts @ buffered b (u1, pb1) @ out" using 2(3) by simp
  also have "\<dots> = buffered b (u, pb) @ c # out" using arg_cong[OF 1(3), of "\<lambda>xs. xs @ out"] by simp
  finally show ?case using 1 2 by (intro exI[of _ u2] exI[of _ pb2] exI[of _ "ts @ ts'"]) simp
qed

text \<open>
  What a program prints reaches the kernel whole and in order. If the string arguments do not lie in
  the buffer on the stack, \<^verbatim>\<open>printf\<close> returns the length of the text that the format describes, the
  texts it hands to the kernel are at most 511 bytes each and concatenate to exactly that text, and no
  memory outside the buffer changes.
\<close>

theorem printf_prints:
  assumes "format_text (strings_off (within b 512) (umem u)) fmt ap = Inr out"
  shows "\<exists>u' ts. printf b fmt ap u = Inr (word_of_nat (length out), u')
    \<and> calls u' = calls u @ map UPuts ts \<and> concat ts = out \<and> list_all (\<lambda>t. length t \<le> 511) ts
    \<and> (\<forall>a. \<not> within b 512 a \<longrightarrow> umem u' a = umem u a)"
proof -
  let ?s = "(u, \<lparr>idx = 0, total = 0\<rparr>)"
  have ok: "print_ok ?s" by (simp add: print_ok_def MAX_BUF_def)
  have v: "vprintfmt_user (putch_user b) (umem \<circ> fst) fmt ap ?s = Inr (fold (putch_user b) out ?s)"
    using up.vprintfmt_user_text[OF ok _ assms] by simp
  obtain u1 pb ts where f: "fold (putch_user b) out ?s = (u1, pb)" "calls u1 = calls u @ map UPuts ts"
    "concat ts @ buffered b (u1, pb) = out" "list_all (\<lambda>t. length t \<le> 511) ts" "total pb = word_of_nat (length out)"
    using putch_user_fold[OF ok, of b out] by (auto simp: buffered_def)
  have i: "unat (idx pb) \<le> 510" "idx pb < 512"
    using up.fold_ok[OF ok, of b out] f(1) by (simp_all add: print_ok_def MAX_BUF_def word_less_nat_alt)
  have keep: "umem u1 a = umem u a" if "\<not> within b 512 a" for a using up.fold_keeps[OF ok that, of out] f(1) by simp
  let ?u = "puts b (idx pb) (u1\<lparr>umem := (umem u1)(b + idx pb := 0)\<rparr>)"
  have c: "calls ?u = calls u @ map UPuts (ts @ [buffered b (u1, pb)])"
    using f(2) buffered_other[of pb u1 b 0] i(1) by (simp add: puts_def del: map_eq_conv fun_upd_apply)
  have "length (buffered b (u1, pb)) \<le> 511" using i(1) by (simp add: buffered_def)
  moreover have "umem ?u a = umem u a" if "\<not> within b 512 a" for a
    using keep[OF that] that i(2) by (auto simp: puts_def within_def)
  moreover have "printf b fmt ap u = Inr (word_of_nat (length out), ?u)"
    using v f(1,5) by (simp add: printf_def vcprintf_def)
  ultimately show ?thesis using c f(3,4) by (intro exI[of _ ?u] exI[of _ "ts @ [buffered b (u1, pb)]"]) simp
qed

theorem printf_prints_witness:
  "\<exists>u' ts. printf 0x1000 (chars ''%s=%d'') [0x100, 7] \<lparr>umem = (\<lambda>_. 0)(0x100 := 104, 0x101 := 105), calls = []\<rparr> = Inr (4, u')
     \<and> calls u' = map UPuts ts \<and> concat ts = chars ''hi=7''"
proof -
  let ?u = "\<lparr>umem = (\<lambda>_. 0)(0x100 := 104, 0x101 := 105), calls = []\<rparr>"
  have f: "format_text (strings_off (within 0x1000 512) (umem ?u)) (chars ''%s=%d'') [0x100, 7] = Inr (chars ''hi=7'')"
    by (rule format_text_example) (simp_all add: within_def)
  have l: "word_of_nat (length (chars ''hi=7'')) = (4 :: i32)" by (simp add: chars_def)
  from printf_prints[OF f, unfolded l] show ?thesis by (metis append_Nil user.select_convs(2))
qed

end
