(* ===== verification/USpin.thy ===== *)
theory USpin
  imports KString
begin

text \<open>
  The spin lock of user programs, \<^verbatim>\<open>user/lib/spinlock.c\<close>: the routines over the memory that holds the
  lock word, and the steps that threads sharing this memory take through them. One step is one access
  to the lock word, which is \<^verbatim>\<open>volatile\<close>; between any two steps of a thread others may run.
\<close>

section \<open>The routines\<close>

definition xchg :: "u32 \<Rightarrow> u32 \<Rightarrow> memory \<Rightarrow> u32 \<times> memory" where
  "xchg addr newval m = (load32 m addr, store32 m addr newval)"

definition spinlock_init :: "u32 \<Rightarrow> memory \<Rightarrow> memory" where
  "spinlock_init lk m = store32 m lk 0"

partial_function (option) spinlock_acquire :: "u32 \<Rightarrow> memory \<Rightarrow> memory option" where
  "spinlock_acquire lk m =
     (let (old, m) = xchg lk 1 m in if old \<noteq> 0 then spinlock_acquire lk m else Some m)"

text \<open>A \<^verbatim>\<open>bool\<close> is a \<^verbatim>\<open>uint8_t\<close>: the result is the low byte of the lock word.\<close>

definition spinlock_holding :: "u32 \<Rightarrow> memory \<Rightarrow> u8" where
  "spinlock_holding lk m = ucast (load32 m lk)"

definition spinlock_release :: "u32 \<Rightarrow> memory \<Rightarrow> memory" where
  "spinlock_release lk m = (if spinlock_holding lk m = 0 then m else snd (xchg lk 0 m))"

section \<open>Threads\<close>

text \<open>
  Where a thread is: in its own code without the lock, before the exchange in \<^verbatim>\<open>spinlock_acquire\<close>,
  at the \<^verbatim>\<open>pause\<close> behind it, in its own code with the lock, before the test in \<^verbatim>\<open>spinlock_release\<close>,
  before the exchange there.
\<close>

datatype pc = Outside | Acquiring | Pausing | Inside | Releasing | Freeing

definition holding :: "pc \<Rightarrow> bool" where
  "holding p \<longleftrightarrow> p \<in> {Inside, Releasing, Freeing}"

record threads =
  shared :: memory
  pcs :: "nat \<Rightarrow> pc"

definition goto :: "nat \<Rightarrow> pc \<Rightarrow> threads \<Rightarrow> threads" where
  "goto t p c = c\<lparr>pcs := (pcs c)(t := p)\<rparr>"

text \<open>
  A thread releases the lock only if it has taken it, and the program's own code, inside or outside,
  may write any memory but the lock word.
\<close>

inductive spin_step :: "u32 \<Rightarrow> threads \<Rightarrow> threads \<Rightarrow> bool" for lk where
  call_acquire: "pcs c t = Outside \<Longrightarrow> spin_step lk c (goto t Acquiring c)"
| exchange: "pcs c t = Acquiring \<Longrightarrow> xchg lk 1 (shared c) = (old, m) \<Longrightarrow>
    spin_step lk c (goto t (if old \<noteq> 0 then Pausing else Inside) (c\<lparr>shared := m\<rparr>))"
| pause: "pcs c t = Pausing \<Longrightarrow> spin_step lk c (goto t Acquiring c)"
| work: "pcs c t \<in> {Outside, Inside} \<Longrightarrow> load32 m lk = load32 (shared c) lk \<Longrightarrow>
    spin_step lk c (c\<lparr>shared := m\<rparr>)"
| call_release: "pcs c t = Inside \<Longrightarrow> spin_step lk c (goto t Releasing c)"
| test: "pcs c t = Releasing \<Longrightarrow>
    spin_step lk c (goto t (if spinlock_holding lk (shared c) = 0 then Outside else Freeing) c)"
| free: "pcs c t = Freeing \<Longrightarrow>
    spin_step lk c (goto t Outside (c\<lparr>shared := snd (xchg lk 0 (shared c))\<rparr>))"

inductive spin_reachable :: "u32 \<Rightarrow> threads \<Rightarrow> bool" for lk where
  start: "spin_reachable lk \<lparr>shared = spinlock_init lk m, pcs = \<lambda>_. Outside\<rparr>"
| later: "spin_reachable lk c \<Longrightarrow> spin_step lk c c' \<Longrightarrow> spin_reachable lk c'"

lemma goto_sel [simp]: "shared (goto t p c) = shared c" "pcs (goto t p c) = (pcs c)(t := p)"
  by (simp_all add: goto_def)

lemma holding_simps [simp]:
  "\<not> holding Outside" "\<not> holding Acquiring" "\<not> holding Pausing"
  "holding Inside" "holding Releasing" "holding Freeing"
  by (simp_all add: holding_def)

section \<open>A thread on its own\<close>

lemma spinlock_acquire_free: "load32 m lk = 0 \<Longrightarrow> spinlock_acquire lk m = Some (store32 m lk 1)"
  by (subst spinlock_acquire.simps) (simp add: xchg_def)

lemma spinlock_acquire_returned: "spinlock_acquire lk m = Some m' \<Longrightarrow> load32 m lk = 0"
  by (erule spinlock_acquire.raw_induct[where P = "\<lambda>lk m m'. load32 m lk = 0", rotated])
    (fastforce simp: xchg_def split: if_splits)

lemma acquire_steps:
  assumes "pcs c t = Outside" "spinlock_acquire lk (shared c) = Some m"
  shows "(spin_step lk)\<^sup>*\<^sup>* c (goto t Inside (c\<lparr>shared := m\<rparr>))"
proof -
  have free: "load32 (shared c) lk = 0" "m = store32 (shared c) lk 1"
    using spinlock_acquire_returned[OF assms(2)] spinlock_acquire_free[of "shared c" lk] assms(2) by auto
  let ?c = "goto t Acquiring c"
  have "spin_step lk c ?c" using assms(1) by (rule call_acquire)
  moreover have "spin_step lk ?c (goto t Inside (c\<lparr>shared := m\<rparr>))"
    using exchange[of ?c t lk "0" m] free by (simp add: xchg_def goto_def)
  ultimately show ?thesis by (meson converse_rtranclp_into_rtranclp rtranclp.rtrancl_refl)
qed

section \<open>All threads together\<close>

definition lock_inv :: "u32 \<Rightarrow> threads \<Rightarrow> bool" where
  "lock_inv lk c \<longleftrightarrow> (\<forall>t u. holding (pcs c t) \<longrightarrow> holding (pcs c u) \<longrightarrow> t = u)
     \<and> load32 (shared c) lk = (if \<exists>t. holding (pcs c t) then 1 else 0)"

lemma lock_inv_same:
  assumes "lock_inv lk c" "\<And>u. holding (pcs c' u) = holding (pcs c u)" "load32 (shared c') lk = load32 (shared c) lk"
  shows "lock_inv lk c'"
  using assms by (simp add: lock_inv_def)

lemma lock_inv_step: "spin_step lk c c' \<Longrightarrow> lock_inv lk c \<Longrightarrow> lock_inv lk c'"
proof (induction rule: spin_step.induct)
  case (exchange c t old m)
  moreover have "u \<noteq> t" if "holding (pcs c u)" for u using exchange that by auto
  ultimately show ?case by (auto simp: lock_inv_def xchg_def split: if_splits)
next
  case (test c t)
  moreover have "holding (pcs c t)" using test by simp
  ultimately show ?case by (auto simp: lock_inv_def spinlock_holding_def split: if_splits)
next
  case (free c t)
  moreover have "holding (pcs c t)" using free by simp
  ultimately show ?case by (auto simp: lock_inv_def xchg_def split: if_splits)
qed (erule lock_inv_same; simp)+

lemma lock_inv_reachable: "spin_reachable lk c \<Longrightarrow> lock_inv lk c"
proof (induction rule: spin_reachable.induct)
  case (start m)
  show ?case by (simp add: lock_inv_def spinlock_init_def)
qed (rule lock_inv_step)

text \<open>
  C18: Mutual exclusion. In every state that threads reach from an initialised lock, whatever they do in
  their own code and however they interleave, at most one is between the return of its
  \<^verbatim>\<open>spinlock_acquire\<close> and the end of its \<^verbatim>\<open>spinlock_release\<close>, and the lock word is 1 exactly if there is one.
\<close>

theorem spinlock_mutual_exclusion:
  assumes "spin_reachable lk c"
  shows "(\<forall>t u. holding (pcs c t) \<longrightarrow> holding (pcs c u) \<longrightarrow> t = u)
    \<and> load32 (shared c) lk = (if \<exists>t. holding (pcs c t) then 1 else 0)"
  using lock_inv_reachable[OF assms] by (simp add: lock_inv_def)

lemma spin_step_exchange_free:
  assumes "pcs c t = Acquiring" "load32 (shared c) lk = 0"
  shows "spin_step lk c (goto t Inside (c\<lparr>shared := store32 (shared c) lk 1\<rparr>))"
  using exchange[of c t lk 0 "store32 (shared c) lk 1"] assms by (simp add: xchg_def)

theorem spinlock_mutual_exclusion_witness:
  "\<exists>c. spin_reachable 0x1000 c \<and> pcs c 0 = Inside \<and> pcs c 1 = Acquiring \<and> load32 (shared c) 0x1000 = 1
     \<and> \<not> holding (pcs c 2)"
proof -
  let ?c = "\<lparr>shared = spinlock_init 0x1000 (\<lambda>_. 0), pcs = \<lambda>_. Outside\<rparr>"
  let ?d = "goto 1 Acquiring (goto 0 Acquiring ?c)"
  let ?e = "goto 0 Inside (?d\<lparr>shared := store32 (shared ?d) 0x1000 1\<rparr>)"
  have "spin_reachable 0x1000 (goto 0 Acquiring ?c)" by (rule later[OF start call_acquire]) simp
  then have "spin_reachable 0x1000 ?d" by (rule later) (rule call_acquire, simp)
  then have e: "spin_reachable 0x1000 ?e"
    by (rule later) (rule spin_step_exchange_free, simp_all add: spinlock_init_def)
  have p: "pcs ?e 0 = Inside" "pcs ?e 1 = Acquiring" by simp_all
  have "\<not> holding (pcs ?e 2)" "load32 (shared ?e) 0x1000 = 1"
    using spinlock_mutual_exclusion[OF e] p(1) by (metis holding_simps(4) zero_neq_numeral, metis holding_simps(4))
  then show ?thesis using e p by blast
qed

text \<open>The holder can always finish its release, which leaves the lock free and nobody else moved.\<close>

lemma release_steps:
  assumes "lock_inv lk c" "holding (pcs c t)"
  shows "\<exists>c'. (spin_step lk)\<^sup>*\<^sup>* c c' \<and> pcs c' = (pcs c)(t := Outside) \<and> load32 (shared c') lk = 0"
proof -
  have one: "spinlock_holding lk (shared c) \<noteq> 0" using assms by (auto simp: lock_inv_def spinlock_holding_def)
  let ?f = "\<lambda>c. goto t Outside (c\<lparr>shared := store32 (shared c) lk 0\<rparr>)"
  have fr: "\<exists>c'. (spin_step lk)\<^sup>*\<^sup>* d c' \<and> pcs c' = (pcs c)(t := Outside) \<and> load32 (shared c') lk = 0"
    if "pcs d = (pcs c)(t := Freeing)" for d
    using spin_step.free[of d t lk] that by (intro exI[of _ "?f d"]) (auto simp: xchg_def)
  have re: "\<exists>c'. (spin_step lk)\<^sup>*\<^sup>* d c' \<and> pcs c' = (pcs c)(t := Outside) \<and> load32 (shared c') lk = 0"
    if "pcs d = (pcs c)(t := Releasing)" "shared d = shared c" for d
    using spin_step.test[of d t lk] that one fr[of "goto t Freeing d"]
    by (auto intro: converse_rtranclp_into_rtranclp)
  have same: "(pcs c)(t := p) = pcs c" if "pcs c t = p" for p using that by (simp add: fun_upd_idem)
  from assms(2) consider "pcs c t = Inside" | "pcs c t = Releasing" | "pcs c t = Freeing" by (auto simp: holding_def)
  then show ?thesis
  proof cases
    case 1
    from spin_step.call_release[of c t lk, OF 1] re[of "goto t Releasing c"] show ?thesis
      by (auto intro: converse_rtranclp_into_rtranclp)
  qed (use fr[of c] re[of c] same in auto)
qed

text \<open>
  C32: No thread is locked out. From every reachable state in which a thread waits in
  \<^verbatim>\<open>spinlock_acquire\<close> there is a run in which it gets the lock: the holder can always finish its
  release, and then the exchange succeeds. (That the run is taken needs a fair scheduler.)
\<close>

theorem spinlock_no_deadlock:
  assumes "spin_reachable lk c" "pcs c t \<in> {Acquiring, Pausing}"
  shows "\<exists>c'. (spin_step lk)\<^sup>*\<^sup>* c c' \<and> pcs c' t = Inside"
proof -
  have inv: "lock_inv lk c" using lock_inv_reachable[OF assms(1)] .
  obtain d where d: "(spin_step lk)\<^sup>*\<^sup>* c d" "pcs d t \<in> {Acquiring, Pausing}" "load32 (shared d) lk = 0"
  proof (cases "\<exists>u. holding (pcs c u)")
    case True
    then obtain u where u: "holding (pcs c u)" by blast
    then have "u \<noteq> t" using assms(2) by auto
    with release_steps[OF inv u] assms(2) that show ?thesis by auto
  next
    case False
    with inv assms(2) that[of c] show ?thesis by (simp add: lock_inv_def)
  qed
  have enter: "\<exists>c'. (spin_step lk)\<^sup>*\<^sup>* e c' \<and> pcs c' t = Inside" if "pcs e t = Acquiring" "shared e = shared d" for e
    using spin_step_exchange_free[of e t lk] that d(3) by auto
  have "\<exists>c'. (spin_step lk)\<^sup>*\<^sup>* d c' \<and> pcs c' t = Inside"
  proof (cases "pcs d t = Acquiring")
    case False
    then have "spin_step lk d (goto t Acquiring d)" using d(2) by (auto intro: pause)
    with enter[of "goto t Acquiring d"] show ?thesis by (auto intro: converse_rtranclp_into_rtranclp)
  qed (use enter[of d] in simp)
  then show ?thesis using d(1) by (meson rtranclp_trans)
qed

theorem spinlock_no_deadlock_witness:
  "\<exists>c'. (spin_step 0x1000)\<^sup>*\<^sup>* (goto 3 Acquiring \<lparr>shared = spinlock_init 0x1000 (\<lambda>_. 0), pcs = \<lambda>_. Outside\<rparr>) c'
     \<and> pcs c' 3 = Inside"
proof (rule spinlock_no_deadlock)
  show "spin_reachable 0x1000 (goto 3 Acquiring \<lparr>shared = spinlock_init 0x1000 (\<lambda>_. 0), pcs = \<lambda>_. Outside\<rparr>)"
    by (rule later[OF start call_acquire]) simp
qed simp

text \<open>
  What the routines do for one thread alone: \<^verbatim>\<open>spinlock_acquire\<close> returns if and only if the lock is
  free, with the lock taken and nothing else changed; a release frees it whoever calls it.
\<close>

lemma spinlock_sequential:
  "spinlock_acquire lk m = (if load32 m lk = 0 then Some (store32 m lk 1) else None)"
  using spinlock_acquire_returned[of lk m] spinlock_acquire_free[of m lk] by (cases "spinlock_acquire lk m") auto

lemma spinlock_release_any: "load32 m lk \<in> {0, 1} \<Longrightarrow> load32 (spinlock_release lk m) lk = 0"
  by (auto simp: spinlock_release_def spinlock_holding_def xchg_def)

end
