(* ===== verification/BLib.thy ===== *)
theory BLib
  imports KPrintf "HOL-Library.Signed_Division"
begin

text \<open>
  The library of the boot loader, \<^verbatim>\<open>boot/boot1/boot1lib.c\<close>: output to the text display, conversion of
  numbers, reading the disk through its ports. The loader runs before the kernel, on physical
  addresses. What a port answers is a function of all accesses to ports before; what the loader
  relies on is stated where it is used.
\<close>

section \<open>State\<close>

datatype access = In u32 | Out u32 u8 | In32 u32

record boot =
  bmem :: memory
  in8 :: "access list \<Rightarrow> u32 \<Rightarrow> u8" \<comment> \<open>what a port answers after these accesses, last one first\<close>
  in32 :: "access list \<Rightarrow> u32 \<Rightarrow> u32"
  accesses :: "access list"
  row :: i32
  loc_blank :: u32 \<comment> \<open>addresses of \<^verbatim>\<open>blank\<close>, \<^verbatim>\<open>puti_str\<close>, the tables of digits, \<^verbatim>\<open>mboot_info\<close>\<close>
  loc_puti_str :: u32
  loc_dec :: u32
  loc_hex :: u32
  loc_mboot_info :: u32
  loc_text :: "string \<Rightarrow> u32" \<comment> \<open>addresses of string constants\<close>

text \<open>What the loader can do instead of returning: \<^verbatim>\<open>panic\<close>, which halts, or run for ever.\<close>

datatype stop = Halted boot | Hangs

definition ends :: "'a option \<Rightarrow> stop + 'a" where
  "ends r = (case r of None \<Rightarrow> Inl Hangs | Some x \<Rightarrow> Inr x)"

lemma ends_simps [simp]: "ends (Some x) = Inr x" "ends None = Inl Hangs"
  by (simp_all add: ends_def)

section \<open>Instructions\<close>

definition outb_boot :: "u32 \<Rightarrow> u8 \<Rightarrow> boot \<Rightarrow> boot" where
  "outb_boot port data s = s\<lparr>accesses := Out port data # accesses s\<rparr>"

definition inb_boot :: "u32 \<Rightarrow> boot \<Rightarrow> u8 \<times> boot" where
  "inb_boot port s = (in8 s (accesses s) port, s\<lparr>accesses := In port # accesses s\<rparr>)"

primrec insl :: "u32 \<Rightarrow> u32 \<Rightarrow> nat \<Rightarrow> boot \<Rightarrow> boot" where
  "insl port addr 0 s = s"
| "insl port addr (Suc cnt) s =
     insl port (addr + 4) cnt
       (s\<lparr>bmem := store32 (bmem s) addr (in32 s (accesses s) port), accesses := In32 port # accesses s\<rparr>)"

section \<open>Display\<close>

definition BOOT_ROWS :: i32 where "BOOT_ROWS = 25"

definition VGA_CLR_BLACK :: i32 where "VGA_CLR_BLACK = 0"
definition VGA_CLR_RED :: i32 where "VGA_CLR_RED = 4"
definition VGA_CLR_WHITE :: i32 where "VGA_CLR_WHITE = 15"

definition video :: u32 where "video = 0xB8000"

definition putc_boot :: "i32 \<Rightarrow> i32 \<Rightarrow> u8 \<Rightarrow> memory \<Rightarrow> memory" where
  "putc_boot l color ch m = (let p = video + l * 2 in m(p := ch, p + 1 := ucast color))"

text \<open>The loop of \<^verbatim>\<open>puts\<close> ends at a byte 0.\<close>

partial_function (option) puts_loop :: "i32 \<Rightarrow> i32 \<Rightarrow> u32 \<Rightarrow> memory \<Rightarrow> (i32 \<times> memory) option" where
  "puts_loop l color str m =
     (if m str \<noteq> 0 then puts_loop (l + 1) color (str + 1) (putc_boot l color (m str) m) else Some (l, m))"

definition puts_boot :: "i32 \<Rightarrow> i32 \<Rightarrow> i32 \<Rightarrow> u32 \<Rightarrow> boot \<Rightarrow> stop + (i32 \<times> boot)" where
  "puts_boot r c color str s =
     rbind (ends (puts_loop (r * 80 + c) color str (bmem s))) (\<lambda>(l, m). Inr (l, s\<lparr>bmem := m\<rparr>))"

definition putline :: "u32 \<Rightarrow> boot \<Rightarrow> stop + boot" where
  "putline str s =
     (let r = (if sint (row s) \<ge> sint BOOT_ROWS then 0 else row s + 1); s = s\<lparr>row := r\<rparr>
      in rbind (puts_boot r 0 VGA_CLR_BLACK (loc_blank s) s) (\<lambda>(_, s).
         rbind (puts_boot r 0 VGA_CLR_WHITE str s) (\<lambda>(_, s). Inr s)))"

definition roll :: "i32 \<Rightarrow> boot \<Rightarrow> boot" where
  "roll r s = s\<lparr>row := r\<rparr>"

definition panic_boot :: "u32 \<Rightarrow> boot \<Rightarrow> stop + 'a" where
  "panic_boot msg s = rbind (puts_boot 0 0 VGA_CLR_RED msg s) (\<lambda>(_, s). Inl (Halted s))"

section \<open>Numbers\<close>

text \<open>Division and remainder of C on \<^verbatim>\<open>int\<close>, which round towards 0.\<close>

definition int_div :: "i32 \<Rightarrow> i32 \<Rightarrow> i32" where
  "int_div a b = word_of_int (sint a sdiv sint b)"

definition int_mod :: "i32 \<Rightarrow> i32 \<Rightarrow> i32" where
  "int_mod a b = word_of_int (sint a smod sint b)"

partial_function (option) strlen_boot :: "u32 \<Rightarrow> i32 \<Rightarrow> memory \<Rightarrow> i32 option" where
  "strlen_boot str n m = (if m str \<noteq> 0 then strlen_boot (str + 1) (n + 1) m else Some n)"

function reverse_loop :: "i32 \<Rightarrow> i32 \<Rightarrow> u32 \<Rightarrow> memory \<Rightarrow> memory" where
  "reverse_loop i j str m =
     (if sint i < sint j
      then reverse_loop (i + 1) (j - 1) str (m(str + i := m (str + j), str + j := m (str + i)))
      else m)"
  by pat_completeness auto
termination
proof (relation "measure (\<lambda>(i, j, str, m). nat (sint j - sint i))", goal_cases)
  case (2 i j str m)
  then have "sint (i + 1) = sint i + 1" "sint (j - 1) = sint j - 1"
    using sint_u32_bounds[of i] sint_u32_bounds[of j] by (simp_all add: sint_add_range sint_sub_range)
  with 2 show ?case by simp
qed simp

declare reverse_loop.simps [simp del]

definition reverse :: "u32 \<Rightarrow> memory \<Rightarrow> memory option" where
  "reverse str m = Option.bind (strlen_boot str 0 m) (\<lambda>n. Some (reverse_loop 0 (n - 1) str m))"

text \<open>The loop of \<^verbatim>\<open>itox\<close>: the digits of \<open>n\<close> from the last one on, stored from index \<open>i\<close> on.\<close>

partial_function (option) itox_digits :: "i32 \<Rightarrow> u32 \<Rightarrow> i32 \<Rightarrow> i32 \<Rightarrow> u32 \<Rightarrow> memory \<Rightarrow> (i32 \<times> memory) option" where
  "itox_digits n str i root table m =
     (let m = m(str + i := m (table + int_mod n root)); i = i + 1; n = int_div n root
      in if sint n > 0 then itox_digits n str i root table m else Some (i, m))"

definition itox :: "i32 \<Rightarrow> u32 \<Rightarrow> i32 \<Rightarrow> u32 \<Rightarrow> memory \<Rightarrow> memory option" where
  "itox n str root table m =
     (let sign = n; n = (if sint n < 0 then - n else n)
      in Option.bind (itox_digits n str 0 root table m) (\<lambda>(i, m).
         let (i, m) = (if sint sign < 0 then (i + 1, m(str + i := 45)) else (i, m))
         in reverse str (m(str + i := 0))))"

definition itoa :: "i32 \<Rightarrow> u32 \<Rightarrow> boot \<Rightarrow> stop + boot" where
  "itoa n str s = rbind (ends (itox n str 10 (loc_dec s) (bmem s))) (\<lambda>m. Inr (s\<lparr>bmem := m\<rparr>))"

definition itoh :: "i32 \<Rightarrow> u32 \<Rightarrow> boot \<Rightarrow> stop + boot" where
  "itoh n str s = rbind (ends (itox n str 16 (loc_hex s) (bmem s))) (\<lambda>m. Inr (s\<lparr>bmem := m\<rparr>))"

definition puti :: "i32 \<Rightarrow> boot \<Rightarrow> stop + boot" where
  "puti i s = rbind (itoh i (loc_puti_str s) s) (\<lambda>s. putline (loc_puti_str s) s)"

section \<open>Disk\<close>

definition SECTOR_SIZE :: u32 where "SECTOR_SIZE = 512"

partial_function (option) waitdisk :: "boot \<Rightarrow> boot option" where
  "waitdisk s = (let (r, s) = inb_boot 0x1F7 s in if r AND 0xC0 \<noteq> 0x40 then waitdisk s else Some s)"

definition readsector :: "u32 \<Rightarrow> u32 \<Rightarrow> boot \<Rightarrow> boot option" where
  "readsector dst offset s =
     Option.bind (waitdisk s) (\<lambda>s.
     let s = outb_boot 0x1F2 1 s;
         s = outb_boot 0x1F3 (ucast offset) s;
         s = outb_boot 0x1F4 (ucast (drop_bit 8 offset)) s;
         s = outb_boot 0x1F5 (ucast (drop_bit 16 offset)) s;
         s = outb_boot 0x1F6 (ucast (drop_bit 24 offset OR 0xE0)) s;
         s = outb_boot 0x1F7 0x20 s
     in Option.bind (waitdisk s) (\<lambda>s. Some (insl 0x1F0 dst (unat (SECTOR_SIZE div 4)) s)))"

partial_function (option) readsection_loop :: "u32 \<Rightarrow> u32 \<Rightarrow> u32 \<Rightarrow> boot \<Rightarrow> boot option" where
  "readsection_loop va end_va offset s =
     (if va < end_va
      then Option.bind (readsector va offset s) (readsection_loop (va + SECTOR_SIZE) end_va (offset + 1))
      else Some s)"

definition readsection :: "u32 \<Rightarrow> u32 \<Rightarrow> u32 \<Rightarrow> u32 \<Rightarrow> boot \<Rightarrow> stop + boot" where
  "readsection va count offset lba s =
     (let va = va AND 0xFFFFFF; end_va = va + count; va = va AND NOT (SECTOR_SIZE - 1);
          offset = offset div SECTOR_SIZE + lba
      in ends (readsection_loop va end_va offset s))"

lemma sint_small: "unat w < 2147483648 \<Longrightarrow> sint (w :: u32) = int (unat w)"
proof -
  assume "unat w < 2147483648"
  then have "int (unat w) < 2147483648" by linarith
  then show ?thesis using signed_take_bit_int_eq_self[of 31 "uint w"] uint_ge_0[of w] by (simp add: sint_uint)
qed

section \<open>What the display shows\<close>

text \<open>
  The rows 0 to 25 of 80 cells, two bytes each: one row more than the display has, since \<^verbatim>\<open>putline\<close>
  starts over only when \<^verbatim>\<open>row\<close> has reached \<^verbatim>\<open>CRT_ROWS\<close>.
\<close>

definition off_display :: "u32 \<Rightarrow> bool" where
  "off_display a \<longleftrightarrow> 4160 \<le> unat (a - video)"

text \<open>Memory after the characters \<open>cs\<close> were shown from cell \<open>k\<close> on.\<close>

definition shown :: "nat \<Rightarrow> i32 \<Rightarrow> u8 list \<Rightarrow> memory \<Rightarrow> memory" where
  "shown k color cs m = (\<lambda>a. let d = unat (a - video)
     in if 2 * k \<le> d \<and> d < 2 * (k + length cs) then if even d then cs ! (d div 2 - k) else ucast color else m a)"

lemma shown_off: "off_display a \<Longrightarrow> k + length cs \<le> 2080 \<Longrightarrow> shown k color cs m a = m a"
  by (simp add: off_display_def shown_def Let_def)

lemma shown_Nil [simp]: "shown k color [] m = m"
  by (auto simp: shown_def Let_def fun_eq_iff)

lemma cell_address: "k < 2080 \<Longrightarrow> a = video + word_of_nat k * 2 \<longleftrightarrow> unat (a - video) = 2 * k"
  "k < 2080 \<Longrightarrow> a = video + word_of_nat k * 2 + 1 \<longleftrightarrow> unat (a - video) = 2 * k + 1"
proof -
  assume k: "k < 2080"
  then have u: "unat (word_of_nat k * 2 :: u32) = 2 * k" "unat (word_of_nat k * 2 + 1 :: u32) = 2 * k + 1"
    by (simp_all add: unat_word_ariths unat_u32)
  have "unat (a - video) = unat (word_of_nat k * 2 :: u32) \<longleftrightarrow> a - video = word_of_nat k * 2"
    "unat (a - video) = unat (word_of_nat k * 2 + 1 :: u32) \<longleftrightarrow> a - video = word_of_nat k * 2 + 1"
    by (simp_all add: word_unat_eq_iff)
  then show "a = video + word_of_nat k * 2 \<longleftrightarrow> unat (a - video) = 2 * k"
    "a = video + word_of_nat k * 2 + 1 \<longleftrightarrow> unat (a - video) = 2 * k + 1"
    unfolding u by (auto simp: algebra_simps)
qed

lemma putc_shown: "k < 2080 \<Longrightarrow> putc_boot (word_of_nat k) color c m = shown k color [c] m"
proof (rule ext)
  fix a assume k: "k < 2080"
  show "putc_boot (word_of_nat k) color c m a = shown k color [c] m a"
    using cell_address[OF k, of a] by (auto simp: putc_boot_def shown_def Let_def)
qed

lemma shown_Cons: "shown (Suc k) color cs (shown k color [c] m) = shown k color (c # cs) m"
proof (rule ext)
  fix a
  consider "unat (a - video) < 2 * k" | "unat (a - video) = 2 * k" | "unat (a - video) = Suc (2 * k)"
    | "2 * Suc k \<le> unat (a - video)" by atomize_elim arith
  then show "shown (Suc k) color cs (shown k color [c] m) a = shown k color (c # cs) m a"
  proof cases
    case 4
    then have "Suc k \<le> unat (a - video) div 2" by simp
    then have "unat (a - video) div 2 - k = Suc (unat (a - video) div 2 - Suc k)" by simp
    with 4 show ?thesis by (simp add: shown_def Let_def)
  qed (simp_all add: shown_def Let_def)
qed

lemma puts_loop_eq:
  assumes "str_at m p cs" "k + length cs \<le> 2080" "\<And>j. j \<le> length cs \<Longrightarrow> off_display (p + word_of_nat j)"
  shows "puts_loop (word_of_nat k) color p m = Some (word_of_nat (k + length cs), shown k color cs m)"
  using assms
proof (induction cs arbitrary: k p m)
  case Nil
  then show ?case by (subst puts_loop.simps) simp
next
  case (Cons c cs)
  let ?m = "shown k color [c] m"
  have off: "off_display (p + 1 + word_of_nat j)" if "j \<le> length cs" for j
    using Cons.prems(3)[of "Suc j"] that by (simp add: algebra_simps)
  have "str_at ?m (p + 1) cs = str_at m (p + 1) cs"
    using off Cons.prems(2) by (intro str_at_cong) (simp add: shown_off)
  moreover have "puts_loop (word_of_nat k) color p m = puts_loop (word_of_nat (Suc k)) color (p + 1) ?m"
    using Cons.prems(1,2) by (subst puts_loop.simps) (simp add: putc_shown add.commute)
  ultimately show ?case using Cons.IH[of ?m "p + 1" "Suc k"] Cons.prems(1,2) off by (simp add: shown_Cons)
qed

text \<open>A string that can be shown on one line.\<close>

definition line_at :: "boot \<Rightarrow> u32 \<Rightarrow> u8 list \<Rightarrow> bool" where
  "line_at s p cs \<longleftrightarrow> str_at (bmem s) p cs \<and> length cs \<le> 80 \<and> (\<forall>j\<le>length cs. off_display (p + word_of_nat j))"

lemma line_at_cong:
  "line_at s p cs \<Longrightarrow> (\<And>j. j \<le> length cs \<Longrightarrow> bmem t (p + word_of_nat j) = bmem s (p + word_of_nat j)) \<Longrightarrow> line_at t p cs"
  using str_at_cong[of cs "bmem t" p "bmem s"] by (simp add: line_at_def)

definition boot_screen_ok :: "boot \<Rightarrow> bool" where
  "boot_screen_ok s \<longleftrightarrow> unat (row s) \<le> 25 \<and> line_at s (loc_blank s) (replicate 80 32)"

definition next_row :: "nat \<Rightarrow> nat" where
  "next_row r = (if 25 \<le> r then 0 else r + 1)"

lemma puts_boot_eq:
  assumes "line_at s p cs" "r \<le> 25"
  shows "puts_boot (word_of_nat r) 0 color p s
     = Inr (word_of_nat (80 * r + length cs), s\<lparr>bmem := shown (80 * r) color cs (bmem s)\<rparr>)"
proof -
  have "puts_loop (word_of_nat (80 * r)) color p (bmem s)
      = Some (word_of_nat (80 * r + length cs), shown (80 * r) color cs (bmem s))"
    using assms by (intro puts_loop_eq) (auto simp: line_at_def)
  then show ?thesis by (simp add: puts_boot_def mult.commute)
qed

lemma putline_eq:
  fixes s :: boot
  defines "r \<equiv> next_row (unat (row s))"
  assumes "boot_screen_ok s" "line_at s p cs"
  shows "putline p s = Inr (s\<lparr>row := word_of_nat r,
     bmem := shown (80 * r) VGA_CLR_WHITE cs (shown (80 * r) VGA_CLR_BLACK (replicate 80 32) (bmem s))\<rparr>)"
    and "r \<le> 25"
proof -
  have u: "unat (row s) \<le> 25" using assms by (simp add: boot_screen_ok_def)
  then have si: "sint (row s) = int (unat (row s))" by (simp add: sint_small)
  show r: "r \<le> 25" using u by (simp add: r_def next_row_def)
  let ?s1 = "s\<lparr>row := word_of_nat r\<rparr>"
  let ?s2 = "?s1\<lparr>bmem := shown (80 * r) VGA_CLR_BLACK (replicate 80 32) (bmem ?s1)\<rparr>"
  have "sint BOOT_ROWS \<le> sint (row s) \<longleftrightarrow> 25 \<le> unat (row s)" unfolding si by (simp add: BOOT_ROWS_def del: of_nat_unat)
  then have row: "(if sint (row s) \<ge> sint BOOT_ROWS then 0 else row s + 1) = word_of_nat r"
    by (simp add: r_def next_row_def add.commute)
  have b: "line_at ?s1 (loc_blank s) (replicate 80 32)" using assms by (simp add: boot_screen_ok_def line_at_def)
  have 1: "puts_boot (word_of_nat r) 0 VGA_CLR_BLACK (loc_blank s) ?s1 = Inr (word_of_nat (80 * r + 80), ?s2)"
    using puts_boot_eq[OF b r] by simp
  have l: "line_at ?s2 p cs"
    by (rule line_at_cong[OF assms(3)]) (use assms(3) r in \<open>simp add: line_at_def shown_off\<close>)
  have 2: "puts_boot (word_of_nat r) 0 VGA_CLR_WHITE p ?s2
      = Inr (word_of_nat (80 * r + length cs), ?s2\<lparr>bmem := shown (80 * r) VGA_CLR_WHITE cs (bmem ?s2)\<rparr>)"
    by (rule puts_boot_eq[OF l r])
  show "putline p s = Inr (s\<lparr>row := word_of_nat r,
     bmem := shown (80 * r) VGA_CLR_WHITE cs (shown (80 * r) VGA_CLR_BLACK (replicate 80 32) (bmem s))\<rparr>)"
    unfolding putline_def row Let_def using 1 2 by simp
qed

section \<open>Numbers as text\<close>

text \<open>Memory after the bytes \<open>cs\<close> were stored from index \<open>i\<close> of the buffer at \<open>str\<close> on.\<close>

definition stored :: "u32 \<Rightarrow> nat \<Rightarrow> u8 list \<Rightarrow> memory \<Rightarrow> memory" where
  "stored str i cs m = (\<lambda>a. let x = unat (a - str) in if i \<le> x \<and> x < i + length cs then cs ! (x - i) else m a)"

lemma index_eq: "x < 4294967296 \<Longrightarrow> a = str + word_of_nat x \<longleftrightarrow> unat (a - str :: u32) = x"
proof -
  assume x: "x < 4294967296"
  have "unat (a - str) = x \<longleftrightarrow> a - str = word_of_nat x" using unat_u32[OF x] by (metis word_unat_eq_iff)
  then show ?thesis by (auto simp: algebra_simps)
qed

lemma index_sub [simp]: "x < 4294967296 \<Longrightarrow> unat (str + word_of_nat x - str :: u32) = x"
  by (simp add: unat_u32)

lemma stored_Nil [simp]: "stored str i [] m = m"
  by (auto simp: stored_def Let_def fun_eq_iff)

lemma stored_one: "i < 4294967296 \<Longrightarrow> m(str + word_of_nat i := c) = stored str i [c] m"
  using index_eq[of i _ str] by (auto simp: stored_def Let_def fun_eq_iff)

lemma stored_append: "stored str (i + length cs) ds (stored str i cs m) = stored str i (cs @ ds) m"
  by (auto simp: stored_def Let_def fun_eq_iff nth_append)

lemma stored_off: "i + length cs \<le> unat (a - str) \<Longrightarrow> stored str i cs m a = m a"
  by (simp add: stored_def Let_def)

lemma strlen_boot_eq: "str_at m p cs \<Longrightarrow> strlen_boot p n m = Some (n + word_of_nat (length cs))"
proof (induction cs arbitrary: p n)
  case Nil
  then show ?case by (subst strlen_boot.simps) simp
next
  case (Cons c cs)
  then show ?case by (subst strlen_boot.simps) (simp add: algebra_simps)
qed

lemma reverse_loop_eq:
  assumes "i \<le> Suc j" "j < 2147483647"
  shows "reverse_loop (word_of_nat i) (word_of_nat j) str m = (\<lambda>a. let x = unat (a - str)
    in if i \<le> x \<and> x \<le> j then m (str + word_of_nat (i + j - x)) else m a)"
  using assms
proof (induction "j - i" arbitrary: i j m rule: less_induct)
  case less
  have si: "sint (word_of_nat i :: u32) = int i" "sint (word_of_nat j :: u32) = int j"
    using less.prems by (simp_all add: sint_small unat_u32)
  consider "i < j" | "i = j" | "i = Suc j" using less.prems by linarith
  then show ?case
  proof cases
    case 1
    let ?m = "m(str + word_of_nat i := m (str + word_of_nat j), str + word_of_nat j := m (str + word_of_nat i))"
    have at: "a = str + word_of_nat i \<longleftrightarrow> unat (a - str) = i" "a = str + word_of_nat j \<longleftrightarrow> unat (a - str) = j" for a
      using less.prems 1 by (intro index_eq; simp)+
    have in_: "?m (str + word_of_nat k) = m (str + word_of_nat k)" if "i < k" "k < j" for k
      using at[of "str + word_of_nat k"] that less.prems by (simp add: unat_u32)
    have "reverse_loop (word_of_nat i) (word_of_nat j) str m
        = reverse_loop (word_of_nat (Suc i)) (word_of_nat (j - 1)) str ?m"
      using 1 si by (subst reverse_loop.simps) (simp add: of_nat_diff algebra_simps)
    also have "\<dots> = (\<lambda>a. let x = unat (a - str)
        in if Suc i \<le> x \<and> x \<le> j - 1 then ?m (str + word_of_nat (Suc i + (j - 1) - x)) else ?m a)"
      by (rule less.hyps) (use 1 less.prems in auto)
    also have "\<dots> = (\<lambda>a. let x = unat (a - str)
        in if i \<le> x \<and> x \<le> j then m (str + word_of_nat (i + j - x)) else m a)"
    proof (rule ext)
      fix a
      have *: "Suc i + (j - 1) - unat (a - str) = i + j - unat (a - str)" using 1 by simp
      consider "unat (a - str) = i" | "unat (a - str) = j" | "Suc i \<le> unat (a - str)" "unat (a - str) \<le> j - 1"
        | "unat (a - str) < i \<or> j < unat (a - str)" using 1 by linarith
      then show "(let x = unat (a - str) in if Suc i \<le> x \<and> x \<le> j - 1
            then ?m (str + word_of_nat (Suc i + (j - 1) - x)) else ?m a)
          = (let x = unat (a - str) in if i \<le> x \<and> x \<le> j then m (str + word_of_nat (i + j - x)) else m a)"
      proof cases
        case 3
        then have k: "i < i + j - unat (a - str)" "i + j - unat (a - str) < j" using 1 by linarith+
        have c: "(Suc i \<le> unat (a - str) \<and> unat (a - str) \<le> j - 1) = True"
          "(i \<le> unat (a - str) \<and> unat (a - str) \<le> j) = True" using 3 by auto
        show ?thesis unfolding Let_def * c if_True by (rule in_[OF k])
      qed (use 1 at[of a] in \<open>auto simp: Let_def\<close>)
    qed
    finally show ?thesis .
  next
    case 2
    have "unat (a - str) = j \<Longrightarrow> str + word_of_nat j = a" for a using index_eq[of j a str] less.prems by auto
    then show ?thesis using 2 si by (subst reverse_loop.simps) (auto simp: fun_eq_iff Let_def le_antisym)
  next
    case 3
    then show ?thesis using si by (subst reverse_loop.simps) (auto simp: fun_eq_iff Let_def)
  qed
qed

lemma reverse_eq:
  assumes "str_at m str cs" "cs \<noteq> []" "length cs < 2147483648"
  shows "\<exists>m'. reverse str m = Some m' \<and> str_at m' str (rev cs) \<and> (\<forall>a. length cs \<le> unat (a - str) \<longrightarrow> m' a = m a)"
proof -
  obtain n where n: "length cs = Suc n" using assms(2) by (cases cs) auto
  let ?m = "reverse_loop (word_of_nat 0) (word_of_nat n) str m"
  have r: "?m a = (if unat (a - str) \<le> n then m (str + word_of_nat (n - unat (a - str))) else m a)" for a
    using reverse_loop_eq[of 0 n str m] n assms(3) by (simp add: Let_def)
  have "str_at ?m str (rev cs)"
  proof (rule str_at_take)
    show "0 \<notin> set (rev cs)" using str_at_nonzero[OF assms(1)] by simp
    show "?m (str + word_of_nat i) = rev cs ! i" if "i < length (rev cs)" for i
    proof -
      have "?m (str + word_of_nat i) = m (str + word_of_nat (n - i))"
        using r[of "str + word_of_nat i"] that n assms(3) by (simp add: unat_u32)
      also have "\<dots> = cs ! (n - i)" using that n by (intro str_at_nth[OF assms(1)]) simp
      finally show ?thesis using that n by (simp add: rev_nth)
    qed
    show "?m (str + word_of_nat (length (rev cs))) = 0"
      using r[of "str + word_of_nat (Suc n)"] str_at_end[OF assms(1)] n assms(3) unat_u32[of "Suc n"] by simp
  qed
  moreover have "reverse str m = Some ?m" using strlen_boot_eq[OF assms(1), of 0] n by (simp add: reverse_def)
  ultimately show ?thesis using r n by auto
qed

text \<open>The digits of a number, the last one first.\<close>

function digits_rev :: "nat \<Rightarrow> nat \<Rightarrow> nat list" where
  "digits_rev root k = (k mod root # (if 1 < root \<and> 0 < k div root then digits_rev root (k div root) else []))"
  by pat_completeness auto
termination
proof (relation "measure snd", goal_cases)
  case (2 root k)
  then have "0 < k" by (metis div_0 gr0I less_irrefl)
  with 2 show ?case by simp
qed simp

declare digits_rev.simps [simp del]

lemma digits_rev_length: "1 < root \<Longrightarrow> k < root ^ Suc n \<Longrightarrow> length (digits_rev root k) \<le> Suc n"
proof (induction n arbitrary: k)
  case (Suc n)
  then have "k div root < root ^ Suc n" by (simp add: less_mult_imp_div_less mult.commute)
  with Suc show ?case by (subst digits_rev.simps) simp
qed (simp add: digits_rev.simps)

lemma digits_rev_bound: "1 < root \<Longrightarrow> d \<in> set (digits_rev root k) \<Longrightarrow> d < root"
proof (induction root k rule: digits_rev.induct)
  case (1 root k)
  then show ?case by (subst (asm) digits_rev.simps) (auto split: if_splits)
qed

lemma int_division: "k < 2147483648 \<Longrightarrow> r < 2147483648 \<Longrightarrow>
    int_mod (word_of_nat k) (word_of_nat r) = word_of_nat (k mod r) \<and>
    int_div (word_of_nat k) (word_of_nat r) = word_of_nat (k div r)"
proof -
  assume a: "k < 2147483648" "r < 2147483648"
  have "int k smod int r = int (k mod r)" "int k sdiv int r = int (k div r)"
    by (cases "k = 0"; cases "r = 0"; simp add: signed_modulo_int_def signed_divide_int_def zmod_int zdiv_int)+
  then show ?thesis using a
    by (simp add: int_mod_def int_div_def sint_small unat_u32 del: of_nat_div of_nat_mod)
qed

text \<open>The table of the digits, apart from the 40 bytes of the buffer.\<close>

definition digit_table :: "nat \<Rightarrow> u32 \<Rightarrow> u32 \<Rightarrow> memory \<Rightarrow> bool" where
  "digit_table root table str m \<longleftrightarrow>
     (\<forall>d<root. m (table + word_of_nat d) = digit_char d \<and> 40 \<le> unat (table + word_of_nat d - str))"

lemma digit_table_stored:
  "digit_table root table str m \<Longrightarrow> i + length cs \<le> 40 \<Longrightarrow> digit_table root table str (stored str i cs m)"
  using stored_off[of i cs "table + word_of_nat d" str m for d] by (fastforce simp: digit_table_def)

lemma itox_digits_eq:
  assumes "1 < root" "root \<le> 16" "k < 2147483648" "digit_table root table str m"
    "i + length (digits_rev root k) \<le> 40"
  shows "itox_digits (word_of_nat k) str (word_of_nat i) (word_of_nat root) table m
    = Some (word_of_nat (i + length (digits_rev root k)), stored str i (map digit_char (digits_rev root k)) m)"
  using assms
proof (induction root k arbitrary: i m rule: digits_rev.induct)
  case (1 root k)
  let ?c = "digit_char (k mod root)"
  let ?m = "stored str i [?c] m"
  have dv: "int_mod (word_of_nat k) (word_of_nat root) = word_of_nat (k mod root)"
    "int_div (word_of_nat k) (word_of_nat root) = word_of_nat (k div root)"
    using int_division[of k root] "1.prems" by auto
  have "k mod root < root" using "1.prems" by simp
  then have c: "m (table + word_of_nat (k mod root)) = ?c" using "1.prems"(4) by (simp add: digit_table_def)
  have i: "i < 40" using "1.prems"(5) by (subst (asm) digits_rev.simps) simp
  have kd: "k div root \<le> k" "k div root < 2147483648" using "1.prems"(3) by (simp, metis div_le_dividend order_le_less_trans)
  then have pos: "0 < sint (word_of_nat (k div root) :: u32) \<longleftrightarrow> 0 < k div root"
    by (simp add: sint_small unat_u32 del: of_nat_div)
  have step: "itox_digits (word_of_nat k) str (word_of_nat i) (word_of_nat root) table m
      = (if 0 < k div root then itox_digits (word_of_nat (k div root)) str (word_of_nat (Suc i)) (word_of_nat root) table ?m
         else Some (word_of_nat (Suc i), ?m))"
    using i by (subst itox_digits.simps) (simp add: Let_def dv c pos stored_one add.commute del: of_nat_div of_nat_mod)
  show ?case
  proof (cases "0 < k div root")
    case True
    have ds: "digits_rev root k = k mod root # digits_rev root (k div root)"
      using True "1.prems"(1) by (subst digits_rev.simps) simp
    have "itox_digits (word_of_nat (k div root)) str (word_of_nat (Suc i)) (word_of_nat root) table ?m
        = Some (word_of_nat (Suc i + length (digits_rev root (k div root))),
            stored str (Suc i) (map digit_char (digits_rev root (k div root))) ?m)"
      using "1.prems" True kd i by (intro "1.IH") (auto simp: ds digit_table_stored)
    then show ?thesis using step True stored_append[of str i "[?c]" _ m] by (simp add: ds)
  next
    case False
    then have "digits_rev root k = [k mod root]" by (subst digits_rev.simps) simp
    then show ?thesis using step False by simp
  qed
qed

text \<open>
  The text of a number: the digits of its absolute value behind a minus sign if it is negative. The
  least number of all is its own negative, and its quotient by the root is not positive either: only
  its last digit is written.
\<close>

definition num_text :: "nat \<Rightarrow> nat \<Rightarrow> u8 list" where
  "num_text root k = map digit_char (rev (digits_rev root k))"

definition int_text :: "nat \<Rightarrow> i32 \<Rightarrow> u8 list" where
  "int_text root n = (if sint n < 0 then [45] else []) @
     (if n = 0x80000000 then [48] else num_text root (nat \<bar>sint n\<bar>))"

lemma num_text_length: "1 < root \<Longrightarrow> k < root ^ Suc n \<Longrightarrow> length (num_text root k) \<le> Suc n"
  by (simp add: num_text_def digits_rev_length)

lemma num_text_nonzero: "1 < root \<Longrightarrow> root \<le> 16 \<Longrightarrow> 0 \<notin> set (num_text root k)"
proof
  assume r: "1 < root" "root \<le> 16" and "0 \<in> set (num_text root k)"
  then obtain d where "d \<in> set (digits_rev root k)" "digit_char d = 0" by (auto simp: num_text_def)
  with digits_rev_bound[OF r(1)] r(2) digit_char_nonzero[of d] show False by fastforce
qed

lemma num_text_value: "1 < root \<Longrightarrow> root \<le> 16 \<Longrightarrow> read_number root (num_text root k) = k"
proof (induction root k rule: digits_rev.induct)
  case (1 root k)
  have "k mod root < 16" using "1.prems" by (metis less_le_trans mod_less_divisor order_less_trans zero_less_one)
  then have d: "digit_value (digit_char (k mod root)) = k mod root" by (rule digit_value_char)
  show ?case
  proof (cases "0 < k div root")
    case True
    then have "num_text root k = num_text root (k div root) @ [digit_char (k mod root)]"
      using "1.prems"(1) by (simp add: num_text_def) (subst digits_rev.simps, simp)
    then show ?thesis using "1.IH" True "1.prems" d by (simp add: read_number_def)
  next
    case False
    then have "num_text root k = [digit_char (k mod root)]" by (simp add: num_text_def) (subst digits_rev.simps, simp)
    moreover have "k mod root = k" using False "1.prems"(1) by (simp add: div_eq_0_iff)
    ultimately show ?thesis using d by (simp add: read_number_def)
  qed
qed

lemma itox_digits_abs:
  assumes "1 < root" "root \<le> 16" "n = 0x80000000 \<longrightarrow> root = 16" "digit_table root table str m"
    and len: "length (int_text root n) < 40"
  shows "\<exists>ds. rev ds = (if n = 0x80000000 then [48] else num_text root (nat \<bar>sint n\<bar>)) \<and>
    itox_digits (if sint n < 0 then - n else n) str 0 (word_of_nat root) table m = Some (word_of_nat (length ds), stored str 0 ds m)"
proof (cases "n = 0x80000000")
  case True
  have d: "m table = 48" using assms(1,4) by (simp add: digit_table_def) (drule spec[of _ 0], simp add: digit_char_def)
  have v: "int_mod 0x80000000 16 = 0" "sint (int_div 0x80000000 16) < 0"
    by (simp_all add: int_mod_def int_div_def signed_modulo_int_def signed_divide_int_def)
  have "itox_digits 0x80000000 str 0 16 table m = Some (1, stored str 0 [48] m)"
    using v stored_one[of 0 m str 48] by (subst itox_digits.simps) (simp add: Let_def d)
  moreover have "(if sint n < 0 then - n else n) = 0x80000000" by (simp add: True)
  ultimately show ?thesis using True assms(3) by (intro exI[of _ "[48]"]) (simp only: if_True, simp)
next
  case False
  let ?k = "nat \<bar>sint n\<bar>"
  have b: "- 2147483648 \<le> sint n" "sint n < 2147483648" by (rule sint_u32_bounds)+
  have "sint n \<noteq> - 2147483648"
  proof
    assume "sint n = - 2147483648"
    then have "sint n = sint (0x80000000 :: u32)" by simp
    then have "n = 0x80000000" by (rule signed_word_eqI)
    with False show False by blast
  qed
  with b have k: "?k < 2147483648" by linarith
  have "(if sint n < 0 then - n else n) = word_of_nat ?k"
    by (simp add: of_nat_nat)
  moreover have "0 + length (digits_rev root ?k) \<le> 40" using len False by (simp add: int_text_def num_text_def split: if_splits)
  ultimately show ?thesis using itox_digits_eq[OF assms(1,2) k assms(4), of 0] False
    by (intro exI[of _ "map digit_char (digits_rev root ?k)"]) (simp add: num_text_def rev_map)
qed

lemma itox_eq:
  assumes "1 < root" "root \<le> 16" "n = 0x80000000 \<longrightarrow> root = 16" "digit_table root table str m"
    "length (int_text root n) < 40"
  shows "\<exists>m'. itox n str (word_of_nat root) table m = Some m' \<and> str_at m' str (int_text root n) \<and>
    (\<forall>a. length (int_text root n) < unat (a - str) \<longrightarrow> m' a = m a)"
proof -
  from itox_digits_abs[OF assms] obtain ds where ds: "rev ds = (if n = 0x80000000 then [48] else num_text root (nat \<bar>sint n\<bar>))"
    and d: "itox_digits (if sint n < 0 then - n else n) str 0 (word_of_nat root) table m = Some (word_of_nat (length ds), stored str 0 ds m)"
    by blast
  let ?cs = "ds @ (if sint n < 0 then [45] else [])"
  have rev: "rev ?cs = int_text root n" using ds by (auto simp: int_text_def)
  have len: "length ?cs = length (int_text root n)" using arg_cong[OF rev, of length] by simp
  let ?m = "stored str 0 (?cs @ [0]) m"
  have "digits_rev root k \<noteq> []" for k by (subst digits_rev.simps) simp
  then have "ds \<noteq> []" using ds by (auto simp: num_text_def split: if_splits)
  have "0 \<notin> set (rev ?cs)" unfolding rev using num_text_nonzero[OF assms(1,2)] by (auto simp: int_text_def)
  then have "str_at ?m str ?cs"
    using len assms(5) by (intro str_at_take) (auto simp: stored_def Let_def unat_u32 nth_append)
  with reverse_eq[of ?m str ?cs] \<open>ds \<noteq> []\<close> len assms(5) obtain m' where m': "reverse str ?m = Some m'"
    "str_at m' str (rev ?cs)" "\<forall>a. length ?cs \<le> unat (a - str) \<longrightarrow> m' a = ?m a" by auto
  have "m' a = m a" if "length (int_text root n) < unat (a - str)" for a
    using m'(3) that len stored_off[of 0 "?cs @ [0]" a str m] by simp
  moreover have "itox n str (word_of_nat root) table m = reverse str ?m"
  proof (cases "sint n < 0")
    case True
    have a: "length ds + length [45::u8] < 40" using True len assms(5) by simp
    then have "(stored str 0 ds m)(str + word_of_nat (length ds) := 45, str + word_of_nat (Suc (length ds)) := 0)
        = stored str (length (ds @ [45])) [0] (stored str (length ds) [45] (stored str 0 ds m))"
      using stored_one[of "length ds" "stored str 0 ds m" str 45]
        stored_one[of "Suc (length ds)" "stored str (length ds) [45] (stored str 0 ds m)" str 0] by simp
    also have "\<dots> = ?m" using True stored_append[of str 0 ds "[45]" m] stored_append[of str 0 "ds @ [45]" "[0]" m] by simp
    finally show ?thesis using True d by (simp add: itox_def Let_def add.commute)
  next
    case False
    have "length ds < 40" using False len assms(5) by simp
    then have "(stored str 0 ds m)(str + word_of_nat (length ds) := 0) = ?m"
      using False stored_one[of "length ds" "stored str 0 ds m" str 0] stored_append[of str 0 ds "[0]" m] by simp
    then show ?thesis using False d by (simp add: itox_def Let_def)
  qed
  ultimately show ?thesis using m' rev by auto
qed

lemma hex_length: "length (int_text 16 n) \<le> 9"
proof -
  have "nat \<bar>sint n\<bar> < 16 ^ Suc 7" using sint_u32_bounds[of n] by simp
  then have "length (num_text 16 (nat \<bar>sint n\<bar>)) \<le> 8" using num_text_length[of 16 "nat \<bar>sint n\<bar>" 7] by simp
  then show ?thesis unfolding int_text_def by (auto simp del: abs_of_neg abs_of_nonneg)
qed

text \<open>What \<^verbatim>\<open>puti\<close> needs: the table of digits and a buffer off the display, apart from the blank line.\<close>

definition puti_ok :: "boot \<Rightarrow> bool" where
  "puti_ok s \<longleftrightarrow> boot_screen_ok s \<and> digit_table 16 (loc_hex s) (loc_puti_str s) (bmem s) \<and>
     (\<forall>i<40. off_display (loc_puti_str s + word_of_nat i)) \<and>
     (\<forall>d<16. off_display (loc_hex s + word_of_nat d)) \<and>
     (\<forall>j\<le>80. 40 \<le> unat (loc_blank s + word_of_nat j - loc_puti_str s))"

text \<open>The bytes that output may change: the display and the buffer of \<^verbatim>\<open>puti\<close>.\<close>

definition output_frame :: "boot \<Rightarrow> boot \<Rightarrow> bool" where
  "output_frame s t \<longleftrightarrow> t = s\<lparr>bmem := bmem t, row := row t\<rparr> \<and>
     (\<forall>a. off_display a \<longrightarrow> 40 \<le> unat (a - loc_puti_str s) \<longrightarrow> bmem t a = bmem s a)"

lemma output_frame_refl [simp]: "output_frame s s"
  by (simp add: output_frame_def)

lemma output_frame_trans: "output_frame s t \<Longrightarrow> output_frame t u \<Longrightarrow> output_frame s u"
  by (cases s, cases t, cases u) (simp add: output_frame_def)

lemma output_frame_sel: "output_frame s t \<Longrightarrow> in8 t = in8 s \<and> in32 t = in32 s \<and> accesses t = accesses s \<and>
    loc_blank t = loc_blank s \<and> loc_puti_str t = loc_puti_str s \<and> loc_hex t = loc_hex s \<and> loc_dec t = loc_dec s \<and>
    loc_mboot_info t = loc_mboot_info s \<and> loc_text t = loc_text s"
  by (cases s, cases t) (simp add: output_frame_def)

lemma puti_ok_frame:
  assumes "output_frame s t" "puti_ok s" "unat (row t) \<le> 25"
  shows "puti_ok t"
proof -
  note f = output_frame_sel[OF assms(1)]
  have m: "bmem t a = bmem s a" if "off_display a" "40 \<le> unat (a - loc_puti_str s)" for a
    using assms(1) that by (simp add: output_frame_def)
  have "line_at t (loc_blank s) (replicate 80 32)"
    by (rule line_at_cong[of s]) (use assms(2) m in \<open>auto simp: puti_ok_def boot_screen_ok_def line_at_def\<close>)
  moreover have "digit_table 16 (loc_hex s) (loc_puti_str s) (bmem t)"
    using assms(2) m by (auto simp: puti_ok_def digit_table_def)
  ultimately show ?thesis using assms f by (simp add: puti_ok_def boot_screen_ok_def)
qed

lemma putline_ok:
  assumes "puti_ok s" "line_at s p cs"
  shows "\<exists>t. putline p s = Inr t \<and> output_frame s t \<and> puti_ok t"
proof -
  have d: "boot_screen_ok s" using assms(1) by (simp add: puti_ok_def)
  let ?r = "next_row (unat (row s))"
  obtain t where t: "putline p s = Inr t" "t = s\<lparr>row := word_of_nat ?r, bmem := shown (80 * ?r) VGA_CLR_WHITE cs
      (shown (80 * ?r) VGA_CLR_BLACK (replicate 80 32) (bmem s))\<rparr>" and r: "?r \<le> 25"
    using putline_eq[OF d assms(2)] by blast
  have "length cs \<le> 80" using assms(2) by (simp add: line_at_def)
  then have f: "output_frame s t" using t(2) r by (simp add: output_frame_def shown_off)
  moreover have "puti_ok t" by (rule puti_ok_frame[OF f assms(1)]) (use t(2) r in \<open>simp add: unat_u32\<close>)
  ultimately show ?thesis using t(1) by blast
qed

lemma puti_returns:
  assumes "puti_ok s"
  shows "\<exists>t. puti n s = Inr t \<and> output_frame s t \<and> puti_ok t"
proof -
  let ?b = "loc_puti_str s"
  have "digit_table 16 (loc_hex s) ?b (bmem s)" using assms by (simp add: puti_ok_def)
  moreover have l: "length (int_text 16 n) \<le> 9" by (rule hex_length)
  ultimately obtain m where m: "itox n ?b 16 (loc_hex s) (bmem s) = Some m" "str_at m ?b (int_text 16 n)"
    "\<And>a. length (int_text 16 n) < unat (a - ?b) \<Longrightarrow> m a = bmem s a"
    using itox_eq[of 16 n "loc_hex s" ?b "bmem s"] by auto
  let ?s = "s\<lparr>bmem := m\<rparr>"
  have f: "output_frame s ?s" using m(3) l by (simp add: output_frame_def)
  have "puti_ok ?s" by (rule puti_ok_frame[OF f assms]) (use assms in \<open>simp add: puti_ok_def boot_screen_ok_def\<close>)
  moreover have "line_at ?s ?b (int_text 16 n)" using m(2) l assms by (simp add: line_at_def puti_ok_def)
  ultimately obtain t where "putline ?b ?s = Inr t" "output_frame ?s t" "puti_ok t" using putline_ok by blast
  then show ?thesis using m(1) output_frame_trans[OF f] by (auto simp: puti_def itoh_def)
qed

section \<open>Reading the disk\<close>

text \<open>
  The ports of a disk that follows the ATA protocol, as far as the loader uses it: polling the status
  ends, and once it reports a finished read command for one sector below $2^{28}$, reads of the data port
  give the words of this sector in order. \<open>sec n k\<close> is word \<open>k\<close> of sector \<open>n\<close>.
\<close>

definition read_command :: "u32 \<Rightarrow> access list" where
  "read_command lba = [Out 0x1F7 0x20, Out 0x1F6 (ucast (drop_bit 24 lba OR 0xE0)), Out 0x1F5 (ucast (drop_bit 16 lba)),
     Out 0x1F4 (ucast (drop_bit 8 lba)), Out 0x1F3 (ucast lba), Out 0x1F2 1]"

definition ready :: "(access list \<Rightarrow> u32 \<Rightarrow> u8) \<Rightarrow> access list \<Rightarrow> bool" where
  "ready f h \<longleftrightarrow> f h 0x1F7 AND 0xC0 = 0x40"

definition ata_disk :: "(access list \<Rightarrow> u32 \<Rightarrow> u8) \<Rightarrow> (access list \<Rightarrow> u32 \<Rightarrow> u32) \<Rightarrow> (u32 \<Rightarrow> nat \<Rightarrow> u32) \<Rightarrow> bool" where
  "ata_disk f8 f32 sec \<longleftrightarrow>
     (\<forall>h. \<exists>n. ready f8 (replicate n (In 0x1F7) @ h)) \<and>
     (\<forall>h lba n k. lba < 0x10000000 \<longrightarrow> k < 128 \<longrightarrow> ready f8 (replicate n (In 0x1F7) @ read_command lba @ h) \<longrightarrow>
        f32 (replicate k (In32 0x1F0) @ replicate (Suc n) (In 0x1F7) @ read_command lba @ h) 0x1F0 = sec lba k)"

lemma waitdisk_until:
  "ready (in8 s) (replicate n (In 0x1F7) @ accesses s) \<Longrightarrow>
     \<exists>k\<le>n. waitdisk s = Some (s\<lparr>accesses := replicate (Suc k) (In 0x1F7) @ accesses s\<rparr>) \<and>
       ready (in8 s) (replicate k (In 0x1F7) @ accesses s)"
proof (induction n arbitrary: s)
  case 0
  then show ?case by (subst waitdisk.simps) (simp add: inb_boot_def ready_def)
next
  case (Suc n)
  let ?t = "s\<lparr>accesses := In 0x1F7 # accesses s\<rparr>"
  show ?case
  proof (cases "ready (in8 s) (accesses s)")
    case True
    then show ?thesis by (intro exI[of _ 0]) (subst waitdisk.simps, simp add: inb_boot_def ready_def)
  next
    case False
    then have w: "waitdisk s = waitdisk ?t" by (subst waitdisk.simps) (simp add: inb_boot_def ready_def)
    have "ready (in8 ?t) (replicate n (In 0x1F7) @ accesses ?t)"
      using Suc.prems by (simp add: replicate_app_Cons_same)
    from Suc.IH[OF this] obtain k where "k \<le> n" "waitdisk ?t = Some (?t\<lparr>accesses := replicate (Suc k) (In 0x1F7) @ accesses ?t\<rparr>)"
      "ready (in8 ?t) (replicate k (In 0x1F7) @ accesses ?t)" by blast
    then show ?thesis using w by (intro exI[of _ "Suc k"]) (simp add: replicate_app_Cons_same)
  qed
qed

definition word_byte :: "u32 \<Rightarrow> nat \<Rightarrow> u8" where
  "word_byte w i = ucast (drop_bit (8 * i) w)"

lemma store32_index:
  "store32 m p v a = (if unat (a - p) < 4 then word_byte v (unat (a - p)) else m a)"
proof -
  consider "a = p" | "a = p + 1" | "a = p + 2" | "a = p + 3" | "4 \<le> unat (a - p)"
    by (metis unat_less_4 add.commute add.right_neutral diff_add_cancel not_le)
  then show ?thesis
  proof cases
    case 5
    then have "a \<noteq> p" "a \<noteq> p + 1" "a \<noteq> p + 2" "a \<noteq> p + 3" by auto
    with 5 show ?thesis by (simp add: store32_def)
  qed (simp_all add: store32_def word_byte_def)
qed

lemma unat_shift:
  assumes "unat c + n \<le> 4294967296"
  shows "unat (a - (p + c)) < n \<longleftrightarrow> unat c \<le> unat (a - p) \<and> unat (a - p) < unat c + n"
    "unat c \<le> unat (a - p) \<Longrightarrow> unat (a - (p + c :: u32)) = unat (a - p) - unat c"
proof -
  have e: "a - (p + c) = (a - p) - c" by simp
  show *: "unat c \<le> unat (a - p) \<Longrightarrow> unat (a - (p + c)) = unat (a - p) - unat c"
    unfolding e by (simp add: unat_sub word_le_nat_alt)
  show "unat (a - (p + c)) < n \<longleftrightarrow> unat c \<le> unat (a - p) \<and> unat (a - p) < unat c + n"
  proof (cases "unat c \<le> unat (a - p)")
    case False
    then have "unat ((a - p) - c) = unat (a - p) + 4294967296 - unat c"
      unfolding unat_sub_if' by simp
    then show ?thesis unfolding e using assms False by simp
  qed (use * in auto)
qed

lemma insl_eq:
  assumes "4 * n \<le> 4294967296"
  shows "insl port addr n s = s\<lparr>accesses := replicate n (In32 port) @ accesses s,
    bmem := (\<lambda>a. let x = unat (a - addr) in
      if x < 4 * n then word_byte (in32 s (replicate (x div 4) (In32 port) @ accesses s) port) (x mod 4) else bmem s a)\<rparr>"
  using assms
proof (induction n arbitrary: addr s)
  case (Suc n)
  let ?t = "s\<lparr>bmem := store32 (bmem s) addr (in32 s (accesses s) port), accesses := In32 port # accesses s\<rparr>"
  let ?w = "\<lambda>k. in32 s (replicate k (In32 port) @ accesses s) port"
  have m: "(let x = unat (a - (addr + 4)) in if x < 4 * n
        then word_byte (in32 ?t (replicate (x div 4) (In32 port) @ accesses ?t) port) (x mod 4) else bmem ?t a)
      = (let x = unat (a - addr) in if x < 4 * Suc n then word_byte (?w (x div 4)) (x mod 4) else bmem s a)" for a
  proof -
    note sh = unat_shift[of 4 "4 * n" a addr]
    consider "unat (a - addr) < 4" | "4 \<le> unat (a - addr)" "unat (a - addr) < 4 * Suc n" | "4 * Suc n \<le> unat (a - addr)"
      by linarith
    then show ?thesis
    proof cases
      case 2
      then obtain y where y: "unat (a - addr) = y + 4" by (metis add.commute le_Suc_ex)
      then have "unat (a - addr) div 4 = Suc (y div 4)" by simp
      with y 2 sh Suc.prems show ?thesis by (simp add: Let_def replicate_app_Cons_same)
    qed (use sh Suc.prems in \<open>simp_all add: Let_def store32_index\<close>)
  qed
  have "insl port addr (Suc n) s = ?t\<lparr>accesses := replicate n (In32 port) @ accesses ?t,
    bmem := (\<lambda>a. let x = unat (a - (addr + 4)) in
      if x < 4 * n then word_byte (in32 ?t (replicate (x div 4) (In32 port) @ accesses ?t) port) (x mod 4) else bmem ?t a)\<rparr>"
    using Suc.IH[of "addr + 4" ?t] Suc.prems by simp
  then show ?case unfolding m by (simp add: replicate_app_Cons_same)
qed simp

text \<open>Byte \<open>pos\<close> of what the disk holds from sector \<open>lba\<close> on.\<close>

definition disk_byte :: "(u32 \<Rightarrow> nat \<Rightarrow> u32) \<Rightarrow> u32 \<Rightarrow> nat \<Rightarrow> u8" where
  "disk_byte sec lba pos = word_byte (sec (lba + word_of_nat (pos div 512)) (pos mod 512 div 4)) (pos mod 4)"

text \<open>Memory after \<open>n\<close> bytes of the disk were read to \<open>dst\<close>.\<close>

definition loaded :: "(u32 \<Rightarrow> nat \<Rightarrow> u32) \<Rightarrow> u32 \<Rightarrow> u32 \<Rightarrow> nat \<Rightarrow> memory \<Rightarrow> memory" where
  "loaded sec lba dst n m = (\<lambda>a. if unat (a - dst) < n then disk_byte sec lba (unat (a - dst)) else m a)"

lemma readsector_eq:
  assumes "ata_disk (in8 s) (in32 s) sec" "lba < 0x10000000"
  shows "\<exists>h. readsector dst lba s = Some (s\<lparr>accesses := h, bmem := loaded sec lba dst 512 (bmem s)\<rparr>)"
proof -
  from assms(1) obtain i where "ready (in8 s) (replicate i (In 0x1F7) @ accesses s)" unfolding ata_disk_def by blast
  from waitdisk_until[OF this] obtain i where w1: "waitdisk s = Some (s\<lparr>accesses := replicate (Suc i) (In 0x1F7) @ accesses s\<rparr>)" by blast
  let ?h = "replicate (Suc i) (In 0x1F7) @ accesses s"
  let ?t = "s\<lparr>accesses := read_command lba @ ?h\<rparr>"
  have "\<exists>j. ready (in8 s) (replicate j (In 0x1F7) @ accesses ?t)" using assms(1) unfolding ata_disk_def by blast
  then obtain j where "ready (in8 ?t) (replicate j (In 0x1F7) @ accesses ?t)" by auto
  from waitdisk_until[OF this] obtain j where
    w2: "waitdisk ?t = Some (?t\<lparr>accesses := replicate (Suc j) (In 0x1F7) @ accesses ?t\<rparr>)"
    and r: "ready (in8 ?t) (replicate j (In 0x1F7) @ accesses ?t)" by blast
  let ?h2 = "replicate (Suc j) (In 0x1F7) @ read_command lba @ ?h"
  let ?u = "s\<lparr>accesses := ?h2\<rparr>"
  have d: "in32 s (replicate k (In32 0x1F0) @ ?h2) 0x1F0 = sec lba k" if "k < 128" for k
    using assms that r unfolding ata_disk_def by simp
  have "readsector dst lba s = Some (insl 0x1F0 dst 128 ?u)"
    using w2 by (simp add: readsector_def w1 outb_boot_def read_command_def SECTOR_SIZE_def)
  moreover have "insl 0x1F0 dst 128 ?u
      = s\<lparr>accesses := replicate 128 (In32 0x1F0) @ ?h2, bmem := loaded sec lba dst 512 (bmem s)\<rparr>"
    using d by (subst insl_eq) (auto simp: loaded_def disk_byte_def Let_def fun_eq_iff)
  ultimately show ?thesis by (intro exI[of _ "replicate 128 (In32 0x1F0) @ ?h2"]) (simp only:)
qed

lemma readsection_loop_eq:
  assumes "ata_disk (in8 s) (in32 s) sec" "unat end_va \<le> unat va + 512 * n" "unat va + 512 * n < unat end_va + 512 \<or> n = 0"
    "unat va + 512 * n < 4294967296" "unat lba + n \<le> 0x10000000"
  shows "\<exists>h. readsection_loop va end_va lba s = Some (s\<lparr>accesses := h, bmem := loaded sec lba va (512 * n) (bmem s)\<rparr>)"
  using assms
proof (induction n arbitrary: va lba s)
  case 0
  then have "\<not> va < end_va" by (simp add: word_less_nat_alt)
  moreover have "loaded sec lba va 0 (bmem s) = bmem s" by (simp add: loaded_def)
  ultimately show ?case by (intro exI[of _ "accesses s"]) (subst readsection_loop.simps, simp)
next
  case (Suc n)
  have lt: "va < end_va" using Suc.prems(2,3) by (simp add: word_less_nat_alt)
  have lba: "lba < 0x10000000" using Suc.prems(5) by (simp add: word_less_nat_alt)
  from readsector_eq[OF Suc.prems(1) lba] obtain h where
    r: "readsector va lba s = Some (s\<lparr>accesses := h, bmem := loaded sec lba va 512 (bmem s)\<rparr>)" by blast
  let ?t = "s\<lparr>accesses := h, bmem := loaded sec lba va 512 (bmem s)\<rparr>"
  have u: "unat (va + 512) = unat va + 512" "unat (lba + 1) = unat lba + 1"
    using Suc.prems(4,5) by (simp_all add: unat_word_ariths)
  have "\<exists>h. readsection_loop (va + 512) end_va (lba + 1) ?t
      = Some (?t\<lparr>accesses := h, bmem := loaded sec (lba + 1) (va + 512) (512 * n) (bmem ?t)\<rparr>)"
    by (rule Suc.IH) (use Suc.prems u in auto)
  moreover have "loaded sec (lba + 1) (va + 512) (512 * n) (loaded sec lba va 512 (bmem s))
      = loaded sec lba va (512 * Suc n) (bmem s)"
  proof (rule ext)
    fix a
    note sh = unat_shift[of 512 "512 * n" a va]
    consider "unat (a - va) < 512" | "512 \<le> unat (a - va)" "unat (a - va) < 512 * Suc n" | "512 * Suc n \<le> unat (a - va)"
      by linarith
    then show "loaded sec (lba + 1) (va + 512) (512 * n) (loaded sec lba va 512 (bmem s)) a
        = loaded sec lba va (512 * Suc n) (bmem s) a"
    proof cases
      case 2
      then obtain y where y: "unat (a - va) = y + 512" by (metis add.commute le_Suc_ex)
      then have "unat (a - va) div 512 = Suc (y div 512)" "unat (a - va) mod 4 = y mod 4" by (simp, unfold y, presburger)
      moreover have "unat (a - (va + 512)) = y" "y < 512 * n" using y 2 sh Suc.prems(4) by simp_all
      ultimately show ?thesis using y by (simp add: loaded_def disk_byte_def add.assoc)
    qed (use sh Suc.prems(4) in \<open>simp_all add: loaded_def\<close>)
  qed
  ultimately show ?case using lt r
    by (subst readsection_loop.simps) (auto simp: SECTOR_SIZE_def)
qed

text \<open>The number of sectors that \<^verbatim>\<open>readsection\<close> reads, and where it puts the first one.\<close>

definition section_start :: "u32 \<Rightarrow> u32" where
  "section_start va = (va AND 0xFFFFFF) AND NOT (SECTOR_SIZE - 1)"

definition section_bytes :: "u32 \<Rightarrow> u32 \<Rightarrow> nat" where
  "section_bytes va count = 512 * ((unat (va AND 0xFFFFFF) mod 512 + unat count + 511) div 512)"

lemma section_start_eq:
  "unat (section_start va) = 512 * (unat (va AND 0xFFFFFF) div 512)" "unat (va AND 0xFFFFFF) < 16777216"
proof -
  have m: "va AND 0xFFFFFF = take_bit 24 va" by (simp add: take_bit_eq_mask mask_eq_exp_minus_1)
  have k: "w AND NOT 511 = push_bit 9 (drop_bit 9 w)" for w :: u32
  proof (rule bit_word_eqI)
    fix n assume n: "n < LENGTH(32)"
    have m: "(511 :: u32) = mask 9" by (simp add: mask_eq_exp_minus_1)
    show "bit (w AND NOT 511) n = bit (push_bit 9 (drop_bit 9 w)) n"
      unfolding m using n by (auto simp: bit_simps)
  qed
  show lt: "unat (va AND 0xFFFFFF) < 16777216" unfolding m
    using take_bit_nat_less_exp[of 24 "unat va"] by (simp add: unsigned_take_bit_eq)
  have "unat (push_bit 9 (drop_bit 9 w)) = 512 * (unat w div 512)" for w :: u32
    by (simp add: push_bit_eq_mult drop_bit_eq_div unat_word_ariths unat_div) (use unsigned_less[of w, where ?'a = nat] in simp)
  moreover have "SECTOR_SIZE - 1 = 511" by (simp add: SECTOR_SIZE_def)
  ultimately show "unat (section_start va) = 512 * (unat (va AND 0xFFFFFF) div 512)"
    by (simp only: section_start_def k)
qed

lemma readsection_eq:
  assumes "ata_disk (in8 s) (in32 s) sec" "unat (va AND 0xFFFFFF) + unat count \<le> 4294966784"
    "unat offset div 512 + unat lba + section_bytes va count div 512 \<le> 0x10000000"
  shows "\<exists>h. readsection va count offset lba s = Inr (s\<lparr>accesses := h,
    bmem := loaded sec (offset div 512 + lba) (section_start va) (section_bytes va count) (bmem s)\<rparr>)"
proof -
  let ?v = "unat (va AND 0xFFFFFF)" and ?n = "section_bytes va count div 512"
  have n: "section_bytes va count = 512 * ?n" by (simp add: section_bytes_def)
  have v: "?v = 512 * (?v div 512) + ?v mod 512" by simp
  have e: "unat ((va AND 0xFFFFFF) + count) = ?v + unat count"
    using assms(2) by (simp add: unat_word_ariths)
  have q: "?n = (?v mod 512 + unat count + 511) div 512" by (simp add: section_bytes_def)
  have b: "?v mod 512 + unat count \<le> 512 * ?n" "512 * ?n < ?v mod 512 + unat count + 512" unfolding q by linarith+
  have o: "unat (offset div 512 + lba) = unat offset div 512 + unat lba"
    using assms(3) by (simp add: unat_word_ariths unat_div)
  have "\<exists>h. readsection_loop (section_start va) ((va AND 0xFFFFFF) + count) (offset div 512 + lba) s
      = Some (s\<lparr>accesses := h, bmem := loaded sec (offset div 512 + lba) (section_start va) (512 * ?n) (bmem s)\<rparr>)"
    by (rule readsection_loop_eq[OF assms(1)]) (use section_start_eq(1)[of va] v e b o assms(2,3) in linarith)+
  then show ?thesis using n by (auto simp: readsection_def section_start_def Let_def SECTOR_SIZE_def)
qed

text \<open>
  If address and offset agree below the size of a sector, the bytes asked for are those of the disk
  at the offset. Bytes outside the sectors read stay as they are.
\<close>

lemma loaded_section:
  assumes "unat (va AND 0xFFFFFF) + unat count \<le> 4294966784" "unat (va AND 0xFFFFFF) mod 512 = unat offset mod 512" "k < unat count"
  shows "loaded sec (offset div 512 + lba) (section_start va) (section_bytes va count) m ((va AND 0xFFFFFF) + word_of_nat k)
    = disk_byte sec lba (unat offset + k)"
proof -
  let ?v = "unat (va AND 0xFFFFFF)"
  let ?a = "(va AND 0xFFFFFF) + word_of_nat k"
  have a: "unat ?a = ?v + k" using assms(1,3) by (simp add: unat_word_ariths unat_u32)
  have le: "section_start va \<le> ?a" using a section_start_eq(1)[of va] by (simp add: word_le_nat_alt)
  have v: "?v = 512 * (?v div 512) + ?v mod 512" by simp
  have x: "unat (?a - section_start va) = ?v mod 512 + k"
    using unat_sub[OF le] a section_start_eq(1)[of va] v by linarith
  have lt: "?v mod 512 + k < section_bytes va count" using assms(3) by (simp add: section_bytes_def)
  let ?x = "unat offset mod 512 + k"
  have p: "unat offset + k = ?x + 512 * (unat offset div 512)" by simp
  have "(?x + 512 * (unat offset div 512)) div 512 = unat offset div 512 + ?x div 512" by (rule div_mult_self2) simp
  then have "(unat offset + k) div 512 = unat offset div 512 + ?x div 512" unfolding p[symmetric] .
  moreover have "unat (offset div 512) = unat offset div 512" by (simp add: unat_div)
  ultimately have "(unat offset + k) div 512 = unat (offset div 512) + ?x div 512" by simp
  then have "word_of_nat ((unat offset + k) div 512) = (offset div 512 + word_of_nat (?x div 512) :: u32)"
    by (simp only: of_nat_add) simp
  moreover have "(?x + 512 * (unat offset div 512)) mod 512 = ?x mod 512" by (rule mod_mult_self2)
  moreover have "(?x + 4 * (128 * (unat offset div 512))) mod 4 = ?x mod 4" by (rule mod_mult_self2)
  moreover have "?x + 4 * (128 * (unat offset div 512)) = unat offset + k" by simp
  ultimately show ?thesis using x lt assms(2) unfolding loaded_def disk_byte_def p[symmetric]
    by (simp add: add.assoc add.commute add.left_commute)
qed

lemma loaded_outside: "n \<le> unat (a - dst) \<Longrightarrow> loaded sec lba dst n m a = m a"
  by (simp add: loaded_def)

end
