(* ===== verification/BMain.thy ===== *)
theory BMain
  imports BLib MBoot
begin

text \<open>
  The C part of the boot loader, \<^verbatim>\<open>boot/boot1/boot1main.c\<close>: it looks for the bootable partition in the
  master boot record, describes the memory map of the BIOS in \<^verbatim>\<open>mboot_info\<close>, reads the kernel's
  segments from the disk to their addresses and jumps to the kernel's entry. The structures of
  \<^verbatim>\<open>boot1lib.h\<close> are read from memory by the offsets of their fields.
\<close>

section \<open>Structures\<close>

definition BOOTABLE_PARTITION :: u8 where "BOOTABLE_PARTITION = 0x80"

text \<open>\<^verbatim>\<open>mbr->partition[i]\<close>: 16 bytes each, behind 446 bytes of code and signature.\<close>

definition mbr_bootable :: "memory \<Rightarrow> u32 \<Rightarrow> nat \<Rightarrow> u8" where
  "mbr_bootable m mbr i = m (mbr + word_of_nat (446 + 16 * i))"

definition mbr_first_lba :: "memory \<Rightarrow> u32 \<Rightarrow> nat \<Rightarrow> u32" where
  "mbr_first_lba m mbr i = load32 m (mbr + word_of_nat (446 + 16 * i + 8))"

text \<open>\<^verbatim>\<open>bios_smap_t\<close>: 24 bytes.\<close>

definition load64 :: "memory \<Rightarrow> u32 \<Rightarrow> u64" where
  "load64 m a = ucast (load32 m a) OR push_bit 32 (ucast (load32 m (a + 4)))"

definition smap_base_addr :: "memory \<Rightarrow> u32 \<Rightarrow> u64" where "smap_base_addr m p = load64 m (p + 4)"
definition smap_length :: "memory \<Rightarrow> u32 \<Rightarrow> u64" where "smap_length m p = load64 m (p + 12)"
definition smap_type :: "memory \<Rightarrow> u32 \<Rightarrow> u32" where "smap_type m p = load32 m (p + 20)"

definition ELFHDR :: u32 where "ELFHDR = 0x20000"
definition KERNEL_MAGIC :: u32 where "KERNEL_MAGIC = 0x464C457F"
definition MBOOT_INFO_MAGIC :: u32 where "MBOOT_INFO_MAGIC = 0x2badb002"

text \<open>The fields of \<^verbatim>\<open>elfhdr\<close> and \<^verbatim>\<open>proghdr\<close> that are read.\<close>

definition hdr_magic :: "memory \<Rightarrow> u32 \<Rightarrow> u32" where "hdr_magic m eh = load32 m eh"
definition hdr_entry :: "memory \<Rightarrow> u32 \<Rightarrow> u32" where "hdr_entry m eh = load32 m (eh + 24)"
definition hdr_phoff :: "memory \<Rightarrow> u32 \<Rightarrow> u32" where "hdr_phoff m eh = load32 m (eh + 28)"
definition hdr_phnum :: "memory \<Rightarrow> u32 \<Rightarrow> u32" where "hdr_phnum m eh = load16 m (eh + 44)"
definition ph_offset :: "memory \<Rightarrow> u32 \<Rightarrow> u32" where "ph_offset m ph = load32 m (ph + 4)"
definition ph_va :: "memory \<Rightarrow> u32 \<Rightarrow> u32" where "ph_va m ph = load32 m (ph + 8)"
definition ph_memsz :: "memory \<Rightarrow> u32 \<Rightarrow> u32" where "ph_memsz m ph = load32 m (ph + 20)"

section \<open>Operations\<close>

definition settle :: "(stop + 'a) option \<Rightarrow> stop + 'a" where
  "settle r = (case r of None \<Rightarrow> Inl Hangs | Some x \<Rightarrow> x)"

lemma settle_simps [simp]: "settle (Some x) = x" "settle None = Inl Hangs"
  by (simp_all add: settle_def)

text \<open>String constants with a line break at the end.\<close>

definition newline :: "string \<Rightarrow> string" where
  "newline str = str @ [CHR 0x0A]"

partial_function (option) e820_loop :: "u32 \<Rightarrow> u32 \<Rightarrow> boot \<Rightarrow> (stop + u32 \<times> boot) option" where
  "e820_loop p mmap_len s =
     (if smap_base_addr (bmem s) p \<noteq> 0 \<or> smap_length (bmem s) p \<noteq> 0 \<or> smap_type (bmem s) p \<noteq> 0
      then (case puti (ucast (smap_base_addr (bmem s) p)) s of
              Inl e \<Rightarrow> Some (Inl e)
            | Inr s \<Rightarrow> e820_loop (p + 24) (mmap_len + 24) s)
      else Some (Inr (mmap_len, s)))"

definition parse_e820 :: "u32 \<Rightarrow> boot \<Rightarrow> stop + (u32 \<times> boot)" where
  "parse_e820 smap s =
     rbind (putline (loc_text s ''* E820 Memory Map *'') s) (\<lambda>s.
     rbind (settle (e820_loop smap 0 s)) (\<lambda>(mmap_len, s).
     let m = store32 (bmem s) (loc_mboot_info s + 44) mmap_len;
         m = store32 m (loc_mboot_info s + 48) smap
     in Inr (loc_mboot_info s, s\<lparr>bmem := m\<rparr>)))"

partial_function (option) load_segments :: "u32 \<Rightarrow> u32 \<Rightarrow> u32 \<Rightarrow> boot \<Rightarrow> (stop + boot) option" where
  "load_segments ph eph dkernel s =
     (if ph < eph
      then (case readsection (ph_va (bmem s) ph) (ph_memsz (bmem s) ph) (ph_offset (bmem s) ph) dkernel s of
              Inl e \<Rightarrow> Some (Inl e)
            | Inr s \<Rightarrow> load_segments (ph + 32) eph dkernel s)
      else Some (Inr s))"

definition load_kernel :: "u32 \<Rightarrow> boot \<Rightarrow> stop + (u32 \<times> boot)" where
  "load_kernel dkernel s =
     rbind (readsection ELFHDR (SECTOR_SIZE * 8) 0 dkernel s) (\<lambda>s.
     if hdr_magic (bmem s) ELFHDR \<noteq> KERNEL_MAGIC
     then panic_boot (loc_text s ''Kernel is not a valid elf.'') s
     else (let ph = ELFHDR + hdr_phoff (bmem s) ELFHDR;
               eph = ph + hdr_phnum (bmem s) ELFHDR * 32
           in rbind (settle (load_segments ph eph dkernel s)) (\<lambda>s.
              Inr (hdr_entry (bmem s) ELFHDR AND 0xFFFFFF, s))))"

text \<open>The loop over the four partitions: the index at which it stops, and the first sector.\<close>

function find_bootable :: "u32 \<Rightarrow> nat \<Rightarrow> memory \<Rightarrow> nat \<times> u32" where
  "find_bootable mbr i m =
     (if i < 4
      then if mbr_bootable m mbr i = BOOTABLE_PARTITION then (i, mbr_first_lba m mbr i)
           else find_bootable mbr (i + 1) m
      else (i, 0))"
  by pat_completeness auto
termination
  by (relation "measure (\<lambda>(mbr, i, m). 4 - i)") auto

declare find_bootable.simps [simp del]

text \<open>What the kernel starts with: three registers and the machine.\<close>

record handover =
  h_eax :: u32
  h_ebx :: u32
  h_eip :: u32
  h_boot :: boot

definition exec_kernel :: "u32 \<Rightarrow> u32 \<Rightarrow> boot \<Rightarrow> handover" where
  "exec_kernel entry mbi s = \<lparr>h_eax = MBOOT_INFO_MAGIC, h_ebx = mbi, h_eip = entry, h_boot = s\<rparr>"

definition boot1main :: "u32 \<Rightarrow> u32 \<Rightarrow> u32 \<Rightarrow> boot \<Rightarrow> stop + handover" where
  "boot1main dev mbr smap s =
     rbind (putline (loc_text s ''Start boot1 main ...'') (roll 3 s)) (\<lambda>s.
     let (i, bootable_lba) = find_bootable mbr 0 (bmem s)
     in if i = 4 then panic_boot (loc_text s ''Cannot find bootable partition!'') s
        else rbind (parse_e820 smap s) (\<lambda>(_, s).
             rbind (putline (loc_text s (newline ''Load kernel ...'')) s) (\<lambda>s.
             rbind (load_kernel bootable_lba s) (\<lambda>(entry, s).
             rbind (putline (loc_text s (newline ''Start kernel ...'')) s) (\<lambda>s.
             Inr (exec_kernel entry (loc_mboot_info s) s))))))"

section \<open>The kernel on the disk\<close>

text \<open>The bytes of a file as a memory that starts at 0, and its program headers.\<close>

definition img :: "(nat \<Rightarrow> u8) \<Rightarrow> memory" where
  "img f = (\<lambda>a. f (unat a))"

definition seg_hdr :: "(nat \<Rightarrow> u8) \<Rightarrow> nat \<Rightarrow> nat" where
  "seg_hdr f i = unat (hdr_phoff (img f) 0) + 32 * i"

definition seg_va :: "(nat \<Rightarrow> u8) \<Rightarrow> nat \<Rightarrow> u32" where
  "seg_va f i = ph_va (img f) (word_of_nat (seg_hdr f i))"

definition seg_size :: "(nat \<Rightarrow> u8) \<Rightarrow> nat \<Rightarrow> u32" where
  "seg_size f i = ph_memsz (img f) (word_of_nat (seg_hdr f i))"

definition seg_offset :: "(nat \<Rightarrow> u8) \<Rightarrow> nat \<Rightarrow> u32" where
  "seg_offset f i = ph_offset (img f) (word_of_nat (seg_hdr f i))"

text \<open>Where the loader puts a segment: the low 24 bits of its address.\<close>

definition seg_at :: "(nat \<Rightarrow> u8) \<Rightarrow> nat \<Rightarrow> u32" where
  "seg_at f i = seg_va f i AND 0xFFFFFF"

text \<open>
  A segment that can be loaded: above the first megabyte, below the end of the address space, at an
  address that agrees with the offset below the size of a sector, on sectors the protocol can name.
\<close>

definition segment_ok :: "(nat \<Rightarrow> u8) \<Rightarrow> u32 \<Rightarrow> nat \<Rightarrow> bool" where
  "segment_ok f lba i \<longleftrightarrow> 0x100000 \<le> unat (seg_at f i) \<and> unat (seg_at f i) + unat (seg_size f i) \<le> 4294966784 \<and>
     unat (seg_at f i) mod 512 = unat (seg_offset f i) mod 512 \<and>
     unat (seg_offset f i) div 512 + unat lba + section_bytes (seg_va f i) (seg_size f i) div 512 \<le> 0x10000000"

text \<open>The sectors read for segment \<open>i\<close> do not meet the bytes of the earlier segment \<open>j\<close>.\<close>

definition segments_apart :: "(nat \<Rightarrow> u8) \<Rightarrow> nat \<Rightarrow> nat \<Rightarrow> bool" where
  "segments_apart f j i \<longleftrightarrow>
     unat (seg_at f j) + unat (seg_size f j) \<le> unat (section_start (seg_va f i)) \<or>
     unat (section_start (seg_va f i)) + section_bytes (seg_va f i) (seg_size f i) \<le> unat (seg_at f j)"

definition kernel_ok :: "(nat \<Rightarrow> u8) \<Rightarrow> u32 \<Rightarrow> bool" where
  "kernel_ok f lba \<longleftrightarrow> hdr_magic (img f) 0 = KERNEL_MAGIC \<and> unat lba + 8 \<le> 0x10000000 \<and>
     seg_hdr f (unat (hdr_phnum (img f) 0)) \<le> 4096 \<and>
     (\<forall>i < unat (hdr_phnum (img f) 0). segment_ok f lba i \<and> (\<forall>j<i. segments_apart f j i))"

text \<open>Every byte of the first \<open>n\<close> segments is where the program expects it.\<close>

definition segment_loaded :: "(nat \<Rightarrow> u8) \<Rightarrow> nat \<Rightarrow> memory \<Rightarrow> bool" where
  "segment_loaded f i m \<longleftrightarrow> (\<forall>k < unat (seg_size f i). m (seg_at f i + word_of_nat k) = f (unat (seg_offset f i) + k))"

definition kernel_loaded :: "(nat \<Rightarrow> u8) \<Rightarrow> memory \<Rightarrow> bool" where
  "kernel_loaded f m \<longleftrightarrow> (\<forall>i < unat (hdr_phnum (img f) 0). segment_loaded f i m)"

section \<open>Loading the kernel\<close>

lemma outside_range:
  fixes a dst :: u32
  shows "unat a < unat dst \<or> unat dst + n \<le> unat a \<Longrightarrow> unat dst + n \<le> 4294967296 \<Longrightarrow> n \<le> unat (a - dst)"
  by (auto simp: unat_sub_if')

definition header_in :: "(nat \<Rightarrow> u8) \<Rightarrow> memory \<Rightarrow> bool" where
  "header_in f m \<longleftrightarrow> (\<forall>x<4096. m (ELFHDR + word_of_nat x) = f x)"

lemma header_load:
  assumes "header_in f m" "p + 4 \<le> 4096"
  shows "load32 m (ELFHDR + word_of_nat p) = load32 (img f) (word_of_nat p)"
    "load16 m (ELFHDR + word_of_nat p) = load16 (img f) (word_of_nat p)"
proof -
  have b: "m (ELFHDR + word_of_nat p + word_of_nat d) = img f (word_of_nat p + word_of_nat d)" if "d < 4" for d
  proof -
    have "m (ELFHDR + word_of_nat (p + d)) = f (p + d)" using assms that by (simp add: header_in_def del: of_nat_add)
    moreover have "unat (word_of_nat (p + d) :: u32) = p + d" using assms(2) that by (intro unat_u32) simp
    ultimately show ?thesis by (simp add: img_def add.assoc)
  qed
  show "load32 m (ELFHDR + word_of_nat p) = load32 (img f) (word_of_nat p)"
    "load16 m (ELFHDR + word_of_nat p) = load16 (img f) (word_of_nat p)"
    using b[of 0] b[of 1] b[of 2] b[of 3] by (simp_all add: load32_def load16_def)
qed

lemma header_fields:
  assumes "header_in f m"
  shows "hdr_magic m ELFHDR = hdr_magic (img f) 0" "hdr_entry m ELFHDR = hdr_entry (img f) 0"
    "hdr_phoff m ELFHDR = hdr_phoff (img f) 0" "hdr_phnum m ELFHDR = hdr_phnum (img f) 0"
  using header_load(1)[OF assms, of 0] header_load(1)[OF assms, of 24] header_load(1)[OF assms, of 28]
    header_load(2)[OF assms, of 44]
  by (simp_all add: hdr_magic_def hdr_entry_def hdr_phoff_def hdr_phnum_def)

lemma header_segment:
  assumes "header_in f m" "seg_hdr f (Suc i) \<le> 4096"
  shows "ph_va m (ELFHDR + word_of_nat (seg_hdr f i)) = seg_va f i"
    "ph_memsz m (ELFHDR + word_of_nat (seg_hdr f i)) = seg_size f i"
    "ph_offset m (ELFHDR + word_of_nat (seg_hdr f i)) = seg_offset f i"
proof -
  have l: "load32 m (ELFHDR + word_of_nat (seg_hdr f i) + word_of_nat d) = load32 (img f) (word_of_nat (seg_hdr f i) + word_of_nat d)"
    if "d + 4 \<le> 32" for d
    using header_load(1)[OF assms(1), of "seg_hdr f i + d"] assms(2) that by (simp add: seg_hdr_def add.assoc)
  show "ph_va m (ELFHDR + word_of_nat (seg_hdr f i)) = seg_va f i"
    "ph_memsz m (ELFHDR + word_of_nat (seg_hdr f i)) = seg_size f i"
    "ph_offset m (ELFHDR + word_of_nat (seg_hdr f i)) = seg_offset f i"
    using l[of 8] l[of 20] l[of 4] by (simp_all add: ph_va_def ph_memsz_def ph_offset_def seg_va_def seg_size_def seg_offset_def)
qed

text \<open>What loading segments leaves alone: everything but memory above the first megabyte and the log of the ports.\<close>

definition load_frame :: "boot \<Rightarrow> boot \<Rightarrow> bool" where
  "load_frame s t \<longleftrightarrow> t = s\<lparr>bmem := bmem t, accesses := accesses t\<rparr> \<and> (\<forall>a. unat a < 0x100000 \<longrightarrow> bmem t a = bmem s a)"

lemma load_frame_refl [simp]: "load_frame s s"
  by (simp add: load_frame_def)

lemma load_frame_trans: "load_frame s t \<Longrightarrow> load_frame t u \<Longrightarrow> load_frame s u"
  by (cases s, cases t, cases u) (simp add: load_frame_def)

lemma header_in_frame: "load_frame s t \<Longrightarrow> header_in f (bmem s) \<Longrightarrow> header_in f (bmem t)"
proof -
  assume a: "load_frame s t" "header_in f (bmem s)"
  have "unat (ELFHDR + word_of_nat x) < 0x100000" if "x < 4096" for x
    using that by (simp add: ELFHDR_def unat_word_ariths unat_u32)
  with a show ?thesis by (simp add: header_in_def load_frame_def)
qed

lemma section_end:
  assumes "unat (va AND 0xFFFFFF) + unat cnt \<le> 4294966784"
  shows "unat (section_start va) + section_bytes va cnt \<le> 4294967296"
proof -
  let ?v = "unat (va AND 0xFFFFFF)"
  have "section_bytes va cnt \<le> ?v mod 512 + unat cnt + 511" by (simp add: section_bytes_def)
  moreover have "unat (section_start va) + ?v mod 512 = ?v" using section_start_eq(1)[of va] by simp
  ultimately show ?thesis using assms by linarith
qed

lemma load_segment:
  assumes "ata_disk (in8 s) (in32 s) sec" "segment_ok (disk_byte sec lba) lba i"
  shows "\<exists>t. readsection (seg_va (disk_byte sec lba) i) (seg_size (disk_byte sec lba) i) (seg_offset (disk_byte sec lba) i) lba s = Inr t \<and>
    load_frame s t \<and> segment_loaded (disk_byte sec lba) i (bmem t) \<and>
    (\<forall>j. segments_apart (disk_byte sec lba) j i \<longrightarrow> segment_ok (disk_byte sec lba) lba j \<longrightarrow>
       segment_loaded (disk_byte sec lba) j (bmem s) \<longrightarrow> segment_loaded (disk_byte sec lba) j (bmem t))"
proof -
  let ?f = "disk_byte sec lba"
  let ?va = "seg_va ?f i" and ?n = "seg_size ?f i" and ?o = "seg_offset ?f i"
  have ok: "0x100000 \<le> unat (seg_at ?f i)" "unat (?va AND 0xFFFFFF) + unat ?n \<le> 4294966784"
    "unat (?va AND 0xFFFFFF) mod 512 = unat ?o mod 512" "unat ?o div 512 + unat lba + section_bytes ?va ?n div 512 \<le> 0x10000000"
    using assms(2) by (simp_all add: segment_ok_def seg_at_def)
  let ?m = "loaded sec (?o div 512 + lba) (section_start ?va) (section_bytes ?va ?n) (bmem s)"
  from readsection_eq[OF assms(1) ok(2,4)] obtain h where r: "readsection ?va ?n ?o lba s = Inr (s\<lparr>accesses := h, bmem := ?m\<rparr>)" by blast
  have low: "0x100000 \<le> unat (section_start ?va)"
  proof -
    have "0x100000 div 512 \<le> unat (seg_at ?f i) div 512" by (rule div_le_mono[OF ok(1)])
    then show ?thesis using section_start_eq(1)[of ?va] by (simp add: seg_at_def)
  qed
  have out: "?m a = bmem s a"
    if "unat a < unat (section_start ?va) \<or> unat (section_start ?va) + section_bytes ?va ?n \<le> unat a" for a
    using outside_range[OF that section_end[OF ok(2)]] by (rule loaded_outside)
  have "load_frame s (s\<lparr>accesses := h, bmem := ?m\<rparr>)" using out low by (simp add: load_frame_def)
  moreover have "segment_loaded ?f i ?m" using loaded_section[OF ok(2,3)] by (simp add: segment_loaded_def seg_at_def)
  moreover have "segment_loaded ?f j ?m"
    if "segments_apart ?f j i" "segment_ok ?f lba j" "segment_loaded ?f j (bmem s)" for j
  proof -
    have "?m (seg_at ?f j + word_of_nat k) = bmem s (seg_at ?f j + word_of_nat k)" if "k < unat (seg_size ?f j)" for k
    proof (rule out)
      have "unat (seg_at ?f j + word_of_nat k) = unat (seg_at ?f j) + k"
        using \<open>segment_ok ?f lba j\<close> that by (simp add: segment_ok_def unat_word_ariths unat_u32)
      then show "unat (seg_at ?f j + word_of_nat k) < unat (section_start ?va) \<or>
          unat (section_start ?va) + section_bytes ?va ?n \<le> unat (seg_at ?f j + word_of_nat k)"
        using \<open>segments_apart ?f j i\<close> that by (auto simp: segments_apart_def)
    qed
    with that(3) show ?thesis by (simp add: segment_loaded_def)
  qed
  ultimately show ?thesis using r by auto
qed

lemma load_frame_ports: "load_frame s t \<Longrightarrow> in8 t = in8 s \<and> in32 t = in32 s"
  by (cases s, cases t) (simp add: load_frame_def)

lemma load_segments_eq:
  fixes sec lba defines "f \<equiv> disk_byte sec lba"
  assumes "ata_disk (in8 s) (in32 s) sec" "header_in f (bmem s)" "seg_hdr f n \<le> 4096" "i \<le> n"
    "\<And>i. i < n \<Longrightarrow> segment_ok f lba i \<and> (\<forall>j<i. segments_apart f j i)" "\<And>j. j < i \<Longrightarrow> segment_loaded f j (bmem s)"
  shows "\<exists>t. load_segments (ELFHDR + word_of_nat (seg_hdr f i)) (ELFHDR + word_of_nat (seg_hdr f n)) lba s = Some (Inr t) \<and>
    load_frame s t \<and> (\<forall>j<n. segment_loaded f j (bmem t))"
  using assms(2-5,7)
proof (induction "n - i" arbitrary: i s)
  case 0
  then have "i = n" by simp
  with 0 show ?case by (intro exI[of _ s]) (subst load_segments.simps, simp)
next
  case (Suc d)
  then have i: "i < n" by simp
  have hs: "seg_hdr f (Suc i) \<le> 4096" using i Suc.prems(3) by (simp add: seg_hdr_def)
  have lt: "seg_hdr f i < seg_hdr f n" using i by (simp add: seg_hdr_def)
  have u: "unat (ELFHDR + word_of_nat x) = 0x20000 + x" if "x \<le> 4096" for x
    using that by (simp add: ELFHDR_def unat_word_ariths unat_u32)
  have "ELFHDR + word_of_nat (seg_hdr f i) < ELFHDR + word_of_nat (seg_hdr f n)"
    using u[of "seg_hdr f i"] u[of "seg_hdr f n"] lt Suc.prems(3) by (simp add: word_less_nat_alt)
  moreover obtain t where t: "readsection (seg_va f i) (seg_size f i) (seg_offset f i) lba s = Inr t" "load_frame s t"
    "segment_loaded f i (bmem t)" "\<And>j. segments_apart f j i \<Longrightarrow> segment_ok f lba j \<Longrightarrow> segment_loaded f j (bmem s) \<Longrightarrow> segment_loaded f j (bmem t)"
    using load_segment[OF Suc.prems(1)] assms(6)[OF i] unfolding f_def by blast
  moreover have "ELFHDR + word_of_nat (seg_hdr f i) + 32 = ELFHDR + word_of_nat (seg_hdr f (Suc i))"
    by (simp add: seg_hdr_def)
  ultimately have step: "load_segments (ELFHDR + word_of_nat (seg_hdr f i)) (ELFHDR + word_of_nat (seg_hdr f n)) lba s
      = load_segments (ELFHDR + word_of_nat (seg_hdr f (Suc i))) (ELFHDR + word_of_nat (seg_hdr f n)) lba t"
    using header_segment[OF Suc.prems(2) hs] by (subst load_segments.simps) (simp add: add.assoc)
  have "segment_loaded f j (bmem t)" if "j < Suc i" for j
    using that t(3,4) assms(6)[OF i] assms(6)[of j] i Suc.prems(5) by (cases "j = i") auto
  moreover have "d = n - Suc i" using Suc.hyps(2) by simp
  ultimately obtain v where "load_segments (ELFHDR + word_of_nat (seg_hdr f (Suc i))) (ELFHDR + word_of_nat (seg_hdr f n)) lba t = Some (Inr v)"
    "load_frame t v" "\<forall>j<n. segment_loaded f j (bmem v)"
    using Suc.hyps(1)[of "Suc i" t] i Suc.prems(1,3) load_frame_ports[OF t(2)] header_in_frame[OF t(2) Suc.prems(2)] by auto
  then show ?case using step load_frame_trans[OF t(2)] by auto
qed

text \<open>Reading the kernel also fills the buffer for its headers.\<close>

definition read_frame :: "boot \<Rightarrow> boot \<Rightarrow> bool" where
  "read_frame s t \<longleftrightarrow> t = s\<lparr>bmem := bmem t, accesses := accesses t\<rparr> \<and>
     (\<forall>a. unat a < 0x20000 \<or> 0x21000 \<le> unat a \<and> unat a < 0x100000 \<longrightarrow> bmem t a = bmem s a)"

lemma load_header:
  assumes "ata_disk (in8 s) (in32 s) sec" "unat lba + 8 \<le> 0x10000000"
  shows "\<exists>t. readsection ELFHDR (SECTOR_SIZE * 8) 0 lba s = Inr t \<and> read_frame s t \<and> header_in (disk_byte sec lba) (bmem t)"
proof -
  have e: "ELFHDR AND 0xFFFFFF = 0x20000" "section_start ELFHDR = 0x20000" "section_bytes ELFHDR (SECTOR_SIZE * 8) = 4096"
    by (simp_all add: ELFHDR_def section_start_def SECTOR_SIZE_def section_bytes_def)
  let ?m = "loaded sec lba 0x20000 4096 (bmem s)"
  have 1: "unat (ELFHDR AND 0xFFFFFF) + unat (SECTOR_SIZE * 8) \<le> 4294966784" unfolding e by (simp add: SECTOR_SIZE_def)
  have 2: "unat (0 :: u32) div 512 + unat lba + section_bytes ELFHDR (SECTOR_SIZE * 8) div 512 \<le> 0x10000000"
    unfolding e using assms(2) by simp
  from readsection_eq[OF assms(1) 1 2]
  obtain h where r: "readsection ELFHDR (SECTOR_SIZE * 8) 0 lba s = Inr (s\<lparr>accesses := h, bmem := ?m\<rparr>)"
    unfolding e by auto
  have "?m a = bmem s a" if "unat a < 0x20000 \<or> 0x21000 \<le> unat a" for a
    by (rule loaded_outside, rule outside_range) (use that in simp_all)
  then have "read_frame s (s\<lparr>accesses := h, bmem := ?m\<rparr>)" by (auto simp: read_frame_def)
  moreover have "header_in (disk_byte sec lba) ?m" by (simp add: header_in_def loaded_def ELFHDR_def unat_u32)
  ultimately show ?thesis using r by auto
qed

lemma load_kernel_ok:
  fixes sec lba defines "f \<equiv> disk_byte sec lba"
  assumes "ata_disk (in8 s) (in32 s) sec" "kernel_ok f lba"
  shows "\<exists>t. load_kernel lba s = Inr (hdr_entry (img f) 0 AND 0xFFFFFF, t) \<and> kernel_loaded f (bmem t) \<and> read_frame s t"
proof -
  let ?n = "unat (hdr_phnum (img f) 0)"
  from load_header[OF assms(2), of lba] assms(3) obtain s1 where s1: "readsection ELFHDR (SECTOR_SIZE * 8) 0 lba s = Inr s1"
    "read_frame s s1" and hd: "header_in f (bmem s1)" unfolding f_def kernel_ok_def by blast
  have p1: "in8 s1 = in8 s" "in32 s1 = in32 s" using s1(2) by (cases s, cases s1, simp add: read_frame_def)+
  obtain t where t: "load_segments (ELFHDR + word_of_nat (seg_hdr f 0)) (ELFHDR + word_of_nat (seg_hdr f ?n)) lba s1 = Some (Inr t)"
    "load_frame s1 t" "\<forall>j<?n. segment_loaded f j (bmem t)"
    using load_segments_eq[of s1 sec lba ?n 0] assms(2,3) hd p1 unfolding f_def kernel_ok_def by auto
  have "ELFHDR + hdr_phoff (bmem s1) ELFHDR = ELFHDR + word_of_nat (seg_hdr f 0)"
    "ELFHDR + hdr_phoff (bmem s1) ELFHDR + hdr_phnum (bmem s1) ELFHDR * 32 = ELFHDR + word_of_nat (seg_hdr f ?n)"
    using header_fields[OF hd] by (simp_all add: seg_hdr_def)
  moreover have "hdr_magic (bmem s1) ELFHDR = KERNEL_MAGIC" using header_fields(1)[OF hd] assms(3) by (simp add: kernel_ok_def)
  moreover have "hdr_entry (bmem t) ELFHDR = hdr_entry (img f) 0" by (rule header_fields[OF header_in_frame[OF t(2) hd]])
  ultimately have "load_kernel lba s = Inr (hdr_entry (img f) 0 AND 0xFFFFFF, t)"
    using s1(1) t(1) by (simp add: load_kernel_def Let_def add.assoc)
  moreover have "read_frame s t" using s1(2) t(2) by (cases s, cases s1, cases t) (simp add: read_frame_def load_frame_def)
  ultimately show ?thesis using t(3) by (simp add: kernel_loaded_def)
qed

section \<open>The memory map\<close>

definition smap_zero :: "memory \<Rightarrow> u32 \<Rightarrow> bool" where
  "smap_zero m p \<longleftrightarrow> smap_base_addr m p = 0 \<and> smap_length m p = 0 \<and> smap_type m p = 0"

text \<open>A table of \<open>n\<close> descriptors that are not zero, followed by one that is.\<close>

definition smap_at :: "memory \<Rightarrow> u32 \<Rightarrow> nat \<Rightarrow> bool" where
  "smap_at m p n \<longleftrightarrow> (\<forall>i<n. \<not> smap_zero m (p + word_of_nat (24 * i))) \<and> smap_zero m (p + word_of_nat (24 * n))"

lemma load32_cong:
  "(\<And>d. d < 4 \<Longrightarrow> m' (a + word_of_nat d) = m (a + word_of_nat d)) \<Longrightarrow> load32 m' a = load32 m a"
proof -
  assume c: "\<And>d. d < 4 \<Longrightarrow> m' (a + word_of_nat d) = m (a + word_of_nat d)"
  show ?thesis using c[of 0] c[of 1] c[of 2] c[of 3] by (simp add: load32_def)
qed

lemma smap_zero_cong:
  "(\<And>x. x < 24 \<Longrightarrow> m' (p + word_of_nat x) = m (p + word_of_nat x)) \<Longrightarrow> smap_zero m' p = smap_zero m p"
proof -
  assume c: "\<And>x. x < 24 \<Longrightarrow> m' (p + word_of_nat x) = m (p + word_of_nat x)"
  have "load32 m' (p + word_of_nat x) = load32 m (p + word_of_nat x)" if "x + 3 < 24" for x
  proof (rule load32_cong)
    fix d :: nat assume "d < 4"
    then show "m' (p + word_of_nat x + word_of_nat d) = m (p + word_of_nat x + word_of_nat d)"
      using c[of "x + d"] that by (simp add: add.assoc)
  qed
  from this[of 4] this[of 8] this[of 12] this[of 16] this[of 20] show ?thesis
    by (simp add: smap_zero_def smap_base_addr_def smap_length_def smap_type_def load64_def add.assoc)
qed

lemma smap_at_keep:
  assumes "smap_at m p n" "\<And>x. x < 24 * Suc n \<Longrightarrow> m' (p + word_of_nat x) = m (p + word_of_nat x)"
  shows "smap_at m' p n"
proof -
  have "smap_zero m' (p + word_of_nat (24 * i)) = smap_zero m (p + word_of_nat (24 * i))" if "i \<le> n" for i
  proof (rule smap_zero_cong)
    fix x :: nat assume "x < 24"
    then show "m' (p + word_of_nat (24 * i) + word_of_nat x) = m (p + word_of_nat (24 * i) + word_of_nat x)"
      using assms(2)[of "24 * i + x"] that by (simp add: add.assoc)
  qed
  then show ?thesis using assms(1) by (simp add: smap_at_def)
qed

lemma smap_at_Suc: "smap_at m p (Suc n) \<longleftrightarrow> \<not> smap_zero m p \<and> smap_at m (p + 24) n"
  by (auto simp: smap_at_def less_Suc_eq_0_disj add.assoc)

lemma e820_loop_ok:
  assumes "puti_ok s" "smap_at (bmem s) p n"
    "\<And>x. x < 24 * Suc n \<Longrightarrow> off_display (p + word_of_nat x) \<and> 40 \<le> unat (p + word_of_nat x - loc_puti_str s)"
  shows "\<exists>t. e820_loop p len s = Some (Inr (len + word_of_nat (24 * n), t)) \<and> output_frame s t \<and> puti_ok t"
  using assms
proof (induction n arbitrary: p len s)
  case 0
  then have "smap_zero (bmem s) p" by (simp add: smap_at_def)
  with 0 show ?case by (subst e820_loop.simps) (simp add: smap_zero_def)
next
  case (Suc n)
  have "\<not> smap_zero (bmem s) p" using Suc.prems(2) by (simp add: smap_at_Suc)
  moreover from puti_returns[OF Suc.prems(1)] obtain t where
    t: "puti (ucast (smap_base_addr (bmem s) p)) s = Inr t" "output_frame s t" "puti_ok t" by blast
  ultimately have step: "e820_loop p len s = e820_loop (p + 24) (len + 24) t" by (subst e820_loop.simps) (auto simp: smap_zero_def)
  have "smap_at (bmem t) p (Suc n)"
    by (rule smap_at_keep[OF Suc.prems(2)]) (use t(2) Suc.prems(3) in \<open>simp add: output_frame_def\<close>)
  then have sm: "smap_at (bmem t) (p + 24) n" by (simp add: smap_at_Suc)
  have "off_display (p + 24 + word_of_nat x) \<and> 40 \<le> unat (p + 24 + word_of_nat x - loc_puti_str t)" if "x < 24 * Suc n" for x
    using Suc.prems(3)[of "24 + x"] that output_frame_sel[OF t(2)] by (simp add: add.assoc)
  from Suc.IH[OF t(3) sm this, of "len + 24"] obtain u where
    "e820_loop (p + 24) (len + 24) t = Some (Inr (len + 24 + word_of_nat (24 * n), u))" "output_frame t u" "puti_ok u" by blast
  then show ?case using step output_frame_trans[OF t(2)] by (auto simp: add.assoc)
qed

section \<open>From the boot record to the kernel\<close>

text \<open>
  Bytes below the first megabyte that neither output nor the headers of the kernel touch, and those
  among them that are not the two words written to \<^verbatim>\<open>mboot_info\<close> either.
\<close>

definition safe :: "boot \<Rightarrow> u32 \<Rightarrow> bool" where
  "safe s a \<longleftrightarrow> (unat a < 0x20000 \<or> 0x21000 \<le> unat a \<and> unat a < 0x100000) \<and> off_display a \<and> 40 \<le> unat (a - loc_puti_str s)"

definition kept :: "boot \<Rightarrow> u32 \<Rightarrow> bool" where
  "kept s a \<longleftrightarrow> safe s a \<and> 8 \<le> unat (a - (loc_mboot_info s + 44))"

definition same_parts :: "boot \<Rightarrow> boot \<Rightarrow> bool" where
  "same_parts s t \<longleftrightarrow> t = s\<lparr>bmem := bmem t, row := row t, accesses := accesses t\<rparr>"

lemma same_parts_refl [simp]: "same_parts s s"
  by (simp add: same_parts_def)

lemma same_parts_trans: "same_parts s t \<Longrightarrow> same_parts t u \<Longrightarrow> same_parts s u"
  by (cases s, cases t, cases u) (simp add: same_parts_def)

lemma same_parts_sel:
  assumes "same_parts s t"
  shows "in8 t = in8 s" "in32 t = in32 s" "loc_blank t = loc_blank s" "loc_puti_str t = loc_puti_str s" "loc_hex t = loc_hex s"
    "loc_mboot_info t = loc_mboot_info s" "loc_text t = loc_text s" "safe t = safe s" "kept t = kept s"
  using assms by (cases s, cases t, simp add: same_parts_def safe_def kept_def fun_eq_iff)+

lemma output_safe: "output_frame s t \<Longrightarrow> same_parts s t \<and> (\<forall>a. safe s a \<longrightarrow> bmem t a = bmem s a)"
  by (cases s, cases t) (simp add: output_frame_def same_parts_def safe_def)

lemma read_safe: "read_frame s t \<Longrightarrow> same_parts s t \<and> row t = row s \<and> (\<forall>a. safe s a \<longrightarrow> bmem t a = bmem s a)"
  by (cases s, cases t) (auto simp: read_frame_def same_parts_def safe_def)

definition messages :: "string list" where
  "messages = [''Start boot1 main ...'', ''Cannot find bootable partition!'', ''* E820 Memory Map *'',
     newline ''Load kernel ...'', newline ''Start kernel ...'', ''Kernel is not a valid elf.'']"

text \<open>The loader's constants are in place, where its own work does not reach.\<close>

definition loader_ready :: "boot \<Rightarrow> bool" where
  "loader_ready s \<longleftrightarrow> puti_ok s \<and> (\<forall>j\<le>80. kept s (loc_blank s + word_of_nat j)) \<and> (\<forall>d<16. kept s (loc_hex s + word_of_nat d)) \<and>
     (\<forall>msg \<in> set messages. line_at s (loc_text s msg) (chars msg) \<and> (\<forall>j\<le>length msg. kept s (loc_text s msg + word_of_nat j)))"

lemma loader_ready_keep:
  assumes "loader_ready s" "same_parts s t" "unat (row t) \<le> 25" "\<And>a. kept s a \<Longrightarrow> bmem t a = bmem s a"
  shows "loader_ready t"
proof -
  note [simp] = same_parts_sel[OF assms(2)]
  have "line_at t (loc_blank s) (replicate 80 32)"
    by (rule line_at_cong[of s]) (use assms(1,4) in \<open>auto simp: loader_ready_def puti_ok_def boot_screen_ok_def\<close>)
  moreover have "digit_table 16 (loc_hex s) (loc_puti_str s) (bmem t)"
    using assms(1,4) by (auto simp: loader_ready_def puti_ok_def digit_table_def)
  moreover have "line_at t (loc_text s msg) (chars msg)" if "msg \<in> set messages" for msg
    by (rule line_at_cong[of s]) (use assms(1,4) that in \<open>auto simp: loader_ready_def chars_def\<close>)
  ultimately show ?thesis using assms(1,3) by (auto simp: loader_ready_def puti_ok_def boot_screen_ok_def)
qed

lemma say:
  assumes "loader_ready s" "msg \<in> set messages"
  shows "\<exists>t. putline (loc_text s msg) s = Inr t \<and> output_frame s t \<and> loader_ready t"
proof -
  have "line_at s (loc_text s msg) (chars msg)" "puti_ok s" using assms by (auto simp: loader_ready_def)
  then obtain t where t: "putline (loc_text s msg) s = Inr t" "output_frame s t" "puti_ok t" using putline_ok by blast
  have "loader_ready t"
    by (rule loader_ready_keep[OF assms(1)]) (use t(3) output_safe[OF t(2)] in \<open>auto simp: puti_ok_def boot_screen_ok_def kept_def\<close>)
  with t show ?thesis by blast
qed

lemma find_bootable_cong:
  "(\<And>x. x < 64 \<Longrightarrow> m' (mbr + word_of_nat (446 + x)) = m (mbr + word_of_nat (446 + x))) \<Longrightarrow>
     find_bootable mbr i m' = find_bootable mbr i m"
proof (induction mbr i m rule: find_bootable.induct)
  case (1 mbr i m)
  show ?case
  proof (cases "i < 4")
    case True
    have "mbr_bootable m' mbr i = mbr_bootable m mbr i"
      using "1.prems"[of "16 * i"] True by (simp add: mbr_bootable_def)
    moreover have "mbr_first_lba m' mbr i = mbr_first_lba m mbr i"
      unfolding mbr_first_lba_def
    proof (rule load32_cong)
      fix d :: nat assume "d < 4"
      then show "m' (mbr + word_of_nat (446 + 16 * i + 8) + word_of_nat d) = m (mbr + word_of_nat (446 + 16 * i + 8) + word_of_nat d)"
        using "1.prems"[of "16 * i + 8 + d"] True by (simp add: algebra_simps)
    qed
    ultimately show ?thesis using "1.IH"[OF True] "1.prems" by (subst (1 2) find_bootable.simps) simp
  qed (simp add: find_bootable.simps)
qed

lemma store_words:
  fixes q v w :: u32 and m :: memory
  defines "m' \<equiv> store32 (store32 m q v) (q + 4) w"
  shows "load32 m' q = v" "load32 m' (q + 4) = w" "8 \<le> unat (a - q) \<Longrightarrow> m' a = m a"
proof -
  have "load32 m' q = load32 (store32 m q v) q"
  proof (rule load32_cong)
    fix d :: nat assume "d < 4"
    then have "d = 0 \<or> d = 1 \<or> d = 2 \<or> d = 3" by auto
    moreover have "unat (- 1 :: u32) = 4294967295" by (simp add: unsigned_minus_1_eq_mask mask_eq_exp_minus_1)
    ultimately have "\<not> unat (q + word_of_nat d - (q + 4)) < 4" by auto
    then show "m' (q + word_of_nat d) = store32 m q v (q + word_of_nat d)" by (simp add: m'_def store32_index[of _ "q + 4"])
  qed
  then show "load32 m' q = v" by simp
  show "load32 m' (q + 4) = w" by (simp add: m'_def)
  show "8 \<le> unat (a - q) \<Longrightarrow> m' a = m a" using unat_shift(1)[of 4 4 a q] by (simp add: m'_def store32_index)
qed

lemma parse_e820_ok:
  assumes "loader_ready s" "smap_at (bmem s) smap n" "\<And>x. x < 24 * Suc n \<Longrightarrow> kept s (smap + word_of_nat x)"
  shows "\<exists>t. parse_e820 smap s = Inr (loc_mboot_info s, t) \<and> same_parts s t \<and> loader_ready t \<and>
    (\<forall>a. kept s a \<longrightarrow> bmem t a = bmem s a) \<and>
    load32 (bmem t) (loc_mboot_info s + 44) = word_of_nat (24 * n) \<and> load32 (bmem t) (loc_mboot_info s + 48) = smap"
proof -
  obtain s1 where s1: "putline (loc_text s ''* E820 Memory Map *'') s = Inr s1" "output_frame s s1" "loader_ready s1"
    using say[OF assms(1), of "''* E820 Memory Map *''"] by (auto simp: messages_def)
  note k1 = output_safe[OF s1(2)] and [simp] = same_parts_sel[OF conjunct1[OF output_safe[OF s1(2)]]]
  have sm: "smap_at (bmem s1) smap n" by (rule smap_at_keep[OF assms(2)]) (use assms(3) k1 in \<open>simp add: kept_def\<close>)
  have "puti_ok s1" using s1(3) by (simp add: loader_ready_def)
  from e820_loop_ok[OF this sm, of 0] assms(3) obtain s2 where
    s2: "e820_loop smap 0 s1 = Some (Inr (word_of_nat (24 * n), s2))" "output_frame s1 s2" "puti_ok s2"
    by (auto simp: kept_def safe_def)
  note k2 = output_safe[OF s2(2)] and [simp] = same_parts_sel[OF conjunct1[OF output_safe[OF s2(2)]]]
  let ?q = "loc_mboot_info s + 44"
  let ?t = "s2\<lparr>bmem := store32 (store32 (bmem s2) ?q (word_of_nat (24 * n))) (loc_mboot_info s + 48) smap\<rparr>"
  have q: "?q + 4 = loc_mboot_info s + 48" by simp
  note w = store_words[where m = "bmem s2" and q = ?q and v = "word_of_nat (24 * n)" and w = smap, unfolded q]
  have t: "parse_e820 smap s = Inr (loc_mboot_info s, ?t)" using s1(1) s2(1) by (simp add: parse_e820_def Let_def)
  have "same_parts s2 ?t" by (simp add: same_parts_def)
  then have p: "same_parts s ?t" using k1 k2 same_parts_trans by blast
  have m: "bmem ?t a = bmem s a" if "kept s a" for a
    using w(3)[of a] k1 k2 that by (simp add: kept_def)
  have "unat (row s2) \<le> 25" using s2(3) by (simp add: puti_ok_def boot_screen_ok_def)
  then have "loader_ready ?t" using loader_ready_keep[OF assms(1) p _ m] by simp
  then show ?thesis using t p m w(1,2) by auto
qed

text \<open>The memory at the start: the loader's constants, the table of the BIOS and the boot record.\<close>

definition loader_start :: "boot \<Rightarrow> u32 \<Rightarrow> u32 \<Rightarrow> nat \<Rightarrow> bool" where
  "loader_start s mbr smap n \<longleftrightarrow> loader_ready (roll 3 s) \<and>
     (\<forall>x<64. kept s (mbr + word_of_nat (446 + x))) \<and>
     smap_at (bmem s) smap n \<and> (\<forall>x < 24 * Suc n. kept s (smap + word_of_nat x)) \<and>
     (\<forall>x<8. safe s (loc_mboot_info s + 44 + word_of_nat x)) \<and> unat (loc_puti_str s) + 40 \<le> 0x100000"

lemma kernel_loaded_keep:
  assumes "kernel_loaded f m" "kernel_ok f lba" "\<And>a. 0x100000 \<le> unat a \<Longrightarrow> m' a = m a"
  shows "kernel_loaded f m'"
proof -
  have "m' (seg_at f i + word_of_nat k) = m (seg_at f i + word_of_nat k)"
    if "i < unat (hdr_phnum (img f) 0)" "k < unat (seg_size f i)" for i k
  proof (rule assms(3))
    have "segment_ok f lba i" using assms(2) that(1) by (simp add: kernel_ok_def)
    then have "unat (seg_at f i + word_of_nat k) = unat (seg_at f i) + k" "0x100000 \<le> unat (seg_at f i)"
      using that(2) by (simp_all add: segment_ok_def unat_word_ariths unat_u32)
    then show "0x100000 \<le> unat (seg_at f i + word_of_nat k)" by simp
  qed
  then show ?thesis using assms(1) by (simp add: kernel_loaded_def segment_loaded_def)
qed

lemma output_high:
  assumes "output_frame s t" "unat (loc_puti_str s) + 40 \<le> 0x100000" "0x100000 \<le> unat a"
  shows "bmem t a = bmem s a"
proof -
  have "off_display a" using assms(3) unfolding off_display_def video_def by (intro outside_range) simp_all
  moreover have "40 \<le> unat (a - loc_puti_str s)" using assms(2,3) by (intro outside_range) simp_all
  ultimately show ?thesis using assms(1) by (simp add: output_frame_def)
qed

text \<open>The first message; the boot record and the table of the BIOS are as before.\<close>

lemma boot_first:
  assumes "loader_start s mbr smap n"
  shows "\<exists>t. putline (loc_text s ''Start boot1 main ...'') (roll 3 s) = Inr t \<and> same_parts s t \<and> loader_ready t \<and>
    (\<forall>a. kept s a \<longrightarrow> bmem t a = bmem s a) \<and> find_bootable mbr 0 (bmem t) = find_bootable mbr 0 (bmem s) \<and>
    smap_at (bmem t) smap n"
proof -
  have p0: "same_parts s (roll 3 s)" "bmem (roll 3 s) = bmem s" by (simp_all add: same_parts_def roll_def)
  obtain t where t: "putline (loc_text s ''Start boot1 main ...'') (roll 3 s) = Inr t" "output_frame (roll 3 s) t" "loader_ready t"
    using say[of "roll 3 s" "''Start boot1 main ...''"] assms same_parts_sel(7)[OF p0(1)]
    by (auto simp: messages_def loader_start_def)
  note o = output_safe[OF t(2)]
  have m: "bmem t a = bmem s a" if "kept s a" for a using o that p0 same_parts_sel(8)[OF p0(1)] by (simp add: kept_def)
  have "find_bootable mbr 0 (bmem t) = find_bootable mbr 0 (bmem s)"
    by (rule find_bootable_cong, rule m) (use assms in \<open>simp add: loader_start_def\<close>)
  moreover have "smap_at (bmem t) smap n"
    using assms m smap_at_keep[of "bmem s" smap n "bmem t"] by (simp add: loader_start_def)
  ultimately show ?thesis using t o m same_parts_trans[OF p0(1)] by blast
qed

text \<open>The kernel is loaded between two messages.\<close>

lemma boot_load:
  fixes sec lba defines "f \<equiv> disk_byte sec lba"
  assumes "loader_ready s" "ata_disk (in8 s) (in32 s) sec" "kernel_ok f lba" "unat (loc_puti_str s) + 40 \<le> 0x100000"
  shows "\<exists>s1 s2 t. putline (loc_text s (newline ''Load kernel ...'')) s = Inr s1 \<and>
    load_kernel lba s1 = Inr (hdr_entry (img f) 0 AND 0xFFFFFF, s2) \<and>
    putline (loc_text s2 (newline ''Start kernel ...'')) s2 = Inr t \<and> same_parts s t \<and>
    (\<forall>a. safe s a \<longrightarrow> bmem t a = bmem s a) \<and> kernel_loaded f (bmem t)"
proof -
  obtain s1 where s1: "putline (loc_text s (newline ''Load kernel ...'')) s = Inr s1" "output_frame s s1" "loader_ready s1"
    using say[OF assms(2), of "newline ''Load kernel ...''"] by (auto simp: messages_def)
  note p1 = output_safe[OF s1(2)]
  note e1 = same_parts_sel[OF conjunct1[OF p1]]
  obtain s2 where s2: "load_kernel lba s1 = Inr (hdr_entry (img f) 0 AND 0xFFFFFF, s2)" "kernel_loaded f (bmem s2)" "read_frame s1 s2"
    using load_kernel_ok[of s1 sec lba] e1(1,2) assms(3,4) unfolding f_def by auto
  note p2 = read_safe[OF s2(3)]
  note e2 = same_parts_sel[OF conjunct1[OF p2]]
  have "loader_ready s2"
  proof (rule loader_ready_keep[OF s1(3)])
    show "unat (row s2) \<le> 25" using p2 s1(3) by (simp add: loader_ready_def puti_ok_def boot_screen_ok_def)
  qed (use p2 in \<open>auto simp: kept_def\<close>)
  then obtain t where t: "putline (loc_text s2 (newline ''Start kernel ...'')) s2 = Inr t" "output_frame s2 t"
    using say[of s2 "newline ''Start kernel ...''"] by (auto simp: messages_def)
  note p3 = output_safe[OF t(2)]
  have "same_parts s t" using p1 p2 p3 same_parts_trans by blast
  moreover have "bmem t a = bmem s a" if "safe s a" for a using p1 p2 p3 that e1(8) e2(8) by simp
  moreover have "kernel_loaded f (bmem t)"
    by (rule kernel_loaded_keep[OF s2(2) assms(4)], rule output_high[OF t(2)]) (use assms(5) e1(4) e2(4) in simp_all)
  ultimately show ?thesis using s1(1) s2(1) t(1) by blast
qed

lemma boot1main_ok:
  fixes sec lba defines "f \<equiv> disk_byte sec lba"
  assumes "loader_start s mbr smap n" "find_bootable mbr 0 (bmem s) = (i, lba)" "i < 4"
    "ata_disk (in8 s) (in32 s) sec" "kernel_ok f lba"
  shows "\<exists>t. boot1main dev mbr smap s
        = Inr \<lparr>h_eax = MBOOT_INFO_MAGIC, h_ebx = loc_mboot_info s, h_eip = hdr_entry (img f) 0 AND 0xFFFFFF, h_boot = t\<rparr> \<and>
    kernel_loaded f (bmem t) \<and> (\<forall>a. kept s a \<longrightarrow> bmem t a = bmem s a) \<and>
    load32 (bmem t) (loc_mboot_info s + 44) = word_of_nat (24 * n) \<and> load32 (bmem t) (loc_mboot_info s + 48) = smap"
proof -
  note st = assms(2)[unfolded loader_start_def]
  obtain s1 where s1: "putline (loc_text s ''Start boot1 main ...'') (roll 3 s) = Inr s1" "same_parts s s1" "loader_ready s1"
    "\<And>a. kept s a \<Longrightarrow> bmem s1 a = bmem s a" "find_bootable mbr 0 (bmem s1) = (i, lba)" "smap_at (bmem s1) smap n"
    using boot_first[OF assms(2)] assms(3) by auto
  note e1 = same_parts_sel[OF s1(2)]
  obtain s2 where s2: "parse_e820 smap s1 = Inr (loc_mboot_info s, s2)" "same_parts s1 s2" "loader_ready s2"
    "\<And>a. kept s a \<Longrightarrow> bmem s2 a = bmem s1 a"
    "load32 (bmem s2) (loc_mboot_info s + 44) = word_of_nat (24 * n)" "load32 (bmem s2) (loc_mboot_info s + 48) = smap"
    using parse_e820_ok[OF s1(3,6)] st e1(6,9) by auto
  have p2: "same_parts s s2" by (rule same_parts_trans[OF s1(2) s2(2)])
  note e2 = same_parts_sel[OF p2]
  obtain s3 s4 t where t: "putline (loc_text s2 (newline ''Load kernel ...'')) s2 = Inr s3"
    "load_kernel lba s3 = Inr (hdr_entry (img f) 0 AND 0xFFFFFF, s4)"
    "putline (loc_text s4 (newline ''Start kernel ...'')) s4 = Inr t" "same_parts s2 t"
    "\<And>a. safe s a \<Longrightarrow> bmem t a = bmem s2 a" "kernel_loaded f (bmem t)"
    using boot_load[OF s2(3), of sec lba] e2 assms(5,6) st unfolding f_def by auto
  have w: "load32 (bmem t) (loc_mboot_info s + 44 + word_of_nat d) = load32 (bmem s2) (loc_mboot_info s + 44 + word_of_nat d)"
    if "d \<le> 4" for d
  proof (rule load32_cong, rule t(5))
    fix x :: nat assume "x < 4"
    then have "d + x < 8" using that by simp
    then have "safe s (loc_mboot_info s + 44 + word_of_nat (d + x))" using st by blast
    then show "safe s (loc_mboot_info s + 44 + word_of_nat d + word_of_nat x)" by (simp add: add.assoc)
  qed
  have "bmem t a = bmem s a" if "kept s a" for a using t(5)[of a] s2(4)[OF that] s1(4)[OF that] that by (simp add: kept_def)
  moreover have "loc_mboot_info t = loc_mboot_info s" by (rule same_parts_sel(6)[OF same_parts_trans[OF p2 t(4)]])
  moreover have "boot1main dev mbr smap s = Inr (exec_kernel (hdr_entry (img f) 0 AND 0xFFFFFF) (loc_mboot_info t) t)"
    using s1(1,5) assms(4) s2(1) t(1-3) by (simp add: boot1main_def)
  ultimately show ?thesis using w[of 0] w[of 4] s2(5,6) t(6) by (simp add: exec_kernel_def add.commute)
qed

lemma e820_keep:
  assumes "\<And>x. x < 24 * n \<Longrightarrow> m' (a + word_of_nat x) = m (a + word_of_nat x)"
  shows "e820_covers m' a 0 (24 * n) ty = e820_covers m a 0 (24 * n) ty"
    "24 * n < 4294967296 \<Longrightarrow> e820_ok m a (word_of_nat (24 * n)) \<Longrightarrow> e820_ok m' a (word_of_nat (24 * n))"
proof -
  have l: "load32 m' (a + word_of_nat (24 * k) + word_of_nat x) = load32 m (a + word_of_nat (24 * k) + word_of_nat x)"
    if "k < n" "x + 4 \<le> 24" for k x
  proof (rule load32_cong)
    fix d :: nat assume "d < 4"
    then have "24 * k + x + d < 24 * n" using that by simp
    from assms[OF this] show "m' (a + word_of_nat (24 * k) + word_of_nat x + word_of_nat d)
        = m (a + word_of_nat (24 * k) + word_of_nat x + word_of_nat d)" by (simp add: add.assoc)
  qed
  have e: "load32 m' (a + word_of_nat (24 * k) + c) = load32 m (a + word_of_nat (24 * k) + c)" if "k < n" "c \<in> {4, 8, 12, 16, 20}" for k c
    using l[OF that(1), of 4] l[OF that(1), of 8] l[OF that(1), of 12] l[OF that(1), of 16] l[OF that(1), of 20] that(2) by auto
  then have "e820_range m' (a + word_of_nat (24 * k)) ty = e820_range m (a + word_of_nat (24 * k)) ty" if "k < n" for k
    using that by (simp add: e820_range_def del: of_nat_mult)
  then show "e820_covers m' a 0 (24 * n) ty = e820_covers m a 0 (24 * n) ty" by (simp add: e820_covers_def)
  show "e820_ok m a (word_of_nat (24 * n)) \<Longrightarrow> e820_ok m' a (word_of_nat (24 * n))" if "24 * n < 4294967296"
    using e unat_u32[OF that] by (simp add: e820_ok_def del: of_nat_mult)
qed

section \<open>Properties\<close>

text \<open>
  C8: Started on a boot record with a bootable partition and a disk that follows the ATA protocol, the
  boot loader reads every segment of the kernel on that partition to its address, byte for byte, and
  jumps to the kernel's entry with the multiboot magic number and a pointer to \<^verbatim>\<open>mboot_info\<close>.
\<close>

theorem boot_loads_kernel:
  assumes "loader_start s mbr smap n" "find_bootable mbr 0 (bmem s) = (i, lba)" "i < 4"
    "ata_disk (in8 s) (in32 s) sec" "kernel_ok (disk_byte sec lba) lba"
  shows "\<exists>t. boot1main dev mbr smap s = Inr \<lparr>h_eax = MBOOT_INFO_MAGIC, h_ebx = loc_mboot_info s,
      h_eip = hdr_entry (img (disk_byte sec lba)) 0 AND 0xFFFFFF, h_boot = t\<rparr> \<and> kernel_loaded (disk_byte sec lba) (bmem t)"
  using boot1main_ok[OF assms] by blast

text \<open>
  C24: The memory map the BIOS reported reaches the kernel: when the boot loader has handed over,
  \<^verbatim>\<open>pmmap_init\<close> of the kernel, given the pointer that the loader passes, builds a map that covers for every
  type exactly the addresses that the table in the loader's memory lists.
\<close>

theorem boot_memory_map:
  assumes "loader_start s mbr smap n" "find_bootable mbr 0 (bmem s) = (i, lba)" "i < 4"
    "ata_disk (in8 s) (in32 s) sec" "kernel_ok (disk_byte sec lba) lba"
    and e820: "n \<le> 128" "e820_ok (bmem s) smap (word_of_nat (24 * n))"
    and kernel: "\<And>h. boot1main dev mbr smap s = Inr h \<Longrightarrow> mem (k :: 'a pmmap_state_scheme) = bmem (h_boot h)" "pmmap_slots_next_free k = 0"
  shows "\<exists>h k'. boot1main dev mbr smap s = Inr h \<and> pmmap_init (h_ebx h) k = Inr k' \<and> starts_sorted (pmmap_list k') \<and>
    (\<forall>ty. covers (pmmap_list k') ty = e820_covers (bmem s) smap 0 (24 * n) ty)"
proof -
  let ?mi = "loc_mboot_info s"
  obtain h where h: "boot1main dev mbr smap s = Inr h" "h_ebx h = ?mi"
    "\<And>a. kept s a \<Longrightarrow> bmem (h_boot h) a = bmem s a"
    "load32 (bmem (h_boot h)) (?mi + 44) = word_of_nat (24 * n)" "load32 (bmem (h_boot h)) (?mi + 48) = smap"
    using boot1main_ok[OF assms(1-5), of dev] by auto
  have m: "bmem (h_boot h) (smap + word_of_nat x) = bmem s (smap + word_of_nat x)" if "x < 24 * n" for x
    using assms(1) that h(3) by (simp add: loader_start_def)
  have n1: "24 * n < 4294967296" using e820(1) by simp
  note n = n1 unat_u32[OF n1]
  have "e820_ok (bmem (h_boot h)) smap (word_of_nat (24 * n))" using m n(1) e820(2) by (rule e820_keep(2))
  then have "e820_ok (mem k) (load32 (mem k) (?mi + 48)) (load32 (mem k) (?mi + 44))" using kernel(1)[OF h(1)] h(4,5) by simp
  from pmmap_init_map[OF this kernel(2)] obtain k' where k': "pmmap_init ?mi k = Inr k'" "starts_sorted (pmmap_list k')"
    "\<And>ty. covers (pmmap_list k') ty = e820_covers (bmem (h_boot h)) smap 0 (24 * n) ty"
    using kernel(1)[OF h(1)] h(4,5) n(2) by auto
  moreover have "e820_covers (bmem (h_boot h)) smap 0 (24 * n) ty = e820_covers (bmem s) smap 0 (24 * n) ty" for ty
    using m by (rule e820_keep(1))
  ultimately show ?thesis using h(1,2) by auto
qed

text \<open>
  Without a bootable partition the boot loader halts, and the first row of the display shows why,
  in red.
\<close>

theorem boot_no_partition:
  assumes "loader_start s mbr smap n" "\<And>i. i < 4 \<Longrightarrow> mbr_bootable (bmem s) mbr i \<noteq> BOOTABLE_PARTITION"
  shows "\<exists>t. boot1main dev mbr smap s = Inl (Halted t) \<and>
    map (\<lambda>j. (bmem t (video + word_of_nat (2 * j)), bmem t (video + word_of_nat (2 * j + 1)))) [0..<31]
      = map (\<lambda>c. (c, 4)) (chars ''Cannot find bootable partition!'')"
proof -
  let ?cs = "chars ''Cannot find bootable partition!''"
  obtain s1 where s1: "putline (loc_text s ''Start boot1 main ...'') (roll 3 s) = Inr s1" "same_parts s s1" "loader_ready s1"
    "find_bootable mbr 0 (bmem s1) = find_bootable mbr 0 (bmem s)" using boot_first[OF assms(1)] by blast
  have "find_bootable mbr i (bmem s) = (4, 0)" if "i \<le> 4" for i
    using that
  proof (induction "4 - i" arbitrary: i)
    case (Suc d)
    then show ?case using Suc.hyps(1)[of "Suc i"] assms(2)[of i] by (subst find_bootable.simps) simp
  qed (simp add: find_bootable.simps)
  then have fb: "find_bootable mbr 0 (bmem s1) = (4, 0)" using s1(4) by simp
  have "line_at s1 (loc_text s1 ''Cannot find bootable partition!'') ?cs" using s1(3) by (simp add: loader_ready_def messages_def)
  from puts_boot_eq[OF this, of 0 VGA_CLR_RED]
  have "panic_boot (loc_text s1 ''Cannot find bootable partition!'') s1 = Inl (Halted (s1\<lparr>bmem := shown 0 VGA_CLR_RED ?cs (bmem s1)\<rparr>))"
    by (simp add: panic_boot_def)
  then have b: "boot1main dev mbr smap s = Inl (Halted (s1\<lparr>bmem := shown 0 VGA_CLR_RED ?cs (bmem s1)\<rparr>))"
    using s1(1) fb by (simp add: boot1main_def)
  have len: "length ?cs = 31" by (simp add: chars_def)
  have "shown 0 VGA_CLR_RED ?cs m (video + word_of_nat (2 * j)) = ?cs ! j \<and> shown 0 VGA_CLR_RED ?cs m (video + word_of_nat (2 * j + 1)) = 4"
    if "j < 31" for j m
  proof -
    have "unat (video + word_of_nat (2 * j) - video) = 2 * j" "unat (video + word_of_nat (2 * j + 1) - video) = 2 * j + 1"
      using that by (intro index_sub; simp)+
    then show ?thesis using that len by (simp add: shown_def Let_def VGA_CLR_RED_def)
  qed
  then show ?thesis using b len by (auto intro!: nth_equalityI)
qed

text \<open>
  C37: \<^verbatim>\<open>putline\<close> writes one row of the display: the 80 cells of the next row hold the text in white
  followed by black blanks, and no other byte of memory changes. The rows go from 0 to 25, so that
  the last one lies behind the 25 rows that the display has.
\<close>

theorem putline_bounds:
  assumes "boot_screen_ok s" "line_at s p cs" "r = next_row (unat (row s))"
  shows "\<exists>t. putline p s = Inr t \<and> boot_screen_ok t \<and> r \<le> 25 \<and> row t = word_of_nat r \<and>
    (\<forall>a. unat (a - video) < 160 * r \<or> 160 * r + 160 \<le> unat (a - video) \<longrightarrow> bmem t a = bmem s a) \<and>
    (\<forall>j<80. (bmem t (video + word_of_nat (160 * r + 2 * j)), bmem t (video + word_of_nat (160 * r + 2 * j + 1)))
       = (if j < length cs then (cs ! j, 15) else (32, 0)))"
proof -
  let ?m = "shown (80 * r) VGA_CLR_WHITE cs (shown (80 * r) VGA_CLR_BLACK (replicate 80 32) (bmem s))"
  let ?t = "s\<lparr>row := word_of_nat r, bmem := ?m\<rparr>"
  have p: "putline p s = Inr ?t" and r: "r \<le> 25" using putline_eq[OF assms(1,2)] assms(3) by simp_all
  have len: "length cs \<le> 80" using assms(2) by (simp add: line_at_def)
  have out: "?m a = bmem s a" if "unat (a - video) < 160 * r \<or> 160 * r + 160 \<le> unat (a - video)" for a
    using that len by (auto simp: shown_def Let_def)
  have "line_at ?t (loc_blank s) (replicate 80 32)"
  proof (rule line_at_cong[of s])
    show "line_at s (loc_blank s) (replicate 80 32)" using assms(1) by (simp add: boot_screen_ok_def)
    then show "bmem ?t (loc_blank s + word_of_nat j) = bmem s (loc_blank s + word_of_nat j)" if "j \<le> length (replicate 80 32 :: u8 list)" for j
      using that r len by (simp add: line_at_def shown_off)
  qed
  then have "boot_screen_ok ?t" using r by (simp add: boot_screen_ok_def unat_u32)
  moreover have "(?m (video + word_of_nat (160 * r + 2 * j)), ?m (video + word_of_nat (160 * r + 2 * j + 1)))
      = (if j < length cs then (cs ! j, 15) else (32, 0))" if "j < 80" for j
  proof -
    have "unat (video + word_of_nat (160 * r + 2 * j) - video) = 160 * r + 2 * j"
      "unat (video + word_of_nat (160 * r + 2 * j + 1) - video) = 160 * r + 2 * j + 1"
      using that r by (intro index_sub; simp)+
    moreover have "(160 * r + 2 * j) div 2 - 80 * r = j" by simp
    ultimately show ?thesis using that len
      by (simp add: shown_def Let_def VGA_CLR_WHITE_def VGA_CLR_BLACK_def)
  qed
  ultimately show ?thesis using p r out by auto
qed

section \<open>An example\<close>

text \<open>A disk that is always ready and answers from the accesses before: the words read, the polls, the command.\<close>

definition ata_word :: "(u32 \<Rightarrow> nat \<Rightarrow> u32) \<Rightarrow> access list \<Rightarrow> u32" where
  "ata_word sec h =
     (let k = length (takeWhile (\<lambda>a. a = In32 0x1F0) h);
          rest = dropWhile (\<lambda>a. a = In 0x1F7) (dropWhile (\<lambda>a. a = In32 0x1F0) h)
      in case rest of
           Out _ _ # Out _ b3 # Out _ b2 # Out _ b1 # Out _ b0 # _ \<Rightarrow>
             sec (ucast b0 OR push_bit 8 (ucast b1) OR push_bit 16 (ucast b2) OR push_bit 24 (ucast (b3 AND 0x0F))) k
         | _ \<Rightarrow> 0)"

lemma lba_join:
  assumes "lba < (0x10000000 :: u32)"
  shows "ucast (ucast lba :: u8) OR push_bit 8 (ucast (ucast (drop_bit 8 lba) :: u8)) OR push_bit 16 (ucast (ucast (drop_bit 16 lba) :: u8))
     OR push_bit 24 (ucast ((ucast (drop_bit 24 lba OR 0xE0) :: u8) AND 0x0F)) = lba"
proof -
  have "drop_bit 24 lba < 16"
    using assms by (simp add: drop_bit_eq_div word_less_nat_alt unat_div less_mult_imp_div_less)
  then have d: "drop_bit 24 lba = take_bit 4 (drop_bit 24 lba)" 
    by (simp add: word_unat_eq_iff unsigned_take_bit_eq take_bit_nat_eq_self word_less_nat_alt)
  have "(ucast ((ucast (x OR 0xE0) :: u8) AND 0x0F) :: u32) = take_bit 4 x" for x :: u32
  proof (rule bit_word_eqI)
    fix n assume "n < LENGTH(32)"
    have "(0x0F :: u8) = mask 4" "(0xE0 :: u32) = push_bit 5 (mask 3)" by (simp_all add: mask_eq_exp_minus_1 push_bit_eq_mult)
    then show "bit (ucast ((ucast (x OR 0xE0) :: u8) AND 0x0F) :: u32) n = bit (take_bit 4 x) n"
      by (auto simp only: bit_simps) (auto simp: bit_simps)
  qed
  moreover have "ucast (ucast (drop_bit 24 lba) :: u8) = take_bit 4 (drop_bit 24 lba)"
  proof (rule bit_word_eqI)
    fix n assume "n < LENGTH(32)"
    show "bit (ucast (ucast (drop_bit 24 lba) :: u8) :: u32) n = bit (take_bit 4 (drop_bit 24 lba)) n"
      by (subst d) (auto simp: bit_simps)
  qed
  ultimately show ?thesis using bytes_join[of lba] by simp
qed

lemma ata_word_disk: "ata_disk (\<lambda>_ _. 0x40) (\<lambda>h _. ata_word sec h) sec"
proof -
  have t: "takeWhile P (replicate n a @ xs) = (if P a then replicate n a @ takeWhile P xs else if n = 0 then takeWhile P xs else [])"
    "dropWhile P (replicate n a @ xs) = (if P a \<or> n = 0 then dropWhile P xs else replicate n a @ xs)"
    for P and a :: access and n xs by (induction n) auto
  have "ata_word sec (replicate k (In32 0x1F0) @ replicate (Suc n) (In 0x1F7) @ read_command lba @ h) = sec lba k"
    if "lba < 0x10000000" for h lba n k
  proof -
    have "dropWhile (\<lambda>a. a = In 0x1F7) (read_command lba @ h) = read_command lba @ h" by (simp add: read_command_def)
    then show ?thesis using lba_join[OF that] by (simp add: ata_word_def t Let_def) (simp add: read_command_def)
  qed
  then show ?thesis by (simp add: ata_disk_def ready_def)
qed

text \<open>
  A machine whose first partition holds a kernel with one segment of 4 bytes. The constants of the
  loader lie from 0x8000 on, 256 bytes apart; the table of the BIOS has one descriptor.
\<close>

definition msg_index :: "string \<Rightarrow> nat" where
  "msg_index msg = length (takeWhile (\<lambda>x. x \<noteq> msg) messages)"

definition text_bytes :: "nat \<Rightarrow> u8 list" where
  "text_bytes i = (if i < 6 then chars (messages ! i) else if i = 6 then replicate 80 32 else [])"

definition boot_mem :: memory where
  "boot_mem a = (if 0x8000 \<le> a \<and> a < 0x8700
     then (let i = unat (a - 0x8000) div 256; j = unat (a - 0x8000) mod 256 in if j < length (text_bytes i) then text_bytes i ! j else 0)
     else if 0x8700 \<le> a \<and> a < 0x8710 then digit_char (unat (a - 0x8700))
     else if a = 0x7c00 + 446 then 0x80 else if a = 0x7c00 + 454 then 63
     else if a = 0xA00D then 0x10 else if a = 0xA014 then 1 else 0)"

definition kernel_sectors :: "u32 \<Rightarrow> nat \<Rightarrow> u32" where
  "kernel_sectors lba k =
     (if lba = 63 then (if k = 0 then 0x464C457F else if k = 6 then 0x100000 else if k = 7 then 52 else if k = 11 then 1
        else if k = 14 then 0x1000 else if k = 15 then 0x100000 else if k = 18 then 4 else 0)
      else if lba = 71 \<and> k = 0 then 0x12345678 else 0)"

definition boot_example :: boot where
  "boot_example = \<lparr>bmem = boot_mem, in8 = (\<lambda>_ _. 0x40), in32 = (\<lambda>h _. ata_word kernel_sectors h), accesses = [], row = 0,
     loc_blank = 0x8600, loc_puti_str = 0x9000, loc_dec = 0x8700, loc_hex = 0x8700, loc_mboot_info = 0x9100,
     loc_text = (\<lambda>msg. 0x8000 + word_of_nat (256 * msg_index msg))\<rparr>"

lemma takeWhile_index:
  "x \<in> set xs \<Longrightarrow> length (takeWhile (\<lambda>y. y \<noteq> x) xs) < length xs \<and> xs ! length (takeWhile (\<lambda>y. y \<noteq> x) xs) = x"
  by (induction xs) auto

lemma boot_example_kept:
  assumes "unat a < 0x9000 \<or> 0x9200 \<le> unat a \<and> unat a < 0x20000"
  shows "kept (roll 3 boot_example) a"
proof -
  have "4160 \<le> unat (a - 0xB8000)" "40 \<le> unat (a - 0x9000)" "8 \<le> unat (a - 0x912C)"
    by (rule outside_range; use assms in auto)+
  then show ?thesis using assms by (auto simp: kept_def safe_def boot_example_def roll_def off_display_def video_def)
qed

lemma boot_example_text:
  assumes "i \<le> 6" "0 \<notin> set (text_bytes i)" "length (text_bytes i) \<le> 80"
  shows "line_at (roll 3 boot_example) (0x8000 + word_of_nat (256 * i)) (text_bytes i)"
    "j \<le> 80 \<Longrightarrow> kept (roll 3 boot_example) (0x8000 + word_of_nat (256 * i) + word_of_nat j)"
proof -
  have u: "unat (0x8000 + word_of_nat (256 * i) + word_of_nat j :: u32) = 0x8000 + 256 * i + j" if "j \<le> 80" for j
    using assms(1) that by (simp add: unat_word_ariths unat_u32)
  have k: "kept (roll 3 boot_example) (0x8000 + word_of_nat (256 * i) + word_of_nat j)" if "j \<le> 80" for j
    by (rule boot_example_kept) (use u[OF that] assms(1) that in simp)
  then show "j \<le> 80 \<Longrightarrow> kept (roll 3 boot_example) (0x8000 + word_of_nat (256 * i) + word_of_nat j)" .
  have m: "boot_mem (0x8000 + word_of_nat (256 * i) + word_of_nat j) = (if j < length (text_bytes i) then text_bytes i ! j else 0)"
    if "j \<le> 80" for j
  proof -
    have "unat (0x8000 + word_of_nat (256 * i) + word_of_nat j - 0x8000 :: u32) = 256 * i + j"
      using assms(1) that index_sub[of "256 * i + j" "0x8000"] by (simp add: add.assoc)
    moreover have "(0x8000 :: u32) \<le> 0x8000 + word_of_nat (256 * i) + word_of_nat j"
      "0x8000 + word_of_nat (256 * i) + word_of_nat j < (0x8700 :: u32)"
      using u[OF that] assms(1) that by (simp_all add: word_le_nat_alt word_less_nat_alt)
    ultimately show ?thesis using that unfolding boot_mem_def by (simp add: Let_def)
  qed
  have "str_at boot_mem (0x8000 + word_of_nat (256 * i)) (text_bytes i)"
    using m assms(2,3) by (intro str_at_take) auto
  then show "line_at (roll 3 boot_example) (0x8000 + word_of_nat (256 * i)) (text_bytes i)"
    using k assms(3) by (auto simp: line_at_def kept_def safe_def) (simp add: boot_example_def roll_def)
qed

lemma boot_example_ready: "loader_ready (roll 3 boot_example)"
proof -
  have sel: "loc_blank (roll 3 boot_example) = 0x8000 + word_of_nat (256 * 6)" "loc_hex (roll 3 boot_example) = 0x8700"
    "loc_puti_str (roll 3 boot_example) = 0x9000" "row (roll 3 boot_example) = 3" "bmem (roll 3 boot_example) = boot_mem"
    "loc_text (roll 3 boot_example) = (\<lambda>msg. 0x8000 + word_of_nat (256 * msg_index msg))"
    by (simp_all add: boot_example_def roll_def)
  have blank: "text_bytes 6 = replicate 80 32" by (simp add: text_bytes_def)
  note b = boot_example_text[of 6, unfolded blank]
  have off: "off_display a" if "unat a < 0x20000" for a
    unfolding off_display_def video_def by (rule outside_range) (use that in simp_all)
  have hex: "boot_mem (0x8700 + word_of_nat d) = digit_char d" "unat (0x8700 + word_of_nat d :: u32) = 0x8700 + d" if "d < 16" for d
  proof -
    show u: "unat (0x8700 + word_of_nat d :: u32) = 0x8700 + d" using that by (simp add: unat_word_ariths unat_u32)
    then have "(0x8700 :: u32) \<le> 0x8700 + word_of_nat d" "0x8700 + word_of_nat d < (0x8710 :: u32)"
      using that by (simp_all add: word_le_nat_alt word_less_nat_alt)
    then show "boot_mem (0x8700 + word_of_nat d) = digit_char d" using index_sub[of d "0x8700"] that
      unfolding boot_mem_def by (auto simp: word_le_nat_alt word_less_nat_alt)
  qed
  have "boot_screen_ok (roll 3 boot_example)" unfolding boot_screen_ok_def sel using b(1) by simp
  moreover have "digit_table 16 0x8700 0x9000 boot_mem"
    unfolding digit_table_def using hex outside_range[of "0x8700 + word_of_nat d" "0x9000" 40 for d] by simp
  moreover have "off_display (0x9000 + word_of_nat i)" if "i < 40" for i
    by (rule off) (use that in \<open>simp add: unat_word_ariths unat_u32\<close>)
  moreover have "40 \<le> unat (0x8000 + word_of_nat (256 * 6) + word_of_nat j - 0x9000 :: u32)" if "j \<le> 80" for j
    using b(2)[OF _ _ _ that] by (simp add: kept_def safe_def sel)
  ultimately have "puti_ok (roll 3 boot_example)"
    unfolding puti_ok_def sel using hex(2) off by auto
  moreover have "line_at (roll 3 boot_example) (0x8000 + word_of_nat (256 * msg_index msg)) (chars msg) \<and>
      (\<forall>j\<le>length msg. kept (roll 3 boot_example) (0x8000 + word_of_nat (256 * msg_index msg) + word_of_nat j))"
    if "msg \<in> set messages" for msg
  proof -
    have "list_all (\<lambda>m. length m \<le> 80 \<and> list_all (\<lambda>c. c \<noteq> 0) (chars m)) messages" "length messages = 6"
      by (simp_all add: messages_def newline_def chars_def)
    moreover have "msg_index msg < length messages \<and> messages ! msg_index msg = msg"
      unfolding msg_index_def by (rule takeWhile_index[OF that])
    ultimately have "msg_index msg < 6 \<and> messages ! msg_index msg = msg \<and> length msg \<le> 80 \<and> 0 \<notin> set (chars msg)"
      using that by (auto simp: list_all_iff)
    then have "msg_index msg \<le> 6" "text_bytes (msg_index msg) = chars msg" "length (chars msg) \<le> 80" "0 \<notin> set (chars msg)"
      "length (chars msg) = length msg"
      by (auto simp: text_bytes_def chars_def)
    then show ?thesis using boot_example_text[of "msg_index msg"] by auto
  qed
  moreover have "kept (roll 3 boot_example) (0x8700 + word_of_nat d)" if "d < 16" for d
    by (rule boot_example_kept) (use hex(2)[OF that] that in simp)
  ultimately show ?thesis unfolding loader_ready_def sel using b(2) by simp
qed

lemma boot_example_start: "loader_start boot_example 0x7c00 0xA000 1"
proof -
  have p: "same_parts (roll 3 boot_example) boot_example" by (simp add: same_parts_def roll_def boot_example_def)
  note k = boot_example_kept[folded same_parts_sel(9)[OF p]]
  have "kept boot_example (0x7c00 + word_of_nat (446 + x))" if "x < 64" for x
    by (rule k) (use that in \<open>simp add: unat_word_ariths unat_u32\<close>)
  moreover have "kept boot_example (0xA000 + word_of_nat x)" if "x < 48" for x
    by (rule k) (use that in \<open>simp add: unat_word_ariths unat_u32\<close>)
  moreover have "safe boot_example (0x9100 + 44 + word_of_nat x)" if "x < 8" for x
  proof -
    have "unat (0x9100 + 44 + word_of_nat x :: u32) = 0x9100 + 44 + x" using that by (simp add: unat_word_ariths unat_u32)
    then show ?thesis using outside_range[of "0x9100 + 44 + word_of_nat x" video 4160] that
        outside_range[of "0x9100 + 44 + word_of_nat x" "loc_puti_str boot_example" 40]
      unfolding safe_def off_display_def by (simp add: boot_example_def video_def)
  qed
  moreover have "smap_at boot_mem 0xA000 1"
    by (simp add: smap_at_def smap_zero_def smap_base_addr_def smap_length_def smap_type_def load64_def load32_def boot_mem_def)
  moreover have "loc_mboot_info boot_example = 0x9100" "loc_puti_str boot_example = 0x9000" "bmem boot_example = boot_mem"
    by (simp_all add: boot_example_def)
  ultimately show ?thesis unfolding loader_start_def using boot_example_ready by simp
qed

lemma kernel_example:
  "kernel_ok (disk_byte kernel_sectors 63) 63" "hdr_entry (img (disk_byte kernel_sectors 63)) 0 = 0x100000"
  "hdr_phnum (img (disk_byte kernel_sectors 63)) 0 = 1"
proof -
  let ?f = "disk_byte kernel_sectors 63"
  note ev = img_def load32_def load16_def disk_byte_def word_byte_def kernel_sectors_def
  have l: "load32 (img ?f) 0 = 0x464C457F" "load32 (img ?f) 24 = 0x100000" "load32 (img ?f) 28 = 52" "load16 (img ?f) 44 = 1"
    "load32 (img ?f) 56 = 0x1000" "load32 (img ?f) 60 = 0x100000" "load32 (img ?f) 72 = 4"
    by (simp_all add: ev)
  then have h: "hdr_magic (img ?f) 0 = KERNEL_MAGIC" "hdr_phoff (img ?f) 0 = 52"
    by (simp_all add: hdr_magic_def KERNEL_MAGIC_def hdr_phoff_def)
  show n: "hdr_entry (img ?f) 0 = 0x100000" "hdr_phnum (img ?f) 0 = 1" using l by (simp_all add: hdr_entry_def hdr_phnum_def)
  have "seg_va ?f 0 = 0x100000" "seg_size ?f 0 = 4" "seg_offset ?f 0 = 0x1000"
    using l by (simp_all add: seg_va_def seg_size_def seg_offset_def seg_hdr_def h ph_va_def ph_memsz_def ph_offset_def)
  then have "segment_ok ?f 63 0" by (simp add: segment_ok_def seg_at_def section_bytes_def)
  then show "kernel_ok ?f 63" using h n by (simp add: kernel_ok_def seg_hdr_def)
qed

lemma boot_example_sel:
  "find_bootable 0x7c00 0 (bmem boot_example) = (0, 63)" "ata_disk (in8 boot_example) (in32 boot_example) kernel_sectors"
  "loc_mboot_info boot_example = 0x9100" "bmem boot_example = boot_mem"
  using ata_word_disk[of kernel_sectors]
  by (simp_all add: boot_example_def find_bootable.simps mbr_bootable_def mbr_first_lba_def BOOTABLE_PARTITION_def load32_def boot_mem_def)

theorem boot_loads_kernel_witness:
  "\<exists>t. boot1main 0 0x7c00 0xA000 boot_example = Inr \<lparr>h_eax = 0x2badb002, h_ebx = 0x9100, h_eip = 0x100000, h_boot = t\<rparr> \<and>
     kernel_loaded (disk_byte kernel_sectors 63) (bmem t)"
  using boot_loads_kernel[OF boot_example_start boot_example_sel(1) _ boot_example_sel(2) kernel_example(1), of 0] kernel_example(2)
  by (simp add: boot_example_sel MBOOT_INFO_MAGIC_def)

lemma pmmap_example_slots: "pmmap_slots_next_free pmmap_example = 0"
  by (simp add: pmmap_example_def)

theorem boot_memory_map_witness:
  "\<exists>h k'. boot1main 0 0x7c00 0xA000 boot_example = Inr h \<and>
     pmmap_init (h_ebx h) (pmmap_example\<lparr>mem := bmem (h_boot (projr (boot1main 0 0x7c00 0xA000 boot_example)))\<rparr>) = Inr k' \<and>
     starts_sorted (pmmap_list k') \<and> (\<forall>ty. covers (pmmap_list k') ty = e820_covers boot_mem 0xA000 0 24 ty)"
proof -
  have "load32 boot_mem 0xA014 = 1" by (simp add: load32_def boot_mem_def)
  then have "e820_ok (bmem boot_example) 0xA000 (word_of_nat (24 * 1))" by (auto simp: e820_ok_def boot_example_sel)
  from boot_memory_map[OF boot_example_start boot_example_sel(1) _ boot_example_sel(2) kernel_example(1) _ this,
      of 0 "pmmap_example\<lparr>mem := bmem (h_boot (projr (boot1main 0 0x7c00 0xA000 boot_example)))\<rparr>"]
  show ?thesis using pmmap_example_slots by (auto simp: boot_example_sel(4))
qed

text \<open>The same machine with a boot record that marks no partition.\<close>

theorem boot_no_partition_witness:
  "\<exists>t. boot1main 0 0x7000 0xA000 boot_example = Inl (Halted t) \<and>
     map (\<lambda>j. (bmem t (video + word_of_nat (2 * j)), bmem t (video + word_of_nat (2 * j + 1)))) [0..<31]
       = map (\<lambda>c. (c, 4)) (chars ''Cannot find bootable partition!'')"
proof -
  have "kept (roll 3 boot_example) (0x7000 + word_of_nat (446 + x))" if "x < 64" for x
    by (rule boot_example_kept) (use that in \<open>simp add: unat_word_ariths unat_u32\<close>)
  then have "loader_start boot_example 0x7000 0xA000 1"
    using boot_example_start same_parts_sel(9)[of boot_example "roll 3 boot_example"]
    by (simp add: loader_start_def same_parts_def roll_def)
  moreover have "mbr_bootable (bmem boot_example) 0x7000 i \<noteq> BOOTABLE_PARTITION" if "i < 4" for i
  proof -
    have "i = 0 \<or> i = 1 \<or> i = 2 \<or> i = 3" using that by linarith
    then show ?thesis by (auto simp: mbr_bootable_def boot_example_sel(4) boot_mem_def BOOTABLE_PARTITION_def)
  qed
  ultimately show ?thesis by (rule boot_no_partition)
qed

text \<open>On row 24 the next line goes to row 25, from byte 4000 of the video memory on, which is not displayed.\<close>

theorem putline_bounds_witness:
  "\<exists>t. putline (loc_text boot_example ''Start boot1 main ...'') (roll 24 boot_example) = Inr t \<and> row t = 25 \<and>
     bmem t (video + 4000) = 83"
proof -
  let ?s = "roll 24 boot_example" and ?p = "loc_text boot_example ''Start boot1 main ...''"
  have l: "line_at ?s ?p (chars ''Start boot1 main ...'')" "line_at ?s (loc_blank boot_example) (replicate 80 32)"
    using boot_example_ready by (simp_all add: loader_ready_def puti_ok_def boot_screen_ok_def messages_def line_at_def roll_def)
  then have "boot_screen_ok ?s" by (simp add: boot_screen_ok_def roll_def)
  from putline_bounds[OF this l(1) refl] obtain t where t: "putline ?p ?s = Inr t" "row t = 25"
    "\<forall>j<80. (bmem t (video + word_of_nat (160 * 25 + 2 * j)), bmem t (video + word_of_nat (160 * 25 + 2 * j + 1)))
       = (if j < length (chars ''Start boot1 main ...'') then (chars ''Start boot1 main ...'' ! j, 15) else (32, 0))"
    by (auto simp: next_row_def roll_def)
  from t(3)[rule_format, of 0] have "bmem t (video + 4000) = 83" by (simp add: chars_def)
  with t(1,2) show ?thesis by blast
qed

end
