(* ===== verification/KQueue.thy ===== *)
theory KQueue
  imports Prelude
begin

text \<open>
  The singly linked lists of \<^verbatim>\<open>kern/lib/queue.h\<close>. Elements are numbers, a link is the number of an element or \<^verbatim>\<open>NULL\<close>, and
  every field of type \<^verbatim>\<open>SLIST_ENTRY\<close> is a function from elements to links, so that an element can be on one
  list per field. A macro that follows a null pointer answers \<^const>\<open>OutOfBounds\<close>.
\<close>

type_synonym link = "nat option"
type_synonym links = "nat \<Rightarrow> nat option"

section \<open>Macros\<close>

definition SLIST_FIRST :: "link \<Rightarrow> link" where "SLIST_FIRST head = head"

definition SLIST_EMPTY :: "link \<Rightarrow> bool" where "SLIST_EMPTY head \<longleftrightarrow> head = None"

definition SLIST_NEXT :: "nat \<Rightarrow> links \<Rightarrow> link" where "SLIST_NEXT elm field = field elm"

definition SLIST_INIT :: link where "SLIST_INIT = None"

definition SLIST_INSERT_AFTER :: "nat \<Rightarrow> nat \<Rightarrow> links \<Rightarrow> links" where
  "SLIST_INSERT_AFTER slistelm elm field =
     (let field = field(elm := SLIST_NEXT slistelm field) in field(slistelm := Some elm))"

definition SLIST_INSERT_HEAD :: "link \<Rightarrow> nat \<Rightarrow> links \<Rightarrow> link \<times> links" where
  "SLIST_INSERT_HEAD head elm field = (let field = field(elm := SLIST_FIRST head) in (Some elm, field))"

definition SLIST_REMOVE_AFTER :: "nat \<Rightarrow> links \<Rightarrow> links res" where
  "SLIST_REMOVE_AFTER elm field =
     (case SLIST_NEXT elm field of None \<Rightarrow> Inl OutOfBounds | Some n \<Rightarrow> Inr (field(elm := SLIST_NEXT n field)))"

definition SLIST_REMOVE_HEAD :: "link \<Rightarrow> links \<Rightarrow> link res" where
  "SLIST_REMOVE_HEAD head field =
     (case SLIST_FIRST head of None \<Rightarrow> Inl OutOfBounds | Some x \<Rightarrow> Inr (SLIST_NEXT x field))"

definition SLIST_SWAP :: "link \<Rightarrow> link \<Rightarrow> link \<times> link" where
  "SLIST_SWAP head1 head2 = (SLIST_FIRST head2, SLIST_FIRST head1)"

text \<open>
  \<^verbatim>\<open>SLIST_FOREACH\<close> with a body that goes on or breaks, and may change the links it walks along. The result
  holds the variable of the loop at its end. On a cyclic list the loop does not end.
\<close>

datatype 's round = Break 's | Next 's

partial_function (option) SLIST_FOREACH ::
  "('s \<Rightarrow> links) \<Rightarrow> (nat \<Rightarrow> 's \<Rightarrow> 's round res) \<Rightarrow> link \<Rightarrow> 's \<Rightarrow> ('s \<times> link) res option" where
  "SLIST_FOREACH field body var s =
     (case var of
        None \<Rightarrow> Some (Inr (s, None))
      | Some x \<Rightarrow>
         (case body x s of
            Inl e \<Rightarrow> Some (Inl e)
          | Inr (Break s) \<Rightarrow> Some (Inr (s, Some x))
          | Inr (Next s) \<Rightarrow> SLIST_FOREACH field body (SLIST_NEXT x (field s)) s))"

definition looped :: "'a res option \<Rightarrow> 'a res" where
  "looped r = (case r of None \<Rightarrow> Inl Diverges | Some x \<Rightarrow> x)"

lemma looped_simps [simp]: "looped (Some x) = x" "looped None = Inl Diverges"
  by (simp_all add: looped_def)

section \<open>Lists\<close>

text \<open>A link is the head of a list of elements.\<close>

primrec slist :: "links \<Rightarrow> link \<Rightarrow> nat list \<Rightarrow> bool" where
  "slist field p [] \<longleftrightarrow> p = None"
| "slist field p (x # xs) \<longleftrightarrow> p = Some x \<and> slist field (field x) xs"

lemma slist_None [simp]: "slist field None xs \<longleftrightarrow> xs = []"
  by (cases xs) auto

lemma slist_Some: "slist field (Some x) ys \<longleftrightarrow> (\<exists>xs. ys = x # xs \<and> slist field (field x) xs)"
  by (cases ys) auto

lemma slist_unique: "slist field p xs \<Longrightarrow> slist field p ys \<Longrightarrow> xs = ys"
  by (induction xs arbitrary: p ys) (auto simp: slist_Some)

lemma slist_upd [simp]: "x \<notin> set xs \<Longrightarrow> slist (field(x := v)) p xs = slist field p xs"
  by (induction xs arbitrary: p) auto

lemma slist_suffix: "slist field p (xs @ x # ys) \<Longrightarrow> slist field (field x) ys"
  by (induction xs arbitrary: p) auto

lemma slist_distinct: "slist field p xs \<Longrightarrow> distinct xs"
proof (induction xs arbitrary: p)
  case (Cons x xs)
  have "x \<notin> set xs"
  proof
    assume "x \<in> set xs"
    then obtain as bs where xs: "xs = as @ x # bs" by (meson split_list)
    have "slist field (field x) bs" using Cons.prems slist_suffix[of field p "x # as" x bs] xs by simp
    then have "xs = bs" using Cons.prems slist_unique by auto
    then show False using xs by simp
  qed
  then show ?case using Cons by auto
qed simp

section \<open>What the macros do to lists\<close>

lemma insert_head_list:
  assumes "slist field head xs" "x \<notin> set xs" "SLIST_INSERT_HEAD head x field = (h, f)"
  shows "slist f h (x # xs)"
  using assms by (auto simp: SLIST_INSERT_HEAD_def SLIST_FIRST_def)

lemma insert_after_list:
  assumes "slist field p (xs @ y # ys)" "x \<notin> set (xs @ y # ys)"
  shows "slist (SLIST_INSERT_AFTER y x field) p (xs @ y # x # ys)"
  using assms slist_distinct[OF assms(1)]
  by (induction xs arbitrary: p) (auto simp: SLIST_INSERT_AFTER_def SLIST_NEXT_def)

lemma remove_after_list:
  assumes "slist field p (xs @ y # z # ys)"
  shows "\<exists>f. SLIST_REMOVE_AFTER y field = Inr f \<and> slist f p (xs @ y # ys)"
proof -
  have z: "field y = Some z" using slist_suffix[OF assms] by simp
  have "slist (field(y := field z)) p (xs @ y # ys)"
    using assms slist_distinct[OF assms] by (induction xs arbitrary: p) auto
  then show ?thesis using z by (simp add: SLIST_REMOVE_AFTER_def SLIST_NEXT_def)
qed

lemma remove_head_list:
  assumes "slist field head (x # xs)"
  shows "\<exists>h. SLIST_REMOVE_HEAD head field = Inr h \<and> slist field h xs"
  using assms by (simp add: SLIST_REMOVE_HEAD_def SLIST_FIRST_def SLIST_NEXT_def)

text \<open>Other links of the same field stay lists.\<close>

lemma slist_other:
  "x \<notin> set ys \<Longrightarrow> y \<notin> set ys \<Longrightarrow> slist (SLIST_INSERT_AFTER y x field) q ys = slist field q ys"
  "x \<notin> set ys \<Longrightarrow> SLIST_INSERT_HEAD head x field = (h, f) \<Longrightarrow> slist f q ys = slist field q ys"
  by (auto simp: SLIST_INSERT_AFTER_def SLIST_INSERT_HEAD_def Let_def)

text \<open>The loop over a list, when the body leaves the links alone.\<close>

fun foreach :: "(nat \<Rightarrow> 's \<Rightarrow> 's round res) \<Rightarrow> nat list \<Rightarrow> 's \<Rightarrow> ('s \<times> link) res" where
  "foreach body [] s = Inr (s, None)"
| "foreach body (x # xs) s =
     (case body x s of Inl e \<Rightarrow> Inl e | Inr (Break s) \<Rightarrow> Inr (s, Some x) | Inr (Next s) \<Rightarrow> foreach body xs s)"

lemma SLIST_FOREACH_None [simp]: "SLIST_FOREACH field body None s = Some (Inr (s, None))"
  by (simp add: SLIST_FOREACH.simps)

lemma SLIST_FOREACH_list:
  assumes "slist f p xs" "field s = f" "\<And>x s s'. field s = f \<Longrightarrow> body x s = Inr (Next s') \<Longrightarrow> field s' = f"
  shows "SLIST_FOREACH field body p s = Some (foreach body xs s)"
  using assms(1,2)
proof (induction xs arbitrary: p s)
  case (Cons x xs)
  then show ?case using assms(3)[OF Cons.prems(2), of x]
    by (subst SLIST_FOREACH.simps) (auto simp: SLIST_NEXT_def split: sum.split round.split)
qed simp

end
