(* ===== verification/MSlots.thy ===== *)
theory MSlots
  imports KQueue MBoot
begin

text \<open>
  The memory map of \<^verbatim>\<open>kern/dev/mboot.c\<close> as the code stores it: 128 static slots that the macros of
  \<^verbatim>\<open>queue.h\<close> link into one list of all entries and one list per type. The operations implement those of
  the theory \<^verbatim>\<open>MBoot\<close>, in which the lists are lists.
\<close>

section \<open>State\<close>

text \<open>The fields \<^verbatim>\<open>next\<close> and \<^verbatim>\<open>type_next\<close> of all slots are functions of their own.\<close>

record slots =
  sl_data :: "nat \<Rightarrow> pmmap"
  sl_next :: links
  sl_type_next :: links
  sl_next_free :: nat
  sl_list :: link
  sl_sublist :: "nat \<Rightarrow> link"
  sl_max_usable_memory :: u32
  sl_mem_npages :: u32
  sl_nentries :: u32

section \<open>Operations\<close>

definition slots_alloc :: "slots \<Rightarrow> (nat \<times> slots) option" where
  "slots_alloc c =
     (if sl_next_free c = 128 then None else Some (sl_next_free c, c\<lparr>sl_next_free := sl_next_free c + 1\<rparr>))"

definition insert_body :: "u32 \<Rightarrow> nat \<Rightarrow> slots \<times> link \<Rightarrow> (slots \<times> link) round res" where
  "insert_body start slot =
     (\<lambda>(c, last_slot). Inr (if start < pm_start (sl_data c slot) then Break (c, last_slot) else Next (c, Some slot)))"

definition slots_insert :: "u32 \<Rightarrow> u32 \<Rightarrow> u32 \<Rightarrow> slots \<Rightarrow> slots res" where
  "slots_insert start en type c =
     (case slots_alloc c of
        None \<Rightarrow> Inl Panic
      | Some (free_slot, c) \<Rightarrow>
         (let c = c\<lparr>sl_data := (sl_data c)(free_slot := \<lparr>pm_start = start, pm_end = en, pm_type = type\<rparr>)\<rparr>
          in rbind (looped (SLIST_FOREACH (\<lambda>(c, l). sl_next c) (insert_body start) (SLIST_FIRST (sl_list c)) (c, None)))
               (\<lambda>((c, last_slot), _).
               case last_slot of
                 None \<Rightarrow> (let (h, f) = SLIST_INSERT_HEAD (sl_list c) free_slot (sl_next c) in Inr (c\<lparr>sl_list := h, sl_next := f\<rparr>))
               | Some l \<Rightarrow> Inr (c\<lparr>sl_next := SLIST_INSERT_AFTER l free_slot (sl_next c)\<rparr>))))"

definition merge_body :: "nat \<Rightarrow> slots \<Rightarrow> slots round res" where
  "merge_body slot c =
     (case SLIST_NEXT slot (sl_next c) of
        None \<Rightarrow> Inr (Break c)
      | Some next_slot \<Rightarrow>
         (let e = sl_data c slot; n = sl_data c next_slot
          in if mergeable e n
             then rbind (SLIST_REMOVE_AFTER slot (sl_next c)) (\<lambda>f.
                  Inr (Next (c\<lparr>sl_data := (sl_data c)(slot := e\<lparr>pm_end := max_u32 (pm_end e) (pm_end n)\<rparr>), sl_next := f\<rparr>)))
             else Inr (Next c)))"

definition types_body :: "nat \<Rightarrow> slots \<times> (nat \<Rightarrow> link) \<Rightarrow> (slots \<times> (nat \<Rightarrow> link)) round res" where
  "types_body slot = (\<lambda>(c, last_slot).
     case PMMAP_SUBLIST_NR (pm_type (sl_data c slot)) of
       None \<Rightarrow> Inl Panic
     | Some k \<Rightarrow>
        (let c = (case last_slot k of
                    Some l \<Rightarrow> c\<lparr>sl_type_next := SLIST_INSERT_AFTER l slot (sl_type_next c)\<rparr>
                  | None \<Rightarrow> (let (h, f) = SLIST_INSERT_HEAD (sl_sublist c k) slot (sl_type_next c)
                             in c\<lparr>sl_sublist := (sl_sublist c)(k := h), sl_type_next := f\<rparr>))
         in Inr (Next (c, last_slot(k := Some slot)))))"

definition slots_merge :: "slots \<Rightarrow> slots res" where
  "slots_merge c =
     rbind (looped (SLIST_FOREACH sl_next merge_body (SLIST_FIRST (sl_list c)) c)) (\<lambda>(c, _).
     rbind (looped (SLIST_FOREACH (\<lambda>(c, l). sl_next c) types_body (SLIST_FIRST (sl_list c)) (c, \<lambda>_. None)))
       (\<lambda>((c, last_slot), _).
       Inr (case last_slot 0 of None \<Rightarrow> c | Some l \<Rightarrow> c\<lparr>sl_max_usable_memory := pm_end (sl_data c l)\<rparr>)))"

function slots_copy :: "memory \<Rightarrow> u32 \<Rightarrow> u32 \<Rightarrow> u32 \<Rightarrow> slots \<Rightarrow> slots res" where
  "slots_copy m mmap_addr mmap_length off c =
     (if off < mmap_length
      then (let p = mmap_addr + off; start = load32 m (p + 4) in
            rbind (if load32 m (p + 8) \<noteq> 0 then Inr c
                   else slots_insert start (mmap_entry_end start (load32 m (p + 12)) (load32 m (p + 16)))
                          (load32 m (p + 20)) c)
              (\<lambda>c'. if off + 24 > off then slots_copy m mmap_addr mmap_length (off + 24) c' else Inl Diverges))
      else Inr c)"
  by pat_completeness auto
termination
proof (relation "measure (\<lambda>(m, a, n, off, c). unat n - unat off)", goal_cases)
  case (2 m a n off c x xa x2)
  then show ?case by (auto simp: word_less_nat_alt)
qed simp

declare slots_copy.simps [simp del]

definition slots_init :: "u32 \<Rightarrow> memory \<Rightarrow> slots \<Rightarrow> slots res" where
  "slots_init mbi_addr m c =
     (let mmap_length = load32 m (mbi_addr + 44);
          mmap_addr = load32 m (mbi_addr + 48);
          c = c\<lparr>sl_list := SLIST_INIT, sl_sublist := (sl_sublist c)(0 := SLIST_INIT, 1 := SLIST_INIT, 2 := SLIST_INIT, 3 := SLIST_INIT)\<rparr>
      in rbind (slots_copy m mmap_addr mmap_length 0 c) (\<lambda>c.
         rbind (slots_merge c) (\<lambda>c.
         rbind (looped (SLIST_FOREACH sl_next (\<lambda>_ c. Inr (Next (c\<lparr>sl_nentries := sl_nentries c + 1\<rparr>))) (SLIST_FIRST (sl_list c)) c))
           (\<lambda>(c, _). Inr (c\<lparr>sl_mem_npages := rounddown (sl_max_usable_memory c) PAGESIZE div PAGESIZE\<rparr>)))))"

text \<open>The walk of the three queries: the counter and the slot at its end.\<close>

definition slots_walk :: "u32 \<Rightarrow> slots \<Rightarrow> (u32 \<times> link) res" where
  "slots_walk idx c =
     looped (SLIST_FOREACH (\<lambda>_. sl_next c) (\<lambda>_ i. Inr (if i = idx then Break i else Next (i + 1))) (SLIST_FIRST (sl_list c)) 0)"

definition slots_get_mms :: "u32 \<Rightarrow> slots \<Rightarrow> u32 res" where
  "slots_get_mms idx c = rbind (slots_walk idx c) (\<lambda>(i, slot).
     Inr (case slot of None \<Rightarrow> 0 | Some x \<Rightarrow> if i = sl_nentries c then 0 else pm_start (sl_data c x)))"

definition slots_get_mml :: "u32 \<Rightarrow> slots \<Rightarrow> u32 res" where
  "slots_get_mml idx c = rbind (slots_walk idx c) (\<lambda>(i, slot).
     Inr (case slot of None \<Rightarrow> 0 | Some x \<Rightarrow> if i = sl_nentries c then 0 else pm_end (sl_data c x) - pm_start (sl_data c x)))"

definition slots_is_usable :: "u32 \<Rightarrow> slots \<Rightarrow> u32 res" where
  "slots_is_usable idx c = rbind (slots_walk idx c) (\<lambda>(i, slot).
     Inr (case slot of None \<Rightarrow> 0 | Some x \<Rightarrow> if i = sl_nentries c then 0 else if pm_type (sl_data c x) = MEM_RAM then 1 else 0))"

section \<open>The lists that the slots hold\<close>

definition list_of :: "links \<Rightarrow> link \<Rightarrow> slots \<Rightarrow> pmmap list \<Rightarrow> bool" where
  "list_of field p c es \<longleftrightarrow> (\<exists>xs. slist field p xs \<and> (\<forall>x\<in>set xs. x < sl_next_free c) \<and> es = map (sl_data c) xs)"

definition slots_rep :: "slots \<Rightarrow> 'a pmmap_state_scheme \<Rightarrow> bool" where
  "slots_rep c a \<longleftrightarrow> list_of (sl_next c) (sl_list c) c (pmmap_list a)
     \<and> (\<forall>k<4. list_of (sl_type_next c) (sl_sublist c k) c (pmmap_sublist a k))
     \<and> sl_next_free c = pmmap_slots_next_free a \<and> sl_max_usable_memory c = max_usable_memory a
     \<and> sl_nentries c = pmmap_nentries a \<and> sl_mem_npages c = mem_npages a"

text \<open>Both fail in the same way, or both return and the results correspond.\<close>

definition same_outcome :: "('c \<Rightarrow> 'a \<Rightarrow> bool) \<Rightarrow> 'c res \<Rightarrow> 'a res \<Rightarrow> bool" where
  "same_outcome R r r' \<longleftrightarrow> (case (r, r') of (Inl e, Inl e') \<Rightarrow> e = e' | (Inr c, Inr a) \<Rightarrow> R c a | _ \<Rightarrow> False)"

lemma same_outcome_simps [simp]:
  "same_outcome R (Inl e) (Inl e') = (e = e')" "same_outcome R (Inr c) (Inr a) = R c a"
  "\<not> same_outcome R (Inl e) (Inr a)" "\<not> same_outcome R (Inr c) (Inl e)"
  by (simp_all add: same_outcome_def)

lemma same_outcome_bind:
  assumes "same_outcome R r r'" "\<And>c a. R c a \<Longrightarrow> r' = Inr a \<Longrightarrow> same_outcome R' (f c) (g a)"
  shows "same_outcome R' (rbind r f) (rbind r' g)"
  using assms by (cases r; cases r') auto

section \<open>Inserting\<close>

lemma slist_insert_split:
  "slist_insert e es = takeWhile (\<lambda>y. \<not> pm_start e < pm_start y) es @ e # dropWhile (\<lambda>y. \<not> pm_start e < pm_start y) es"
  by (induction es) auto

lemma insert_walk:
  fixes c :: slots and start :: u32
  defines "P \<equiv> \<lambda>x. \<not> start < pm_start (sl_data c x)"
  shows "\<exists>v. foreach (insert_body start) xs (c, l)
     = Inr ((c, if takeWhile P xs = [] then l else Some (last (takeWhile P xs))), v)"
  unfolding P_def by (induction xs arbitrary: l) (auto simp: insert_body_def)

lemma list_of_grow:
  assumes "list_of field p c es" "sl_next_free c \<le> n" "\<And>x. x < sl_next_free c \<Longrightarrow> d x = sl_data c x"
    "sl_next_free c' = n" "sl_data c' = d"
  shows "list_of field p c' es"
proof -
  from assms(1) obtain xs where xs: "slist field p xs" "\<forall>x\<in>set xs. x < sl_next_free c" "es = map (sl_data c) xs"
    by (auto simp: list_of_def)
  then have "es = map d xs" using assms(3) by simp
  then show ?thesis using xs assms unfolding list_of_def by force
qed

text \<open>Where the new element ends up.\<close>

lemma insert_place:
  fixes P :: "nat \<Rightarrow> bool" and xs :: "nat list"
  defines "as \<equiv> takeWhile P xs" and "bs \<equiv> dropWhile P xs"
  assumes "slist nx p xs" "n \<notin> set xs"
  shows "as = [] \<Longrightarrow> SLIST_INSERT_HEAD p n nx = (h, f) \<Longrightarrow> slist f h (as @ n # bs)"
    "as \<noteq> [] \<Longrightarrow> slist (SLIST_INSERT_AFTER (last as) n nx) p (as @ n # bs)"
proof -
  have ab: "xs = as @ bs" by (simp add: as_def bs_def)
  show "slist f h (as @ n # bs)" if "as = []" "SLIST_INSERT_HEAD p n nx = (h, f)"
    using insert_head_list[OF assms(3,4) that(2)] that(1) ab by simp
  show "slist (SLIST_INSERT_AFTER (last as) n nx) p (as @ n # bs)" if "as \<noteq> []"
  proof -
    have l: "as = butlast as @ [last as]" using that by simp
    then have sp: "xs = butlast as @ last as # bs" using ab by (metis append.assoc append_Cons append_Nil)
    have "slist (SLIST_INSERT_AFTER (last as) n nx) p (butlast as @ last as # n # bs)"
      by (rule insert_after_list) (use assms(3,4) sp in auto)
    then show ?thesis using l by (metis append.assoc append_Cons append_Nil)
  qed
qed

lemma slots_insert_refines:
  assumes "slots_rep c a"
  shows "same_outcome slots_rep (slots_insert st en ty c) (pmmap_insert st en ty a)"
proof (cases "sl_next_free c = 128")
  case True
  then show ?thesis using assms by (simp add: slots_insert_def slots_alloc_def pmmap_insert_def pmmap_alloc_slot_def slots_rep_def)
next
  case False
  let ?n = "sl_next_free c" and ?e = "\<lparr>pm_start = st, pm_end = en, pm_type = ty\<rparr>"
  let ?d = "(sl_data c)(?n := ?e)"
  let ?c = "c\<lparr>sl_next_free := ?n + 1, sl_data := ?d\<rparr>" and ?P = "\<lambda>x. \<not> st < pm_start (?d x)"
  from assms obtain xs where xs: "slist (sl_next c) (sl_list c) xs" "\<forall>x\<in>set xs. x < ?n" "pmmap_list a = map (sl_data c) xs"
    by (auto simp: slots_rep_def list_of_def)
  let ?as = "takeWhile ?P xs" and ?bs = "dropWhile ?P xs"
  have fresh: "?n \<notin> set xs" using xs(2) by auto
  have d: "map ?d xs = pmmap_list a" using xs(2,3) by auto
  have ins: "slist_insert ?e (pmmap_list a) = map ?d (?as @ ?n # ?bs)"
    unfolding d[symmetric] slist_insert_split takeWhile_map dropWhile_map by (simp add: comp_def)
  have in_free: "\<forall>x\<in>set (?as @ ?n # ?bs). x < ?n + 1"
    using xs(2) by (auto dest: set_takeWhileD set_dropWhileD intro: less_SucI)
  obtain v where v: "foreach (insert_body st) xs (?c, None) = Inr ((?c, if ?as = [] then None else Some (last ?as)), v)"
    using insert_walk[of st xs ?c None] by auto
  have walk: "SLIST_FOREACH (\<lambda>(c, l). sl_next c) (insert_body st) (SLIST_FIRST (sl_list ?c)) (?c, None)
      = Some (foreach (insert_body st) xs (?c, None))"
    by (rule SLIST_FOREACH_list[where f = "sl_next c"]) (use xs(1) in \<open>auto simp: SLIST_FIRST_def insert_body_def split: if_splits\<close>)
  have rep: "slots_rep (?c\<lparr>sl_list := h, sl_next := f\<rparr>)
      (a\<lparr>pmmap_slots_next_free := ?n + 1, pmmap_list := slist_insert ?e (pmmap_list a)\<rparr>)"
    if "slist f h (?as @ ?n # ?bs)" for h f
  proof -
    have "list_of (sl_type_next c) (sl_sublist c k) (?c\<lparr>sl_list := h, sl_next := f\<rparr>) (pmmap_sublist a k)" if "k < 4" for k
      by (rule list_of_grow[of _ _ c _ "?n + 1" ?d]) (use assms that in \<open>auto simp: slots_rep_def\<close>)
    moreover have "list_of f h (?c\<lparr>sl_list := h, sl_next := f\<rparr>) (slist_insert ?e (pmmap_list a))"
      unfolding ins list_of_def using that in_free by (intro exI[of _ "?as @ ?n # ?bs"]) simp
    ultimately show ?thesis using assms by (simp add: slots_rep_def)
  qed
  have ni: "pmmap_insert st en ty a = Inr (a\<lparr>pmmap_slots_next_free := ?n + 1, pmmap_list := slist_insert ?e (pmmap_list a)\<rparr>)"
    using assms False by (simp add: pmmap_insert_def pmmap_alloc_slot_def slots_rep_def)
  note place = insert_place[OF xs(1) fresh, of ?P]
  show ?thesis
  proof (cases "?as = []")
    case True
    obtain h f where hf: "SLIST_INSERT_HEAD (sl_list c) ?n (sl_next c) = (h, f)" by fastforce
    from rep[OF place(1)[OF True hf]] show ?thesis
      using False walk v hf True ni by (simp add: slots_insert_def slots_alloc_def Let_def)
  next
    case False': False
    from rep[OF place(2)[OF this]] show ?thesis
      using False walk v False' ni by (simp add: slots_insert_def slots_alloc_def Let_def)
  qed
qed

lemma slots_copy_refines:
  "slots_rep c a \<Longrightarrow> same_outcome slots_rep (slots_copy (mem a) addr len off c) (pmmap_copy addr len off a)"
proof (induction addr len off a arbitrary: c rule: pmmap_copy.induct)
  case (1 addr len off a)
  show ?case
  proof (cases "off < len")
    case False
    then show ?thesis using "1.prems" by (simp add: slots_copy.simps pmmap_copy.simps)
  next
    case True
    let ?p = "addr + off"
    let ?st = "load32 (mem a) (?p + 4)"
    let ?en = "mmap_entry_end ?st (load32 (mem a) (?p + 12)) (load32 (mem a) (?p + 16))" and ?ty = "load32 (mem a) (?p + 20)"
    let ?skip = "load32 (mem a) (?p + 8) \<noteq> 0"
    have step: "same_outcome (\<lambda>c' a'. slots_rep c' a' \<and> mem a' = mem a)
        (if ?skip then Inr c else slots_insert ?st ?en ?ty c) (if ?skip then Inr a else pmmap_insert ?st ?en ?ty a)"
      using "1.prems" slots_insert_refines[OF "1.prems", of ?st ?en ?ty]
      by (auto simp: same_outcome_def pmmap_insert_def pmmap_alloc_slot_def split: sum.splits option.splits if_splits)
    have "same_outcome slots_rep
        (rbind (if ?skip then Inr c else slots_insert ?st ?en ?ty c)
          (\<lambda>c'. if off < off + 24 then slots_copy (mem a) addr len (off + 24) c' else Inl Diverges))
        (rbind (if ?skip then Inr a else pmmap_insert ?st ?en ?ty a)
          (\<lambda>a'. if off < off + 24 then pmmap_copy addr len (off + 24) a' else Inl Diverges))"
    proof (rule same_outcome_bind[OF step])
      fix c' a' assume ca: "slots_rep c' a' \<and> mem a' = mem a" and r: "(if ?skip then Inr a else pmmap_insert ?st ?en ?ty a) = Inr a'"
      have "off < off + 24 \<Longrightarrow> same_outcome slots_rep (slots_copy (mem a') addr len (off + 24) c') (pmmap_copy addr len (off + 24) a')"
        by (rule "1.IH"[OF True refl refl]) (use r ca in simp_all)
      then show "same_outcome slots_rep (if off < off + 24 then slots_copy (mem a) addr len (off + 24) c' else Inl Diverges)
          (if off < off + 24 then pmmap_copy addr len (off + 24) a' else Inl Diverges)" using ca by simp
    qed
    then show ?thesis using True by (subst slots_copy.simps, subst pmmap_copy.simps) (simp add: Let_def)
  qed
qed

section \<open>Merging\<close>

lemma merge_loop:
  assumes "slist (sl_next c) (sl_list c) (pre @ xs)" "slist (sl_next c) p xs"
  shows "\<exists>d f v ys. SLIST_FOREACH sl_next merge_body p c = Some (Inr (c\<lparr>sl_data := d, sl_next := f\<rparr>, v))
    \<and> slist f (sl_list c) (pre @ ys) \<and> set ys \<subseteq> set xs
    \<and> map d (pre @ ys) = map (sl_data c) pre @ pmmap_merge_step (map (sl_data c) xs)"
  using assms
proof (induction xs arbitrary: c pre p rule: length_induct)
  case (1 xs)
  note IH = "1.IH"[rule_format] and sl = "1.prems"
  have dist: "distinct (pre @ xs)" by (rule slist_distinct[OF sl(1)])
  have stop: ?case if "SLIST_FOREACH sl_next merge_body p c = Some (Inr (c, v))" "pmmap_merge_step (map (sl_data c) xs) = map (sl_data c) xs" for v
    using that sl(1) by (intro exI[of _ "sl_data c"] exI[of _ "sl_next c"] exI[of _ v] exI[of _ xs]) simp
  consider "xs = []" | x where "xs = [x]" | x y rest where "xs = x # y # rest" by (metis neq_Nil_conv)
  then show ?case
  proof cases
    case 1
    then show ?thesis using sl(2) by (intro stop[of None]) simp_all
  next
    case (2 x)
    then have "p = Some x" "sl_next c x = None" using sl(2) by simp_all
    then show ?thesis using 2 by (intro stop[of "Some x"]) (subst SLIST_FOREACH.simps, simp_all add: merge_body_def SLIST_NEXT_def)
  next
    case (3 x y rest)
    let ?e = "sl_data c x" and ?n = "sl_data c y"
    have p: "p = Some x" "sl_next c x = Some y" using sl(2) 3 by simp_all
    show ?thesis
    proof (cases "mergeable ?e ?n")
      case True
      let ?d = "(sl_data c)(x := ?e\<lparr>pm_end := max_u32 (pm_end ?e) (pm_end ?n)\<rparr>)"
      obtain f where f: "SLIST_REMOVE_AFTER x (sl_next c) = Inr f" "slist f (sl_list c) (pre @ x # rest)"
        using remove_after_list[of "sl_next c" "sl_list c" pre x y rest] sl(1) 3 by auto
      let ?c = "c\<lparr>sl_data := ?d, sl_next := f\<rparr>"
      have "slist f (f x) rest" by (rule slist_suffix[OF f(2)])
      with IH[of rest ?c "pre @ [x]" "f x"] f(2) 3 obtain d g v ys where
        r: "SLIST_FOREACH sl_next merge_body (f x) ?c = Some (Inr (?c\<lparr>sl_data := d, sl_next := g\<rparr>, v))"
        "slist g (sl_list c) ((pre @ [x]) @ ys)" "set ys \<subseteq> set rest"
        "map d ((pre @ [x]) @ ys) = map ?d (pre @ [x]) @ pmmap_merge_step (map ?d rest)" by auto
      have "x \<notin> set pre" "x \<notin> set rest" using dist 3 by auto
      then have "map d (pre @ x # ys) = map (sl_data c) pre @ pmmap_merge_step (map (sl_data c) xs)" using r(4) 3 True by simp
      moreover have "SLIST_FOREACH sl_next merge_body p c = Some (Inr (c\<lparr>sl_data := d, sl_next := g\<rparr>, v))"
        using r(1) p f(1) True by (subst SLIST_FOREACH.simps) (simp add: merge_body_def SLIST_NEXT_def Let_def)
      ultimately show ?thesis using r(2,3) 3 by (intro exI[of _ d] exI[of _ g] exI[of _ v] exI[of _ "x # ys"]) auto
    next
      case False
      have "slist (sl_next c) (sl_next c x) (y # rest)" using sl(2) 3 by simp
      with IH[of "y # rest" c "pre @ [x]" "sl_next c x"] sl(1) 3 obtain d g v ys where
        r: "SLIST_FOREACH sl_next merge_body (sl_next c x) c = Some (Inr (c\<lparr>sl_data := d, sl_next := g\<rparr>, v))"
        "slist g (sl_list c) ((pre @ [x]) @ ys)" "set ys \<subseteq> set (y # rest)"
        "map d ((pre @ [x]) @ ys) = map (sl_data c) (pre @ [x]) @ pmmap_merge_step (map (sl_data c) (y # rest))" by auto
      have "SLIST_FOREACH sl_next merge_body p c = Some (Inr (c\<lparr>sl_data := d, sl_next := g\<rparr>, v))"
        using r(1) p False by (subst SLIST_FOREACH.simps) (simp add: merge_body_def SLIST_NEXT_def Let_def)
      then show ?thesis using r(2-4) 3 False by (intro exI[of _ d] exI[of _ g] exI[of _ v] exI[of _ "x # ys"]) auto
    qed
  qed
qed

text \<open>The lists by type while they grow: \<open>Y k\<close> are the slots of list \<open>k\<close>, and \<^verbatim>\<open>last_slot[k]\<close> is the last of them.\<close>

definition type_lists :: "slots \<Rightarrow> (nat \<Rightarrow> link) \<Rightarrow> (nat \<Rightarrow> nat list) \<Rightarrow> bool" where
  "type_lists c l Y \<longleftrightarrow> (\<forall>k<4. slist (sl_type_next c) (sl_sublist c k) (Y k) \<and> l k = (if Y k = [] then None else Some (last (Y k))))
     \<and> (\<forall>j k. j \<noteq> k \<longrightarrow> set (Y j) \<inter> set (Y k) = {})"

lemma types_step:
  assumes "type_lists c l Y" "k < 4" "PMMAP_SUBLIST_NR (pm_type (sl_data c x)) = Some k" "\<And>j. x \<notin> set (Y j)"
  shows "\<exists>g h. types_body x (c, l) = Inr (Next (c\<lparr>sl_sublist := g, sl_type_next := h\<rparr>, l(k := Some x)))
    \<and> type_lists (c\<lparr>sl_sublist := g, sl_type_next := h\<rparr>) (l(k := Some x)) (Y(k := Y k @ [x]))"
proof (cases "Y k = []")
  case True
  let ?g = "(sl_sublist c)(k := Some x)" and ?h = "(sl_type_next c)(x := sl_sublist c k)"
  have e: "l k = None" "sl_sublist c k = None" using assms(1,2) True by (auto simp: type_lists_def)
  then have "types_body x (c, l) = Inr (Next (c\<lparr>sl_sublist := ?g, sl_type_next := ?h\<rparr>, l(k := Some x)))"
    using assms(3) by (simp add: types_body_def SLIST_INSERT_HEAD_def SLIST_FIRST_def)
  moreover have "type_lists (c\<lparr>sl_sublist := ?g, sl_type_next := ?h\<rparr>) (l(k := Some x)) (Y(k := Y k @ [x]))"
    using assms(1,4) True e by (auto simp: type_lists_def)
  ultimately show ?thesis by blast
next
  case False
  let ?y = "last (Y k)"
  let ?h = "SLIST_INSERT_AFTER ?y x (sl_type_next c)"
  have l: "l k = Some ?y" "slist (sl_type_next c) (sl_sublist c k) (butlast (Y k) @ ?y # [])"
    using assms(1,2) False by (auto simp: type_lists_def)
  have x: "x \<notin> set (butlast (Y k) @ ?y # [])" using assms(4)[of k] False by simp
  have ins: "slist ?h (sl_sublist c k) (Y k @ [x])" using insert_after_list[OF l(2) x] False by (metis append.assoc append_Cons append_Nil append_butlast_last_id)
  have "types_body x (c, l) = Inr (Next (c\<lparr>sl_sublist := sl_sublist c, sl_type_next := ?h\<rparr>, l(k := Some x)))"
    using assms(3) l(1) by (simp add: types_body_def)
  moreover have "slist ?h (sl_sublist c j) (Y j) = slist (sl_type_next c) (sl_sublist c j) (Y j)" if "j \<noteq> k" for j
  proof -
    have "?y \<in> set (Y k)" using False by simp
    then have "?y \<notin> set (Y j)" using assms(1) that by (auto simp: type_lists_def)
    then show ?thesis using slist_other(1)[OF assms(4)] by blast
  qed
  then have "type_lists (c\<lparr>sl_sublist := sl_sublist c, sl_type_next := ?h\<rparr>) (l(k := Some x)) (Y(k := Y k @ [x]))"
    using assms(1,4) ins by (auto simp: type_lists_def)
  ultimately show ?thesis by blast
qed

lemma sublist_nr_lt: "PMMAP_SUBLIST_NR ty = Some k \<Longrightarrow> k < 4"
  by (auto simp: PMMAP_SUBLIST_NR_def split: if_splits)

lemma types_loop:
  assumes "type_lists c l Y" "distinct xs" "\<And>j. set (Y j) \<inter> set xs = {}"
  shows "case pmmap_split_types (map (sl_data c) xs) (\<lambda>k. map (sl_data c) (Y k)) of
      Inl e \<Rightarrow> foreach types_body xs (c, l) = Inl e
    | Inr sub \<Rightarrow> (\<exists>g h l' Y'. foreach types_body xs (c, l) = Inr ((c\<lparr>sl_sublist := g, sl_type_next := h\<rparr>, l'), None)
        \<and> type_lists (c\<lparr>sl_sublist := g, sl_type_next := h\<rparr>) l' Y' \<and> sub = (\<lambda>k. map (sl_data c) (Y' k))
        \<and> (\<forall>k. set (Y' k) \<subseteq> set (Y k) \<union> set xs))"
  using assms
proof (induction xs arbitrary: c l Y)
  case Nil
  then show ?case unfolding list.map pmmap_split_types.simps sum.case foreach.simps
    by (intro exI[of _ "sl_sublist c"] exI[of _ "sl_type_next c"] exI[of _ l] exI[of _ Y]) simp
next
  case (Cons x xs)
  show ?case
  proof (cases "PMMAP_SUBLIST_NR (pm_type (sl_data c x))")
    case None
    then show ?thesis by (simp add: types_body_def)
  next
    case (Some k)
    let ?Y = "Y(k := Y k @ [x])"
    from types_step[OF Cons.prems(1) sublist_nr_lt[OF Some] Some] Cons.prems(3) obtain g h where
      gh: "types_body x (c, l) = Inr (Next (c\<lparr>sl_sublist := g, sl_type_next := h\<rparr>, l(k := Some x)))"
      "type_lists (c\<lparr>sl_sublist := g, sl_type_next := h\<rparr>) (l(k := Some x)) ?Y" by fastforce
    let ?c = "c\<lparr>sl_sublist := g, sl_type_next := h\<rparr>"
    have "distinct xs" "\<And>j. set (?Y j) \<inter> set xs = {}" using Cons.prems(2,3) by auto
    note IH = Cons.IH[OF gh(2) this]
    have Y: "(\<lambda>j. map (sl_data c) (?Y j)) = (\<lambda>j. map (sl_data c) (Y j))(k := map (sl_data c) (Y k) @ [sl_data c x])" by auto
    let ?S = "pmmap_split_types (map (sl_data c) (x # xs)) (\<lambda>k. map (sl_data c) (Y k))"
    have S: "pmmap_split_types (map (sl_data ?c) xs) (\<lambda>j. map (sl_data ?c) (?Y j)) = ?S"
    proof -
      have "sl_data ?c = sl_data c" by simp
      then have "pmmap_split_types (map (sl_data ?c) xs) (\<lambda>j. map (sl_data ?c) (?Y j))
          = pmmap_split_types (map (sl_data c) xs) (\<lambda>j. map (sl_data c) (?Y j))" by metis
      also have "\<dots> = ?S" unfolding Y using Some by simp
      finally show ?thesis .
    qed
    have F: "foreach types_body (x # xs) (c, l) = foreach types_body xs (?c, l(k := Some x))" using gh(1) by simp
    show ?thesis
    proof (cases ?S)
      case (Inl e)
      then show ?thesis using IH[unfolded S] F by simp
    next
      case (Inr sub)
      from IH[unfolded S Inr sum.case] obtain g' h' l' Y' where
        r: "foreach types_body xs (?c, l(k := Some x)) = Inr ((c\<lparr>sl_sublist := g', sl_type_next := h'\<rparr>, l'), None)"
        "type_lists (c\<lparr>sl_sublist := g', sl_type_next := h'\<rparr>) l' Y'" "sub = (\<lambda>k. map (sl_data c) (Y' k))"
        "\<forall>j. set (Y' j) \<subseteq> set (?Y j) \<union> set xs" by auto
      have "set (Y' j) \<subseteq> set (Y j) \<union> set (x # xs)" for j using r(4)[rule_format, of j] by (auto split: if_splits)
      then show ?thesis unfolding Inr sum.case F using r(1-3) by blast
    qed
  qed
qed

lemma split_types_Inr:
  "pmmap_split_types es s0 = Inr sub \<Longrightarrow> sub k = s0 k @ filter (\<lambda>e. PMMAP_SUBLIST_NR (pm_type e) = Some k) es"
proof (induction es arbitrary: s0)
  case (Cons e es)
  then show ?case by (cases "PMMAP_SUBLIST_NR (pm_type e)") auto
qed simp

lemma sublist_nr_ram: "PMMAP_SUBLIST_NR ty = Some 0 \<longleftrightarrow> ty = MEM_RAM"
  by (simp add: PMMAP_SUBLIST_NR_def)

lemma slots_merge_refines:
  assumes rep: "slots_rep c a" and sub: "pmmap_sublist a = (\<lambda>_. [])"
  shows "same_outcome slots_rep (slots_merge c) (pmmap_merge a)"
proof -
  from rep obtain xs where xs: "slist (sl_next c) (sl_list c) xs" "\<forall>x\<in>set xs. x < sl_next_free c" "pmmap_list a = map (sl_data c) xs"
    by (auto simp: slots_rep_def list_of_def)
  from merge_loop[of c "[]" xs "sl_list c"] xs(1,3) obtain d f v ys where
    m: "SLIST_FOREACH sl_next merge_body (sl_list c) c = Some (Inr (c\<lparr>sl_data := d, sl_next := f\<rparr>, v))"
    "slist f (sl_list c) ys" "set ys \<subseteq> set xs" "map d ys = pmmap_merge_step (pmmap_list a)" by auto
  let ?c = "c\<lparr>sl_data := d, sl_next := f\<rparr>" and ?merged = "pmmap_merge_step (pmmap_list a)"
  have t0: "type_lists ?c (\<lambda>_. None) (\<lambda>_. [])"
    using rep sub by (auto simp: type_lists_def slots_rep_def list_of_def)
  have walk: "SLIST_FOREACH (\<lambda>(c, l). sl_next c) types_body (sl_list c) (?c, \<lambda>_. None) = Some (foreach types_body ys (?c, \<lambda>_. None))"
    by (rule SLIST_FOREACH_list[OF m(2)])
       (auto simp: types_body_def SLIST_INSERT_HEAD_def Let_def split: option.splits prod.splits)
  note loop = types_loop[OF t0 slist_distinct[OF m(2)], simplified, unfolded m(4)]
  show ?thesis
  proof (cases "pmmap_split_types ?merged (\<lambda>_. [])")
    case (Inl e)
    then show ?thesis using loop m(1) walk sub by (simp add: slots_merge_def pmmap_merge_def SLIST_FIRST_def Let_def)
  next
    case (Inr s)
    with loop obtain g h l Y where r: "foreach types_body ys (?c, \<lambda>_. None) = Inr ((?c\<lparr>sl_sublist := g, sl_type_next := h\<rparr>, l), None)"
      "type_lists (?c\<lparr>sl_sublist := g, sl_type_next := h\<rparr>) l Y" "s = (\<lambda>k. map d (Y k))" "\<And>k. set (Y k) \<subseteq> set ys" by auto
    let ?c' = "?c\<lparr>sl_sublist := g, sl_type_next := h\<rparr>"
    have "map d (Y 0) = filter (\<lambda>e. pm_type e = MEM_RAM) ?merged"
      using split_types_Inr[OF Inr, of 0] r(3) by (simp add: sublist_nr_ram)
    then have "Y 0 = [] \<longleftrightarrow> filter (\<lambda>e. pm_type e = MEM_RAM) ?merged = []" by (metis map_is_Nil_conv)
    then have max: "(case l 0 of None \<Rightarrow> ?c' | Some l \<Rightarrow> ?c'\<lparr>sl_max_usable_memory := pm_end (sl_data ?c' l)\<rparr>)
        = ?c'\<lparr>sl_max_usable_memory := if filter (\<lambda>e. pm_type e = MEM_RAM) ?merged \<noteq> [] then pm_end (last (s 0)) else sl_max_usable_memory c\<rparr>"
      (is "_ = ?C") using r(2,3) by (auto simp: type_lists_def last_map)
    have "list_of f (sl_list c) ?C (map d ys)" unfolding list_of_def using m(2,3) xs(2) by (intro exI[of _ ys]) auto
    moreover have "list_of h (g k) ?C (map d (Y k))" if "k < 4" for k
      unfolding list_of_def using r(2) r(4)[of k] m(3) xs(2) that by (intro exI[of _ "Y k"]) (auto simp: type_lists_def)
    moreover have "slots_merge c = Inr ?C"
      using m(1) walk r(1) max by (simp add: slots_merge_def SLIST_FIRST_def)
    ultimately show ?thesis using rep m(4) r(3) sub Inr by (simp add: pmmap_merge_def Let_def slots_rep_def)
  qed
qed

section \<open>Initialisation and queries\<close>

lemma copy_sublist: "pmmap_copy addr len off a = Inr a' \<Longrightarrow> pmmap_sublist a' = pmmap_sublist a \<and> mem a' = mem a"
proof (induction addr len off a rule: pmmap_copy.induct)
  case (1 addr len off a)
  show ?case
  proof (cases "off < len")
    case True
    let ?st = "load32 (mem a) (addr + off + 4)"
    from "1.prems" True obtain b where b: "(if load32 (mem a) (addr + off + 8) \<noteq> 0 then Inr a
        else pmmap_insert ?st (mmap_entry_end ?st (load32 (mem a) (addr + off + 12)) (load32 (mem a) (addr + off + 16)))
          (load32 (mem a) (addr + off + 20)) a) = Inr b" "off < off + 24" "pmmap_copy addr len (off + 24) b = Inr a'"
      by (subst (asm) pmmap_copy.simps) (auto simp: rbind_eq_Inr Let_def split: if_splits)
    have "pmmap_sublist b = pmmap_sublist a \<and> mem b = mem a"
      using b(1) by (auto simp: pmmap_insert_def pmmap_alloc_slot_def split: if_splits option.splits)
    then show ?thesis using "1.IH"[OF True refl refl b] by simp
  next
    case False
    then show ?thesis using "1.prems" by (simp add: pmmap_copy.simps)
  qed
qed

lemma count_loop: "foreach (\<lambda>_ c. Inr (Next (c\<lparr>sl_nentries := sl_nentries c + 1\<rparr>))) xs c
    = Inr (c\<lparr>sl_nentries := sl_nentries c + word_of_nat (length xs)\<rparr>, None)"
  by (induction xs arbitrary: c) (simp_all add: algebra_simps)

lemma slots_init_refines:
  assumes "slots_rep c a"
  shows "same_outcome slots_rep (slots_init mbi_addr (mem a) c) (pmmap_init mbi_addr a)"
proof -
  let ?len = "load32 (mem a) (mbi_addr + 44)" and ?addr = "load32 (mem a) (mbi_addr + 48)"
  let ?a = "a\<lparr>pmmap_list := [], pmmap_sublist := (\<lambda>_. [])\<rparr>"
  let ?c = "c\<lparr>sl_list := None, sl_sublist := (sl_sublist c)(0 := None, 1 := None, 2 := None, 3 := None)\<rparr>"
  have k4: "k < 4 \<longleftrightarrow> k = 0 \<or> k = 1 \<or> k = 2 \<or> k = 3" for k :: nat by auto
  have rep: "slots_rep ?c ?a" using assms by (auto simp: slots_rep_def list_of_def k4)
  have copy: "same_outcome slots_rep (slots_copy (mem a) ?addr ?len 0 ?c) (pmmap_copy ?addr ?len 0 ?a)"
    using slots_copy_refines[OF rep, of ?addr ?len 0] by simp
  have count: "same_outcome slots_rep
      (rbind (looped (SLIST_FOREACH sl_next (\<lambda>_ c. Inr (Next (c\<lparr>sl_nentries := sl_nentries c + 1\<rparr>))) (SLIST_FIRST (sl_list c2)) c2))
        (\<lambda>(c, _). Inr (c\<lparr>sl_mem_npages := rounddown (sl_max_usable_memory c) PAGESIZE div PAGESIZE\<rparr>)))
      (Inr (a2\<lparr>pmmap_nentries := pmmap_nentries a2 + word_of_nat (length (pmmap_list a2)),
         mem_npages := rounddown (max_usable_memory a2) PAGESIZE div PAGESIZE\<rparr>))" if r: "slots_rep c2 a2" for c2 and a2 :: "'a pmmap_state_scheme"
  proof -
    obtain xs where xs: "slist (sl_next c2) (sl_list c2) xs" "pmmap_list a2 = map (sl_data c2) xs"
      using r by (auto simp: slots_rep_def list_of_def)
    have "SLIST_FOREACH sl_next (\<lambda>_ c. Inr (Next (c\<lparr>sl_nentries := sl_nentries c + 1\<rparr>))) (sl_list c2) c2
        = Some (Inr (c2\<lparr>sl_nentries := sl_nentries c2 + word_of_nat (length xs)\<rparr>, None))"
      unfolding count_loop[symmetric] by (rule SLIST_FOREACH_list[OF xs(1)]) auto
    then show ?thesis using r xs(2) by (auto simp: SLIST_FIRST_def slots_rep_def list_of_def)
  qed
  show ?thesis unfolding slots_init_def pmmap_init_def Let_def SLIST_INIT_def
  proof (rule same_outcome_bind[OF copy])
    fix c1 a1 assume r: "slots_rep c1 a1" "pmmap_copy ?addr ?len 0 ?a = Inr a1"
    have "pmmap_sublist a1 = (\<lambda>_. [])" using copy_sublist[OF r(2)] by simp
    note merge = slots_merge_refines[OF r(1) this]
    show "same_outcome slots_rep
        (rbind (slots_merge c1) (\<lambda>c. rbind (looped (SLIST_FOREACH sl_next (\<lambda>_ c. Inr (Next (c\<lparr>sl_nentries := sl_nentries c + 1\<rparr>)))
            (SLIST_FIRST (sl_list c)) c))
          (\<lambda>(c, _). Inr (c\<lparr>sl_mem_npages := rounddown (sl_max_usable_memory c) PAGESIZE div PAGESIZE\<rparr>))))
        (rbind (pmmap_merge a1) (\<lambda>s2. Inr (s2\<lparr>pmmap_nentries := pmmap_nentries s2 + word_of_nat (length (pmmap_list s2)),
            mem_npages := rounddown (max_usable_memory s2) PAGESIZE div PAGESIZE\<rparr>)))"
      by (rule same_outcome_bind[OF merge count])
  qed
qed

lemma walk_list:
  fixes i idx :: u32
  assumes "unat i \<le> unat idx"
  shows "foreach (\<lambda>_ i. Inr (if i = idx then Break i else Next (i + 1))) xs i
    = (if unat idx - unat i < length xs then Inr (idx, Some (xs ! (unat idx - unat i))) else Inr (i + word_of_nat (length xs), None))"
  using assms
proof (induction xs arbitrary: i)
  case (Cons x xs)
  show ?case
  proof (cases "i = idx")
    case False
    then have lt: "unat i < unat idx" using Cons.prems by (metis le_neq_implies_less word_unat_eq_iff)
    moreover have "unat idx < 4294967296" using unsigned_less[of idx] by simp
    ultimately have "unat (i + 1) = unat i + 1" by (simp add: unat_word_ariths)
    then show ?thesis using Cons.IH[of "i + 1"] lt False by (auto simp: algebra_simps Suc_diff_Suc nth_Cons' less_diff_conv)
  qed simp
qed simp

lemma slots_walk_eq:
  assumes "slist (sl_next c) (sl_list c) xs"
  shows "slots_walk idx c = (if unat idx < length xs then Inr (idx, Some (xs ! unat idx)) else Inr (word_of_nat (length xs), None))"
proof -
  have "SLIST_FOREACH (\<lambda>_. sl_next c) (\<lambda>_ i. Inr (if i = idx then Break i else Next (i + 1))) (sl_list c) 0
      = Some (foreach (\<lambda>_ i. Inr (if i = idx then Break i else Next (i + 1))) xs 0)"
    by (rule SLIST_FOREACH_list[OF assms]) simp_all
  then show ?thesis using walk_list[of 0 idx xs] by (simp add: slots_walk_def SLIST_FIRST_def)
qed

lemma slots_queries:
  assumes "slots_rep c a"
  shows "slots_get_mms idx c = Inr (get_mms idx a)" "slots_get_mml idx c = Inr (get_mml idx a)"
    "slots_is_usable idx c = Inr (is_usable idx a)"
proof -
  from assms obtain xs where xs: "slist (sl_next c) (sl_list c) xs" "pmmap_list a = map (sl_data c) xs" and n: "sl_nentries c = pmmap_nentries a"
    by (auto simp: slots_rep_def list_of_def)
  note w = slots_walk_eq[OF xs(1), of idx]
  show "slots_get_mms idx c = Inr (get_mms idx a)" "slots_get_mml idx c = Inr (get_mml idx a)"
    "slots_is_usable idx c = Inr (is_usable idx a)"
    using w xs(2) n by (auto simp: slots_get_mms_def slots_get_mml_def slots_is_usable_def get_mms_def get_mml_def is_usable_def pmmap_entry_def)
qed

section \<open>Properties\<close>

text \<open>
  C31: the memory map in linked slots implements the memory map as lists. Started on slots that hold the lists of an
  abstract state, \<^verbatim>\<open>pmmap_init\<close> on the slots ends in the same way as on the lists, with the same panic if it fails;
  otherwise the slots hold the new lists, all entries and those of each type, and the three queries
  answer the same for every index. In particular none of the loops over linked slots runs for ever and no null
  pointer is followed.
\<close>

theorem slots_implement_lists:
  assumes "slots_rep c (a :: 'a pmmap_state_scheme)"
  shows "case pmmap_init mbi_addr a of
      Inl e \<Rightarrow> slots_init mbi_addr (mem a) c = Inl e
    | Inr a' \<Rightarrow> (\<exists>c'. slots_init mbi_addr (mem a) c = Inr c' \<and> slots_rep c' a'
        \<and> (\<forall>idx. slots_get_mms idx c' = Inr (get_mms idx a') \<and> slots_get_mml idx c' = Inr (get_mml idx a')
             \<and> slots_is_usable idx c' = Inr (is_usable idx a')))"
  using slots_init_refines[OF assms, of mbi_addr] slots_queries
  by (cases "pmmap_init mbi_addr a"; cases "slots_init mbi_addr (mem a) c") auto

text \<open>The slots before boot.\<close>

definition slots_zero :: slots where
  "slots_zero = \<lparr>sl_data = (\<lambda>_. \<lparr>pm_start = 0, pm_end = 0, pm_type = 0\<rparr>), sl_next = (\<lambda>_. None), sl_type_next = (\<lambda>_. None),
     sl_next_free = 0, sl_list = None, sl_sublist = (\<lambda>_. None), sl_max_usable_memory = 0, sl_mem_npages = 0, sl_nentries = 0\<rparr>"

theorem slots_implement_lists_witness:
  "\<exists>c. slots_init 0 (mem pmmap_example) slots_zero = Inr c \<and> slots_get_mms 0 c = Inr 0x50000000"
proof -
  have rep: "slots_rep slots_zero pmmap_example"
    by (simp add: slots_rep_def list_of_def slots_zero_def pmmap_example_def)
  have "pmmap_slots_next_free pmmap_example = 0" "pmmap_nentries pmmap_example = 0" by (simp_all add: pmmap_example_def)
  then obtain a where a: "pmmap_init 0 pmmap_example = Inr a" "pmmap_nentries a = 1"
    "pmmap_list a = [\<lparr>pm_start = 0x50000000, pm_end = 0x50002000, pm_type = 1\<rparr>]"
    using pmmap_example_init[of pmmap_example] by auto
  then have "get_mms 0 a = 0x50000000" by (simp add: get_mms_def pmmap_entry_def)
  then show ?thesis using slots_implement_lists[OF rep, of 0] a(1) by auto
qed

end
