(* ===== verification/Spec2Isabelle.thy ===== *)
theory Spec2Isabelle
  imports UCall KMonitor UPrintf USpin BMain MSlots
begin

text \<open>
  A verification development for mCertiKOS, the teaching kernel under \<^verbatim>\<open>src/\<close>.

  \<^bold>\<open>The program.\<close> A boot loader (\<^verbatim>\<open>boot\<close>) reads the kernel from a disk. The kernel boots a 32-bit x86
  machine, builds a table of the usable physical pages,
  gives every process a container with a page quota and a two-level page table, schedules kernel
  threads round robin, and runs user programs that enter the kernel by system calls, interrupts and
  page faults. Its layers call downwards only: devices (\<^verbatim>\<open>kern/dev\<close>, \<^verbatim>\<open>kern/lib\<close>), physical memory
  (\<^verbatim>\<open>kern/pmm\<close>), virtual memory (\<^verbatim>\<open>kern/vmm\<close>), threads (\<^verbatim>\<open>kern/thread\<close>), processes (\<^verbatim>\<open>kern/proc\<close>)
  and traps (\<^verbatim>\<open>kern/trap\<close>). \<^verbatim>\<open>kern/init\<close> starts them in that order and hands over to the monitor
  (\<^verbatim>\<open>kern/lib/monitor.c\<close>), whose command \<^verbatim>\<open>startuser\<close> creates the first process. User programs use
  the library under \<^verbatim>\<open>user/lib\<close>.

  \<^bold>\<open>State.\<close> The state of each layer is a record that extends the record of the layer below:
  \<^verbatim>\<open>machine\<close> (byte memory, control registers, segment tables, devices, addresses chosen by the
  linker), \<^verbatim>\<open>pmmap_state\<close>, \<^verbatim>\<open>at_state\<close>, \<^verbatim>\<open>container_state\<close>, \<^verbatim>\<open>pt_state\<close>, \<^verbatim>\<open>kctx_state\<close>,
  \<^verbatim>\<open>thread_state\<close>, \<^verbatim>\<open>proc_state\<close>. An operation takes the state last and returns it updated, so that
  it applies unchanged to the states of all layers above. Integers are words of their width. An
  operation that can fail returns a sum: \<^verbatim>\<open>Inl OutOfBounds\<close> for an access outside an array,
  \<^verbatim>\<open>Inl Panic\<close> for \<^verbatim>\<open>KERN_PANIC\<close> and \<^verbatim>\<open>KERN_ASSERT\<close>, \<^verbatim>\<open>Inl Diverges\<close> for a loop that does not end.
  The second-level page tables lie in the byte memory itself, where the code has them, so that
  writes to data pages and to page tables can be told apart or confused.

  \<^bold>\<open>Theories and sources.\<close>
  \<^item> \<^verbatim>\<open>Prelude\<close>: types, constants, the result monad, loops over a word (\<^verbatim>\<open>for_u32\<close>) and word lemmas.
  \<^item> \<^verbatim>\<open>DevIO\<close> (port input and output of \<^verbatim>\<open>x86.c\<close>), \<^verbatim>\<open>SegDesc\<close> (\<^verbatim>\<open>seg.h\<close>), \<^verbatim>\<open>Machine\<close> (memory, control
    registers), \<^verbatim>\<open>KString\<close> (\<^verbatim>\<open>string.c\<close>), \<^verbatim>\<open>SegInit\<close> (\<^verbatim>\<open>seg.c\<close>).
  \<^item> \<^verbatim>\<open>DevSerial\<close>, \<^verbatim>\<open>DevKbd\<close>, \<^verbatim>\<open>DevCons\<close>, \<^verbatim>\<open>DevVideo\<close>, \<^verbatim>\<open>DevPic\<close>, \<^verbatim>\<open>DevTsc\<close>, \<^verbatim>\<open>DevInit\<close>: the drivers of
    \<^verbatim>\<open>kern/dev\<close> and the order in which \<^verbatim>\<open>devinit\<close> starts them. What a device answers is an arbitrary
    function of time.
  \<^item> \<^verbatim>\<open>KPrintf\<close>: \<^verbatim>\<open>printfmt.c\<close>, \<^verbatim>\<open>dprintf.c\<close> and \<^verbatim>\<open>debug_info\<close>.
  \<^item> \<^verbatim>\<open>MBoot\<close> (\<^verbatim>\<open>mboot.c\<close>, with lists for its linked lists), \<^verbatim>\<open>KQueue\<close> (the macros of \<^verbatim>\<open>queue.h\<close>) and \<^verbatim>\<open>MSlots\<close> (\<^verbatim>\<open>mboot.c\<close>
    with its linked slots), \<^verbatim>\<open>MATIntro\<close>, \<^verbatim>\<open>MATOp\<close>, \<^verbatim>\<open>MATInit\<close>, \<^verbatim>\<open>MContainer\<close>: physical memory.
  \<^item> \<^verbatim>\<open>MPTIntro\<close>, \<^verbatim>\<open>MPTOp\<close>, \<^verbatim>\<open>MPTComm\<close>, \<^verbatim>\<open>MPTKern\<close>, \<^verbatim>\<open>MPTNew\<close>, \<^verbatim>\<open>MPTFork\<close>: virtual memory, one theory
    per directory of \<^verbatim>\<open>kern/vmm\<close>; \<^verbatim>\<open>MPTShare\<close>: address spaces shared by a fork, and all states that the
    operations reach; \<^verbatim>\<open>PMap\<close> (\<^verbatim>\<open>pmap.c\<close>) and \<^verbatim>\<open>Elf\<close> (\<^verbatim>\<open>elf.c\<close>) on top of it.
  \<^item> \<^verbatim>\<open>PKCtx\<close>, \<^verbatim>\<open>PTQueue\<close>, \<^verbatim>\<open>PThread\<close>: \<^verbatim>\<open>kern/thread\<close>.
  \<^item> \<^verbatim>\<open>PTFrame\<close>, \<^verbatim>\<open>PProc\<close>: \<^verbatim>\<open>kern/proc\<close>, and what the layers leave alone.
  \<^item> \<^verbatim>\<open>TSyscallArg\<close>, \<^verbatim>\<open>TSyscall\<close>, \<^verbatim>\<open>TTrap\<close>: \<^verbatim>\<open>kern/trap\<close>.
  \<^item> \<^verbatim>\<open>DevLine\<close>: the character input and the line editor of \<^verbatim>\<open>console.c\<close>; \<^verbatim>\<open>KMonitor\<close>: \<^verbatim>\<open>monitor.c\<close>,
    \<^verbatim>\<open>debug.c\<close> and \<^verbatim>\<open>init.c\<close>.
  \<^item> \<^verbatim>\<open>UString\<close>, \<^verbatim>\<open>UPrintf\<close>, \<^verbatim>\<open>USpin\<close>: \<^verbatim>\<open>string.c\<close>; \<^verbatim>\<open>printfmt.c\<close>, \<^verbatim>\<open>printf.c\<close> and \<^verbatim>\<open>debug.c\<close>; \<^verbatim>\<open>spinlock.c\<close>
    of \<^verbatim>\<open>user/lib\<close>; \<^verbatim>\<open>UCall\<close>: the system call stubs of \<^verbatim>\<open>user/include/syscall.h\<close> and \<^verbatim>\<open>proc.c\<close>, over the whole
    trap path.
  \<^item> \<^verbatim>\<open>BLib\<close>, \<^verbatim>\<open>BMain\<close>: the second stage of the boot loader, \<^verbatim>\<open>boot1lib.c\<close>, \<^verbatim>\<open>boot1main.c\<close> and \<^verbatim>\<open>exec_kernel.S\<close>.
    Its state is the record \<^verbatim>\<open>boot\<close>, since nothing of the kernel's exists yet.

  \<^bold>\<open>What is shown.\<close>
  \<^item> Physical memory: the memory map built at boot covers what the boot loader reported, and its linked
    slots implement lists; a page
    becomes allocatable only if it lies inside a usable row; \<^verbatim>\<open>palloc\<close> returns the lowest free page;
    in every state reached from boot usage stays within quota and an allocation within quota is
    served. The locale \<^verbatim>\<open>page_allocator\<close> states what the allocator promises.
  \<^item> Virtual memory: the invariant \<^verbatim>\<open>pt_inv\<close> keeps the page tables of the processes apart; mapping,
    unmapping, allocation and copy-on-write change exactly the translations they are meant to; \<^verbatim>\<open>vmm_copy\<close> shares
    every page of a process with its child, read-only for both. In every state reached from boot
    the kernel's addresses translate to themselves in every process.
  \<^item> Threads: the linked queues implement lists (locale \<^verbatim>\<open>thread_queues\<close>); in every state the
    scheduler reaches queues and thread states are in order, and yields rotate the ready queue.
  \<^item> Processes and traps: creation, fork, return to user code; page faults, copy-on-write faults,
    interrupts, yields and unknown calls, from the trap frame that is pushed to the one that resumes.
    The locale \<^verbatim>\<open>memory_frame\<close> carries every part of the state that the memory layers do not touch
    through their operations.
  \<^item> Devices: the console ring implements a bounded queue (locale \<^verbatim>\<open>bounded_queue\<close>), the display a
    list of cells, formatted output and its buffering the plain sequence of characters; the segment
    and interrupt tables after boot.
  \<^item> Libraries: \<^verbatim>\<open>memmove\<close> and the string routines against reference definitions, copying between
    kernel and user memory across page boundaries, termination of the program loader.
  \<^item> Start-up and monitor: \<^verbatim>\<open>readline\<close> yields the line that its editing rules define, the monitor runs the
    command that the first word names with the words of the line, and from the entry of the kernel
    \<^verbatim>\<open>startuser\<close> leads to the first process in user mode with its own page table.
  \<^item> User library: formatted output is the reference text on every format and never leaves the buffer
    (locale \<^verbatim>\<open>printer\<close>, for the memory and the system call sinks); the spin lock excludes under every
    interleaving of its instructions.
  \<^item> System calls from the user's side: \<^verbatim>\<open>spawn\<close>, \<^verbatim>\<open>sys_fork\<close> and \<^verbatim>\<open>mmap\<close> from the stub through the trap and the
    layers below back to the instruction behind the call, for \<^verbatim>\<open>sys_fork\<close> in both processes
    and with the memory they share.
  \<^item> Boot loader: with a disk that follows the ATA protocol (hypothesis \<^verbatim>\<open>ata_disk\<close>, on the answers of the ports)
    the kernel's segments are in memory as they are on the disk when its entry point is reached, and
    the memory map of the BIOS is the one from which \<^verbatim>\<open>pmmap_init\<close> builds its table.
  \<^item> Where the code does not do what its comments or its callers expect, a theorem states what it does:
    run allocation, page tables that are not cleared, a container at its quota, the last child.

  \<^bold>\<open>Loops and fuel.\<close> Loops are recursive functions with termination proofs over the word that
  counts. Those that may run for ever are partial functions into option: \<^verbatim>\<open>SLIST_FOREACH\<close>, \<^verbatim>\<open>super_scan\<close>, \<^verbatim>\<open>cstring\<close>,
  \<^verbatim>\<open>elf_segments\<close>, \<^verbatim>\<open>pit_poll\<close>, \<^verbatim>\<open>cons_intr\<close>, \<^verbatim>\<open>getchar\<close>, \<^verbatim>\<open>readline_loop\<close>, \<^verbatim>\<open>gobble\<close>, \<^verbatim>\<open>scan_arg\<close>,
  \<^verbatim>\<open>parse_args\<close>, \<^verbatim>\<open>backtrace_loop\<close>, \<^verbatim>\<open>monitor_loop\<close>, and in the boot loader \<^verbatim>\<open>puts_loop\<close>, \<^verbatim>\<open>strlen_boot\<close>,
  \<^verbatim>\<open>itox_digits\<close>, \<^verbatim>\<open>waitdisk\<close>, \<^verbatim>\<open>readsection_loop\<close>, \<^verbatim>\<open>e820_loop\<close> and \<^verbatim>\<open>load_segments\<close>, with theorems that say when they return. No fuel is used.

  \<^bold>\<open>Left out.\<close> Messages of the memory layers, of \<^verbatim>\<open>devinit\<close> and of the clock, which only print; those of
  the trap handlers are modelled. The entry and exit code in assembly, except \<^verbatim>\<open>cswitch\<close>: a trap starts from the
  frame it pushes, and the registers with which a thread reaches \<^verbatim>\<open>cswitch\<close> are the field \<^verbatim>\<open>cpu\<close> of the state.
  The processor's address translation of kernel accesses: the kernel runs on the identity map.
  Not modelled: the real-mode stage of the boot loader, which is assembly that calls the BIOS; the main
  functions of the user programs, which are examples; the tests of the layers; the macros of
  variable arguments, which are lists of words where they are used.
\<close>

end
